(* ===== verification/Prelude.thy ===== *)
theory Prelude
  imports Complex_Main "HOL-Library.AList" "HOL-Library.Char_ord" "HOL-Library.List_Lexorder"
begin

text \<open>
  Shared ground of the development: how JavaScript numbers, strings, maps and times are
  represented, and the generic lemmas about them.

  \<^item> A \<open>Date.now()\<close> value is an \<^typ>\<open>int\<close> of milliseconds since the epoch (type \<open>time\<close>).
  \<^item> A finite JavaScript number that carries money or a duration is a \<^typ>\<open>rat\<close>: the
    model computes exactly where the code computes in IEEE doubles. A number that the code
    tests with \<open>Number.isFinite\<close> is a \<open>jsnum\<close>, whose second constructor stands for NaN and
    the two infinities together (every such test treats the three alike).
  \<^item> A string is a \<^typ>\<open>string\<close>, a list of UTF-16 code units below 256.
  \<^item> A JavaScript \<open>Map\<close> (or an object used as one) is an association list in insertion
    order with distinct keys: \<open>set\<close> of a present key replaces in place, of a new key
    appends, as \<open>AList.update\<close> does.
\<close>

named_theorems js_map "lookup, insertion and deletion in insertion-ordered maps"
named_theorems js_num "rounding and finiteness of JavaScript numbers"
named_theorems js_str "operations of String.prototype"

type_synonym time = int
type_synonym usd = rat
type_synonym 'v jsmap = "(string \<times> 'v) list"

section \<open>Numbers\<close>

datatype jsnum = Fin rat | NonFinite

fun is_finite :: "jsnum \<Rightarrow> bool" where
  "is_finite (Fin _) = True"
| "is_finite NonFinite = False"

text \<open>\<open>Number.isFinite(x) \<and> x \<ge> 0\<close>, and \<open>Number.isFinite(x) \<and> x > 0\<close>.\<close>

fun finite_nonneg :: "jsnum \<Rightarrow> bool" where
  "finite_nonneg (Fin q) = (0 \<le> q)"
| "finite_nonneg NonFinite = False"

fun finite_pos :: "jsnum \<Rightarrow> bool" where
  "finite_pos (Fin q) = (0 < q)"
| "finite_pos NonFinite = False"

text \<open>\<open>Number.isFinite(x) \<and> Number.isInteger(x)\<close>.\<close>

fun is_integer :: "jsnum \<Rightarrow> bool" where
  "is_integer (Fin q) = (of_int \<lfloor>q\<rfloor> = q)"
| "is_integer NonFinite = False"

text \<open>The value of a number already known to be finite.\<close>

fun num_val :: "jsnum \<Rightarrow> rat" where
  "num_val (Fin q) = q"
| "num_val NonFinite = 0"

lemma finite_nonneg_iff: "finite_nonneg x \<longleftrightarrow> (\<exists>q\<ge>0. x = Fin q)"
  by (cases x) auto

text \<open>
  \<open>Math.round(x * 1e6) / 1e6\<close>: round to the nearest micro-dollar, ties upwards.
\<close>

definition round6 :: "rat \<Rightarrow> rat" where
  "round6 x = of_int \<lfloor>x * 1000000 + 1 / 2\<rfloor> / 1000000"

text \<open>A whole number of micro-dollars.\<close>

definition micro :: "rat \<Rightarrow> bool" where
  "micro x \<longleftrightarrow> (\<exists>k::int. x = of_int k / 1000000)"

lemma floor_rat_numeral [simp, js_num]:
  "\<lfloor>numeral a / numeral b :: rat\<rfloor> = numeral a div numeral b"
  using floor_divide_of_int_eq [of "numeral a" "numeral b", where 'a = rat] by simp

lemma micro_0 [simp, js_num]: "micro 0"
  unfolding micro_def by (rule exI [of _ 0]) simp

lemma micro_round6 [simp, js_num]: "micro (round6 x)"
  unfolding micro_def round6_def by blast

lemma micro_add [simp, js_num]: "micro x \<Longrightarrow> micro y \<Longrightarrow> micro (x + y)"
  unfolding micro_def by (metis add_divide_distrib of_int_add)

lemma round6_micro [js_num]: "micro x \<Longrightarrow> round6 x = x"
proof -
  assume "micro x"
  then obtain k :: int where k: "x * 1000000 = of_int k" by (auto simp: micro_def)
  have "\<lfloor>rat_of_int k + 1 / 2\<rfloor> = k" by linarith
  with k show ?thesis by (simp add: round6_def field_simps)
qed

lemma round6_0 [simp, js_num]: "round6 0 = 0"
  by (simp add: round6_micro)

lemma round6_error: "\<bar>round6 x - x\<bar> \<le> 1 / 2000000"
proof -
  define y where "y = x * 1000000 + 1 / 2"
  have "of_int \<lfloor>y\<rfloor> \<le> y" and "y < of_int \<lfloor>y\<rfloor> + 1"
    by linarith+
  then show ?thesis
    unfolding round6_def y_def abs_le_iff by (simp add: field_simps)
qed

lemma round6_mono: "x \<le> y \<Longrightarrow> round6 x \<le> round6 y"
  unfolding round6_def by (simp add: divide_right_mono floor_mono)

lemma round6_nonneg [js_num]: "0 \<le> x \<Longrightarrow> 0 \<le> round6 x"
  using round6_mono [of 0 x] by simp

section \<open>Insertion-ordered maps\<close>

text \<open>\<open>m.get(k) ?? d\<close>.\<close>

definition get_or :: "'v \<Rightarrow> 'v jsmap \<Rightarrow> string \<Rightarrow> 'v" where
  "get_or d m k = (case map_of m k of None \<Rightarrow> d | Some v \<Rightarrow> v)"

text \<open>\<open>m.set(k, v)\<close>, \<open>m.delete(k)\<close> and \<open>m.has(k)\<close>.\<close>

abbreviation set_key :: "string \<Rightarrow> 'v \<Rightarrow> 'v jsmap \<Rightarrow> 'v jsmap" where
  "set_key k v m \<equiv> AList.update k v m"

abbreviation del_key :: "string \<Rightarrow> 'v jsmap \<Rightarrow> 'v jsmap" where
  "del_key k m \<equiv> AList.delete k m"

abbreviation has_key :: "string \<Rightarrow> 'v jsmap \<Rightarrow> bool" where
  "has_key k m \<equiv> map_of m k \<noteq> None"

abbreviation keys :: "'v jsmap \<Rightarrow> string list" where
  "keys m \<equiv> map fst m"

lemma map_of_set_key [simp, js_map]:
  "map_of (set_key k v m) k' = (if k' = k then Some v else map_of m k')"
  by (simp add: update_conv')

lemma map_of_del_key [simp, js_map]:
  "map_of (del_key k m) k' = (if k' = k then None else map_of m k')"
  by (simp add: delete_conv')

lemma get_or_set_key [simp, js_map]:
  "get_or d (set_key k v m) k' = (if k' = k then v else get_or d m k')"
  by (simp add: get_or_def)

lemma get_or_Nil [simp, js_map]: "get_or d [] k = d"
  by (simp add: get_or_def)

lemma distinct_set_key [simp, js_map]: "distinct (keys m) \<Longrightarrow> distinct (keys (set_key k v m))"
  by (rule distinct_update)

lemma distinct_del_key [simp, js_map]: "distinct (keys m) \<Longrightarrow> distinct (keys (del_key k m))"
  by (rule distinct_delete)

lemma keys_set_key [simp]: "set (keys (set_key k v m)) = insert k (set (keys m))"
  by (auto simp: update_keys)

lemma set_key_new: "k \<notin> set (keys m) \<Longrightarrow> set_key k v m = m @ [(k, v)]"
  by (induction m) auto

lemma del_key_filter: "del_key k m = filter (\<lambda>(k', _). k' \<noteq> k) m"
  by (auto simp: AList.delete_eq case_prod_unfold intro!: filter_cong)

lemma del_key_fresh: "k \<notin> set (keys m) \<Longrightarrow> del_key k (m @ [(k, v)]) = m"
  by (force simp: del_key_filter intro!: filter_True)

lemma map_of_None_keys: "map_of m k = None \<longleftrightarrow> k \<notin> set (keys m)"
  by (simp add: map_of_eq_None_iff)

text \<open>Summing over a map after removing one key.\<close>

lemma sum_del_key:
  fixes f :: "string \<times> 'v \<Rightarrow> 'a::ab_group_add"
  assumes "distinct (keys m)" and "map_of m k = Some v"
  shows "sum_list (map f (del_key k m)) = sum_list (map f m) - f (k, v)"
  using assms
proof (induction m)
  case Nil
  then show ?case by simp
next
  case (Cons p m)
  obtain k' v' where p: "p = (k', v')" by (cases p)
  show ?case
  proof (cases "k' = k")
    case True
    with Cons.prems p have "k \<notin> set (keys m)" and v: "v' = v" by auto
    then have "del_key k m = m" by (simp add: delete_idem)
    with True p v show ?thesis by simp
  next
    case False
    with Cons.prems p have "distinct (keys m)" and "map_of m k = Some v" by auto
    then have "sum_list (map f (del_key k m)) = sum_list (map f m) - f (k, v)" by (rule Cons.IH)
    moreover have "del_key k (p # m) = p # del_key k m"
      using False p by simp
    ultimately show ?thesis by (simp add: add_diff_eq)
  qed
qed

section \<open>Strings\<close>

abbreviation code :: "char \<Rightarrow> nat" where
  "code c \<equiv> of_char c"

text \<open>The white space that \<open>String.prototype.trim\<close> and \<open>\s\<close> know, among the code units below 256.\<close>

definition is_ws :: "char \<Rightarrow> bool" where
  "is_ws c \<longleftrightarrow> code c \<in> {9, 10, 11, 12, 13, 32, 160}"

definition trim :: "string \<Rightarrow> string" where
  "trim s = rev (dropWhile is_ws (rev (dropWhile is_ws s)))"

definition lower_char :: "char \<Rightarrow> char" where
  "lower_char c =
     (if (65 \<le> code c \<and> code c \<le> 90) \<or> (192 \<le> code c \<and> code c \<le> 222 \<and> code c \<noteq> 215)
      then char_of (code c + 32) else c)"

definition lower :: "string \<Rightarrow> string" where
  "lower s = map lower_char s"

definition is_digit :: "char \<Rightarrow> bool" where
  "is_digit c \<longleftrightarrow> 48 \<le> code c \<and> code c \<le> 57"

definition is_upper_az :: "char \<Rightarrow> bool" where
  "is_upper_az c \<longleftrightarrow> 65 \<le> code c \<and> code c \<le> 90"

definition is_lower_az :: "char \<Rightarrow> bool" where
  "is_lower_az c \<longleftrightarrow> 97 \<le> code c \<and> code c \<le> 122"

definition starts_with :: "string \<Rightarrow> string \<Rightarrow> bool" where
  "starts_with p s \<longleftrightarrow> take (length p) s = p"

definition ends_with :: "string \<Rightarrow> string \<Rightarrow> bool" where
  "ends_with p s \<longleftrightarrow> starts_with (rev p) (rev s)"

fun str_includes :: "string \<Rightarrow> string \<Rightarrow> bool" where
  "str_includes p [] = (p = [])"
| "str_includes p (c # s) = (starts_with p (c # s) \<or> str_includes p s)"

text \<open>\<open>s.split(c)\<close> for a one-character separator, and \<open>xs.join(sep)\<close>.\<close>

fun split_on :: "char \<Rightarrow> string \<Rightarrow> string list" where
  "split_on c [] = [[]]"
| "split_on c (x # s) =
     (if x = c then [] # split_on c s
      else (case split_on c s of [] \<Rightarrow> [[x]] | w # ws \<Rightarrow> (x # w) # ws))"

fun join :: "string \<Rightarrow> string list \<Rightarrow> string" where
  "join sep [] = []"
| "join sep [x] = x"
| "join sep (x # y # xs) = x @ sep @ join sep (y # xs)"

lemma starts_with_append [simp, js_str]: "starts_with p (p @ s)"
  by (simp add: starts_with_def)

lemma starts_with_iff: "starts_with p s \<longleftrightarrow> (\<exists>t. s = p @ t)"
  unfolding starts_with_def by (metis append_take_drop_id append_eq_conv_conj)

lemma ends_with_iff: "ends_with p s \<longleftrightarrow> (\<exists>t. s = t @ p)"
  unfolding ends_with_def starts_with_iff by (metis rev_append rev_rev_ident)

lemma includes_iff: "str_includes p s \<longleftrightarrow> (\<exists>u v. s = u @ p @ v)"
proof (induction s)
  case Nil
  then show ?case by auto
next
  case (Cons c s)
  show ?case
  proof
    assume "str_includes p (c # s)"
    then consider "starts_with p (c # s)" | "str_includes p s" by auto
    then show "\<exists>u v. c # s = u @ p @ v"
    proof cases
      case 1
      then show ?thesis by (metis append_Nil starts_with_iff)
    next
      case 2
      with Cons.IH show ?thesis by (metis append_Cons)
    qed
  next
    assume "\<exists>u v. c # s = u @ p @ v"
    then obtain u v where eq: "c # s = u @ p @ v" by blast
    show "str_includes p (c # s)"
    proof (cases u)
      case Nil
      with eq show ?thesis
        by (metis append_Nil str_includes.simps(2) starts_with_append)
    next
      case (Cons x u')
      with eq have "s = u' @ p @ v" by simp
      with Cons.IH have "str_includes p s" by blast
      then show ?thesis by simp
    qed
  qed
qed

lemma split_on_neq_Nil [simp, js_str]: "split_on c s \<noteq> []"
  by (induction s) (auto split: list.splits)

text \<open>Splitting what was joined gives the pieces back, when no piece holds the separator.\<close>

lemma split_on_no_sep: "c \<notin> set s \<Longrightarrow> split_on c s = [s]"
  by (induction s) auto

lemma split_on_append: "c \<notin> set s \<Longrightarrow> split_on c (s @ c # t) = s # split_on c t"
  by (induction s) auto

lemma split_join:
  "xs \<noteq> [] \<Longrightarrow> \<forall>x \<in> set xs. c \<notin> set x \<Longrightarrow> split_on c (join [c] xs) = xs"
proof (induction "[c]" xs rule: join.induct)
  case (3 x y xs)
  then show ?case by (simp add: split_on_append)
qed (simp_all add: split_on_no_sep)

lemma join_split: "join [c] (split_on c s) = s"
proof (induction s)
  case Nil
  then show ?case by simp
next
  case (Cons x s)
  obtain w ws where eq: "split_on c s = w # ws"
    using split_on_neq_Nil by (metis list.exhaust)
  show ?case
    using Cons eq by (cases ws) auto
qed

lemma split_on_pieces: "w \<in> set (split_on c s) \<Longrightarrow> c \<notin> set w"
  by (induction s arbitrary: w) (fastforce split: if_splits list.splits)+

text \<open>\<open>/^[a-zA-Z0-9_-]+$/\<close>, the pattern \<open>SAFE_SEGMENT\<close> that several files of the program repeat.\<close>

definition safe_char :: "char \<Rightarrow> bool" where
  "safe_char c \<longleftrightarrow> is_lower_az c \<or> is_upper_az c \<or> is_digit c \<or> c = CHR ''_'' \<or> c = CHR ''-''"

definition safe_segment :: "string \<Rightarrow> bool" where
  "safe_segment s \<longleftrightarrow> s \<noteq> [] \<and> list_all safe_char s"

text \<open>A string in a condition: \<open>undefined\<close> and the empty string are both false.\<close>

fun truthy :: "string option \<Rightarrow> string option" where
  "truthy (Some s) = (if s = [] then None else Some s)"
| "truthy None = None"

lemma truthy_iff: "truthy x = Some y \<longleftrightarrow> x = Some y \<and> y \<noteq> []" "truthy x = None \<longleftrightarrow> x = None \<or> x = Some []"
  by (cases x; auto)+

section \<open>Results\<close>

text \<open>\<open>Inl\<close> is a thrown error, \<open>Inr\<close> a returned value.\<close>

fun is_ok :: "'e + 'a \<Rightarrow> bool" where
  "is_ok (Inl _) = False"
| "is_ok (Inr _) = True"

lemma is_ok_iff: "is_ok r \<longleftrightarrow> (\<exists>x. r = Inr x)"
  by (cases r) auto

end
