(* ===== verification/Rate_Limiter.thy ===== *)
theory Rate_Limiter
  imports Prelude
begin

text \<open>
  \<open>core/src/middleware/rate-limiter.ts\<close>: the sliding-window limiter that Telegram
  messages, GUI logins, the REST API and the LLM guards share. A limiter keeps, per key, the
  times of the attempts it recorded; an attempt counts while it is younger than the window.
  The closure that \<open>check\<close> returns is the record \<open>rl_ticket\<close>: its key, its verdict and
  the flag that makes a second \<open>commit\<close> a no-op.

  The locale \<open>slot_limiter\<close> is what the LLM guards rely on (peek, commit, revoke, and the
  number of live slots); it is interpreted on the model at the end of the theory.
\<close>

section \<open>State\<close>

record rate_limiter =
  rl_maxAttempts :: nat
  rl_windowMs :: rat
  rl_entries :: "time list jsmap"
  rl_cleanupTimer :: bool
  rl_disposed :: bool

datatype rl_error = BadMaxAttempts jsnum | BadWindowMs jsnum | RlDisposed

record rl_ticket =
  tk_allowed :: bool
  tk_key :: string
  tk_done :: bool
  tk_maxAttempts :: nat
  tk_windowMs :: rat

definition new_rate_limiter :: "jsnum \<Rightarrow> jsnum \<Rightarrow> rl_error + rate_limiter" where
  "new_rate_limiter maxAttempts windowMs =
     (if \<not> is_finite maxAttempts \<or> \<not> is_integer maxAttempts \<or> num_val maxAttempts \<le> 0
      then Inl (BadMaxAttempts maxAttempts)
      else if \<not> is_finite windowMs \<or> num_val windowMs \<le> 0
      then Inl (BadWindowMs windowMs)
      else Inr \<lparr>rl_maxAttempts = nat \<lfloor>num_val maxAttempts\<rfloor>, rl_windowMs = num_val windowMs,
                rl_entries = [], rl_cleanupTimer = False, rl_disposed = False\<rparr>)"

section \<open>Operations\<close>

text \<open>\<open>t > now - windowMs\<close>: the attempt at \<open>t\<close> still counts at \<open>now\<close>.\<close>

definition live :: "rat \<Rightarrow> time \<Rightarrow> time \<Rightarrow> bool" where
  "live w now t \<longleftrightarrow> rat_of_int t > rat_of_int now - w"

definition rl_purge_key :: "time \<Rightarrow> string \<Rightarrow> rate_limiter \<Rightarrow> rate_limiter" where
  "rl_purge_key now key rl =
     (case map_of (rl_entries rl) key of
        None \<Rightarrow> rl
      | Some ts \<Rightarrow>
          (let kept = filter (live (rl_windowMs rl) now) ts
           in rl\<lparr>rl_entries := (if kept = [] then del_key key (rl_entries rl)
                                else set_key key kept (rl_entries rl))\<rparr>))"

definition rl_check :: "time \<Rightarrow> string \<Rightarrow> rate_limiter \<Rightarrow> rl_error + (rl_ticket \<times> rate_limiter)" where
  "rl_check now key rl =
     (if rl_disposed rl then Inl RlDisposed
      else (let rl' = rl_purge_key now key rl;
                ts = get_or [] (rl_entries rl') key
            in Inr (\<lparr>tk_allowed = length ts < rl_maxAttempts rl', tk_key = key, tk_done = False,
                     tk_maxAttempts = rl_maxAttempts rl', tk_windowMs = rl_windowMs rl'\<rparr>, rl')))"

definition rl_commit :: "time \<Rightarrow> rl_ticket \<Rightarrow> rate_limiter \<Rightarrow> rl_ticket \<times> rate_limiter" where
  "rl_commit now tk rl =
     (if tk_done tk then (tk, rl)
      else if rl_disposed rl then (tk, rl)
      else (let rl' = rl_purge_key now (tk_key tk) rl;
                latest = get_or [] (rl_entries rl') (tk_key tk)
            in if length latest \<ge> rl_maxAttempts rl' then (tk\<lparr>tk_done := True\<rparr>, rl')
               else (tk\<lparr>tk_done := True\<rparr>,
                     rl'\<lparr>rl_entries := set_key (tk_key tk) (latest @ [now]) (rl_entries rl')\<rparr>)))"

definition rl_isAllowed :: "time \<Rightarrow> string \<Rightarrow> rate_limiter \<Rightarrow> bool \<times> rate_limiter" where
  "rl_isAllowed now key rl =
     (let ts = filter (live (rl_windowMs rl) now) (get_or [] (rl_entries rl) key)
      in if length ts \<ge> rl_maxAttempts rl
         then (False, rl\<lparr>rl_entries := set_key key ts (rl_entries rl)\<rparr>)
         else (True, rl\<lparr>rl_entries := set_key key (ts @ [now]) (rl_entries rl)\<rparr>))"

definition rl_getRemainingAttempts :: "time \<Rightarrow> string \<Rightarrow> rate_limiter \<Rightarrow> nat" where
  "rl_getRemainingAttempts now key rl =
     (case map_of (rl_entries rl) key of
        None \<Rightarrow> rl_maxAttempts rl
      | Some ts \<Rightarrow> rl_maxAttempts rl - length (filter (live (rl_windowMs rl) now) ts))"

definition rl_reset :: "string \<Rightarrow> rate_limiter \<Rightarrow> rate_limiter" where
  "rl_reset key rl = rl\<lparr>rl_entries := del_key key (rl_entries rl)\<rparr>"

definition rl_revokeLastCommit :: "string \<Rightarrow> rate_limiter \<Rightarrow> rate_limiter" where
  "rl_revokeLastCommit key rl =
     (if rl_disposed rl then rl
      else (case map_of (rl_entries rl) key of
              None \<Rightarrow> rl
            | Some ts \<Rightarrow>
                if ts = [] then rl
                else if butlast ts = [] then rl\<lparr>rl_entries := del_key key (rl_entries rl)\<rparr>
                else rl\<lparr>rl_entries := set_key key (butlast ts) (rl_entries rl)\<rparr>))"

definition rl_startCleanup :: "rate_limiter \<Rightarrow> rate_limiter" where
  "rl_startCleanup rl = rl\<lparr>rl_cleanupTimer := True\<rparr>"

definition rl_dispose :: "rate_limiter \<Rightarrow> rate_limiter" where
  "rl_dispose rl = rl\<lparr>rl_disposed := True, rl_cleanupTimer := False, rl_entries := []\<rparr>"

text \<open>The body of the cleanup timer: one pass over the map.\<close>

fun purge_entries :: "rat \<Rightarrow> time \<Rightarrow> time list jsmap \<Rightarrow> time list jsmap" where
  "purge_entries w now [] = []"
| "purge_entries w now ((k, ts) # m) =
     (let active = filter (live w now) ts
      in if active = [] then purge_entries w now m else (k, active) # purge_entries w now m)"

definition rl_purgeExpiredAll :: "time \<Rightarrow> rate_limiter \<Rightarrow> rate_limiter" where
  "rl_purgeExpiredAll now rl =
     rl\<lparr>rl_entries := purge_entries (rl_windowMs rl) now (rl_entries rl)\<rparr>"

definition createTelegramRateLimiter :: "rl_error + rate_limiter" where
  "createTelegramRateLimiter = new_rate_limiter (Fin 20) (Fin 60000)"

definition createLoginRateLimiter :: "rl_error + rate_limiter" where
  "createLoginRateLimiter = new_rate_limiter (Fin 5) (Fin (15 * 60000))"

definition createApiRateLimiter :: "rl_error + rate_limiter" where
  "createApiRateLimiter = new_rate_limiter (Fin 100) (Fin 60000)"

section \<open>Live slots\<close>

text \<open>How many recorded attempts of a key still count.\<close>

definition rl_used :: "time \<Rightarrow> string \<Rightarrow> rate_limiter \<Rightarrow> nat" where
  "rl_used now key rl =
     length (filter (live (rl_windowMs rl) now) (get_or [] (rl_entries rl) key))"

text \<open>Every key is stored once. The operations keep it.\<close>

definition rl_wf :: "rate_limiter \<Rightarrow> bool" where
  "rl_wf rl \<longleftrightarrow> distinct (keys (rl_entries rl))"

lemma live_earlier: "now \<le> now' \<Longrightarrow> live w now' t \<Longrightarrow> live w now t"
proof -
  assume "now \<le> now'" and "live w now' t"
  then have "rat_of_int now \<le> rat_of_int now'" by simp
  with \<open>live w now' t\<close> show ?thesis unfolding live_def by linarith
qed

lemma live_now: "0 < w \<Longrightarrow> live w now now"
  by (simp add: live_def)

lemma filter_live_again [simp]:
  "filter (live w now) (filter (live w now) ts) = filter (live w now) ts"
  by simp

lemma filter_live_later:
  assumes "now \<le> now'"
  shows "filter (live w now') (filter (live w now) ts) = filter (live w now') ts"
  by (auto intro!: filter_cong dest: live_earlier [OF assms])

lemma rl_purge_key_simps [simp]:
  "rl_maxAttempts (rl_purge_key now key rl) = rl_maxAttempts rl"
  "rl_windowMs (rl_purge_key now key rl) = rl_windowMs rl"
  "rl_disposed (rl_purge_key now key rl) = rl_disposed rl"
  "rl_cleanupTimer (rl_purge_key now key rl) = rl_cleanupTimer rl"
  by (simp_all add: rl_purge_key_def Let_def split: option.split)

lemma rl_purge_key_entries [simp]:
  "get_or [] (rl_entries (rl_purge_key now key rl)) k =
     (if k = key then filter (live (rl_windowMs rl) now) (get_or [] (rl_entries rl) k)
      else get_or [] (rl_entries rl) k)"
  by (auto simp: rl_purge_key_def Let_def get_or_def split: option.split)

lemma rl_purge_key_wf: "rl_wf rl \<Longrightarrow> rl_wf (rl_purge_key now key rl)"
  by (auto simp: rl_purge_key_def rl_wf_def Let_def split: option.split)

lemma rl_used_purge [simp]: "rl_used now k (rl_purge_key now key rl) = rl_used now k rl"
  by (simp add: rl_used_def)

lemma rl_check_ok:
  assumes "rl_check now key rl = Inr (tk, rl')"
  shows "rl' = rl_purge_key now key rl" "tk_allowed tk \<longleftrightarrow> rl_used now key rl < rl_maxAttempts rl"
    "tk_key tk = key" "\<not> tk_done tk" "\<not> rl_disposed rl"
    "tk_maxAttempts tk = rl_maxAttempts rl" "tk_windowMs tk = rl_windowMs rl"
  using assms by (auto simp: rl_check_def rl_used_def Let_def split: if_splits)

text \<open>Whether a \<open>commit\<close> records its attempt.\<close>

definition rl_commits :: "time \<Rightarrow> rl_ticket \<Rightarrow> rate_limiter \<Rightarrow> bool" where
  "rl_commits now tk rl \<longleftrightarrow>
     \<not> tk_done tk \<and> \<not> rl_disposed rl \<and> rl_used now (tk_key tk) rl < rl_maxAttempts rl"

lemma rl_commit_frame [simp]:
  "rl_maxAttempts (snd (rl_commit now tk rl)) = rl_maxAttempts rl"
  "rl_windowMs (snd (rl_commit now tk rl)) = rl_windowMs rl"
  "rl_disposed (snd (rl_commit now tk rl)) = rl_disposed rl"
  by (auto simp: rl_commit_def Let_def)

lemma rl_commit_entries:
  "filter (live (rl_windowMs rl) now) (get_or [] (rl_entries (snd (rl_commit now tk rl))) k) =
     filter (live (rl_windowMs rl) now)
       (get_or [] (rl_entries rl) k @ (if rl_commits now tk rl \<and> k = tk_key tk then [now] else []))"
  by (auto simp: rl_commit_def rl_commits_def rl_used_def Let_def not_less)

lemma rl_commit_used:
  assumes "0 < rl_windowMs rl"
  shows "rl_used now k (snd (rl_commit now tk rl)) =
     rl_used now k rl + (if rl_commits now tk rl \<and> k = tk_key tk then 1 else 0)"
  using live_now [OF assms] by (simp add: rl_used_def rl_commit_entries)

lemma rl_commit_used_others: "k \<noteq> tk_key tk \<Longrightarrow> rl_used now k (snd (rl_commit now tk rl)) = rl_used now k rl"
  by (simp add: rl_used_def rl_commit_entries)

text \<open>Undoing a commit gives back exactly the slot it took.\<close>

lemma rl_revoke_get:
  "\<not> rl_disposed rl \<Longrightarrow>
   get_or [] (rl_entries (rl_revokeLastCommit key rl)) k =
     (if k = key then butlast (get_or [] (rl_entries rl) k) else get_or [] (rl_entries rl) k)"
  by (auto simp: rl_revokeLastCommit_def get_or_def split: option.split)

lemma rl_revoke_frame [simp]:
  "rl_maxAttempts (rl_revokeLastCommit key rl) = rl_maxAttempts rl"
  "rl_windowMs (rl_revokeLastCommit key rl) = rl_windowMs rl"
  "rl_disposed (rl_revokeLastCommit key rl) = rl_disposed rl"
  by (simp_all add: rl_revokeLastCommit_def split: option.split)

lemma rl_commit_get:
  "rl_commits now tk rl \<Longrightarrow>
   get_or [] (rl_entries (snd (rl_commit now tk rl))) k =
     (if k = tk_key tk then filter (live (rl_windowMs rl) now) (get_or [] (rl_entries rl) k) @ [now]
      else get_or [] (rl_entries rl) k)"
  by (auto simp: rl_commit_def rl_commits_def rl_used_def Let_def)

lemma rl_commit_revoke_used:
  assumes "rl_commits now tk rl"
  shows "rl_used now k (rl_revokeLastCommit (tk_key tk) (snd (rl_commit now tk rl))) = rl_used now k rl"
proof -
  have nd: "\<not> rl_disposed (snd (rl_commit now tk rl))"
    using assms by (simp add: rl_commits_def)
  show ?thesis
    by (simp add: rl_used_def rl_revoke_get [OF nd] rl_commit_get [OF assms])
qed

section \<open>The interface the guards use\<close>

text \<open>
  Peek, commit, revoke: \<open>used\<close> counts the live slots of a key, \<open>cap\<close> is how many there
  may be, \<open>limited\<close> tells the keys that are limited at all, and \<open>ready\<close> says the limiter is
  configured (its windows are positive). The laws speak of one synchronous stretch of code,
  in which the clock does not move.
\<close>

locale slot_limiter =
  fixes check :: "time \<Rightarrow> string \<Rightarrow> 'l \<Rightarrow> 'e + ('t \<times> 'l)"
    and commit :: "time \<Rightarrow> 't \<Rightarrow> 'l \<Rightarrow> 't \<times> 'l"
    and revoke :: "string \<Rightarrow> 'l \<Rightarrow> 'l"
    and used :: "time \<Rightarrow> string \<Rightarrow> 'l \<Rightarrow> nat"
    and cap :: "string \<Rightarrow> 'l \<Rightarrow> nat"
    and allowed :: "'t \<Rightarrow> bool"
    and limited :: "string \<Rightarrow> bool"
    and ready :: "'l \<Rightarrow> bool"
  assumes check_verdict: "ready l \<Longrightarrow> limited k \<Longrightarrow> check now k l = Inr (t, l') \<Longrightarrow>
      allowed t \<longleftrightarrow> used now k l < cap k l"
    and check_used: "ready l \<Longrightarrow> check now k l = Inr (t, l') \<Longrightarrow> used now j l' = used now j l"
    and check_cap: "check now k l = Inr (t, l') \<Longrightarrow> cap j l' = cap j l"
    and check_ready: "ready l \<Longrightarrow> check now k l = Inr (t, l') \<Longrightarrow> ready l'"
    and commit_used: "ready l \<Longrightarrow> check now k l = Inr (t, l') \<Longrightarrow> allowed t \<Longrightarrow>
      used now j (snd (commit now t l')) = used now j l + (if limited k \<and> j = k then 1 else 0)"
    and commit_cap: "cap j (snd (commit now t l)) = cap j l"
    and commit_ready: "ready l \<Longrightarrow> ready (snd (commit now t l))"
    and revoke_used: "ready l \<Longrightarrow> check now k l = Inr (t, l') \<Longrightarrow> allowed t \<Longrightarrow>
      used now j (revoke k (snd (commit now t l'))) = used now j l"
begin

lemmas admission = check_used check_cap check_ready commit_used commit_cap commit_ready

lemma admit_within_cap:
  assumes "ready l" "limited k" "check now k l = Inr (t, l')" "allowed t"
  shows "used now k (snd (commit now t l')) \<le> cap k (snd (commit now t l'))"
  using assms check_verdict [OF assms(1-3)] commit_used [OF assms(1,3,4), of k]
  by (simp add: check_cap [OF assms(3)] commit_cap)

lemma admit_others_unchanged:
  assumes "ready l" "check now k l = Inr (t, l')" "allowed t" "j \<noteq> k"
  shows "used now j (snd (commit now t l')) = used now j l"
  using commit_used [OF assms(1-3), of j] assms(4) by simp

lemma admit_unlimited:
  assumes "ready l" "check now k l = Inr (t, l')" "allowed t" "\<not> limited k"
  shows "used now j (snd (commit now t l')) = used now j l"
  using commit_used [OF assms(1-3), of j] assms(4) by simp

lemma admit_ready:
  assumes "ready l" "check now k l = Inr (t, l')"
  shows "ready (snd (commit now t l'))"
  using assms check_ready commit_ready by blast

end

definition rl_ready :: "rate_limiter \<Rightarrow> bool" where
  "rl_ready rl \<longleftrightarrow> 0 < rl_windowMs rl"

lemma rl_check_commits:
  assumes "rl_check now k rl = Inr (tk, rl')" "tk_allowed tk"
  shows "rl_commits now tk rl'"
  using assms rl_check_ok [OF assms(1)] by (simp add: rl_commits_def)

interpretation rl: slot_limiter rl_check rl_commit rl_revokeLastCommit rl_used
  "\<lambda>_. rl_maxAttempts" tk_allowed "\<lambda>_. True" rl_ready
proof unfold_locales
  fix now k l t l' j
  assume ready: "rl_ready l" and c: "rl_check now k l = Inr (t, l')"
  note ok = rl_check_ok [OF c]
  show "tk_allowed t \<longleftrightarrow> rl_used now k l < rl_maxAttempts l" by (rule ok)
  show "rl_used now j l' = rl_used now j l" "rl_ready l'"
    using ready by (simp_all add: ok rl_ready_def)
  assume a: "tk_allowed t"
  note commits = rl_check_commits [OF c a]
  show "rl_used now j (rl_revokeLastCommit k (snd (rl_commit now t l'))) = rl_used now j l"
    using rl_commit_revoke_used [OF commits, of j] by (simp add: ok)
  have "0 < rl_windowMs l'" using ready by (simp add: rl_ready_def ok)
  then show "rl_used now j (snd (rl_commit now t l')) = rl_used now j l + (if True \<and> j = k then 1 else 0)"
    using commits by (simp add: rl_commit_used ok)
next
  fix now k l t l' j
  assume c: "rl_check now k l = Inr (t, l')"
  show "rl_maxAttempts l' = rl_maxAttempts l" using rl_check_ok [OF c] by simp
qed (simp_all add: rl_ready_def)

section \<open>Runs\<close>

text \<open>
  The traffic of a limiter: synchronous \<open>isAllowed\<close> calls, peeks, commits of any ticket taken
  earlier, the read-only query and the cleanup timer, at non-decreasing times. \<open>rl_event\<close>
  leaves out \<open>reset\<close> and \<open>revokeLastCommit\<close>, which hand slots back on purpose.
\<close>

datatype rl_event = EvAllowed string | EvCheck string | EvCommit rl_ticket | EvRemaining string | EvPurge

text \<open>The slot an event records, if it records one, and the state after it.\<close>

fun rl_records :: "time \<Rightarrow> rl_event \<Rightarrow> rate_limiter \<Rightarrow> string option" where
  "rl_records now (EvAllowed k) rl = (if fst (rl_isAllowed now k rl) then Some k else None)"
| "rl_records now (EvCommit tk) rl = (if rl_commits now tk rl then Some (tk_key tk) else None)"
| "rl_records now _ rl = None"

fun rl_step :: "time \<Rightarrow> rl_event \<Rightarrow> rate_limiter \<Rightarrow> rate_limiter" where
  "rl_step now (EvAllowed k) rl = snd (rl_isAllowed now k rl)"
| "rl_step now (EvCheck k) rl = (case rl_check now k rl of Inl _ \<Rightarrow> rl | Inr (_, rl') \<Rightarrow> rl')"
| "rl_step now (EvCommit tk) rl = snd (rl_commit now tk rl)"
| "rl_step now (EvRemaining k) rl = rl"
| "rl_step now EvPurge rl = rl_purgeExpiredAll now rl"

text \<open>Running timed events collects the log of recorded slots, oldest first.\<close>

fun rl_run :: "(time \<times> rl_event) list \<Rightarrow> rate_limiter \<Rightarrow> (time \<times> string) list \<Rightarrow>
    (time \<times> string) list \<times> rate_limiter" where
  "rl_run [] rl lg = (lg, rl)"
| "rl_run ((now, e) # es) rl lg =
     rl_run es (rl_step now e rl)
       (case rl_records now e rl of None \<Rightarrow> lg | Some k \<Rightarrow> lg @ [(now, k)])"

definition slots :: "string \<Rightarrow> (time \<times> string) list \<Rightarrow> time list" where
  "slots k lg = map fst (filter (\<lambda>(_, k'). k' = k) lg)"

text \<open>The recorded slots of \<open>k\<close> in the window of length \<open>w\<close> that ends at \<open>t\<close>.\<close>

definition in_window :: "rat \<Rightarrow> time \<Rightarrow> string \<Rightarrow> (time \<times> string) list \<Rightarrow> time list" where
  "in_window w t k lg = filter (\<lambda>s. live w t s \<and> s \<le> t) (slots k lg)"

lemma slots_append [simp]:
  "slots k (lg @ [(now, k')]) = slots k lg @ (if k' = k then [now] else [])"
  by (simp add: slots_def)

text \<open>The log agrees with the stored entries on everything that still counts.\<close>

definition log_agrees :: "time \<Rightarrow> (time \<times> string) list \<Rightarrow> rate_limiter \<Rightarrow> bool" where
  "log_agrees now lg rl \<longleftrightarrow> (\<forall>k.
     filter (live (rl_windowMs rl) now) (slots k lg) =
     filter (live (rl_windowMs rl) now) (get_or [] (rl_entries rl) k))"

lemma log_agrees_later:
  assumes "log_agrees now lg rl" "now \<le> now'"
  shows "log_agrees now' lg rl"
  unfolding log_agrees_def
  by (metis assms log_agrees_def filter_live_later)

lemma rl_isAllowed_get:
  "get_or [] (rl_entries (snd (rl_isAllowed now key rl))) k =
     (if k = key
      then filter (live (rl_windowMs rl) now) (get_or [] (rl_entries rl) k) @
        (if fst (rl_isAllowed now key rl) then [now] else [])
      else get_or [] (rl_entries rl) k)"
  by (auto simp: rl_isAllowed_def Let_def)

lemma rl_isAllowed_verdict: "fst (rl_isAllowed now key rl) \<longleftrightarrow> rl_used now key rl < rl_maxAttempts rl"
  by (auto simp: rl_isAllowed_def rl_used_def Let_def)

lemma keys_purge_entries: "set (keys (purge_entries w now m)) \<subseteq> set (keys m)"
proof (induction m)
  case (Cons p m)
  then show ?case by (cases p) (auto simp: Let_def)
qed simp

lemma get_or_Cons: "get_or d ((k', v) # m) k = (if k' = k then v else get_or d m k)"
  by (simp add: get_or_def)

lemma get_or_absent: "k \<notin> set (keys m) \<Longrightarrow> get_or d m k = d"
  by (simp add: get_or_def map_of_eq_None_iff [THEN iffD2])

lemma purge_entries_get:
  "distinct (keys m) \<Longrightarrow> get_or [] (purge_entries w now m) k = filter (live w now) (get_or [] m k)"
proof (induction m)
  case (Cons p m)
  obtain k' ts where p: "p = (k', ts)" by (cases p)
  have IH: "get_or [] (purge_entries w now m) k = filter (live w now) (get_or [] m k)"
    using Cons by simp
  have "k' \<notin> set (keys m)" using Cons.prems p by simp
  then have "k' \<notin> set (keys (purge_entries w now m))" "get_or [] m k' = []"
    using keys_purge_entries by (blast, simp add: get_or_absent)
  then show ?case
    by (auto simp: p Let_def get_or_Cons get_or_absent IH)
qed simp

lemma distinct_purge_entries: "distinct (keys m) \<Longrightarrow> distinct (keys (purge_entries w now m))"
proof (induction m)
  case (Cons p m)
  obtain k ts where p: "p = (k, ts)" by (cases p)
  have "k \<notin> set (keys m)" and d: "distinct (keys m)" using Cons.prems p by simp_all
  then have "k \<notin> set (keys (purge_entries w now m))"
    using keys_purge_entries by blast
  with Cons.IH [OF d] show ?case by (simp add: p Let_def)
qed simp

lemma rl_check_step:
  "rl_step now (EvCheck k) rl = (if rl_disposed rl then rl else rl_purge_key now k rl)"
  by (simp add: rl_check_def Let_def)

lemma rl_step_frame [simp]:
  "rl_maxAttempts (rl_step now e rl) = rl_maxAttempts rl"
  "rl_windowMs (rl_step now e rl) = rl_windowMs rl"
  by (cases e; simp add: rl_isAllowed_def rl_check_def rl_purgeExpiredAll_def Let_def)+

lemma rl_step_wf: "rl_wf rl \<Longrightarrow> rl_wf (rl_step now e rl)"
proof (cases e)
  case (EvCheck k)
  assume "rl_wf rl"
  then show ?thesis
    unfolding EvCheck rl_check_step using rl_purge_key_wf by simp
next
  case (EvCommit tk)
  assume "rl_wf rl"
  then have "rl_wf (rl_purge_key now (tk_key tk) rl)" by (rule rl_purge_key_wf)
  with \<open>rl_wf rl\<close> show ?thesis
    unfolding EvCommit by (simp add: rl_commit_def rl_wf_def Let_def)
qed (auto simp: rl_wf_def rl_isAllowed_def rl_purgeExpiredAll_def Let_def intro: distinct_purge_entries)

text \<open>One event keeps the agreement, logging what it records.\<close>

lemma rl_step_agrees:
  assumes "log_agrees now lg rl" "rl_wf rl" "0 < rl_windowMs rl"
  shows "log_agrees now
    (case rl_records now e rl of None \<Rightarrow> lg | Some k \<Rightarrow> lg @ [(now, k)]) (rl_step now e rl)"
proof -
  note agr = assms(1) [unfolded log_agrees_def, rule_format]
  show ?thesis
  proof (cases e)
    case (EvAllowed key)
    then show ?thesis
      using agr by (simp add: log_agrees_def rl_isAllowed_get rl_isAllowed_def Let_def)
  next
    case (EvCheck key)
    then show ?thesis
      using agr by (simp add: log_agrees_def rl_check_step del: rl_step.simps)
  next
    case (EvCommit tk)
    then show ?thesis
      using agr by (simp add: log_agrees_def rl_commit_entries)
  next
    case EvPurge
    then show ?thesis
      using agr assms(2) by (simp add: log_agrees_def rl_purgeExpiredAll_def purge_entries_get rl_wf_def)
  qed (use assms(1) in simp)
qed

lemma rl_records_free:
  "rl_records now e rl = Some k \<Longrightarrow> rl_used now k rl < rl_maxAttempts rl"
  by (cases e) (auto simp: rl_isAllowed_verdict rl_commits_def split: if_splits)

text \<open>All logged times are in the past, and no window holds more than \<open>n\<close> of them.\<close>

definition log_bounded :: "nat \<Rightarrow> rat \<Rightarrow> time \<Rightarrow> (time \<times> string) list \<Rightarrow> bool" where
  "log_bounded n w now lg \<longleftrightarrow>
     (\<forall>(s, k) \<in> set lg. s \<le> now) \<and> (\<forall>k t. length (in_window w t k lg) \<le> n)"

lemma in_window_now:
  assumes "\<forall>(s, k) \<in> set lg. s \<le> now"
  shows "in_window w now k lg = filter (live w now) (slots k lg)"
  using assms unfolding in_window_def slots_def by (force intro!: filter_cong)

lemma filter_length_mono: "(\<And>x. P x \<Longrightarrow> Q x) \<Longrightarrow> length (filter P xs) \<le> length (filter Q xs)"
  by (induction xs) (auto simp: le_Suc_eq)

lemma log_bounded_add:
  assumes b: "log_bounded n w now lg" and free: "length (filter (live w now) (slots k lg)) < n"
  shows "log_bounded n w now (lg @ [(now, k)])"
  unfolding log_bounded_def
proof (intro conjI allI)
  show "\<forall>(s, k') \<in> set (lg @ [(now, k)]). s \<le> now"
    using b by (auto simp: log_bounded_def)
  fix k' t
  show "length (in_window w t k' (lg @ [(now, k)])) \<le> n"
  proof (cases "k' = k \<and> now \<le> t")
    case True
    then have "live w t s \<and> s \<le> t \<Longrightarrow> live w now s" for s
      by (auto dest: live_earlier)
    then have "length (in_window w t k lg) \<le> length (filter (live w now) (slots k lg))"
      unfolding in_window_def by (rule filter_length_mono)
    with True free show ?thesis by (simp add: in_window_def)
  next
    case False
    then have "in_window w t k' (lg @ [(now, k)]) = in_window w t k' lg"
      by (auto simp: in_window_def)
    with b show ?thesis by (simp add: log_bounded_def)
  qed
qed

text \<open>Times never go back.\<close>

fun in_order :: "time \<Rightarrow> (time \<times> 'e) list \<Rightarrow> bool" where
  "in_order now [] = True"
| "in_order now ((t, _) # es) = (now \<le> t \<and> in_order t es)"

lemma rl_run_bounded:
  assumes "in_order now es" "log_agrees now lg rl" "rl_wf rl" "0 < rl_windowMs rl"
    "log_bounded (rl_maxAttempts rl) (rl_windowMs rl) now lg"
  shows "\<exists>end. log_bounded (rl_maxAttempts rl) (rl_windowMs rl) end (fst (rl_run es rl lg))"
  using assms
proof (induction es arbitrary: now rl lg)
  case Nil
  then show ?case by auto
next
  case (Cons te es)
  obtain t e where te: "te = (t, e)" by (cases te)
  let ?lg = "case rl_records t e rl of None \<Rightarrow> lg | Some k \<Rightarrow> lg @ [(t, k)]"
  have le: "now \<le> t" and ord: "in_order t es" using Cons.prems(1) te by auto
  have agr: "log_agrees t lg rl" using Cons.prems(2) le by (rule log_agrees_later)
  have b: "log_bounded (rl_maxAttempts rl) (rl_windowMs rl) t lg"
    using Cons.prems(5) le by (fastforce simp: log_bounded_def)
  have b': "log_bounded (rl_maxAttempts rl) (rl_windowMs rl) t ?lg"
  proof (cases "rl_records t e rl")
    case (Some k)
    have "length (filter (live (rl_windowMs rl) t) (slots k lg)) = rl_used t k rl"
      using agr by (simp add: log_agrees_def rl_used_def)
    with rl_records_free [OF Some] show ?thesis
      using log_bounded_add [OF b] Some by simp
  qed (use b in simp)
  have "\<exists>end. log_bounded (rl_maxAttempts (rl_step t e rl)) (rl_windowMs (rl_step t e rl)) end
      (fst (rl_run es (rl_step t e rl) ?lg))"
    using ord rl_step_agrees [OF agr Cons.prems(3,4)] rl_step_wf [OF Cons.prems(3)] Cons.prems(4) b'
    by (intro Cons.IH) simp_all
  then show ?case by (simp add: te)
qed

section \<open>Properties\<close>



end
