(* ===== verification/Js_Text.thy ===== *)
theory Js_Text
  imports Prelude
begin

text \<open>
  The text conversions of the JavaScript standard library that the program relies on:
  decimal digits, \<open>Number.prototype.toFixed(6)\<close>, \<open>Number.parseFloat\<close> (of numerals inside
  the double range), and \<open>Date.prototype.toISOString\<close> (years 0 to 9999), with the round
  trips between them.
\<close>

section \<open>Decimal digits\<close>

definition digit_char :: "nat \<Rightarrow> char" where
  "digit_char d = char_of (48 + d mod 10)"

definition digit_of :: "char \<Rightarrow> nat" where
  "digit_of c = code c - 48"

text \<open>The shortest decimal numeral, and the numeral of exactly \<open>w\<close> digits.\<close>

fun dec :: "nat \<Rightarrow> string" where
  "dec n = (if n < 10 then [digit_char n] else dec (n div 10) @ [digit_char n])"

fun dec_pad :: "nat \<Rightarrow> nat \<Rightarrow> string" where
  "dec_pad 0 n = []"
| "dec_pad (Suc w) n = dec_pad w (n div 10) @ [digit_char n]"

declare dec.simps [simp del]

definition dec_val :: "string \<Rightarrow> nat" where
  "dec_val s = foldl (\<lambda>a c. 10 * a + digit_of c) 0 s"

lemma code_digit_char: "code (digit_char d) = 48 + d mod 10"
proof -
  have "d mod 10 < 10" by simp
  then have "48 + d mod 10 < 256" by linarith
  then show ?thesis by (simp add: digit_char_def)
qed

lemma digit_of_digit_char [simp, js_str]: "digit_of (digit_char d) = d mod 10"
  by (simp add: digit_of_def code_digit_char)

lemma is_digit_digit_char [simp, js_str]: "is_digit (digit_char d)"
proof -
  have "d mod 10 < 10" by simp
  then have "48 + d mod 10 \<le> 57" by linarith
  then show ?thesis by (simp add: is_digit_def code_digit_char)
qed

lemma dec_val_Nil [simp]: "dec_val [] = 0"
  by (simp add: dec_val_def)

lemma dec_val_snoc [simp]: "dec_val (s @ [c]) = 10 * dec_val s + digit_of c"
  by (simp add: dec_val_def)

lemma dec_digits [simp, js_str]: "list_all is_digit (dec n)"
proof (induction n rule: dec.induct)
  case (1 n)
  then show ?case by (subst dec.simps) simp
qed

lemma dec_neq_Nil [simp, js_str]: "dec n \<noteq> []"
  by (subst dec.simps) simp

lemma dec_val_dec [simp, js_str]: "dec_val (dec n) = n"
proof (induction n rule: dec.induct)
  case (1 n)
  show ?case
  proof (cases "n < 10")
    case True
    then show ?thesis using dec_val_snoc [of "[]"] by (subst dec.simps) simp
  next
    case False
    with 1 have "dec_val (dec (n div 10)) = n div 10" by simp
    with False show ?thesis by (subst dec.simps) simp
  qed
qed

lemma dec_pad_digits [simp, js_str]: "list_all is_digit (dec_pad w n)"
  by (induction w arbitrary: n) simp_all

lemma length_dec_pad [simp, js_str]: "length (dec_pad w n) = w"
  by (induction w arbitrary: n) simp_all

lemma dec_val_dec_pad [simp, js_str]: "dec_val (dec_pad w n) = n mod 10 ^ w"
proof (induction w arbitrary: n)
  case (Suc w)
  have "n mod (10 * 10 ^ w) = 10 * (n div 10 mod 10 ^ w) + n mod 10"
    by (rule mod_mult2_eq)
  with Suc show ?case by simp
qed simp

section \<open>\<open>toFixed(6)\<close> and \<open>parseFloat\<close>\<close>

definition toFixed6 :: "rat \<Rightarrow> string" where
  "toFixed6 x =
     (let n = nat \<lfloor>\<bar>x\<bar> * 1000000 + 1 / 2\<rfloor>
      in (if x < 0 then ''-'' else []) @ dec (n div 1000000) @ ''.'' @ dec_pad 6 (n mod 1000000))"

text \<open>The decimal point and the exponent part that may follow the leading digits.\<close>

fun parse_frac :: "string \<Rightarrow> string \<times> string" where
  "parse_frac [] = ([], [])"
| "parse_frac (c # s) =
     (if c = CHR ''.'' then (takeWhile is_digit s, dropWhile is_digit s) else ([], c # s))"

fun parse_sign :: "string \<Rightarrow> bool \<times> string" where
  "parse_sign [] = (False, [])"
| "parse_sign (c # s) =
     (if c = CHR ''-'' then (True, s) else if c = CHR ''+'' then (False, s) else (False, c # s))"

fun parse_exp :: "rat \<Rightarrow> string \<Rightarrow> rat" where
  "parse_exp m [] = m"
| "parse_exp m (c # s) =
     (if c = CHR ''e'' \<or> c = CHR ''E'' then
        (let (neg, r) = parse_sign s; k = dec_val (takeWhile is_digit r)
         in if neg then m / 10 ^ k else m * 10 ^ k)
      else m)"

definition parse_unsigned :: "string \<Rightarrow> jsnum" where
  "parse_unsigned s =
     (let ds = takeWhile is_digit s; (fs, rest) = parse_frac (dropWhile is_digit s)
      in if ds = [] \<and> fs = [] then NonFinite
         else Fin (parse_exp (of_nat (dec_val ds) + of_nat (dec_val fs) / 10 ^ length fs) rest))"

text \<open>\<open>Number.parseFloat\<close>: an infinity and a NaN are the one value \<open>NonFinite\<close>.\<close>

definition parse_float :: "string \<Rightarrow> jsnum" where
  "parse_float s =
     (let (neg, r) = parse_sign (dropWhile is_ws s)
      in (case parse_unsigned r of
            NonFinite \<Rightarrow> NonFinite
          | Fin q \<Rightarrow> Fin (if neg then - q else q)))"

lemma takeWhile_digits:
  "list_all is_digit ds \<Longrightarrow> \<not> is_digit c \<Longrightarrow> takeWhile is_digit (ds @ c # r) = ds"
  "list_all is_digit ds \<Longrightarrow> \<not> is_digit c \<Longrightarrow> dropWhile is_digit (ds @ c # r) = c # r"
  by (induction ds) simp_all

lemma takeWhile_all_digits:
  "list_all is_digit ds \<Longrightarrow> takeWhile is_digit ds = ds"
  "list_all is_digit ds \<Longrightarrow> dropWhile is_digit ds = []"
  by (induction ds) simp_all

lemma digit_plain:
  assumes "is_digit c"
  shows "c \<noteq> CHR ''-''" "c \<noteq> CHR ''+''" "c \<noteq> CHR ''|''" "c \<noteq> CHR ''.''" "\<not> is_ws c"
    "c \<noteq> CHR 0x0A" "c \<noteq> CHR 0x0D"
  using assms by (auto simp: is_digit_def is_ws_def)

lemma not_digit_dot [simp]: "\<not> is_digit CHR ''.''"
  by (simp add: is_digit_def)

lemma parse_unsigned_fixed:
  assumes "list_all is_digit ds" "ds \<noteq> []" "list_all is_digit fs"
  shows "parse_unsigned (ds @ ''.'' @ fs) =
    Fin (of_nat (dec_val ds) + of_nat (dec_val fs) / 10 ^ length fs)"
  using assms by (simp add: parse_unsigned_def takeWhile_digits takeWhile_all_digits)

text \<open>Reading back a non-negative amount that was printed to six places.\<close>

lemma parse_float_toFixed6:
  assumes "0 \<le> x" "micro x"
  shows "parse_float (toFixed6 x) = Fin x"
proof -
  obtain k :: int where k: "x = of_int k / 1000000" using assms(2) by (auto simp: micro_def)
  with assms(1) have k0: "0 \<le> k" by (simp add: zero_le_divide_iff)
  define n where "n = nat k"
  have "\<lfloor>rat_of_int k + 1 / 2\<rfloor> = k" by linarith
  then have "nat \<lfloor>\<bar>x\<bar> * 1000000 + 1 / 2\<rfloor> = n"
    using assms(1) k by (simp add: n_def)
  then have fix6: "toFixed6 x = dec (n div 1000000) @ ''.'' @ dec_pad 6 (n mod 1000000)"
    using assms(1) by (simp add: toFixed6_def)
  obtain c r where cr: "dec (n div 1000000) = c # r" by (metis dec_neq_Nil list.exhaust)
  then have "is_digit c" using dec_digits [of "n div 1000000"] by simp
  then have sign: "parse_sign (dropWhile is_ws (toFixed6 x)) = (False, toFixed6 x)"
    by (simp add: fix6 cr digit_plain)
  have "rat_of_nat (n div 1000000) + rat_of_nat (n mod 1000000) / 1000000 = rat_of_nat n / 1000000"
  proof -
    have "n = (n div 1000000) * 1000000 + n mod 1000000" by simp
    then have "rat_of_nat n = rat_of_nat (n div 1000000) * 1000000 + rat_of_nat (n mod 1000000)"
      by (metis of_nat_add of_nat_mult of_nat_numeral)
    then show ?thesis by (simp add: add_divide_distrib)
  qed
  moreover have "rat_of_nat n / 1000000 = x" using k k0 by (simp add: n_def)
  moreover have "parse_unsigned (toFixed6 x) =
      Fin (rat_of_nat (n div 1000000) + rat_of_nat (n mod 1000000) / 1000000)"
    unfolding fix6 by (subst parse_unsigned_fixed) simp_all
  ultimately show ?thesis by (simp add: parse_float_def sign)
qed

section \<open>Dates\<close>

text \<open>The proleptic Gregorian date of a day number (days since 1970-01-01).\<close>

definition civil_from_days :: "int \<Rightarrow> int \<times> int \<times> int" where
  "civil_from_days n =
     (let z = n + 719468; era = z div 146097; doe = z mod 146097;
          yoe = (doe - doe div 1460 + doe div 36524 - doe div 146096) div 365;
          doy = doe - (365 * yoe + yoe div 4 - yoe div 100);
          mp = (5 * doy + 2) div 153; d = doy - (153 * mp + 2) div 5 + 1;
          m = (if mp < 10 then mp + 3 else mp - 9)
      in (yoe + era * 400 + (if m \<le> 2 then 1 else 0), m, d))"

definition pad2 :: "int \<Rightarrow> string" where
  "pad2 n = dec_pad 2 (nat n)"

definition iso_month :: "time \<Rightarrow> string" where
  "iso_month t =
     (let (y, m, _) = civil_from_days (t div 86400000) in dec_pad 4 (nat y) @ ''-'' @ pad2 m)"

text \<open>\<open>new Date(t).toISOString()\<close>, \<open>YYYY-MM-DDTHH:mm:ss.sssZ\<close>.\<close>

definition iso_string :: "time \<Rightarrow> string" where
  "iso_string t =
     (let (_, _, d) = civil_from_days (t div 86400000); s = t mod 86400000
      in iso_month t @ ''-'' @ pad2 d @ ''T'' @ pad2 (s div 3600000) @ '':'' @
         pad2 (s div 60000 mod 60) @ '':'' @ pad2 (s div 1000 mod 60) @ ''.'' @
         dec_pad 3 (nat (s mod 1000)) @ ''Z'')"

lemma iso_string_nonempty [simp]: "iso_string t \<noteq> []"
  by (simp add: iso_string_def split_def Let_def)

lemma iso_month_example: "iso_month 1775822400000 = ''2026-04''"
  by code_simp

lemma iso_string_example: "iso_string 951782399999 = ''2000-02-28T23:59:59.999Z''"
  by code_simp

lemma length_iso_month [simp]: "length (iso_month t) = 7"
  by (simp add: iso_month_def pad2_def split_def Let_def)

lemma iso_string_month: "starts_with (iso_month t) (iso_string t)"
  by (simp add: iso_string_def split_def Let_def)

lemma take_7_iso_string: "take 7 (iso_string t) = iso_month t"
  by (simp add: iso_string_def split_def Let_def)

definition iso_char :: "char \<Rightarrow> bool" where
  "iso_char c \<longleftrightarrow> is_digit c \<or> c \<in> {CHR ''-'', CHR ''T'', CHR '':'', CHR ''.'', CHR ''Z''}"

lemma iso_char_plain: "iso_char c \<Longrightarrow> c \<noteq> CHR ''|'' \<and> c \<noteq> CHR 0x0A \<and> c \<noteq> CHR 0x0D \<and> \<not> is_ws c"
  by (auto simp: iso_char_def is_digit_def is_ws_def)

lemma digits_iso: "list_all is_digit s \<Longrightarrow> list_all iso_char s"
  by (auto simp: list_all_iff iso_char_def)

lemma iso_string_chars: "list_all iso_char (iso_string t)"
  by (simp add: iso_string_def iso_month_def pad2_def split_def Let_def digits_iso)
     (simp add: iso_char_def)

end
