(* ===== verification/Cost_Tracker.thy ===== *)
theory Cost_Tracker
  imports Js_Text
begin

text \<open>
  \<open>core/src/services/llm/model-pricing.ts\<close> and \<open>core/src/services/llm/cost-tracker.ts\<close>:
  what an LLM call costs, the monthly totals per app, user and household, the reservations
  of calls in flight, the append-only usage log and the cost cache on disk.

  A \<open>cost_tracker\<close> holds the in-memory state together with the two files it owns and the
  queue of log writes. Its operations are the synchronous stretches of the code between two
  awaits; a queued write (\<open>ct_drain\<close>), the persistence timer, the reservation cleanup timer
  and the loss of the disk (\<open>ct_writable\<close>) are steps of their own. Pricing lookups range over
  model ids that are no property of \<open>Object.prototype\<close>.
\<close>

section \<open>Pricing\<close>

datatype provider_type = Anthropic | Google | OpenaiCompatible | Ollama | LlamaCpp

record model_pricing =
  mp_input :: usd
  mp_output :: usd

abbreviation price :: "usd \<Rightarrow> usd \<Rightarrow> model_pricing" where
  "price i out \<equiv> \<lparr>mp_input = i, mp_output = out\<rparr>"

definition MODEL_PRICING :: "model_pricing jsmap" where
  "MODEL_PRICING =
     [(''claude-fable-5-1'', price 10 50), (''claude-opus-5-5'', price 4 20),
      (''claude-opus-4-6'', price 5 25), (''claude-sonnet-5-5'', price 2 10),
      (''claude-sonnet-4-6'', price 3 15), (''claude-sonnet-4-20250514'', price 3 15),
      (''claude-haiku-4-5-20251001'', price 1 5),
      (''gemini-2.5-pro'', price (125 / 100) 10), (''gemini-2.5-flash'', price (15 / 100) (6 / 10)),
      (''gemini-2.0-flash'', price (1 / 10) (4 / 10)),
      (''gemini-2.0-flash-lite'', price (75 / 1000) (3 / 10)),
      (''gpt-4.1'', price 2 8), (''gpt-4.1-mini'', price (4 / 10) (16 / 10)),
      (''gpt-4.1-nano'', price (1 / 10) (4 / 10)), (''gpt-4o'', price (25 / 10) 10),
      (''gpt-4o-mini'', price (15 / 100) (6 / 10)), (''o3'', price 2 8),
      (''o3-mini'', price (11 / 10) (44 / 10)), (''o4-mini'', price (11 / 10) (44 / 10))]"

definition DEFAULT_REMOTE_PRICING :: model_pricing where
  "DEFAULT_REMOTE_PRICING = price 3 15"

definition getModelPricing :: "string \<Rightarrow> model_pricing option" where
  "getModelPricing modelId = map_of MODEL_PRICING modelId"

fun isLocalProvider :: "provider_type option \<Rightarrow> bool" where
  "isLocalProvider (Some pt) = (pt = Ollama \<or> pt = LlamaCpp)"
| "isLocalProvider None = False"

definition hasPricing :: "string \<Rightarrow> provider_type option \<Rightarrow> bool" where
  "hasPricing modelId pt = (if isLocalProvider pt then True else map_of MODEL_PRICING modelId \<noteq> None)"

definition estimateCallCost :: "string \<Rightarrow> rat \<Rightarrow> rat \<Rightarrow> provider_type option \<Rightarrow> usd" where
  "estimateCallCost modelId inputTokens outputTokens pt =
     (if isLocalProvider pt then 0
      else (let pricing = (case getModelPricing modelId of
                             Some p \<Rightarrow> p | None \<Rightarrow> DEFAULT_REMOTE_PRICING);
                raw = (inputTokens * mp_input pricing + outputTokens * mp_output pricing) / 1000000
            in round6 raw))"

lemma pricing_nonneg:
  assumes "getModelPricing m = Some p"
  shows "0 \<le> mp_input p \<and> 0 \<le> mp_output p"
proof -
  have "(m, p) \<in> set MODEL_PRICING" using assms by (auto simp: getModelPricing_def dest: map_of_SomeD)
  then show ?thesis by (auto simp: MODEL_PRICING_def)
qed

lemma estimateCallCost_nonneg:
  assumes "0 \<le> i" "0 \<le> out"
  shows "0 \<le> estimateCallCost m i out pt"
proof -
  let ?p = "case getModelPricing m of Some p \<Rightarrow> p | None \<Rightarrow> DEFAULT_REMOTE_PRICING"
  have "0 \<le> mp_input ?p \<and> 0 \<le> mp_output ?p"
    using pricing_nonneg by (auto simp: DEFAULT_REMOTE_PRICING_def split: option.split)
  with assms have "0 \<le> (i * mp_input ?p + out * mp_output ?p) / 1000000" by simp
  then show ?thesis
    by (simp add: estimateCallCost_def Let_def round6_nonneg)
qed

lemma estimateCallCost_micro [simp]: "micro (estimateCallCost m i out pt)"
  by (simp add: estimateCallCost_def Let_def)

section \<open>State\<close>

record reservation =
  r_householdId :: string
  r_appId :: "string option"
  r_userId :: "string option"
  r_amount :: usd
  r_expiresAt :: time

text \<open>
  A log row to append, and the entry \<open>record\<close> is given (token counts still untrusted). A
  token count that is no number at all is \<open>NonFinite\<close>, which \<open>safeTokenCount\<close> treats alike.
\<close>

record usage_entry =
  ue_timestamp :: string
  ue_provider :: "string option"
  ue_model :: string
  ue_inputTokens :: nat
  ue_outputTokens :: nat
  ue_estimatedCost :: usd
  ue_appId :: "string option"
  ue_userId :: "string option"
  ue_householdId :: "string option"

record usage_input =
  ui_model :: string
  ui_inputTokens :: jsnum
  ui_outputTokens :: jsnum
  ui_provider :: "string option"
  ui_providerType :: "provider_type option"
  ui_appId :: "string option"
  ui_userId :: "string option"
  ui_householdId :: "string option"

text \<open>
  The parsed \<open>monthly-costs.yaml\<close>: a value of one of its tables is \<open>None\<close> where the YAML
  holds something that is not a number; an absent table is \<open>None\<close>.
\<close>

record monthly_cost_data =
  md_month :: string
  md_apps :: "usd option jsmap option"
  md_users :: "usd option jsmap option"
  md_households :: "usd option jsmap option"
  md_total :: "usd option"

datatype cost_file = FileMissing | FileUnreadable | FileMalformed | FileParsed monthly_cost_data

record cost_tracker =
  ct_monthlyCosts :: "usd jsmap"
  ct_monthlyUserCosts :: "usd jsmap"
  ct_monthlyHouseholdCosts :: "usd jsmap"
  ct_monthlyTotal :: usd
  ct_currentMonth :: string
  ct_persistDirty :: bool
  ct_persistTimer :: bool
  ct_reservations :: "reservation jsmap"
  ct_reservationTimer :: bool
  ct_tokensIn :: nat
  ct_tokensOut :: nat
  ct_writeQueue :: "usage_entry list"
  ct_costFile :: cost_file
  ct_usageFile :: "string option"
  ct_writable :: bool

definition new_cost_tracker :: "cost_file \<Rightarrow> string option \<Rightarrow> cost_tracker" where
  "new_cost_tracker cf uf =
     \<lparr>ct_monthlyCosts = [], ct_monthlyUserCosts = [], ct_monthlyHouseholdCosts = [],
      ct_monthlyTotal = 0, ct_currentMonth = [], ct_persistDirty = False, ct_persistTimer = False,
      ct_reservations = [], ct_reservationTimer = False, ct_tokensIn = 0, ct_tokensOut = 0,
      ct_writeQueue = [], ct_costFile = cf, ct_usageFile = uf, ct_writable = True\<rparr>"

definition PLATFORM_SYSTEM_HOUSEHOLD_ID :: string where
  "PLATFORM_SYSTEM_HOUSEHOLD_ID = ''__platform__''"

fun safeTokenCount :: "jsnum \<Rightarrow> nat" where
  "safeTokenCount (Fin q) = (if 0 \<le> q then nat \<lfloor>q\<rfloor> else 0)"
| "safeTokenCount NonFinite = 0"

section \<open>Monthly totals\<close>

text \<open>\<open>if (key) map.set(key, Math.round(((map.get(key) ?? 0) + cost) * 1e6) / 1e6)\<close>.\<close>

definition bump :: "string option \<Rightarrow> usd \<Rightarrow> usd jsmap \<Rightarrow> usd jsmap" where
  "bump k cost m = (case truthy k of None \<Rightarrow> m | Some k \<Rightarrow> set_key k (round6 (get_or 0 m k + cost)) m)"

definition ct_schedulePersist :: "cost_tracker \<Rightarrow> cost_tracker" where
  "ct_schedulePersist ct = ct\<lparr>ct_persistDirty := True, ct_persistTimer := True\<rparr>"

definition ct_snapshot :: "cost_tracker \<Rightarrow> monthly_cost_data" where
  "ct_snapshot ct =
     \<lparr>md_month = ct_currentMonth ct,
      md_apps = Some (map (apsnd Some) (ct_monthlyCosts ct)),
      md_users = Some (map (apsnd Some) (ct_monthlyUserCosts ct)),
      md_households = Some (map (apsnd Some) (ct_monthlyHouseholdCosts ct)),
      md_total = Some (ct_monthlyTotal ct)\<rparr>"

definition ct_persistMonthlyCosts :: "cost_tracker \<Rightarrow> cost_tracker" where
  "ct_persistMonthlyCosts ct =
     ct\<lparr>ct_persistDirty := False,
        ct_costFile := (if ct_writable ct then FileParsed (ct_snapshot ct) else ct_costFile ct)\<rparr>"

definition ct_checkMonthRollover :: "time \<Rightarrow> cost_tracker \<Rightarrow> cost_tracker" where
  "ct_checkMonthRollover now ct =
     (if iso_month now \<noteq> ct_currentMonth ct then
        (let ct1 = (if ct_persistDirty ct then ct_persistMonthlyCosts ct else ct)
         in ct_schedulePersist
              (ct1\<lparr>ct_monthlyCosts := [], ct_monthlyUserCosts := [], ct_monthlyHouseholdCosts := [],
                   ct_reservations := [], ct_monthlyTotal := 0, ct_currentMonth := iso_month now\<rparr>))
      else ct)"

definition ct_updateMonthlyCache ::
    "time \<Rightarrow> string option \<Rightarrow> usd \<Rightarrow> string option \<Rightarrow> string option \<Rightarrow> cost_tracker \<Rightarrow> cost_tracker" where
  "ct_updateMonthlyCache now appId cost userId householdId ct =
     (let ct = ct_checkMonthRollover now ct
      in ct_schedulePersist
           (ct\<lparr>ct_monthlyCosts := bump appId cost (ct_monthlyCosts ct),
               ct_monthlyUserCosts := bump userId cost (ct_monthlyUserCosts ct),
               ct_monthlyHouseholdCosts := bump householdId cost (ct_monthlyHouseholdCosts ct),
               ct_monthlyTotal := round6 (ct_monthlyTotal ct + cost)\<rparr>))"

definition ct_getMonthlyAppCost :: "time \<Rightarrow> string \<Rightarrow> cost_tracker \<Rightarrow> usd \<times> cost_tracker" where
  "ct_getMonthlyAppCost now appId ct =
     (let ct = ct_checkMonthRollover now ct in (get_or 0 (ct_monthlyCosts ct) appId, ct))"

definition ct_getMonthlyUserCost :: "time \<Rightarrow> string \<Rightarrow> cost_tracker \<Rightarrow> usd \<times> cost_tracker" where
  "ct_getMonthlyUserCost now userId ct =
     (let ct = ct_checkMonthRollover now ct in (get_or 0 (ct_monthlyUserCosts ct) userId, ct))"

definition ct_getMonthlyTotalCost :: "time \<Rightarrow> cost_tracker \<Rightarrow> usd \<times> cost_tracker" where
  "ct_getMonthlyTotalCost now ct =
     (let ct = ct_checkMonthRollover now ct in (ct_monthlyTotal ct, ct))"

definition ct_getMonthlyAppCosts :: "time \<Rightarrow> cost_tracker \<Rightarrow> usd jsmap \<times> cost_tracker" where
  "ct_getMonthlyAppCosts now ct =
     (let ct = ct_checkMonthRollover now ct in (ct_monthlyCosts ct, ct))"

definition ct_getMonthlyUserCosts :: "time \<Rightarrow> cost_tracker \<Rightarrow> usd jsmap \<times> cost_tracker" where
  "ct_getMonthlyUserCosts now ct =
     (let ct = ct_checkMonthRollover now ct in (ct_monthlyUserCosts ct, ct))"

definition ct_getMonthlyHouseholdCosts :: "time \<Rightarrow> cost_tracker \<Rightarrow> usd jsmap \<times> cost_tracker" where
  "ct_getMonthlyHouseholdCosts now ct =
     (let ct = ct_checkMonthRollover now ct in (ct_monthlyHouseholdCosts ct, ct))"

definition ct_getTokenUsageTotals :: "cost_tracker \<Rightarrow> nat \<times> nat" where
  "ct_getTokenUsageTotals ct = (ct_tokensIn ct, ct_tokensOut ct)"

text \<open>The unexpired reservations of a household, summed.\<close>

definition pending_of :: "time \<Rightarrow> string \<Rightarrow> reservation jsmap \<Rightarrow> usd" where
  "pending_of now hh rs =
     sum_list (map (\<lambda>(_, r). if r_householdId r = hh \<and> r_expiresAt r > now then r_amount r else 0) rs)"

definition ct_getMonthlyHouseholdCost :: "time \<Rightarrow> string \<Rightarrow> cost_tracker \<Rightarrow> usd \<times> cost_tracker" where
  "ct_getMonthlyHouseholdCost now hh ct =
     (let ct = ct_checkMonthRollover now ct;
          persisted = get_or 0 (ct_monthlyHouseholdCosts ct) hh;
          pending = pending_of now hh (ct_reservations ct)
      in (round6 (persisted + pending), ct))"

section \<open>Recording and reservations\<close>

definition effective_household :: "string option \<Rightarrow> string option" where
  "effective_household hh =
     (case truthy hh of
        None \<Rightarrow> None
      | Some h \<Rightarrow> if h \<noteq> PLATFORM_SYSTEM_HOUSEHOLD_ID then Some h else None)"

definition ct_cost_of :: "usage_input \<Rightarrow> usd" where
  "ct_cost_of ui =
     estimateCallCost (ui_model ui) (of_nat (safeTokenCount (ui_inputTokens ui)))
       (of_nat (safeTokenCount (ui_outputTokens ui))) (ui_providerType ui)"

definition ct_record :: "time \<Rightarrow> usage_input \<Rightarrow> cost_tracker \<Rightarrow> cost_tracker" where
  "ct_record now ui ct =
     (let inTok = safeTokenCount (ui_inputTokens ui);
          outTok = safeTokenCount (ui_outputTokens ui);
          estimatedCost = estimateCallCost (ui_model ui) (of_nat inTok) (of_nat outTok) (ui_providerType ui);
          hh = effective_household (ui_householdId ui);
          entry = \<lparr>ue_timestamp = iso_string now, ue_provider = ui_provider ui, ue_model = ui_model ui,
                   ue_inputTokens = inTok, ue_outputTokens = outTok, ue_estimatedCost = estimatedCost,
                   ue_appId = ui_appId ui, ue_userId = ui_userId ui, ue_householdId = hh\<rparr>;
          ct = ct_updateMonthlyCache now (ui_appId ui) estimatedCost (ui_userId ui) hh ct
      in ct\<lparr>ct_tokensIn := ct_tokensIn ct + inTok, ct_tokensOut := ct_tokensOut ct + outTok,
            ct_writeQueue := ct_writeQueue ct @ [entry]\<rparr>)"

datatype ct_error = InvalidAmount jsnum

text \<open>\<open>uuid\<close> is the value \<open>randomUUID()\<close> returns.\<close>

definition ct_reserveEstimated ::
    "time \<Rightarrow> string \<Rightarrow> string \<Rightarrow> string option \<Rightarrow> string option \<Rightarrow> jsnum \<Rightarrow> cost_tracker \<Rightarrow>
     ct_error + (string \<times> cost_tracker)" where
  "ct_reserveEstimated now uuid hh appId userId amount ct =
     (if \<not> finite_nonneg amount then Inl (InvalidAmount amount)
      else Inr (uuid, ct\<lparr>ct_reservations := set_key uuid
             \<lparr>r_householdId = hh, r_appId = appId, r_userId = userId, r_amount = num_val amount,
              r_expiresAt = now + 60000\<rparr> (ct_reservations ct),
           ct_reservationTimer := True\<rparr>))"

definition ct_releaseReservation :: "string \<Rightarrow> cost_tracker \<Rightarrow> cost_tracker" where
  "ct_releaseReservation rid ct =
     (case map_of (ct_reservations ct) rid of
        None \<Rightarrow> ct
      | Some r \<Rightarrow> ct\<lparr>ct_reservations := del_key rid (ct_reservations ct)\<rparr>)"

text \<open>One firing of the reservation cleanup timer.\<close>

definition ct_cleanupTick :: "time \<Rightarrow> cost_tracker \<Rightarrow> cost_tracker" where
  "ct_cleanupTick now ct =
     (if ct_reservationTimer ct
      then ct\<lparr>ct_reservations := filter (\<lambda>(_, r). \<not> r_expiresAt r \<le> now) (ct_reservations ct)\<rparr>
      else ct)"

text \<open>One firing of the persistence timer.\<close>

definition ct_persistTick :: "cost_tracker \<Rightarrow> cost_tracker" where
  "ct_persistTick ct =
     (if ct_persistTimer ct then ct_persistMonthlyCosts (ct\<lparr>ct_persistTimer := False\<rparr>) else ct)"

definition ct_flush :: "cost_tracker \<Rightarrow> cost_tracker" where
  "ct_flush ct =
     (let ct = ct\<lparr>ct_persistTimer := False\<rparr>;
          ct = (if ct_persistDirty ct then ct_persistMonthlyCosts ct else ct)
      in ct\<lparr>ct_reservationTimer := False, ct_reservations := []\<rparr>)"

section \<open>Well-formedness\<close>

text \<open>
  A table of totals: one entry per key, each a non-negative number of whole micro-dollars.
  Attribution is bounded by the total: every recorded call is charged to at most one app, one
  user and one household.
\<close>

definition totals_ok :: "usd jsmap \<Rightarrow> bool" where
  "totals_ok m \<longleftrightarrow> distinct (keys m) \<and> (\<forall>(_, c) \<in> set m. 0 \<le> c \<and> micro c)"

definition total_of :: "usd jsmap \<Rightarrow> usd" where
  "total_of m = sum_list (map snd m)"

definition ct_wf :: "cost_tracker \<Rightarrow> bool" where
  "ct_wf ct \<longleftrightarrow>
     totals_ok (ct_monthlyCosts ct) \<and> totals_ok (ct_monthlyUserCosts ct) \<and>
     totals_ok (ct_monthlyHouseholdCosts ct) \<and> 0 \<le> ct_monthlyTotal ct \<and> micro (ct_monthlyTotal ct) \<and>
     distinct (keys (ct_reservations ct)) \<and> (\<forall>(_, r) \<in> set (ct_reservations ct). 0 \<le> r_amount r)"

definition ct_attributed :: "cost_tracker \<Rightarrow> bool" where
  "ct_attributed ct \<longleftrightarrow>
     total_of (ct_monthlyCosts ct) \<le> ct_monthlyTotal ct \<and>
     total_of (ct_monthlyUserCosts ct) \<le> ct_monthlyTotal ct \<and>
     total_of (ct_monthlyHouseholdCosts ct) \<le> ct_monthlyTotal ct"

lemma totals_ok_Nil [simp]: "totals_ok []"
  by (simp add: totals_ok_def)

lemma totals_ok_get:
  assumes "totals_ok m"
  shows "0 \<le> get_or 0 m k" "micro (get_or 0 m k)"
  using assms by (auto simp: totals_ok_def get_or_def split: option.split dest: map_of_SomeD)

lemma set_key_subset: "set (set_key k v m) \<subseteq> insert (k, v) (set m)"
  by (induction m) auto

lemma totals_ok_bump:
  assumes "totals_ok m" "0 \<le> c" "micro c"
  shows "totals_ok (bump k c m)"
proof (cases "truthy k")
  case (Some k')
  have "0 \<le> round6 (get_or 0 m k' + c)"
    using totals_ok_get [OF assms(1), of k'] assms(2) by (simp add: round6_nonneg)
  then show ?thesis
    using assms(1) set_key_subset [of k' "round6 (get_or 0 m k' + c)" m]
    unfolding bump_def totals_ok_def Some by force
qed (use assms in \<open>simp add: bump_def\<close>)

text \<open>On well-formed totals the rounding is exact: the entry grows by the cost.\<close>

lemma get_or_bump:
  assumes "totals_ok m" "micro c"
  shows "get_or 0 (bump k c m) j = get_or 0 m j + (if truthy k = Some j then c else 0)"
proof (cases "truthy k")
  case (Some k')
  have "round6 (get_or 0 m k' + c) = get_or 0 m k' + c"
    using totals_ok_get [OF assms(1)] assms(2) by (simp add: round6_micro)
  then show ?thesis by (simp add: bump_def Some)
qed (simp add: bump_def)

lemma total_of_set_key:
  "distinct (keys m) \<Longrightarrow> total_of (set_key k v m) = total_of m - get_or 0 m k + v"
proof (induction m)
  case (Cons p m)
  then show ?case
    by (cases p) (auto simp: total_of_def get_or_def map_of_eq_None_iff [THEN iffD2])
qed (simp add: total_of_def)

lemma total_of_bump:
  assumes "totals_ok m" "micro c"
  shows "total_of (bump k c m) = total_of m + (if truthy k = None then 0 else c)"
proof (cases "truthy k")
  case (Some k')
  have "round6 (get_or 0 m k' + c) = get_or 0 m k' + c"
    using totals_ok_get [OF assms(1)] assms(2) by (simp add: round6_micro)
  with assms(1) show ?thesis
    by (simp add: bump_def Some total_of_set_key totals_ok_def)
qed (simp add: bump_def)

lemma ct_persist_frame [simp]:
  "ct_monthlyCosts (ct_persistMonthlyCosts ct) = ct_monthlyCosts ct"
  "ct_monthlyUserCosts (ct_persistMonthlyCosts ct) = ct_monthlyUserCosts ct"
  "ct_monthlyHouseholdCosts (ct_persistMonthlyCosts ct) = ct_monthlyHouseholdCosts ct"
  "ct_monthlyTotal (ct_persistMonthlyCosts ct) = ct_monthlyTotal ct"
  "ct_currentMonth (ct_persistMonthlyCosts ct) = ct_currentMonth ct"
  "ct_reservations (ct_persistMonthlyCosts ct) = ct_reservations ct"
  "ct_writeQueue (ct_persistMonthlyCosts ct) = ct_writeQueue ct"
  "ct_usageFile (ct_persistMonthlyCosts ct) = ct_usageFile ct"
  by (simp_all add: ct_persistMonthlyCosts_def)

lemma ct_schedule_frame [simp]:
  "ct_monthlyCosts (ct_schedulePersist ct) = ct_monthlyCosts ct"
  "ct_monthlyUserCosts (ct_schedulePersist ct) = ct_monthlyUserCosts ct"
  "ct_monthlyHouseholdCosts (ct_schedulePersist ct) = ct_monthlyHouseholdCosts ct"
  "ct_monthlyTotal (ct_schedulePersist ct) = ct_monthlyTotal ct"
  "ct_currentMonth (ct_schedulePersist ct) = ct_currentMonth ct"
  "ct_reservations (ct_schedulePersist ct) = ct_reservations ct"
  "ct_writeQueue (ct_schedulePersist ct) = ct_writeQueue ct"
  "ct_usageFile (ct_schedulePersist ct) = ct_usageFile ct"
  by (simp_all add: ct_schedulePersist_def)

text \<open>Within a month nothing rolls over; at a new month everything starts from zero.\<close>

lemma rollover_same_month [simp]:
  "ct_currentMonth ct = iso_month now \<Longrightarrow> ct_checkMonthRollover now ct = ct"
  by (simp add: ct_checkMonthRollover_def)

lemma rollover_month [simp]: "ct_currentMonth (ct_checkMonthRollover now ct) = iso_month now"
  by (simp add: ct_checkMonthRollover_def Let_def)

lemma rollover_new_month:
  assumes "ct_currentMonth ct \<noteq> iso_month now"
  shows "ct_monthlyCosts (ct_checkMonthRollover now ct) = []"
    "ct_monthlyUserCosts (ct_checkMonthRollover now ct) = []"
    "ct_monthlyHouseholdCosts (ct_checkMonthRollover now ct) = []"
    "ct_monthlyTotal (ct_checkMonthRollover now ct) = 0"
    "ct_reservations (ct_checkMonthRollover now ct) = []"
  using assms by (simp_all add: ct_checkMonthRollover_def Let_def)

lemma rollover_queue [simp]: "ct_writeQueue (ct_checkMonthRollover now ct) = ct_writeQueue ct"
  by (simp add: ct_checkMonthRollover_def Let_def)

lemma ct_wf_rollover: "ct_wf ct \<Longrightarrow> ct_wf (ct_checkMonthRollover now ct)"
  by (cases "ct_currentMonth ct = iso_month now") (simp_all add: ct_wf_def rollover_new_month)

lemma ct_attributed_rollover: "ct_attributed ct \<Longrightarrow> ct_attributed (ct_checkMonthRollover now ct)"
  by (cases "ct_currentMonth ct = iso_month now")
     (simp_all add: ct_attributed_def rollover_new_month total_of_def)

end
