(* ===== verification/Cost_Log.thy ===== *)
theory Cost_Log
  imports Cost_Tracker
begin

text \<open>
  The durable half of \<open>core/src/services/llm/cost-tracker.ts\<close>: the rows of
  \<open>llm-usage.md\<close>, how they are written (\<open>doAppendEntry\<close>), how the monthly totals are
  rebuilt from them (\<open>rebuildFromLog\<close>), the start-up choice between the cost cache and the
  log (\<open>loadMonthlyCache\<close>) and the migration of old table headers. The main result is that
  the log alone determines the totals: rebuilding after any run of recorded calls gives the
  totals the run left in memory.
\<close>

section \<open>Writing rows\<close>

abbreviation newline :: char where
  "newline \<equiv> CHR 0x0A"

definition log_safe :: "string \<Rightarrow> string" where
  "log_safe v = map (\<lambda>c. if c \<in> {CHR ''|'', newline, CHR 0x0D} then CHR ''_'' else c) v"

fun or_dash :: "string option \<Rightarrow> string" where
  "or_dash (Some s) = s"
| "or_dash None = ''-''"

definition usage_cells_of :: "usage_entry \<Rightarrow> string list" where
  "usage_cells_of e =
     [ue_timestamp e, log_safe (or_dash (ue_provider e)), log_safe (ue_model e), dec (ue_inputTokens e),
      dec (ue_outputTokens e), toFixed6 (ue_estimatedCost e), log_safe (or_dash (ue_appId e)),
      log_safe (or_dash (ue_userId e)), log_safe (or_dash (ue_householdId e))]"

text \<open>\<open>| cell | cell | ... | cell |\<close>, without the line feed.\<close>

definition usage_line :: "usage_entry \<Rightarrow> string" where
  "usage_line e = ''|'' @ concat (map (\<lambda>c. '' '' @ c @ '' |'') (usage_cells_of e))"

definition nineColHeader :: string where
  "nineColHeader = ''| Timestamp | Provider | Model | Input Tokens | Output Tokens | Cost ($) | App | User | Household |''"

definition nineColSeparator :: string where
  "nineColSeparator = ''|-----------|----------|-------|-------------|---------------|----------|-----|------|-----------|''"

definition usage_header :: string where
  "usage_header =
     join [newline] [''# LLM Usage Log'', [], nineColHeader, nineColSeparator, []]"

definition append_usage :: "usage_entry \<Rightarrow> string option \<Rightarrow> string" where
  "append_usage e file =
     (let content = (case file of Some c \<Rightarrow> c | None \<Rightarrow> []);
          content = (if trim content = [] then content @ usage_header else content)
      in content @ usage_line e @ [newline])"

text \<open>One queued write. A failing disk loses the row; the queue goes on with the next.\<close>

definition ct_drain :: "cost_tracker \<Rightarrow> cost_tracker" where
  "ct_drain ct =
     (case ct_writeQueue ct of
        [] \<Rightarrow> ct
      | e # es \<Rightarrow> ct\<lparr>ct_writeQueue := es,
          ct_usageFile := (if ct_writable ct then Some (append_usage e (ct_usageFile ct))
                           else ct_usageFile ct)\<rparr>)"

fun ct_drain_n :: "nat \<Rightarrow> cost_tracker \<Rightarrow> cost_tracker" where
  "ct_drain_n 0 ct = ct"
| "ct_drain_n (Suc n) ct = ct_drain_n n (ct_drain ct)"

text \<open>\<open>drainWrites\<close>: wait for every queued write.\<close>

definition ct_drainWrites :: "cost_tracker \<Rightarrow> cost_tracker" where
  "ct_drainWrites ct = ct_drain_n (length (ct_writeQueue ct)) ct"

section \<open>Reading rows\<close>

definition usage_cells :: "string \<Rightarrow> string list" where
  "usage_cells line =
     (let parts = map trim (split_on CHR ''|'' line);
          parts = (case parts of [] \<Rightarrow> [] | p # ps \<Rightarrow> if p = [] then ps else parts)
      in if parts \<noteq> [] \<and> last parts = [] then butlast parts else parts)"

definition undash :: "string \<Rightarrow> string option" where
  "undash s = (if s = ''-'' then None else Some s)"

record usage_row =
  row_cost :: usd
  row_app :: "string option"
  row_user :: "string option"
  row_household :: "string option"

definition read_row :: "string \<Rightarrow> string \<Rightarrow> usage_row option" where
  "read_row month line =
     (if \<not> starts_with ''| 20'' line then None
      else (let cells = usage_cells line
            in if length cells < 8 then None
               else if \<not> starts_with month (cells ! 0) then None
               else (case parse_float (cells ! 5) of
                       NonFinite \<Rightarrow> None
                     | Fin cost \<Rightarrow>
                         if cost < 0 then None
                         else Some \<lparr>row_cost = cost, row_app = undash (cells ! 6),
                                row_user = undash (cells ! 7),
                                row_household = (if length cells \<ge> 9 then undash (cells ! 8) else None)\<rparr>)))"

definition apply_row :: "usage_row \<Rightarrow> cost_tracker \<Rightarrow> cost_tracker" where
  "apply_row row ct =
     ct\<lparr>ct_monthlyCosts := bump (row_app row) (row_cost row) (ct_monthlyCosts ct),
        ct_monthlyUserCosts := bump (row_user row) (row_cost row) (ct_monthlyUserCosts ct),
        ct_monthlyHouseholdCosts := bump (row_household row) (row_cost row) (ct_monthlyHouseholdCosts ct),
        ct_monthlyTotal := round6 (ct_monthlyTotal ct + row_cost row)\<rparr>"

definition ct_clear :: "cost_tracker \<Rightarrow> cost_tracker" where
  "ct_clear ct = ct\<lparr>ct_monthlyCosts := [], ct_monthlyUserCosts := [], ct_monthlyHouseholdCosts := [],
     ct_monthlyTotal := 0\<rparr>"

fun rebuild_lines :: "string list \<Rightarrow> bool \<Rightarrow> cost_tracker \<Rightarrow> bool \<times> cost_tracker" where
  "rebuild_lines [] rebuilt ct = (rebuilt, ct)"
| "rebuild_lines (line # ls) rebuilt ct =
     (case read_row (ct_currentMonth ct) line of
        None \<Rightarrow> rebuild_lines ls rebuilt ct
      | Some row \<Rightarrow> rebuild_lines ls True (apply_row row ct))"

definition ct_rebuildFromLog :: "cost_tracker \<Rightarrow> bool \<times> cost_tracker" where
  "ct_rebuildFromLog ct =
     (case ct_usageFile ct of
        None \<Rightarrow> (False, ct)
      | Some content \<Rightarrow>
          if trim content = [] then (False, ct)
          else rebuild_lines (split_on newline content) False (ct_clear ct))"

section \<open>Header migration\<close>

text \<open>\<open>s.replace(pat, rep)\<close> for a non-empty string pattern: the first occurrence.\<close>

fun replace_first :: "string \<Rightarrow> string \<Rightarrow> string \<Rightarrow> string" where
  "replace_first pat rep [] = []"
| "replace_first pat rep (c # s) =
     (if starts_with pat (c # s) then rep @ drop (length pat) (c # s)
      else c # replace_first pat rep s)"

definition eightColHeader :: string where
  "eightColHeader = ''| Timestamp | Provider | Model | Input Tokens | Output Tokens | Cost ($) | App | User |''"

definition sevenColHeader :: string where
  "sevenColHeader = ''| Timestamp | Provider | Model | Input Tokens | Output Tokens | Cost ($) | App |''"

definition sixColHeader :: string where
  "sixColHeader = ''| Timestamp | Model | Input Tokens | Output Tokens | Cost ($) | App |''"

definition migrate_header :: "time \<Rightarrow> string \<Rightarrow> string" where
  "migrate_header now content =
     (let eol = (if str_includes [CHR 0x0D, newline] content then [CHR 0x0D, newline] else [newline]);
          marker = ''<!-- schema upgraded to 9-col at '' @ iso_string now @ '' -->''
      in if str_includes nineColHeader content then content
         else if str_includes eightColHeader content then
           replace_first ''|-----------|----------|-------|-------------|---------------|----------|-----|------|''
             (nineColSeparator @ eol @ marker) (replace_first eightColHeader nineColHeader content)
         else if str_includes sevenColHeader content then
           replace_first ''|-----------|----------|-------|-------------|---------------|----------|-----|''
             (nineColSeparator @ eol @ marker) (replace_first sevenColHeader nineColHeader content)
         else if str_includes sixColHeader content then
           replace_first ''|-----------|-------|-------------|---------------|----------|-----|''
             (nineColSeparator @ eol @ marker) (replace_first sixColHeader nineColHeader content)
         else content)"

definition ct_migrateUsageLogHeader :: "time \<Rightarrow> cost_tracker \<Rightarrow> cost_tracker" where
  "ct_migrateUsageLogHeader now ct =
     (case ct_usageFile ct of
        None \<Rightarrow> ct
      | Some content \<Rightarrow> ct\<lparr>ct_usageFile := Some (migrate_header now content)\<rparr>)"

section \<open>Start-up\<close>

text \<open>The numeric entries of a table of the cost cache; anything else is skipped.\<close>

fun load_entries :: "usd option jsmap \<Rightarrow> usd jsmap \<Rightarrow> usd jsmap" where
  "load_entries [] m = m"
| "load_entries ((k, Some c) # es) m = load_entries es (set_key k c m)"
| "load_entries ((k, None) # es) m = load_entries es m"

fun load_table :: "usd option jsmap option \<Rightarrow> usd jsmap \<Rightarrow> usd jsmap" where
  "load_table (Some t) m = load_entries t m"
| "load_table None m = m"

definition load_cached :: "monthly_cost_data \<Rightarrow> cost_tracker \<Rightarrow> cost_tracker" where
  "load_cached d ct =
     (let ct = ct\<lparr>ct_monthlyCosts := load_table (md_apps d) (ct_monthlyCosts ct),
                  ct_monthlyUserCosts := load_table (md_users d) (ct_monthlyUserCosts ct),
                  ct_monthlyHouseholdCosts := load_table (md_households d) (ct_monthlyHouseholdCosts ct),
                  ct_monthlyTotal := (case md_total d of Some t \<Rightarrow> t | None \<Rightarrow> 0)\<rparr>
      in if md_households d = None then
           (let (rebuilt, ct') = ct_rebuildFromLog ct;
                ct'' = (if \<not> rebuilt
                        then ct'\<lparr>ct_monthlyCosts := ct_monthlyCosts ct,
                                 ct_monthlyUserCosts := ct_monthlyUserCosts ct,
                                 ct_monthlyTotal := ct_monthlyTotal ct,
                                 ct_monthlyHouseholdCosts := []\<rparr>
                        else ct')
            in ct_schedulePersist ct'')
         else ct)"

definition ct_loadMonthlyCache :: "time \<Rightarrow> cost_tracker \<Rightarrow> cost_tracker" where
  "ct_loadMonthlyCache now ct =
     (let ct = ct\<lparr>ct_currentMonth := iso_month now\<rparr>;
          cached = (case ct_costFile ct of
                      FileParsed d \<Rightarrow> if md_month d = ct_currentMonth ct then Some d else None
                    | _ \<Rightarrow> None);
          ct = (case cached of
                  Some d \<Rightarrow> load_cached d ct
                | None \<Rightarrow>
                    (let (rebuilt, ct') = ct_rebuildFromLog ct
                     in if rebuilt then ct_schedulePersist ct' else ct'))
      in ct_migrateUsageLogHeader now ct)"

section \<open>Rows survive the round trip\<close>

lemma trim_Cons_ws [simp]: "is_ws x \<Longrightarrow> trim (x # s) = trim s"
  by (simp add: trim_def)

lemma trim_snoc_ws [simp]: "is_ws x \<Longrightarrow> trim (s @ [x]) = trim s"
proof (cases "\<forall>c \<in> set s. is_ws c")
  case True
  assume "is_ws x"
  with True have "dropWhile is_ws (s @ [x]) = []" "dropWhile is_ws s = []"
    unfolding dropWhile_eq_Nil_conv by simp_all
  then show ?thesis unfolding trim_def by (simp only:)
next
  case False
  assume "is_ws x"
  moreover have "dropWhile is_ws (s @ [x]) = dropWhile is_ws s @ [x]"
    using False by (auto simp: dropWhile_append)
  ultimately show ?thesis by (simp add: trim_def)
qed

lemma is_ws_space [simp]: "is_ws CHR '' ''"
  by (simp add: is_ws_def)

lemma dropWhile_none: "list_all (\<lambda>c. \<not> P c) s \<Longrightarrow> dropWhile P s = s"
  by (cases s) simp_all

lemma trim_no_ws: "list_all (\<lambda>c. \<not> is_ws c) s \<Longrightarrow> trim s = s"
  by (simp add: trim_def dropWhile_none list_all_rev)

lemma split_cells:
  "\<forall>c \<in> set cs. CHR ''|'' \<notin> set c \<Longrightarrow>
   split_on CHR ''|'' (concat (map (\<lambda>c. '' '' @ c @ '' |'') cs)) = map (\<lambda>c. '' '' @ c @ '' '') cs @ [[]]"
proof (induction cs)
  case (Cons c cs)
  then have "split_on CHR ''|'' (('' '' @ c @ '' '') @ CHR ''|'' # concat (map (\<lambda>c. '' '' @ c @ '' |'') cs))
      = ('' '' @ c @ '' '') # map (\<lambda>c. '' '' @ c @ '' '') cs @ [[]]"
    by (subst split_on_append) simp_all
  then show ?case by simp
qed simp

lemma trim_spaced: "trim ('' '' @ c @ '' '') = trim c"
  using trim_snoc_ws [of "CHR '' ''" c] by simp

lemma usage_cells_line:
  assumes "\<forall>c \<in> set cs. CHR ''|'' \<notin> set c"
  shows "usage_cells (''|'' @ concat (map (\<lambda>c. '' '' @ c @ '' |'') cs)) = map trim cs"
proof -
  have "split_on CHR ''|'' (''|'' @ concat (map (\<lambda>c. '' '' @ c @ '' |'') cs)) =
      [] # map (\<lambda>c. '' '' @ c @ '' '') cs @ [[]]"
    using split_cells [OF assms] by simp
  moreover have "trim [] = []" by (simp add: trim_def)
  ultimately have "map trim (split_on CHR ''|'' (''|'' @ concat (map (\<lambda>c. '' '' @ c @ '' |'') cs))) =
      [] # map trim cs @ [[]]"
    using trim_spaced by (simp only: list.map map_append map_map o_def)
  then show ?thesis
    by (simp add: usage_cells_def Let_def butlast_append)
qed

text \<open>
  Identifiers the log can carry: no bar, no line break, no surrounding white space, and not
  the placeholder for a missing one.
\<close>

definition log_clean :: "string option \<Rightarrow> bool" where
  "log_clean x \<longleftrightarrow>
     (case x of None \<Rightarrow> True | Some s \<Rightarrow> log_safe s = s \<and> trim s = s \<and> s \<noteq> ''-'')"

definition entry_clean :: "string \<Rightarrow> usage_entry \<Rightarrow> bool" where
  "entry_clean month e \<longleftrightarrow>
     (\<exists>t. ue_timestamp e = iso_string t \<and> iso_month t = month) \<and>
     0 \<le> ue_estimatedCost e \<and> micro (ue_estimatedCost e) \<and>
     log_clean (ue_appId e) \<and> log_clean (ue_userId e) \<and> log_clean (ue_householdId e)"

definition row_of :: "usage_entry \<Rightarrow> usage_row" where
  "row_of e = \<lparr>row_cost = ue_estimatedCost e, row_app = ue_appId e, row_user = ue_userId e,
               row_household = ue_householdId e\<rparr>"

lemma log_safe_no_bar: "CHR ''|'' \<notin> set (log_safe s)" "newline \<notin> set (log_safe s)"
  by (auto simp: log_safe_def)

lemma digits_no_bar:
  assumes "list_all is_digit s"
  shows "CHR ''|'' \<notin> set s" "newline \<notin> set s" "trim s = s"
  using assms digit_plain by (force simp: list_all_iff, force simp: list_all_iff,
    intro trim_no_ws) (auto simp: list_all_iff digit_plain)

definition fixed_char :: "char \<Rightarrow> bool" where
  "fixed_char c \<longleftrightarrow> is_digit c \<or> c = CHR ''-'' \<or> c = CHR ''.''"

lemma toFixed6_chars: "list_all fixed_char (toFixed6 x)"
proof -
  have "list_all fixed_char s" if "list_all is_digit s" for s
    using that by (auto simp: list_all_iff fixed_char_def)
  then show ?thesis
    by (simp add: toFixed6_def Let_def) (simp add: fixed_char_def)
qed

lemma fixed_char_plain: "fixed_char c \<Longrightarrow> c \<noteq> CHR ''|'' \<and> c \<noteq> newline \<and> \<not> is_ws c"
  by (auto simp: fixed_char_def is_digit_def is_ws_def)

lemma toFixed6_plain:
  "CHR ''|'' \<notin> set (toFixed6 x)" "newline \<notin> set (toFixed6 x)" "trim (toFixed6 x) = toFixed6 x"
  using toFixed6_chars [of x] fixed_char_plain
  by (force simp: list_all_iff, force simp: list_all_iff, intro trim_no_ws) (auto simp: list_all_iff)

lemma iso_string_plain:
  "CHR ''|'' \<notin> set (iso_string t)" "newline \<notin> set (iso_string t)" "trim (iso_string t) = iso_string t"
  using iso_string_chars [of t] iso_char_plain
  by (force simp: list_all_iff, force simp: list_all_iff, intro trim_no_ws) (auto simp: list_all_iff)

lemmas plain_cells = digits_no_bar [OF dec_digits] toFixed6_plain iso_string_plain log_safe_no_bar

lemma usage_cells_of_plain:
  assumes "entry_clean month e"
  shows "\<forall>c \<in> set (usage_cells_of e). CHR ''|'' \<notin> set c \<and> newline \<notin> set c"
  using assms by (auto simp: usage_cells_of_def entry_clean_def plain_cells)

lemma undash_clean: "log_clean x \<Longrightarrow> undash (trim (log_safe (or_dash x))) = x"
proof (cases x)
  case None
  have "trim ''-'' = ''-''" by (simp add: trim_def is_ws_def)
  then show ?thesis by (simp add: None undash_def log_safe_def)
qed (simp add: log_clean_def undash_def)

lemma usage_line_start:
  assumes "entry_clean month e" "starts_with ''20'' month"
  shows "starts_with ''| 20'' (usage_line e)"
proof -
  obtain t where t: "ue_timestamp e = iso_string t" "iso_month t = month"
    using assms(1) by (auto simp: entry_clean_def)
  have "starts_with ''20'' (iso_string t)"
    using iso_string_month [of t] assms(2) t(2) by (auto simp: starts_with_iff)
  then show ?thesis
    by (auto simp: usage_line_def usage_cells_of_def t(1) starts_with_iff)
qed

text \<open>A written row reads back as the entry it was written for.\<close>

lemma read_row_usage_line:
  assumes "entry_clean month e" "starts_with ''20'' month"
  shows "read_row month (usage_line e) = Some (row_of e)"
proof -
  obtain t where t: "ue_timestamp e = iso_string t" "iso_month t = month"
    using assms(1) by (auto simp: entry_clean_def)
  have cells: "usage_cells (usage_line e) = map trim (usage_cells_of e)"
    unfolding usage_line_def
    using usage_cells_of_plain [OF assms(1)] by (intro usage_cells_line) blast
  have "starts_with month (iso_string t)" using iso_string_month t(2) by blast
  moreover have "parse_float (toFixed6 (ue_estimatedCost e)) = Fin (ue_estimatedCost e)"
    using assms(1) by (intro parse_float_toFixed6) (simp_all add: entry_clean_def)
  ultimately show ?thesis
    using assms(1) undash_clean
    by (simp add: read_row_def usage_line_start [OF assms] cells usage_cells_of_def t(1)
        plain_cells row_of_def entry_clean_def Let_def)
qed

lemma usage_line_no_newline:
  assumes "entry_clean month e"
  shows "newline \<notin> set (usage_line e)"
  using usage_cells_of_plain [OF assms] by (auto simp: usage_line_def)

text \<open>Reading the file written for a list of entries.\<close>

definition usage_content :: "usage_entry list \<Rightarrow> string" where
  "usage_content es = usage_header @ concat (map (\<lambda>e. usage_line e @ [newline]) es)"

lemma usage_content_nonblank: "trim (usage_content es @ s) \<noteq> []"
proof -
  have h: "\<not> is_ws CHR ''#''" by (simp add: is_ws_def)
  obtain r where r: "usage_content es @ s = CHR ''#'' # r"
    by (simp add: usage_content_def usage_header_def)
  have "dropWhile is_ws (rev r @ [CHR ''#'']) \<noteq> []"
    using h by (simp add: dropWhile_eq_Nil_conv)
  with h show ?thesis by (simp add: trim_def r)
qed

lemma append_usage_content: "append_usage e (Some (usage_content es)) = usage_content (es @ [e])"
  using usage_content_nonblank [of es "[]"] by (simp add: append_usage_def usage_content_def)

lemma append_usage_first: "append_usage e None = usage_content [e]"
  by (simp add: append_usage_def usage_content_def trim_def)

lemma split_lines:
  "\<forall>l \<in> set ls. newline \<notin> set l \<Longrightarrow>
   split_on newline (concat (map (\<lambda>l. l @ [newline]) ls)) = ls @ [[]]"
proof (induction ls)
  case (Cons l ls)
  then show ?case using split_on_append [of newline l] by simp
qed simp

lemma split_usage_content:
  assumes "\<forall>e \<in> set es. entry_clean month e"
  shows "split_on newline (usage_content es) =
    [''# LLM Usage Log'', [], nineColHeader, nineColSeparator] @ map usage_line es @ [[]]"
proof -
  have "usage_content es = concat (map (\<lambda>l. l @ [newline])
      ([''# LLM Usage Log'', [], nineColHeader, nineColSeparator] @ map usage_line es))"
    by (simp add: usage_content_def usage_header_def o_def)
  moreover have "newline \<notin> set nineColHeader" "newline \<notin> set nineColSeparator"
    by (simp_all add: nineColHeader_def nineColSeparator_def)
  ultimately show ?thesis
    using assms usage_line_no_newline
    by (simp only:) (subst split_lines, auto)
qed

lemma apply_row_month [simp]: "ct_currentMonth (apply_row r ct) = ct_currentMonth ct"
  by (simp add: apply_row_def)

lemma rebuild_lines_entries:
  assumes "\<forall>e \<in> set es. entry_clean (ct_currentMonth ct) e" "starts_with ''20'' (ct_currentMonth ct)"
  shows "rebuild_lines (map usage_line es @ [[]]) b ct =
    (b \<or> es \<noteq> [], fold (\<lambda>e. apply_row (row_of e)) es ct)"
  using assms
proof (induction es arbitrary: b ct)
  case Nil
  then show ?case by (simp add: read_row_def starts_with_def)
next
  case (Cons e es)
  then have "read_row (ct_currentMonth ct) (usage_line e) = Some (row_of e)"
    by (intro read_row_usage_line) simp_all
  with Cons show ?case by simp
qed

lemma rebuild_content:
  assumes "ct_usageFile ct = Some (usage_content es)"
    "\<forall>e \<in> set es. entry_clean (ct_currentMonth ct) e" "starts_with ''20'' (ct_currentMonth ct)"
  shows "ct_rebuildFromLog ct = (es \<noteq> [], fold (\<lambda>e. apply_row (row_of e)) es (ct_clear ct))"
proof -
  have skip: "read_row m l = None" if "\<not> starts_with ''| 20'' l" for m l
    using that by (simp add: read_row_def)
  have "\<not> starts_with ''| 20'' l"
    if "l \<in> {''# LLM Usage Log'', [], nineColHeader, nineColSeparator}" for l
    using that by (auto simp: starts_with_def nineColHeader_def nineColSeparator_def)
  then have "rebuild_lines (split_on newline (usage_content es)) False (ct_clear ct) =
      rebuild_lines (map usage_line es @ [[]]) False (ct_clear ct)"
    by (simp add: split_usage_content [OF assms(2)] skip)
  also have "\<dots> = (es \<noteq> [], fold (\<lambda>e. apply_row (row_of e)) es (ct_clear ct))"
    using assms(2,3) rebuild_lines_entries [of es "ct_clear ct" False] by (simp add: ct_clear_def)
  finally show ?thesis
    using usage_content_nonblank [of es "[]"] by (simp add: ct_rebuildFromLog_def assms(1))
qed

section \<open>Runs of the tracker\<close>

text \<open>
  Everything that can happen to a tracker between two awaits, including the timers, a queued
  write completing and the disk becoming (un)writable.
\<close>

datatype ct_event =
    CtRecord usage_input
  | CtReserve string string "string option" "string option" jsnum
  | CtRelease string
  | CtReadHousehold string
  | CtReadApp string
  | CtReadUser string
  | CtReadTotal
  | CtCleanup
  | CtPersist
  | CtDrain
  | CtFlush
  | CtWritable bool

fun ct_step :: "time \<Rightarrow> ct_event \<Rightarrow> cost_tracker \<Rightarrow> cost_tracker" where
  "ct_step now (CtRecord ui) ct = ct_record now ui ct"
| "ct_step now (CtReserve uuid hh a u amount) ct =
     (case ct_reserveEstimated now uuid hh a u amount ct of Inl _ \<Rightarrow> ct | Inr (_, ct') \<Rightarrow> ct')"
| "ct_step now (CtRelease rid) ct = ct_releaseReservation rid ct"
| "ct_step now (CtReadHousehold hh) ct = snd (ct_getMonthlyHouseholdCost now hh ct)"
| "ct_step now (CtReadApp a) ct = snd (ct_getMonthlyAppCost now a ct)"
| "ct_step now (CtReadUser u) ct = snd (ct_getMonthlyUserCost now u ct)"
| "ct_step now CtReadTotal ct = snd (ct_getMonthlyTotalCost now ct)"
| "ct_step now CtCleanup ct = ct_cleanupTick now ct"
| "ct_step now CtPersist ct = ct_persistTick ct"
| "ct_step now CtDrain ct = ct_drain ct"
| "ct_step now CtFlush ct = ct_flush ct"
| "ct_step now (CtWritable b) ct = ct\<lparr>ct_writable := b\<rparr>"

fun ct_run :: "(time \<times> ct_event) list \<Rightarrow> cost_tracker \<Rightarrow> cost_tracker" where
  "ct_run [] ct = ct"
| "ct_run ((now, e) # es) ct = ct_run es (ct_step now e ct)"

text \<open>The totals of two trackers agree.\<close>

definition same_totals :: "cost_tracker \<Rightarrow> cost_tracker \<Rightarrow> bool" where
  "same_totals a b \<longleftrightarrow>
     ct_monthlyCosts a = ct_monthlyCosts b \<and> ct_monthlyUserCosts a = ct_monthlyUserCosts b \<and>
     ct_monthlyHouseholdCosts a = ct_monthlyHouseholdCosts b \<and> ct_monthlyTotal a = ct_monthlyTotal b"

lemma same_totals_refl [simp]: "same_totals a a"
  by (simp add: same_totals_def)

lemma same_totals_sym: "same_totals a b \<Longrightarrow> same_totals b a"
  by (simp add: same_totals_def)

lemma same_totals_trans: "same_totals a b \<Longrightarrow> same_totals b c \<Longrightarrow> same_totals a c"
  by (simp add: same_totals_def)

lemma same_totals_row: "same_totals a b \<Longrightarrow> same_totals (apply_row r a) (apply_row r b)"
  by (simp add: same_totals_def apply_row_def)

lemma same_totals_fold: "same_totals a b \<Longrightarrow> same_totals (fold (\<lambda>e. apply_row (row_of e)) es a) (fold (\<lambda>e. apply_row (row_of e)) es b)"
  by (induction es arbitrary: a b) (simp_all add: same_totals_row)

lemma same_totals_wf:
  assumes "same_totals a b"
  shows "ct_attributed a \<longleftrightarrow> ct_attributed b"
  using assms by (simp add: same_totals_def ct_attributed_def)

text \<open>The log entry of a call, and a call's effect as an applied row.\<close>

definition entry_of :: "time \<Rightarrow> usage_input \<Rightarrow> usage_entry" where
  "entry_of now ui =
     \<lparr>ue_timestamp = iso_string now, ue_provider = ui_provider ui, ue_model = ui_model ui,
      ue_inputTokens = safeTokenCount (ui_inputTokens ui),
      ue_outputTokens = safeTokenCount (ui_outputTokens ui), ue_estimatedCost = ct_cost_of ui,
      ue_appId = ui_appId ui, ue_userId = ui_userId ui,
      ue_householdId = effective_household (ui_householdId ui)\<rparr>"

lemma ct_cost_of_ok [simp]: "0 \<le> ct_cost_of ui" "micro (ct_cost_of ui)"
  by (simp_all add: ct_cost_of_def estimateCallCost_nonneg)

lemma ct_record_totals:
  "same_totals (ct_record now ui ct) (apply_row (row_of (entry_of now ui)) (ct_checkMonthRollover now ct))"
  by (simp add: same_totals_def ct_record_def ct_updateMonthlyCache_def apply_row_def row_of_def
      entry_of_def ct_cost_of_def Let_def)

lemma ct_record_frame [simp]:
  "ct_writeQueue (ct_record now ui ct) = ct_writeQueue ct @ [entry_of now ui]"
  "ct_currentMonth (ct_record now ui ct) = iso_month now"
  "ct_reservations (ct_record now ui ct) = ct_reservations (ct_checkMonthRollover now ct)"
  by (simp_all add: ct_record_def ct_updateMonthlyCache_def entry_of_def ct_cost_of_def Let_def)

lemma ct_wf_totals:
  assumes "ct_wf a" "same_totals b a" "distinct (keys (ct_reservations b))"
    "\<forall>(_, r) \<in> set (ct_reservations b). 0 \<le> r_amount r"
  shows "ct_wf b"
  using assms by (simp add: ct_wf_def same_totals_def)

lemma apply_row_wf:
  assumes "ct_wf ct" "0 \<le> row_cost r" "micro (row_cost r)"
  shows "ct_wf (apply_row r ct)"
  using assms by (simp add: ct_wf_def apply_row_def totals_ok_bump round6_nonneg)

lemma apply_row_attributed:
  assumes "ct_wf ct" "ct_attributed ct" "0 \<le> row_cost r" "micro (row_cost r)"
  shows "ct_attributed (apply_row r ct)"
  using assms
  by (auto simp: ct_attributed_def apply_row_def ct_wf_def total_of_bump round6_micro)

lemma drain_frame [simp]:
  "ct_monthlyCosts (ct_drain ct) = ct_monthlyCosts ct"
  "ct_monthlyUserCosts (ct_drain ct) = ct_monthlyUserCosts ct"
  "ct_monthlyHouseholdCosts (ct_drain ct) = ct_monthlyHouseholdCosts ct"
  "ct_monthlyTotal (ct_drain ct) = ct_monthlyTotal ct"
  "ct_reservations (ct_drain ct) = ct_reservations ct"
  "ct_currentMonth (ct_drain ct) = ct_currentMonth ct"
  "ct_writable (ct_drain ct) = ct_writable ct"
  by (simp_all add: ct_drain_def split: list.split)

text \<open>A step either rolls over at most and leaves the totals alone, or records one call.\<close>

lemma ct_step_totals:
  assumes "\<And>ui. e \<noteq> CtRecord ui"
  shows "same_totals (ct_step now e ct) ct \<or> same_totals (ct_step now e ct) (ct_checkMonthRollover now ct)"
  using assms
  by (cases e)
     (auto simp: same_totals_def ct_reserveEstimated_def ct_releaseReservation_def
       ct_getMonthlyHouseholdCost_def ct_getMonthlyAppCost_def ct_getMonthlyUserCost_def
       ct_getMonthlyTotalCost_def ct_cleanupTick_def ct_persistTick_def ct_flush_def Let_def
       split: option.split)

lemma rollover_reservations:
  "set (ct_reservations (ct_checkMonthRollover now ct)) \<subseteq> set (ct_reservations ct)"
  "distinct (keys (ct_reservations ct)) \<Longrightarrow> distinct (keys (ct_reservations (ct_checkMonthRollover now ct)))"
  by (simp_all add: ct_checkMonthRollover_def Let_def)

lemma distinct_filter_keys: "distinct (keys m) \<Longrightarrow> distinct (keys (filter P m))"
  by (induction m) auto

lemma ct_step_reservations:
  assumes "ct_wf ct"
  shows "distinct (keys (ct_reservations (ct_step now e ct))) \<and>
    (\<forall>(_, r) \<in> set (ct_reservations (ct_step now e ct)). 0 \<le> r_amount r)"
proof -
  have d: "distinct (keys (ct_reservations ct))" and a: "\<forall>(_, r) \<in> set (ct_reservations ct). 0 \<le> r_amount r"
    using assms by (simp_all add: ct_wf_def)
  note roll = rollover_reservations(1) [of now ct] rollover_reservations(2) [OF d, of now]
  show ?thesis
  proof (cases e)
    case (CtReserve uuid hh app user amount)
    let ?r = "\<lparr>r_householdId = hh, r_appId = app, r_userId = user, r_amount = num_val amount,
      r_expiresAt = now + 60000\<rparr>"
    have "set (set_key uuid ?r (ct_reservations ct)) \<subseteq> insert (uuid, ?r) (set (ct_reservations ct))"
      by (rule set_key_subset)
    then show ?thesis
      using d a by (cases amount) (force simp: CtReserve ct_reserveEstimated_def)+
  next
    case (CtRelease rid)
    have "set (del_key rid (ct_reservations ct)) \<subseteq> set (ct_reservations ct)"
      by (auto simp: del_key_filter)
    then show ?thesis
      using d a by (force simp: CtRelease ct_releaseReservation_def split: option.split)
  next
    case CtCleanup
    then show ?thesis
      using d a by (auto simp: ct_cleanupTick_def distinct_filter_keys)
  qed (use d a roll in \<open>auto simp: ct_getMonthlyHouseholdCost_def ct_getMonthlyAppCost_def
    ct_getMonthlyUserCost_def ct_getMonthlyTotalCost_def ct_persistTick_def ct_flush_def Let_def\<close>)
qed

lemma ct_step_wf:
  assumes "ct_wf ct" "ct_attributed ct"
  shows "ct_wf (ct_step now e ct) \<and> ct_attributed (ct_step now e ct)"
proof -
  note res = ct_step_reservations [OF assms(1), of now e]
  note roll = ct_wf_rollover [OF assms(1), of now] ct_attributed_rollover [OF assms(2), of now]
  show ?thesis
  proof (cases "\<exists>ui. e = CtRecord ui")
    case True
    then obtain ui where e: "e = CtRecord ui" by blast
    let ?r = "row_of (entry_of now ui)"
    have r: "0 \<le> row_cost ?r" "micro (row_cost ?r)" by (simp_all add: row_of_def entry_of_def)
    have tot: "same_totals (ct_step now e ct) (apply_row ?r (ct_checkMonthRollover now ct))"
      using ct_record_totals by (simp add: e)
    then show ?thesis
      using apply_row_wf [OF roll(1) r] apply_row_attributed [OF roll r] res ct_wf_totals
        same_totals_wf by blast
  next
    case False
    then consider "same_totals (ct_step now e ct) ct"
      | "same_totals (ct_step now e ct) (ct_checkMonthRollover now ct)"
      using ct_step_totals by blast
    then show ?thesis
      using assms roll res ct_wf_totals same_totals_wf by cases blast+
  qed
qed

lemma ct_run_wf:
  "ct_wf ct \<Longrightarrow> ct_attributed ct \<Longrightarrow> ct_wf (ct_run es ct) \<and> ct_attributed (ct_run es ct)"
proof (induction es arbitrary: ct)
  case (Cons te es)
  then show ?case using ct_step_wf by (cases te) simp
qed simp

text \<open>A clean install at \<open>t0\<close>: no cost cache and no usage log.\<close>

definition clean_start :: "time \<Rightarrow> cost_tracker" where
  "clean_start t0 = ct_loadMonthlyCache t0 (new_cost_tracker FileMissing None)"

lemma clean_start_eq:
  "clean_start t0 = (new_cost_tracker FileMissing None)\<lparr>ct_currentMonth := iso_month t0\<rparr>"
  by (simp add: clean_start_def ct_loadMonthlyCache_def new_cost_tracker_def ct_rebuildFromLog_def
      ct_migrateUsageLogHeader_def Let_def)

lemma clean_start_wf: "ct_wf (clean_start t0)" "ct_attributed (clean_start t0)"
  by (simp_all add: clean_start_eq new_cost_tracker_def ct_wf_def ct_attributed_def total_of_def)

subsection \<open>The log accounts for the totals\<close>

text \<open>The entries written so far and those still queued, in order, explain the totals.\<close>

definition file_of :: "usage_entry list \<Rightarrow> string option" where
  "file_of ws = (if ws = [] then None else Some (usage_content ws))"

definition totals_from :: "usage_entry list \<Rightarrow> cost_tracker \<Rightarrow> cost_tracker" where
  "totals_from es ct = fold (\<lambda>e. apply_row (row_of e)) es (ct_clear ct)"

definition log_explains :: "string \<Rightarrow> usage_entry list \<Rightarrow> cost_tracker \<Rightarrow> bool" where
  "log_explains month ws ct \<longleftrightarrow>
     ct_usageFile ct = file_of ws \<and> ct_currentMonth ct = month \<and> ct_writable ct \<and>
     (\<forall>e \<in> set (ws @ ct_writeQueue ct). entry_clean month e) \<and>
     same_totals ct (totals_from (ws @ ct_writeQueue ct) ct)"

lemma totals_from_indep: "same_totals (totals_from es a) (totals_from es b)"
  unfolding totals_from_def by (rule same_totals_fold) (simp add: same_totals_def ct_clear_def)

lemma log_explains_drain:
  assumes "log_explains month ws ct"
  shows "log_explains month (ws @ take 1 (ct_writeQueue ct)) (ct_drain ct)"
proof (cases "ct_writeQueue ct")
  case Nil
  then show ?thesis using assms by (simp add: ct_drain_def)
next
  case (Cons e es)
  have "append_usage e (file_of ws) = usage_content (ws @ [e])"
    by (simp add: file_of_def append_usage_first append_usage_content)
  then show ?thesis
    using assms Cons totals_from_indep [of "ws @ e # es" ct "ct_drain ct"]
    by (auto simp: log_explains_def ct_drain_def file_of_def same_totals_def)
qed

text \<open>Inside the month and with a working disk, every step keeps the account.\<close>

fun quiet :: "string \<Rightarrow> time \<times> ct_event \<Rightarrow> bool" where
  "quiet month (t, CtWritable b) = (iso_month t = month \<and> b)"
| "quiet month (t, CtRecord ui) = (iso_month t = month \<and> log_clean (ui_appId ui) \<and>
     log_clean (ui_userId ui) \<and> log_clean (effective_household (ui_householdId ui)))"
| "quiet month (t, e) = (iso_month t = month)"

lemma log_explains_other:
  assumes "log_explains month ws ct" "same_totals ct' ct" "ct_usageFile ct' = ct_usageFile ct"
    "ct_writeQueue ct' = ct_writeQueue ct" "ct_currentMonth ct' = ct_currentMonth ct" "ct_writable ct'"
  shows "log_explains month ws ct'"
proof -
  have "same_totals ct' (totals_from (ws @ ct_writeQueue ct) ct')"
    using assms(1,2) totals_from_indep same_totals_trans unfolding log_explains_def by blast
  then show ?thesis using assms by (simp add: log_explains_def)
qed

lemma log_explains_record:
  assumes "log_explains month ws ct" "quiet month (now, CtRecord ui)"
  shows "log_explains month ws (ct_record now ui ct)"
proof -
  let ?e = "entry_of now ui" and ?ct = "ct_record now ui ct" and ?q = "ws @ ct_writeQueue ct"
  have now: "iso_month now = month" "ct_currentMonth ct = month"
    using assms by (simp_all add: log_explains_def)
  then have "same_totals ?ct (apply_row (row_of ?e) ct)"
    using ct_record_totals [of now ui ct] by simp
  also have "same_totals (apply_row (row_of ?e) ct) (apply_row (row_of ?e) (totals_from ?q ct))"
    using assms(1) by (intro same_totals_row) (simp add: log_explains_def)
  also (same_totals_trans) have "apply_row (row_of ?e) (totals_from ?q ct) = totals_from (?q @ [?e]) ct"
    by (simp add: totals_from_def)
  finally have "same_totals ?ct (totals_from (?q @ [?e]) ?ct)"
    using totals_from_indep same_totals_trans by blast
  moreover have "entry_clean month ?e"
    using assms(2) now(1) by (auto simp: entry_clean_def entry_of_def)
  moreover have "ct_usageFile ?ct = ct_usageFile ct" "ct_writable ?ct = ct_writable ct"
    using now by (simp_all add: ct_record_def ct_updateMonthlyCache_def ct_schedulePersist_def Let_def)
  ultimately show ?thesis
    using assms(1) now by (simp add: log_explains_def)
qed

lemma ct_step_quiet_frame:
  assumes "\<And>ui. e \<noteq> CtRecord ui" "e \<noteq> CtDrain" "\<And>b. e \<noteq> CtWritable b" "iso_month now = ct_currentMonth ct"
  shows "same_totals (ct_step now e ct) ct \<and> ct_usageFile (ct_step now e ct) = ct_usageFile ct \<and>
    ct_writeQueue (ct_step now e ct) = ct_writeQueue ct \<and>
    ct_currentMonth (ct_step now e ct) = ct_currentMonth ct \<and> ct_writable (ct_step now e ct) = ct_writable ct"
  using assms
  by (cases e)
     (auto simp: same_totals_def ct_reserveEstimated_def ct_releaseReservation_def
       ct_getMonthlyHouseholdCost_def ct_getMonthlyAppCost_def ct_getMonthlyUserCost_def
       ct_getMonthlyTotalCost_def ct_cleanupTick_def ct_persistTick_def ct_flush_def
       ct_persistMonthlyCosts_def Let_def split: option.split)

lemma quiet_month: "quiet month (t, e) \<Longrightarrow> iso_month t = month"
  by (cases e) simp_all

lemma log_explains_step:
  assumes "log_explains month ws ct" "quiet month (now, e)"
  shows "\<exists>ws'. log_explains month ws' (ct_step now e ct)"
proof -
  consider (rec) ui where "e = CtRecord ui" | (drain) "e = CtDrain" | (disk) b where "e = CtWritable b"
    | (other) "\<And>ui. e \<noteq> CtRecord ui" "e \<noteq> CtDrain" "\<And>b. e \<noteq> CtWritable b"
    by blast
  then show ?thesis
  proof cases
    case rec
    then show ?thesis using log_explains_record [OF assms(1)] assms(2) by auto
  next
    case drain
    then show ?thesis using log_explains_drain [OF assms(1)] by auto
  next
    case disk
    then show ?thesis
      using assms by (intro exI [of _ ws] log_explains_other [OF assms(1)]) (simp_all add: same_totals_def)
  next
    case other
    have "iso_month now = ct_currentMonth ct" "ct_writable ct"
      using quiet_month [OF assms(2)] assms(1) by (simp_all add: log_explains_def)
    with ct_step_quiet_frame [OF other, of now ct] show ?thesis
      using log_explains_other [OF assms(1)] by metis
  qed
qed

lemma log_explains_run:
  assumes "log_explains month ws ct" "\<forall>te \<in> set es. quiet month te"
  shows "\<exists>ws'. log_explains month ws' (ct_run es ct)"
  using assms
proof (induction es arbitrary: ws ct)
  case (Cons te es)
  obtain t e where te: "te = (t, e)" by (cases te)
  with Cons.prems obtain ws' where "log_explains month ws' (ct_step t e ct)"
    using log_explains_step by fastforce
  with Cons.IH Cons.prems(2) te show ?case by simp
qed auto

lemma length_drain [simp]: "length (ct_writeQueue (ct_drain ct)) = length (ct_writeQueue ct) - 1"
  by (simp add: ct_drain_def split: list.split)

lemma log_explains_drain_all:
  "log_explains month ws ct \<Longrightarrow> n = length (ct_writeQueue ct) \<Longrightarrow>
   \<exists>ws'. log_explains month ws' (ct_drain_n n ct) \<and> ct_writeQueue (ct_drain_n n ct) = [] \<and>
     same_totals (ct_drain_n n ct) ct"
proof (induction n arbitrary: ws ct)
  case (Suc n)
  have "log_explains month (ws @ take 1 (ct_writeQueue ct)) (ct_drain ct)"
    using Suc.prems(1) by (rule log_explains_drain)
  moreover have "n = length (ct_writeQueue (ct_drain ct))" using Suc.prems(2) by simp
  ultimately obtain ws' where "log_explains month ws' (ct_drain_n n (ct_drain ct))"
    "ct_writeQueue (ct_drain_n n (ct_drain ct)) = []" "same_totals (ct_drain_n n (ct_drain ct)) (ct_drain ct)"
    using Suc.IH by blast
  moreover have "same_totals (ct_drain ct) ct" by (simp add: same_totals_def)
  ultimately show ?case using same_totals_trans by auto
qed auto

lemma log_explains_start:
  "log_explains (iso_month t0) [] (clean_start t0)"
  by (simp add: log_explains_def clean_start_eq new_cost_tracker_def file_of_def totals_from_def
      ct_clear_def same_totals_def)

text \<open>Starting up on the log alone.\<close>

lemma load_from_log:
  assumes "log_explains month ws ct" "ct_writeQueue ct = []" "starts_with ''20'' month"
    "iso_month now = month" "\<And>d. cf = FileParsed d \<Longrightarrow> md_month d \<noteq> month"
  shows "same_totals (ct_loadMonthlyCache now (new_cost_tracker cf (ct_usageFile ct))) ct"
proof -
  let ?n = "(new_cost_tracker cf (ct_usageFile ct))\<lparr>ct_currentMonth := iso_month now\<rparr>"
  have uf: "ct_usageFile ?n = file_of ws" and mo: "ct_currentMonth ?n = month"
    using assms(1,4) by (simp_all add: new_cost_tracker_def log_explains_def)
  have clear: "same_totals (ct_clear ?n) ?n"
    by (simp add: same_totals_def ct_clear_def new_cost_tracker_def)
  have "same_totals (snd (ct_rebuildFromLog ?n)) (totals_from ws ?n)"
  proof (cases "ws = []")
    case True
    then show ?thesis
      using uf clear by (simp add: file_of_def ct_rebuildFromLog_def totals_from_def same_totals_sym)
  next
    case False
    then have "ct_usageFile ?n = Some (usage_content ws)" using uf by (simp add: file_of_def)
    moreover have "\<forall>e \<in> set ws. entry_clean (ct_currentMonth ?n) e"
      using assms(1) mo by (simp add: log_explains_def)
    ultimately show ?thesis
      using rebuild_content [of ?n ws] mo assms(3) by (simp add: totals_from_def)
  qed
  also have "same_totals (totals_from ws ?n) ct"
    using assms(1,2) totals_from_indep same_totals_sym same_totals_trans
    unfolding log_explains_def by (metis append_Nil2)
  finally (same_totals_trans) have *: "same_totals (snd (ct_rebuildFromLog ?n)) ct" .
  have load: "ct_loadMonthlyCache now (new_cost_tracker cf (ct_usageFile ct)) =
      ct_migrateUsageLogHeader now
        (if fst (ct_rebuildFromLog ?n) then ct_schedulePersist (snd (ct_rebuildFromLog ?n))
         else snd (ct_rebuildFromLog ?n))"
    using assms(4,5) by (cases cf) (simp_all add: ct_loadMonthlyCache_def new_cost_tracker_def split_def)
  have mig: "same_totals (ct_migrateUsageLogHeader now c) c" for c
    by (simp add: ct_migrateUsageLogHeader_def same_totals_def split: option.split)
  have "same_totals (ct_loadMonthlyCache now (new_cost_tracker cf (ct_usageFile ct))) (snd (ct_rebuildFromLog ?n))"
    unfolding load using mig by (simp add: same_totals_def)
  with * show ?thesis using same_totals_trans by blast
qed

subsection \<open>The cost cache\<close>

lemma load_entries_some:
  "distinct (keys (acc @ m)) \<Longrightarrow> load_entries (map (apsnd Some) m) acc = acc @ m"
proof (induction m arbitrary: acc)
  case (Cons p m)
  obtain k c where p: "p = (k, c)" by (cases p)
  with Cons.prems have "set_key k c acc = acc @ [(k, c)]"
    by (intro set_key_new) auto
  moreover have "distinct (keys ((acc @ [(k, c)]) @ m))" using Cons.prems p by simp
  ultimately show ?case using Cons.IH [of "acc @ [(k, c)]"] p by simp
qed simp

lemma load_from_cache:
  assumes "ct_wf ct" "ct_currentMonth ct = iso_month now"
  shows "same_totals (ct_loadMonthlyCache now (new_cost_tracker (FileParsed (ct_snapshot ct)) uf)) ct"
proof -
  have mig: "same_totals (ct_migrateUsageLogHeader now c) c" for c
    by (simp add: ct_migrateUsageLogHeader_def same_totals_def split: option.split)
  have "load_entries (map (apsnd Some) m) [] = m" if "totals_ok m" for m
    using that load_entries_some [of "[]" m] by (simp add: totals_ok_def)
  with assms mig show ?thesis
    by (simp add: ct_loadMonthlyCache_def new_cost_tracker_def ct_snapshot_def load_cached_def
        same_totals_def ct_wf_def)
qed

section \<open>Properties\<close>

text \<open>
  C2. The usage log is a complete account of the month. Start from a clean install, let any
  sequence of calls, reservations, reads, timers and queued writes happen inside one month
  with a working disk and log-safe identifiers, finish the queued writes, and restart with
  the cost cache lost, unreadable, malformed or left over from another month: the rebuilt
  per-app, per-user, per-household and global totals are exactly those the run had in memory.
\<close>

theorem usage_log_rebuilds_totals:
  assumes "\<forall>te \<in> set es. quiet (iso_month t0) te" and "starts_with ''20'' (iso_month t0)"
    and "iso_month now = iso_month t0"
    and "\<And>d. cf = FileParsed d \<Longrightarrow> md_month d \<noteq> iso_month t0"
  shows "same_totals
    (ct_loadMonthlyCache now
       (new_cost_tracker cf (ct_usageFile (ct_drainWrites (ct_run es (clean_start t0))))))
    (ct_run es (clean_start t0))"
proof -
  let ?ct = "ct_run es (clean_start t0)"
  obtain ws where "log_explains (iso_month t0) ws ?ct"
    using log_explains_run [OF log_explains_start assms(1)] by blast
  from log_explains_drain_all [OF this refl] obtain ws' where
    "log_explains (iso_month t0) ws' (ct_drainWrites ?ct)" "ct_writeQueue (ct_drainWrites ?ct) = []"
    "same_totals (ct_drainWrites ?ct) ?ct"
    by (auto simp: ct_drainWrites_def)
  with load_from_log assms(2-4) show ?thesis
    using same_totals_trans by blast
qed

definition sample_call :: usage_input where
  "sample_call = \<lparr>ui_model = ''gpt-4o'', ui_inputTokens = Fin 1200, ui_outputTokens = Fin 300,
     ui_provider = Some ''openai'', ui_providerType = Some OpenaiCompatible, ui_appId = Some ''food'',
     ui_userId = Some ''42'', ui_householdId = Some ''h1''\<rparr>"

theorem usage_log_rebuilds_totals_witness:
  "same_totals
    (ct_loadMonthlyCache 1775822400000
       (new_cost_tracker FileMalformed
         (ct_usageFile (ct_drainWrites (ct_run [(1775822400001, CtRecord sample_call), (1775822400002, CtDrain),
            (1775822400003, CtRecord sample_call)] (clean_start 1775822400000))))))
    (ct_run [(1775822400001, CtRecord sample_call), (1775822400002, CtDrain),
       (1775822400003, CtRecord sample_call)] (clean_start 1775822400000))"
proof -
  have m: "iso_month 1775822400000 = ''2026-04''" "iso_month 1775822400001 = ''2026-04''"
    "iso_month 1775822400002 = ''2026-04''" "iso_month 1775822400003 = ''2026-04''"
    by code_simp+
  have c: "log_clean (Some s)" if "s \<in> {''food'', ''42'', ''h1''}" for s
    using that by (auto simp: log_clean_def log_safe_def trim_def is_ws_def)
  show ?thesis
    by (rule usage_log_rebuilds_totals)
       (simp_all add: m c sample_call_def starts_with_def effective_household_def
         PLATFORM_SYSTEM_HOUSEHOLD_ID_def)
qed

text \<open>
  C3. Whatever happens to a tracker after a clean install (any calls with any token counts,
  month changes, failing writes, shutdowns), every total stays a non-negative whole number of
  micro-dollars, keys and reservation ids stay unique, and the costs attributed to apps, to
  users and to households each sum to at most the global total.
\<close>

theorem cost_tracker_attribution_bounded:
  "ct_wf (ct_run es (clean_start t0)) \<and> ct_attributed (ct_run es (clean_start t0))"
  using ct_run_wf clean_start_wf by blast

text \<open>
  Shutting down with a working disk and restarting in the same month loses nothing: the
  cost cache that \<open>flush\<close> leaves restores all four totals, whatever the usage log holds.
\<close>

lemma flush_then_load:
  assumes "ct_wf ct" "ct_writable ct" "ct_persistDirty ct" "ct_currentMonth ct = iso_month now"
  shows "same_totals (ct_loadMonthlyCache now (new_cost_tracker (ct_costFile (ct_flush ct)) uf)) ct"
proof -
  have "ct_costFile (ct_flush ct) = FileParsed (ct_snapshot ct)"
    using assms(2,3) by (simp add: ct_flush_def ct_persistMonthlyCosts_def ct_snapshot_def)
  then show ?thesis using load_from_cache [OF assms(1,4)] by simp
qed

lemma flush_then_load_witness:
  "same_totals
     (ct_loadMonthlyCache 1775822400005 (new_cost_tracker (ct_costFile
        (ct_flush (ct_record 1775822400000 sample_call (clean_start 1775822400000)))) None))
     (ct_record 1775822400000 sample_call (clean_start 1775822400000))"
proof -
  have m: "iso_month 1775822400000 = ''2026-04''" "iso_month 1775822400005 = ''2026-04''"
    by code_simp+
  let ?ct = "ct_record 1775822400000 sample_call (clean_start 1775822400000)"
  have "ct_wf ?ct" "ct_writable ?ct" "ct_persistDirty ?ct"
    using ct_step_wf [OF clean_start_wf, of 1775822400000 "CtRecord sample_call" 1775822400000]
    by (simp_all add: clean_start_eq new_cost_tracker_def ct_record_def ct_updateMonthlyCache_def
        ct_schedulePersist_def Let_def)
  then show ?thesis by (rule flush_then_load) (simp add: m)
qed

end
