(* ===== verification/Household_Limiter.thy ===== *)
theory Household_Limiter
  imports Rate_Limiter Cost_Log
begin

text \<open>
  What the guards ask before a call: \<open>core/src/services/llm/estimate-guard-cost.ts\<close> and
  \<open>guard-price-lookup.ts\<close> (an upper bound on the price) and
  \<open>core/src/services/llm/household-llm-limiter.ts\<close> (rate and budget of a household). The
  limiter owns one sliding-window limiter per household, created on first use; the cost
  tracker it consults is shared and passed explicitly.
\<close>

section \<open>Estimates\<close>

definition orElse :: "'a option \<Rightarrow> 'a \<Rightarrow> 'a" where
  "orElse x d = (case x of Some v \<Rightarrow> v | None \<Rightarrow> d)"

datatype model_tier = TierFast | TierStandard | TierReasoning

record model_ref =
  mr_provider :: string
  mr_model :: string

record tier_price =
  tp_inputUsdPer1k :: jsnum
  tp_outputUsdPer1k :: jsnum

text \<open>The two optional members of the interface are \<open>None\<close> when a lookup has no such method.\<close>

record price_lookup =
  pl_priceFor :: "model_tier \<Rightarrow> tier_price option"
  pl_priceForRef :: "(model_ref \<Rightarrow> tier_price option) option"
  pl_hasBillableProvider :: "bool option"

record estimate_input =
  ei_method :: string
  ei_tier :: model_tier
  ei_modelRef :: "model_ref option"
  ei_prompt :: string
  ei_maxOutputTokens :: "jsnum option"
  ei_imageCount :: "jsnum option"

datatype estimate_error = UnknownMethod string | BadMaxOutputTokens jsnum | BadImageCount jsnum

definition METHOD_DEFAULT_OUTPUT_TOKENS :: "rat jsmap" where
  "METHOD_DEFAULT_OUTPUT_TOKENS =
     [(''complete'', 4096), (''classify'', 32), (''extractStructured'', 2048), (''chat'', 1024)]"

definition IMAGE_INPUT_TOKEN_ALLOWANCE :: rat where
  "IMAGE_INPUT_TOKEN_ALLOWANCE = 1600"

definition defaultReservationUsd :: usd where
  "defaultReservationUsd = 5 / 100"

definition approximateTokens :: "string \<Rightarrow> nat" where
  "approximateTokens t = min 1000000 ((length t + 3) div 4)"

fun is_nonneg_integer :: "jsnum \<Rightarrow> bool" where
  "is_nonneg_integer n = (is_finite n \<and> is_integer n \<and> 0 \<le> num_val n)"

fun valid_price :: "tier_price option \<Rightarrow> bool" where
  "valid_price (Some p) = (finite_nonneg (tp_inputUsdPer1k p) \<and> finite_nonneg (tp_outputUsdPer1k p))"
| "valid_price None = False"

definition estimateGuardCost :: "estimate_input \<Rightarrow> price_lookup \<Rightarrow> estimate_error + usd" where
  "estimateGuardCost input prices =
     (case map_of METHOD_DEFAULT_OUTPUT_TOKENS (ei_method input) of
        None \<Rightarrow> Inl (UnknownMethod (ei_method input))
      | Some methodTokens \<Rightarrow>
          (case (case ei_maxOutputTokens input of
                   None \<Rightarrow> Inr methodTokens
                 | Some m \<Rightarrow> if is_nonneg_integer m then Inr (num_val m) else Inl (BadMaxOutputTokens m)) of
             Inl e \<Rightarrow> Inl e
           | Inr outputTokens \<Rightarrow>
               (let imageCount = (case ei_imageCount input of None \<Rightarrow> Fin 0 | Some n \<Rightarrow> n)
                in if \<not> is_nonneg_integer imageCount then Inl (BadImageCount imageCount)
                   else
                     (let inputTokens = of_nat (approximateTokens (ei_prompt input)) +
                            num_val imageCount * IMAGE_INPUT_TOKEN_ALLOWANCE;
                          price = (case ei_modelRef input of
                                     Some ref \<Rightarrow> (case pl_priceForRef prices of Some f \<Rightarrow> f ref | None \<Rightarrow> None)
                                   | None \<Rightarrow> pl_priceFor prices (ei_tier input))
                      in if \<not> valid_price price then
                           (if pl_hasBillableProvider prices = Some False then Inr 0
                            else Inr defaultReservationUsd)
                         else Inr (inputTokens / 1000 * num_val (tp_inputUsdPer1k (the price)) +
                                   outputTokens / 1000 * num_val (tp_outputUsdPer1k (the price)))))))"

text \<open>
  \<open>createGuardPriceLookup\<close>: \<open>registry\<close> maps a provider key to its type, \<open>all\<close> lists
  the registered provider types, \<open>tierRef\<close> is the model selector's tier assignment.
\<close>

definition guard_priceForRef :: "(string \<Rightarrow> provider_type option) \<Rightarrow> model_ref \<Rightarrow> tier_price option" where
  "guard_priceForRef registry ref =
     (case registry (mr_provider ref) of
        None \<Rightarrow> None
      | Some pt \<Rightarrow>
          if isLocalProvider (Some pt) then Some \<lparr>tp_inputUsdPer1k = Fin 0, tp_outputUsdPer1k = Fin 0\<rparr>
          else (let pricing = (case getModelPricing (mr_model ref) of
                                 Some p \<Rightarrow> p | None \<Rightarrow> DEFAULT_REMOTE_PRICING)
                in Some \<lparr>tp_inputUsdPer1k = Fin (mp_input pricing / 1000),
                         tp_outputUsdPer1k = Fin (mp_output pricing / 1000)\<rparr>))"

definition createGuardPriceLookup ::
    "(string \<Rightarrow> provider_type option) \<Rightarrow> provider_type list \<Rightarrow> (model_tier \<Rightarrow> model_ref option) \<Rightarrow> price_lookup" where
  "createGuardPriceLookup registry all tierRef =
     \<lparr>pl_priceFor = (\<lambda>tier. case tierRef tier of Some ref \<Rightarrow> guard_priceForRef registry ref | None \<Rightarrow> None),
      pl_priceForRef = Some (guard_priceForRef registry),
      pl_hasBillableProvider =
        Some (if all = [] then True else list_ex (\<lambda>pt. \<not> isLocalProvider (Some pt)) all)\<rparr>"

lemma estimateGuardCost_nonneg:
  assumes "estimateGuardCost input prices = Inr c"
  shows "0 \<le> c"
proof -
  have *: "finite_nonneg (tp_inputUsdPer1k (the p)) \<and> finite_nonneg (tp_outputUsdPer1k (the p))" if "valid_price p" for p
    using that by (cases p) auto
  have m: "0 \<le> t" if "map_of METHOD_DEFAULT_OUTPUT_TOKENS k = Some t" for k t
    using that by (auto simp: METHOD_DEFAULT_OUTPUT_TOKENS_def split: if_splits)
  have v: "0 \<le> num_val n" if "finite_nonneg n" for n using that by (cases n) auto
  show ?thesis
    using assms * m
    by (auto simp: estimateGuardCost_def Let_def defaultReservationUsd_def IMAGE_INPUT_TOKEN_ALLOWANCE_def
        split: option.splits sum.splits if_splits intro!: add_nonneg_nonneg mult_nonneg_nonneg v)
qed

section \<open>The estimate is an upper bound\<close>

text \<open>The token counts an estimate prices: input with images, and the output limit.\<close>

definition estimated_tokens :: "estimate_input \<Rightarrow> rat \<times> rat" where
  "estimated_tokens input =
     (of_nat (approximateTokens (ei_prompt input)) +
        num_val (orElse (ei_imageCount input) (Fin 0)) * IMAGE_INPUT_TOKEN_ALLOWANCE,
      (case ei_maxOutputTokens input of
         Some m \<Rightarrow> num_val m | None \<Rightarrow> orElse (map_of METHOD_DEFAULT_OUTPUT_TOKENS (ei_method input)) 0))"

lemma estimate_priced:
  assumes "estimateGuardCost input prices = Inr est"
    and "(case ei_modelRef input of
            Some ref \<Rightarrow> (case pl_priceForRef prices of Some f \<Rightarrow> f ref | None \<Rightarrow> None)
          | None \<Rightarrow> pl_priceFor prices (ei_tier input)) = Some p" and "valid_price (Some p)"
  shows "est = fst (estimated_tokens input) / 1000 * num_val (tp_inputUsdPer1k p) +
      snd (estimated_tokens input) / 1000 * num_val (tp_outputUsdPer1k p)"
  using assms(1,3) unfolding estimateGuardCost_def assms(2)
  by (auto simp: Let_def estimated_tokens_def orElse_def simp del: valid_price.simps
      split: option.splits sum.splits if_splits)

lemma guard_price_valid:
  assumes "guard_priceForRef registry ref = Some p"
  shows "valid_price (Some p)"
  using assms pricing_nonneg
  by (auto simp: guard_priceForRef_def Let_def DEFAULT_REMOTE_PRICING_def split: option.splits if_splits)

text \<open>
  The estimate bounds the bill. When a call is priced by its explicit model and uses no
  more input and output tokens than the estimate counted, the cost recorded for it (of the
  same model on the same provider) is at most the estimate, up to the half micro-dollar of
  rounding.
\<close>

lemma estimate_bounds_cost:
  assumes "estimateGuardCost input (createGuardPriceLookup registry all tierRef) = Inr est"
    and "ei_modelRef input = Some ref" and "registry (mr_provider ref) = Some pt"
    and "inTok \<le> fst (estimated_tokens input)" and "outTok \<le> snd (estimated_tokens input)"
  shows "estimateCallCost (mr_model ref) inTok outTok (Some pt) \<le> est + 1 / 2000000"
proof -
  obtain p where p: "guard_priceForRef registry ref = Some p"
    using assms(3) by (cases "isLocalProvider (Some pt)") (simp_all add: guard_priceForRef_def Let_def)
  note valid = guard_price_valid [OF p]
  have est: "est = fst (estimated_tokens input) / 1000 * num_val (tp_inputUsdPer1k p) +
      snd (estimated_tokens input) / 1000 * num_val (tp_outputUsdPer1k p)"
    using assms(1) by (rule estimate_priced [OF _ _ valid]) (simp add: assms(2) createGuardPriceLookup_def p)
  show ?thesis
  proof (cases "isLocalProvider (Some pt)")
    case True
    then have "p = \<lparr>tp_inputUsdPer1k = Fin 0, tp_outputUsdPer1k = Fin 0\<rparr>"
      using p assms(3) by (simp add: guard_priceForRef_def)
    then show ?thesis using True est by (simp add: estimateCallCost_def)
  next
    case False
    let ?m = "case getModelPricing (mr_model ref) of Some m \<Rightarrow> m | None \<Rightarrow> DEFAULT_REMOTE_PRICING"
    have pv: "num_val (tp_inputUsdPer1k p) = mp_input ?m / 1000" "num_val (tp_outputUsdPer1k p) = mp_output ?m / 1000"
      using p assms(3) False by (auto simp: guard_priceForRef_def Let_def)
    have nn: "0 \<le> mp_input ?m" "0 \<le> mp_output ?m"
      using pricing_nonneg by (auto simp: DEFAULT_REMOTE_PRICING_def split: option.split)
    define raw where "raw = (inTok * mp_input ?m + outTok * mp_output ?m) / 1000000"
    have "raw \<le> est"
      unfolding raw_def est pv using mult_right_mono [OF assms(4) nn(1)] mult_right_mono [OF assms(5) nn(2)]
      by (simp add: field_simps)
    moreover have "estimateCallCost (mr_model ref) inTok outTok (Some pt) = round6 raw"
      using False by (simp add: estimateCallCost_def Let_def raw_def)
    ultimately show ?thesis using abs_le_D1 [OF round6_error [of raw]] by linarith
  qed
qed

text \<open>
  On an install whose registered providers all run locally every estimate is zero,
  whether or not the tier or the model can be priced, so no call eats into a budget.
\<close>

lemma local_install_is_free:
  assumes "estimateGuardCost input (createGuardPriceLookup registry all tierRef) = Inr est"
    and "all \<noteq> []" and "\<forall>pt \<in> set all. isLocalProvider (Some pt)"
    and "\<forall>k pt. registry k = Some pt \<longrightarrow> pt \<in> set all"
  shows "est = 0"
proof -
  have z: "guard_priceForRef registry ref = Some p \<Longrightarrow> p = \<lparr>tp_inputUsdPer1k = Fin 0, tp_outputUsdPer1k = Fin 0\<rparr>" for ref p
    using assms(3,4) by (fastforce simp: guard_priceForRef_def Let_def split: option.splits if_splits)
  have nb: "pl_hasBillableProvider (createGuardPriceLookup registry all tierRef) = Some False"
    using assms(2,3) by (auto simp: createGuardPriceLookup_def list_ex_iff simp del: isLocalProvider.simps)
  let ?price = "case ei_modelRef input of
      Some ref \<Rightarrow> (case pl_priceForRef (createGuardPriceLookup registry all tierRef) of Some f \<Rightarrow> f ref | None \<Rightarrow> None)
    | None \<Rightarrow> pl_priceFor (createGuardPriceLookup registry all tierRef) (ei_tier input)"
  show ?thesis
  proof (cases "?price")
    case None
    then show ?thesis using assms(1) nb unfolding estimateGuardCost_def None
      by (auto simp: Let_def split: option.splits sum.splits if_splits)
  next
    case (Some p)
    then have "p = \<lparr>tp_inputUsdPer1k = Fin 0, tp_outputUsdPer1k = Fin 0\<rparr>"
      by (auto simp: createGuardPriceLookup_def split: option.splits intro: z)
    then show ?thesis using estimate_priced [OF assms(1) Some] by simp
  qed
qed

lemma estimate_bounds_cost_witness:
  "estimateCallCost ''gpt-4o'' 2 10 (Some OpenaiCompatible) \<le> 21 / 200000 + 1 / 2000000"
proof -
  let ?i = "\<lparr>ei_method = ''complete'', ei_tier = TierFast, ei_modelRef = Some \<lparr>mr_provider = ''openai'', mr_model = ''gpt-4o''\<rparr>,
    ei_prompt = ''hello'', ei_maxOutputTokens = Some (Fin 10), ei_imageCount = None\<rparr>"
  let ?reg = "\<lambda>k. if k = ''openai'' then Some OpenaiCompatible else None"
  have "estimateGuardCost ?i (createGuardPriceLookup ?reg [OpenaiCompatible] (\<lambda>_. None)) = Inr (21 / 200000)"
    by (simp add: estimateGuardCost_def METHOD_DEFAULT_OUTPUT_TOKENS_def createGuardPriceLookup_def guard_priceForRef_def
        getModelPricing_def MODEL_PRICING_def approximateTokens_def IMAGE_INPUT_TOKEN_ALLOWANCE_def)
  from estimate_bounds_cost [OF this, of "\<lparr>mr_provider = ''openai'', mr_model = ''gpt-4o''\<rparr>" OpenaiCompatible 2 10]
  show ?thesis by (simp add: estimated_tokens_def orElse_def approximateTokens_def)
qed

lemma local_install_is_free_witness:
  "estimateGuardCost \<lparr>ei_method = ''chat'', ei_tier = TierReasoning, ei_modelRef = None, ei_prompt = ''hello'',
      ei_maxOutputTokens = None, ei_imageCount = None\<rparr>
     (createGuardPriceLookup (\<lambda>k. if k = ''ollama'' then Some Ollama else None) [Ollama] (\<lambda>_. None)) = Inr 0"
proof -
  let ?e = "estimateGuardCost \<lparr>ei_method = ''chat'', ei_tier = TierReasoning, ei_modelRef = None, ei_prompt = ''hello'',
      ei_maxOutputTokens = None, ei_imageCount = None\<rparr>
     (createGuardPriceLookup (\<lambda>k. if k = ''ollama'' then Some Ollama else None) [Ollama] (\<lambda>_. None))"
  obtain c where c: "?e = Inr c"
    by (simp add: estimateGuardCost_def METHOD_DEFAULT_OUTPUT_TOKENS_def createGuardPriceLookup_def)
  have "c = 0" by (rule local_install_is_free [OF c]) (simp_all split: if_splits)
  with c show ?thesis by simp
qed

section \<open>The household limiter\<close>

record hh_rate =
  hr_maxRequests :: jsnum
  hr_windowSeconds :: jsnum

record hh_override =
  ho_monthlyCostCap :: "jsnum option"
  ho_rateLimit :: "hh_rate option"

record safeguards_config =
  sg_defaultHouseholdRateLimit :: "hh_rate option"
  sg_defaultHouseholdMonthlyCostCap :: "jsnum option"
  sg_householdOverrides :: "hh_override jsmap option"

record household_limiter =
  hl_config :: safeguards_config
  hl_rateLimiters :: "rate_limiter jsmap"
  hl_disposed :: bool

datatype scope = ScopeApp string | ScopeHousehold string | ScopeGlobal | ScopeReservation

datatype llm_error =
    LLMRateLimitError scope jsnum jsnum
  | LLMCostCapError scope usd jsnum
  | LimiterDisposed
  | BadConfig string
  | BadEstimate jsnum
  | RateLimiterError rl_error
  | LedgerError ct_error
  | EstimateFailed estimate_error

definition default_household_rate :: hh_rate where
  "default_household_rate = \<lparr>hr_maxRequests = Fin 200, hr_windowSeconds = Fin 3600\<rparr>"

definition default_household_cap :: jsnum where
  "default_household_cap = Fin 20"

fun valid_rate :: "hh_rate \<Rightarrow> bool" where
  "valid_rate r =
     (is_finite (hr_maxRequests r) \<and> is_integer (hr_maxRequests r) \<and> 0 < num_val (hr_maxRequests r) \<and>
      is_finite (hr_windowSeconds r) \<and> 0 < num_val (hr_windowSeconds r))"

definition valid_override :: "hh_override \<Rightarrow> bool" where
  "valid_override ov \<longleftrightarrow>
     (case ho_monthlyCostCap ov of None \<Rightarrow> True | Some c \<Rightarrow> finite_nonneg c) \<and>
     (case ho_rateLimit ov of None \<Rightarrow> True | Some r \<Rightarrow> valid_rate r)"

definition valid_safeguards :: "safeguards_config \<Rightarrow> bool" where
  "valid_safeguards cfg \<longleftrightarrow>
     valid_rate (orElse (sg_defaultHouseholdRateLimit cfg) default_household_rate) \<and>
     finite_nonneg (orElse (sg_defaultHouseholdMonthlyCostCap cfg) default_household_cap) \<and>
     (case sg_householdOverrides cfg of None \<Rightarrow> True
      | Some os \<Rightarrow> list_all (\<lambda>(_, ov). valid_override ov) os)"

definition new_household_limiter :: "safeguards_config \<Rightarrow> llm_error + household_limiter" where
  "new_household_limiter cfg =
     (if valid_safeguards cfg
      then Inr \<lparr>hl_config = cfg, hl_rateLimiters = [], hl_disposed = False\<rparr>
      else Inl (BadConfig ''HouseholdLLMLimiter''))"

datatype attribution = Platform | Enforced

definition hl_attribute :: "string option \<Rightarrow> attribution" where
  "hl_attribute hh =
     (if truthy hh = None \<or> hh = Some PLATFORM_SYSTEM_HOUSEHOLD_ID then Platform else Enforced)"

definition hl_override :: "string \<Rightarrow> household_limiter \<Rightarrow> hh_override option" where
  "hl_override hh hl =
     (case sg_householdOverrides (hl_config hl) of None \<Rightarrow> None | Some os \<Rightarrow> map_of os hh)"

text \<open>\<open>overrideRl ?? (config.default ?? DEFAULT)\<close>, and the same for the cap.\<close>

definition hl_effectiveRate :: "string \<Rightarrow> household_limiter \<Rightarrow> hh_rate" where
  "hl_effectiveRate hh hl =
     orElse (case hl_override hh hl of None \<Rightarrow> None | Some ov \<Rightarrow> ho_rateLimit ov)
       (orElse (sg_defaultHouseholdRateLimit (hl_config hl)) default_household_rate)"

definition hl_costCap :: "string \<Rightarrow> household_limiter \<Rightarrow> jsnum" where
  "hl_costCap hh hl =
     orElse (case hl_override hh hl of None \<Rightarrow> None | Some ov \<Rightarrow> ho_monthlyCostCap ov)
       (orElse (sg_defaultHouseholdMonthlyCostCap (hl_config hl)) default_household_cap)"

fun times_1000 :: "jsnum \<Rightarrow> jsnum" where
  "times_1000 (Fin q) = Fin (q * 1000)"
| "times_1000 NonFinite = NonFinite"

definition hl_getRateLimiter :: "string \<Rightarrow> household_limiter \<Rightarrow> llm_error + (rate_limiter \<times> household_limiter)" where
  "hl_getRateLimiter hh hl =
     (case map_of (hl_rateLimiters hl) hh of
        Some rl \<Rightarrow> Inr (rl, hl)
      | None \<Rightarrow>
          (let r = hl_effectiveRate hh hl
           in (case new_rate_limiter (hr_maxRequests r) (times_1000 (hr_windowSeconds r)) of
                 Inl e \<Rightarrow> Inl (RateLimiterError e)
               | Inr rl \<Rightarrow> Inr (rl, hl\<lparr>hl_rateLimiters := set_key hh rl (hl_rateLimiters hl)\<rparr>))))"

text \<open>The result of \<open>check\<close>; a platform call has no inner ticket and an unbounded limit.\<close>

record hl_ticket =
  ht_allowed :: bool
  ht_ticket :: "rl_ticket option"
  ht_maxRequests :: jsnum
  ht_windowSeconds :: jsnum

definition hl_check :: "time \<Rightarrow> string option \<Rightarrow> household_limiter \<Rightarrow> llm_error + (hl_ticket \<times> household_limiter)" where
  "hl_check now hh hl =
     (if hl_disposed hl then Inl LimiterDisposed
      else (case hl_attribute hh of
              Platform \<Rightarrow> Inr (\<lparr>ht_allowed = True, ht_ticket = None, ht_maxRequests = NonFinite,
                               ht_windowSeconds = NonFinite\<rparr>, hl)
            | Enforced \<Rightarrow>
                (let h = the hh
                 in (case hl_getRateLimiter h hl of
                       Inl e \<Rightarrow> Inl e
                     | Inr (rl, hl') \<Rightarrow>
                         (case rl_check now h rl of
                            Inl e \<Rightarrow> Inl (RateLimiterError e)
                          | Inr (tk, rl') \<Rightarrow>
                              (let r = hl_effectiveRate h hl'
                               in Inr (\<lparr>ht_allowed = tk_allowed tk, ht_ticket = Some tk,
                                        ht_maxRequests = hr_maxRequests r, ht_windowSeconds = hr_windowSeconds r\<rparr>,
                                       hl'\<lparr>hl_rateLimiters := set_key h rl' (hl_rateLimiters hl')\<rparr>)))))))"

definition hl_commit :: "time \<Rightarrow> hl_ticket \<Rightarrow> household_limiter \<Rightarrow> hl_ticket \<times> household_limiter" where
  "hl_commit now t hl =
     (case ht_ticket t of
        None \<Rightarrow> (t, hl)
      | Some tk \<Rightarrow>
          (case map_of (hl_rateLimiters hl) (tk_key tk) of
             None \<Rightarrow> (t, hl)
           | Some rl \<Rightarrow>
               (let (tk', rl') = rl_commit now tk rl
                in (t\<lparr>ht_ticket := Some tk'\<rparr>,
                    hl\<lparr>hl_rateLimiters := set_key (tk_key tk) rl' (hl_rateLimiters hl)\<rparr>))))"

definition hl_checkCost ::
    "time \<Rightarrow> string option \<Rightarrow> jsnum \<Rightarrow> household_limiter \<Rightarrow> cost_tracker \<Rightarrow> llm_error option \<times> cost_tracker" where
  "hl_checkCost now hh estimatedCost hl ct =
     (if hl_disposed hl then (Some LimiterDisposed, ct)
      else if \<not> finite_nonneg estimatedCost then (Some (BadEstimate estimatedCost), ct)
      else (case hl_attribute hh of
              Platform \<Rightarrow> (None, ct)
            | Enforced \<Rightarrow>
                (let h = the hh; cap = hl_costCap h hl;
                     (current, ct') = ct_getMonthlyHouseholdCost now h ct
                 in if is_finite cap \<and> current + num_val estimatedCost \<ge> num_val cap
                    then (Some (LLMCostCapError (ScopeHousehold h) current cap), ct')
                    else (None, ct'))))"

definition PLATFORM_NOOP_RESERVATION :: string where
  "PLATFORM_NOOP_RESERVATION = ''PLATFORM_NOOP''"

definition hl_reserveEstimated ::
    "time \<Rightarrow> string \<Rightarrow> string option \<Rightarrow> string option \<Rightarrow> string option \<Rightarrow> jsnum \<Rightarrow> household_limiter \<Rightarrow>
     cost_tracker \<Rightarrow> llm_error + (string \<times> cost_tracker)" where
  "hl_reserveEstimated now uuid hh appId userId est hl ct =
     (if hl_disposed hl then Inl LimiterDisposed
      else if \<not> finite_nonneg est then Inl (BadEstimate est)
      else (case hl_attribute hh of
              Platform \<Rightarrow> Inr (PLATFORM_NOOP_RESERVATION, ct)
            | Enforced \<Rightarrow>
                (case ct_reserveEstimated now uuid (the hh) appId userId est ct of
                   Inl e \<Rightarrow> Inl (LedgerError e)
                 | Inr r \<Rightarrow> Inr r)))"

definition hl_releaseReservation :: "string \<Rightarrow> household_limiter \<Rightarrow> cost_tracker \<Rightarrow> cost_tracker" where
  "hl_releaseReservation rid hl ct =
     (if hl_disposed hl then ct
      else if rid = PLATFORM_NOOP_RESERVATION then ct
      else ct_releaseReservation rid ct)"

definition hl_revokeLastCheckCommit :: "string option \<Rightarrow> household_limiter \<Rightarrow> household_limiter" where
  "hl_revokeLastCheckCommit hh hl =
     (case hl_attribute hh of
        Platform \<Rightarrow> hl
      | Enforced \<Rightarrow>
          (case map_of (hl_rateLimiters hl) (the hh) of
             None \<Rightarrow> hl
           | Some rl \<Rightarrow> hl\<lparr>hl_rateLimiters :=
               set_key (the hh) (rl_revokeLastCommit (the hh) rl) (hl_rateLimiters hl)\<rparr>))"

definition hl_dispose :: "household_limiter \<Rightarrow> household_limiter" where
  "hl_dispose hl = hl\<lparr>hl_disposed := True, hl_rateLimiters := []\<rparr>"

section \<open>The household limiter as a slot limiter\<close>

definition hl_enforced :: "string \<Rightarrow> bool" where
  "hl_enforced hh \<longleftrightarrow> hl_attribute (Some hh) = Enforced"

definition hl_used :: "time \<Rightarrow> string \<Rightarrow> household_limiter \<Rightarrow> nat" where
  "hl_used now hh hl =
     (case map_of (hl_rateLimiters hl) hh of None \<Rightarrow> 0 | Some rl \<Rightarrow> rl_used now hh rl)"

definition hl_cap :: "string \<Rightarrow> household_limiter \<Rightarrow> nat" where
  "hl_cap hh hl = nat \<lfloor>num_val (hr_maxRequests (hl_effectiveRate hh hl))\<rfloor>"

text \<open>
  A validated configuration, and every limiter in the map built from the effective rate of its
  household. The constructor establishes it and every operation but \<open>dispose\<close> keeps it.
\<close>

definition hl_ready :: "household_limiter \<Rightarrow> bool" where
  "hl_ready hl \<longleftrightarrow> valid_safeguards (hl_config hl) \<and>
     (\<forall>hh rl. map_of (hl_rateLimiters hl) hh = Some rl \<longrightarrow>
        rl_ready rl \<and> \<not> rl_disposed rl \<and> rl_maxAttempts rl = hl_cap hh hl)"

lemma valid_safeguards_rate: "valid_safeguards (hl_config hl) \<Longrightarrow> valid_rate (hl_effectiveRate hh hl)"
  by (auto simp: valid_safeguards_def hl_effectiveRate_def hl_override_def orElse_def valid_override_def
      list_all_iff split: option.splits dest!: map_of_SomeD simp del: valid_rate.simps)

lemma new_household_limiter_ready: "new_household_limiter cfg = Inr hl \<Longrightarrow> hl_ready hl"
  by (auto simp: new_household_limiter_def hl_ready_def split: if_splits)

lemma hl_config_only [simp]:
  "hl_effectiveRate hh (hl\<lparr>hl_rateLimiters := m\<rparr>) = hl_effectiveRate hh hl"
  "hl_costCap hh (hl\<lparr>hl_rateLimiters := m\<rparr>) = hl_costCap hh hl"
  "hl_cap hh (hl\<lparr>hl_rateLimiters := m\<rparr>) = hl_cap hh hl"
  by (simp_all add: hl_effectiveRate_def hl_costCap_def hl_override_def hl_cap_def)

lemma hl_ready_set:
  assumes "hl_ready hl" "rl_ready rl" "rl_maxAttempts rl = hl_cap k hl" "\<not> rl_disposed rl"
  shows "hl_ready (hl\<lparr>hl_rateLimiters := set_key k rl (hl_rateLimiters hl)\<rparr>)"
  using assms by (auto simp: hl_ready_def)

lemma hl_getRateLimiter_ok:
  assumes "hl_ready hl" "hl_getRateLimiter hh hl = Inr (rl, hl')"
  shows "rl_ready rl" "rl_maxAttempts rl = hl_cap hh hl" "map_of (hl_rateLimiters hl') hh = Some rl"
    "hl_config hl' = hl_config hl" "hl_disposed hl' = hl_disposed hl" "hl_ready hl'"
    "\<And>k now. hl_used now k hl' = hl_used now k hl" "rl_used now hh rl = hl_used now hh hl"
proof -
  have new: "rl_ready rl \<and> rl_maxAttempts rl = hl_cap hh hl \<and> \<not> rl_disposed rl \<and> rl_entries rl = []"
    if "new_rate_limiter (hr_maxRequests (hl_effectiveRate hh hl))
      (times_1000 (hr_windowSeconds (hl_effectiveRate hh hl))) = Inr rl"
    using that by (auto simp: new_rate_limiter_def hl_cap_def rl_ready_def split: if_splits)
  have "rl_ready rl \<and> rl_maxAttempts rl = hl_cap hh hl \<and> map_of (hl_rateLimiters hl') hh = Some rl \<and>
    hl_config hl' = hl_config hl \<and> hl_disposed hl' = hl_disposed hl \<and> hl_ready hl' \<and>
    (\<forall>k now. hl_used now k hl' = hl_used now k hl) \<and> rl_used now hh rl = hl_used now hh hl"
  proof (cases "map_of (hl_rateLimiters hl) hh")
    case (Some r)
    then show ?thesis
      using assms by (auto simp: hl_getRateLimiter_def hl_ready_def hl_used_def)
  next
    case None
    then have n: "new_rate_limiter (hr_maxRequests (hl_effectiveRate hh hl))
        (times_1000 (hr_windowSeconds (hl_effectiveRate hh hl))) = Inr rl"
      and hl': "hl' = hl\<lparr>hl_rateLimiters := set_key hh rl (hl_rateLimiters hl)\<rparr>"
      using assms(2) by (auto simp: hl_getRateLimiter_def Let_def split: sum.splits)
    show ?thesis
      using new [OF n] hl_ready_set [OF assms(1)] None
      by (auto simp: hl' hl_used_def rl_used_def get_or_def)
  qed
  then show "rl_ready rl" "rl_maxAttempts rl = hl_cap hh hl" "map_of (hl_rateLimiters hl') hh = Some rl"
    "hl_config hl' = hl_config hl" "hl_disposed hl' = hl_disposed hl" "hl_ready hl'"
    "\<And>k now. hl_used now k hl' = hl_used now k hl" "rl_used now hh rl = hl_used now hh hl"
    by blast+
qed

lemma hl_getRateLimiter_succeeds:
  assumes "hl_ready hl"
  obtains rl hl' where "hl_getRateLimiter hh hl = Inr (rl, hl')" "\<not> rl_disposed rl"
proof (cases "map_of (hl_rateLimiters hl) hh")
  case (Some rl)
  with assms that show thesis by (auto simp: hl_getRateLimiter_def hl_ready_def)
next
  case None
  obtain n s where r: "hr_maxRequests (hl_effectiveRate hh hl) = Fin n" "hr_windowSeconds (hl_effectiveRate hh hl) = Fin s"
      "is_integer (Fin n)" "0 < n" "0 < s"
    using valid_safeguards_rate [of hl hh] assms
    by (cases "hr_maxRequests (hl_effectiveRate hh hl)"; cases "hr_windowSeconds (hl_effectiveRate hh hl)")
       (auto simp: hl_ready_def)
  with None that show thesis
    by (fastforce simp: hl_getRateLimiter_def Let_def new_rate_limiter_def)
qed

text \<open>\<open>check\<close> on a configured, live limiter always returns.\<close>

lemma hl_check_succeeds:
  assumes "hl_ready hl" "\<not> hl_disposed hl"
  obtains t hl' where "hl_check now hh hl = Inr (t, hl')"
proof (cases "hl_attribute hh")
  case Platform
  with assms(2) that show thesis by (simp add: hl_check_def)
next
  case Enforced
  obtain rl hl1 where g: "hl_getRateLimiter (the hh) hl = Inr (rl, hl1)" "\<not> rl_disposed rl"
    using hl_getRateLimiter_succeeds [OF assms(1)] .
  obtain tk rl' where "rl_check now (the hh) rl = Inr (tk, rl')"
    using g(2) by (simp add: rl_check_def Let_def)
  with Enforced g assms(2) that show thesis by (simp add: hl_check_def Let_def)
qed

text \<open>A successful \<open>check\<close> of an enforced household, taken apart.\<close>

lemma hl_check_enforced:
  assumes "hl_check now (Some k) hl = Inr (t, hl')" "hl_enforced k"
  obtains rl hl1 tk rl' where "hl_getRateLimiter k hl = Inr (rl, hl1)" "rl_check now k rl = Inr (tk, rl')"
    "hl' = hl1\<lparr>hl_rateLimiters := set_key k rl' (hl_rateLimiters hl1)\<rparr>"
    "ht_ticket t = Some tk" "ht_allowed t = tk_allowed tk"
proof -
  have a: "hl_attribute (Some k) = Enforced" using assms(2) by (simp add: hl_enforced_def)
  show thesis
    using assms(1) that
    by (auto simp: hl_check_def a Let_def split: sum.splits if_splits prod.splits)
qed

lemma hl_check_platform:
  assumes "hl_check now hh hl = Inr (t, hl')" "hl_attribute hh = Platform"
  shows "hl' = hl" "ht_ticket t = None" "ht_allowed t"
  using assms by (auto simp: hl_check_def split: if_splits)

lemma hl_used_set:
  "hl_used now j (hl\<lparr>hl_rateLimiters := set_key k rl m\<rparr>) =
     (if j = k then rl_used now k rl else hl_used now j (hl\<lparr>hl_rateLimiters := m\<rparr>))"
  by (simp add: hl_used_def)

interpretation hl: slot_limiter "\<lambda>now k. hl_check now (Some k)" hl_commit "\<lambda>k. hl_revokeLastCheckCommit (Some k)"
  hl_used hl_cap ht_allowed hl_enforced hl_ready
proof unfold_locales
  fix now k l t l' j
  assume ready: "hl_ready l" and c: "hl_check now (Some k) l = Inr (t, l')"
  have base: "(hl_enforced k \<longrightarrow> (ht_allowed t \<longleftrightarrow> hl_used now k l < hl_cap k l)) \<and>
    (\<forall>j. hl_used now j l' = hl_used now j l) \<and> hl_ready l' \<and>
    (ht_allowed t \<longrightarrow>
      (\<forall>j. hl_used now j (snd (hl_commit now t l')) = hl_used now j l + (if hl_enforced k \<and> j = k then 1 else 0)) \<and>
      (\<forall>j. hl_used now j (hl_revokeLastCheckCommit (Some k) (snd (hl_commit now t l'))) = hl_used now j l))"
  proof (cases "hl_enforced k")
    case False
    then have p: "hl_attribute (Some k) = Platform"
      by (cases "hl_attribute (Some k)") (auto simp: hl_enforced_def)
    note hl_check_platform [OF c p]
    with False ready p show ?thesis by (simp add: hl_commit_def hl_revokeLastCheckCommit_def)
  next
    case True
    then have e: "hl_attribute (Some k) = Enforced" by (simp add: hl_enforced_def)
    from hl_check_enforced [OF c True] obtain rl hl1 tk rl' where
      g: "hl_getRateLimiter k l = Inr (rl, hl1)" and rc: "rl_check now k rl = Inr (tk, rl')" and
      l': "l' = hl1\<lparr>hl_rateLimiters := set_key k rl' (hl_rateLimiters hl1)\<rparr>" and
      t: "ht_ticket t = Some tk" "ht_allowed t = tk_allowed tk" .
    note get = hl_getRateLimiter_ok [OF ready g] and ok = rl_check_ok [OF rc]
    have max: "rl_maxAttempts rl' = hl_cap k hl1" "rl_ready rl'"
      using rl.check_cap [OF rc] rl.check_ready [OF get(1) rc] get(2,4)
      by (simp_all add: hl_cap_def hl_effectiveRate_def hl_override_def)
    have used: "hl_used now j l' = hl_used now j l" for j
      using rl.check_used [OF get(1) rc, of k] get(7,8) by (simp add: l' hl_used_set)
    have com: "hl_used now j (snd (hl_commit now t l')) = hl_used now j l + (if j = k then 1 else 0)"
      and rev: "hl_used now j (hl_revokeLastCheckCommit (Some k) (snd (hl_commit now t l'))) = hl_used now j l"
      if a: "tk_allowed tk" for j
    proof -
      have snd: "snd (hl_commit now t l') =
          hl1\<lparr>hl_rateLimiters := set_key k (snd (rl_commit now tk rl')) (set_key k rl' (hl_rateLimiters hl1))\<rparr>"
        by (simp add: hl_commit_def t l' ok(3) case_prod_unfold Let_def)
      have c1: "rl_used now k (snd (rl_commit now tk rl')) = rl_used now k rl + 1"
        using rl.commit_used [OF get(1) rc a, of k] by simp
      have c2: "rl_used now k (rl_revokeLastCommit k (snd (rl_commit now tk rl'))) = rl_used now k rl"
        using rl.revoke_used [OF get(1) rc a, of k] .
      show "hl_used now j (snd (hl_commit now t l')) = hl_used now j l + (if j = k then 1 else 0)"
        using get(7,8) c1 by (simp add: snd hl_used_set)
      show "hl_used now j (hl_revokeLastCheckCommit (Some k) (snd (hl_commit now t l'))) = hl_used now j l"
        using get(7,8) c2 by (simp add: snd hl_revokeLastCheckCommit_def e hl_used_set)
    qed
    show ?thesis
      using True ok(2) get(2,8) used com rev t(2) hl_ready_set [OF get(6) max(2,1)] ok(1,5)
      by (simp add: l')
  qed
  show "hl_used now j l' = hl_used now j l" "hl_ready l'" using base by simp_all
  show "ht_allowed t = (hl_used now k l < hl_cap k l)" if "hl_enforced k" using base that by simp
  assume "ht_allowed t"
  with base show "hl_used now j (snd (hl_commit now t l')) = hl_used now j l + (if hl_enforced k \<and> j = k then 1 else 0)"
    "hl_used now j (hl_revokeLastCheckCommit (Some k) (snd (hl_commit now t l'))) = hl_used now j l"
    by simp_all
next
  fix now k l t l' j
  assume c: "hl_check now (Some k) l = Inr (t, l')"
  show "hl_cap j l' = hl_cap j l"
    using c by (auto simp: hl_check_def hl_getRateLimiter_def Let_def
        split: if_splits attribution.splits option.splits sum.splits prod.splits)
next
  fix now t l j
  show "hl_cap j (snd (hl_commit now t l)) = hl_cap j l"
    by (simp add: hl_commit_def case_prod_unfold Let_def split: option.split)
  assume "hl_ready l"
  then show "hl_ready (snd (hl_commit now t l))"
    by (auto simp: hl_commit_def case_prod_unfold Let_def hl_ready_def rl_ready_def split: option.split)
qed

end
