(* ===== verification/LLM_Guard.thy ===== *)
theory LLM_Guard
  imports Household_Limiter
begin

text \<open>
  \<open>core/src/services/llm/llm-guard.ts\<close> and \<open>system-llm-guard.ts\<close>: what stands between
  every caller and the LLM providers. A guard estimates the call, peeks at the rate limits,
  compares the monthly costs with their caps, and only then takes the rate slots and the
  reservation; it releases the reservation when the provider is done.

  The guards share the household limiter and the cost tracker (\<open>llm_services\<close>); an app guard
  also owns its rate limiter (\<open>guard_world\<close> extends the record). A step of \<open>guarded\<close> is a
  function from the state to a result and the state after it, so that a rejection keeps what
  the earlier steps did to the state; \<open>bindE\<close> is the sequencing of steps that may throw.
  The provider call itself is an argument.
\<close>

section \<open>Steps that may throw\<close>

type_synonym ('s, 'e, 'a) throwing = "'s \<Rightarrow> ('e + 'a) \<times> 's"

definition bindE :: "('s, 'e, 'a) throwing \<Rightarrow> ('a \<Rightarrow> ('s, 'e, 'b) throwing) \<Rightarrow> ('s, 'e, 'b) throwing" where
  "bindE m f s = (case m s of (Inl e, s') \<Rightarrow> (Inl e, s') | (Inr a, s') \<Rightarrow> f a s')"

lemma bindE_ok: "bindE m f s = (Inr b, s'') \<longleftrightarrow> (\<exists>a s'. m s = (Inr a, s') \<and> f a s' = (Inr b, s''))"
  by (auto simp: bindE_def split: prod.splits sum.splits)

lemma bindE_err:
  "bindE m f s = (Inl e, s'') \<longleftrightarrow>
     m s = (Inl e, s'') \<or> (\<exists>a s'. m s = (Inr a, s') \<and> f a s' = (Inl e, s''))"
  by (auto simp: bindE_def split: prod.splits sum.splits)

section \<open>State\<close>

record guard_config =
  gc_maxRequests :: jsnum
  gc_windowSeconds :: jsnum
  gc_monthlyCostCap :: jsnum
  gc_globalMonthlyCostCap :: jsnum

record llm_guard =
  lg_appId :: string
  lg_config :: guard_config
  lg_priceLookup :: price_lookup
  lg_tier :: model_tier
  lg_rateLimiter :: rate_limiter

record system_guard =
  sy_attributionId :: string
  sy_globalMonthlyCostCap :: jsnum
  sy_priceLookup :: price_lookup
  sy_tier :: model_tier

record llm_services =
  sv_household :: "household_limiter option"
  sv_costs :: cost_tracker

record guard_world = llm_services +
  gw_guard :: llm_guard

definition NULL_PRICE_LOOKUP :: price_lookup where
  "NULL_PRICE_LOOKUP = \<lparr>pl_priceFor = (\<lambda>_. None), pl_priceForRef = None, pl_hasBillableProvider = None\<rparr>"

definition new_llm_guard ::
    "string \<Rightarrow> guard_config \<Rightarrow> price_lookup option \<Rightarrow> model_tier option \<Rightarrow> llm_error + llm_guard" where
  "new_llm_guard appId cfg prices tier =
     (if \<not> is_finite (gc_monthlyCostCap cfg) \<or> num_val (gc_monthlyCostCap cfg) \<le> 0
      then Inl (BadConfig ''monthlyCostCap'')
      else if \<not> is_finite (gc_globalMonthlyCostCap cfg) \<or> num_val (gc_globalMonthlyCostCap cfg) \<le> 0
      then Inl (BadConfig ''globalMonthlyCostCap'')
      else if \<not> is_finite (gc_maxRequests cfg) \<or> num_val (gc_maxRequests cfg) < 1 \<or>
              \<not> is_finite (gc_windowSeconds cfg) \<or> num_val (gc_windowSeconds cfg) < 1
      then Inl (BadConfig ''rate limit'')
      else (case new_rate_limiter (gc_maxRequests cfg) (times_1000 (gc_windowSeconds cfg)) of
              Inl e \<Rightarrow> Inl (RateLimiterError e)
            | Inr rl \<Rightarrow> Inr \<lparr>lg_appId = appId, lg_config = cfg, lg_priceLookup = orElse prices NULL_PRICE_LOOKUP,
                            lg_tier = orElse tier TierFast, lg_rateLimiter = rl_startCleanup rl\<rparr>))"

definition new_system_guard ::
    "string option \<Rightarrow> jsnum \<Rightarrow> price_lookup option \<Rightarrow> model_tier option \<Rightarrow> llm_error + system_guard" where
  "new_system_guard attributionId cap prices tier =
     (if \<not> is_finite cap \<or> num_val cap \<le> 0 then Inl (BadConfig ''globalMonthlyCostCap'')
      else Inr \<lparr>sy_attributionId = orElse attributionId ''system'', sy_globalMonthlyCostCap = cap,
                sy_priceLookup = orElse prices NULL_PRICE_LOOKUP, sy_tier = orElse tier TierFast\<rparr>)"

section \<open>The calls a guard offers\<close>

record completion_options =
  co_modelRef :: "model_ref option"
  co_tier :: "model_tier option"
  co_model :: "string option"
  co_maxTokens :: "jsnum option"
  co_images :: nat

definition pricingKey :: "model_tier \<Rightarrow> completion_options \<Rightarrow> model_tier \<times> model_ref option" where
  "pricingKey own opts =
     (let rest = (case co_tier opts of
                    Some t \<Rightarrow> (t, None)
                  | None \<Rightarrow> if co_model opts = Some ''claude'' then (TierStandard, None) else (own, None))
      in (case co_modelRef opts of
            Some ref \<Rightarrow> if mr_provider ref \<noteq> [] \<and> mr_model ref \<noteq> []
                        then (orElse (co_tier opts) own, Some ref) else rest
          | None \<Rightarrow> rest))"

definition priced_call :: "model_tier \<Rightarrow> string \<Rightarrow> string \<Rightarrow> completion_options \<Rightarrow> nat \<Rightarrow> estimate_input" where
  "priced_call own meth text opts images =
     \<lparr>ei_method = meth, ei_tier = fst (pricingKey own opts), ei_modelRef = snd (pricingKey own opts),
      ei_prompt = text, ei_maxOutputTokens = co_maxTokens opts, ei_imageCount = Some (Fin (of_nat images))\<rparr>"

text \<open>
  \<open>complete\<close> and \<open>completeWithMeta\<close> are priced alike; \<open>chat\<close> on the serialised messages;
  \<open>classify\<close> and \<open>extractStructured\<close> on the fast tier.
\<close>

definition guard_complete :: "model_tier \<Rightarrow> string \<Rightarrow> completion_options \<Rightarrow> estimate_input" where
  "guard_complete own prompt opts = priced_call own ''complete'' prompt opts (co_images opts)"

definition guard_chat :: "model_tier \<Rightarrow> string \<Rightarrow> completion_options \<Rightarrow> nat \<Rightarrow> estimate_input" where
  "guard_chat own serialized opts images = priced_call own ''chat'' serialized opts images"

definition guard_fast :: "string \<Rightarrow> string \<Rightarrow> estimate_input" where
  "guard_fast meth text =
     \<lparr>ei_method = meth, ei_tier = TierFast, ei_modelRef = None, ei_prompt = text,
      ei_maxOutputTokens = None, ei_imageCount = Some (Fin 0)\<rparr>"

definition guard_classify :: "string \<Rightarrow> estimate_input" where
  "guard_classify text = guard_fast ''classify'' text"

definition guard_extractStructured :: "string \<Rightarrow> estimate_input" where
  "guard_extractStructured text = guard_fast ''extractStructured'' text"

section \<open>The steps of \<open>guarded\<close>\<close>

definition guard_estimate :: "estimate_input \<Rightarrow> price_lookup \<Rightarrow> ('s, llm_error, usd) throwing" where
  "guard_estimate input prices w =
     (case estimateGuardCost input prices of Inl e \<Rightarrow> (Inl (EstimateFailed e), w) | Inr est \<Rightarrow> (Inr est, w))"

definition app_rate_peek :: "time \<Rightarrow> (guard_world, llm_error, rl_ticket) throwing" where
  "app_rate_peek now w =
     (case rl_check now (lg_appId (gw_guard w)) (lg_rateLimiter (gw_guard w)) of
        Inl e \<Rightarrow> (Inl (RateLimiterError e), w)
      | Inr (tk, rl) \<Rightarrow>
          (let w = w\<lparr>gw_guard := (gw_guard w)\<lparr>lg_rateLimiter := rl\<rparr>\<rparr>
           in if tk_allowed tk then (Inr tk, w)
              else (Inl (LLMRateLimitError (ScopeApp (lg_appId (gw_guard w)))
                      (Fin (of_nat (tk_maxAttempts tk))) (Fin (tk_windowMs tk / 1000))), w)))"

definition household_rate_peek ::
    "time \<Rightarrow> string option \<Rightarrow> ('a llm_services_scheme, llm_error, hl_ticket option) throwing" where
  "household_rate_peek now hh w =
     (case sv_household w of
        None \<Rightarrow> (Inr None, w)
      | Some hl \<Rightarrow>
          (case hl_check now hh hl of
             Inl e \<Rightarrow> (Inl e, w)
           | Inr (t, hl) \<Rightarrow>
               (let w = w\<lparr>sv_household := Some hl\<rparr>
                in if ht_allowed t then (Inr (Some t), w)
                   else (Inl (LLMRateLimitError (ScopeHousehold (orElse hh []))
                           (ht_maxRequests t) (ht_windowSeconds t)), w))))"

definition reaches :: "usd \<Rightarrow> jsnum \<Rightarrow> bool" where
  "reaches c cap \<longleftrightarrow> is_finite cap \<and> c \<ge> num_val cap"

definition app_cost_cap :: "time \<Rightarrow> (guard_world, llm_error, unit) throwing" where
  "app_cost_cap now w =
     (let (appCost, ct) = ct_getMonthlyAppCost now (lg_appId (gw_guard w)) (sv_costs w);
          w = w\<lparr>sv_costs := ct\<rparr>; cap = gc_monthlyCostCap (lg_config (gw_guard w))
      in if reaches appCost cap then (Inl (LLMCostCapError (ScopeApp (lg_appId (gw_guard w))) appCost cap), w)
         else (Inr (), w))"

definition household_cost_cap ::
    "time \<Rightarrow> string option \<Rightarrow> usd \<Rightarrow> ('a llm_services_scheme, llm_error, unit) throwing" where
  "household_cost_cap now hh est w =
     (case sv_household w of
        None \<Rightarrow> (Inr (), w)
      | Some hl \<Rightarrow>
          (let (err, ct) = hl_checkCost now hh (Fin est) hl (sv_costs w); w = w\<lparr>sv_costs := ct\<rparr>
           in (case err of None \<Rightarrow> (Inr (), w) | Some e \<Rightarrow> (Inl e, w))))"

definition global_cost_cap :: "time \<Rightarrow> jsnum \<Rightarrow> ('a llm_services_scheme, llm_error, unit) throwing" where
  "global_cost_cap now cap w =
     (let (totalCost, ct) = ct_getMonthlyTotalCost now (sv_costs w); w = w\<lparr>sv_costs := ct\<rparr>
      in if reaches totalCost cap then (Inl (LLMCostCapError ScopeGlobal totalCost cap), w) else (Inr (), w))"

definition app_commit :: "time \<Rightarrow> rl_ticket \<Rightarrow> guard_world \<Rightarrow> guard_world" where
  "app_commit now appR w =
     w\<lparr>gw_guard := (gw_guard w)\<lparr>lg_rateLimiter := snd (rl_commit now appR (lg_rateLimiter (gw_guard w)))\<rparr>\<rparr>"

definition app_revoke :: "guard_world \<Rightarrow> guard_world" where
  "app_revoke w =
     w\<lparr>gw_guard := (gw_guard w)\<lparr>lg_rateLimiter :=
        rl_revokeLastCommit (lg_appId (gw_guard w)) (lg_rateLimiter (gw_guard w))\<rparr>\<rparr>"

definition household_commit :: "time \<Rightarrow> hl_ticket option \<Rightarrow> 'a llm_services_scheme \<Rightarrow> 'a llm_services_scheme" where
  "household_commit now hhR w =
     (case (hhR, sv_household w) of
        (Some t, Some hl) \<Rightarrow> w\<lparr>sv_household := Some (snd (hl_commit now t hl))\<rparr>
      | _ \<Rightarrow> w)"

text \<open>
  The reservation, and what undoes the commits if it throws. \<open>rollback\<close> is the app guard's
  extra \<open>revokeLastCommit\<close>; without a limiter the id is the placeholder.
\<close>

definition reserve_estimate ::
    "('a llm_services_scheme \<Rightarrow> 'a llm_services_scheme) \<Rightarrow> time \<Rightarrow> string \<Rightarrow> string option \<Rightarrow> string \<Rightarrow>
     string option \<Rightarrow> usd \<Rightarrow> ('a llm_services_scheme, llm_error, string) throwing" where
  "reserve_estimate rollback now uuid hh appId userId est w =
     (case sv_household w of
        None \<Rightarrow> (Inr ''60000'', w)
      | Some hl \<Rightarrow>
          (case hl_reserveEstimated now uuid hh (Some appId) userId (Fin est) hl (sv_costs w) of
             Inr (rid, ct) \<Rightarrow> (Inr rid, w\<lparr>sv_costs := ct\<rparr>)
           | Inl _ \<Rightarrow>
               (Inl (LLMCostCapError ScopeReservation 0 (Fin 0)),
                (rollback w)\<lparr>sv_household := Some (hl_revokeLastCheckCommit hh hl)\<rparr>)))"

definition release_reservation :: "string \<Rightarrow> 'a llm_services_scheme \<Rightarrow> 'a llm_services_scheme" where
  "release_reservation rid w =
     (case sv_household w of
        None \<Rightarrow> w
      | Some hl \<Rightarrow> w\<lparr>sv_costs := hl_releaseReservation rid hl (sv_costs w)\<rparr>)"

text \<open>Everything before the provider call; the result is the reservation id.\<close>

definition guard_enter ::
    "time \<Rightarrow> string \<Rightarrow> string option \<Rightarrow> string option \<Rightarrow> estimate_input \<Rightarrow> (guard_world, llm_error, string) throwing" where
  "guard_enter now uuid hh userId input w =
     bindE (guard_estimate input (lg_priceLookup (gw_guard w))) (\<lambda>est.
     bindE (app_rate_peek now) (\<lambda>appR.
     bindE (household_rate_peek now hh) (\<lambda>hhR.
     bindE (app_cost_cap now) (\<lambda>_.
     bindE (household_cost_cap now hh est) (\<lambda>_.
     bindE (global_cost_cap now (gc_globalMonthlyCostCap (lg_config (gw_guard w)))) (\<lambda>_ v.
     reserve_estimate app_revoke now uuid hh (lg_appId (gw_guard w)) userId est
       (household_commit now hhR (app_commit now appR v)))))))) w"

definition system_enter ::
    "time \<Rightarrow> string \<Rightarrow> string option \<Rightarrow> string option \<Rightarrow> estimate_input \<Rightarrow> system_guard \<Rightarrow>
     ('a llm_services_scheme, llm_error, string) throwing" where
  "system_enter now uuid hh userId input sy w =
     bindE (guard_estimate input (sy_priceLookup sy)) (\<lambda>est.
     bindE (household_rate_peek now hh) (\<lambda>hhR.
     bindE (household_cost_cap now hh est) (\<lambda>_.
     bindE (global_cost_cap now (sy_globalMonthlyCostCap sy)) (\<lambda>_ v.
     reserve_estimate id now uuid hh (sy_attributionId sy) userId est (household_commit now hhR v))))) w"

text \<open>\<open>run\<close> is the provider call, with whatever happens to the shared state meanwhile.\<close>

definition guarded ::
    "time \<Rightarrow> string \<Rightarrow> string option \<Rightarrow> string option \<Rightarrow> estimate_input \<Rightarrow>
     (guard_world, llm_error, 'r) throwing \<Rightarrow> (guard_world, llm_error, 'r) throwing" where
  "guarded now uuid hh userId input run w =
     bindE (guard_enter now uuid hh userId input) (\<lambda>rid v.
       let (r, v') = run v in (r, release_reservation rid v')) w"

definition system_guarded ::
    "time \<Rightarrow> string \<Rightarrow> string option \<Rightarrow> string option \<Rightarrow> estimate_input \<Rightarrow> system_guard \<Rightarrow>
     ('a llm_services_scheme, llm_error, 'r) throwing \<Rightarrow> ('a llm_services_scheme, llm_error, 'r) throwing" where
  "system_guarded now uuid hh userId input sy run w =
     bindE (system_enter now uuid hh userId input sy) (\<lambda>rid v.
       let (r, v') = run v in (r, release_reservation rid v')) w"

definition guard_dispose :: "llm_guard \<Rightarrow> llm_guard" where
  "guard_dispose g = g\<lparr>lg_rateLimiter := rl_dispose (lg_rateLimiter g)\<rparr>"

section \<open>What the checks leave alone\<close>

definition svc_used :: "time \<Rightarrow> string \<Rightarrow> 'a llm_services_scheme \<Rightarrow> nat" where
  "svc_used now k w = (case sv_household w of None \<Rightarrow> 0 | Some hl \<Rightarrow> hl_used now k hl)"

definition svc_ready :: "'a llm_services_scheme \<Rightarrow> bool" where
  "svc_ready w \<longleftrightarrow> (case sv_household w of None \<Rightarrow> True | Some hl \<Rightarrow> hl_ready hl \<and> \<not> hl_disposed hl)"

text \<open>The household half of the state up to what a peek may do: purging, and the month rollover.\<close>

definition svc_same :: "time \<Rightarrow> 'a llm_services_scheme \<Rightarrow> 'b llm_services_scheme \<Rightarrow> bool" where
  "svc_same now w w' \<longleftrightarrow>
     (\<forall>k. svc_used now k w' = svc_used now k w) \<and> svc_ready w' \<and>
     map_option hl_config (sv_household w') = map_option hl_config (sv_household w) \<and>
     sv_costs w' \<in> {sv_costs w, ct_checkMonthRollover now (sv_costs w)}"

definition app_same :: "time \<Rightarrow> llm_guard \<Rightarrow> llm_guard \<Rightarrow> bool" where
  "app_same now g g' \<longleftrightarrow>
     g' = g\<lparr>lg_rateLimiter := lg_rateLimiter g'\<rparr> \<and>
     (\<forall>k. rl_used now k (lg_rateLimiter g') = rl_used now k (lg_rateLimiter g)) \<and>
     rl_maxAttempts (lg_rateLimiter g') = rl_maxAttempts (lg_rateLimiter g) \<and>
     rl_disposed (lg_rateLimiter g') = rl_disposed (lg_rateLimiter g) \<and> rl_ready (lg_rateLimiter g')"

text \<open>Only the shared services of the state changed.\<close>

definition only_services :: "'a llm_services_scheme \<Rightarrow> 'a llm_services_scheme \<Rightarrow> bool" where
  "only_services w w' \<longleftrightarrow> w' = w\<lparr>sv_household := sv_household w', sv_costs := sv_costs w'\<rparr>"

lemma only_services_guard: "only_services w w' \<Longrightarrow> gw_guard w' = gw_guard w"
proof -
  assume "only_services w w'"
  then have "gw_guard w' = gw_guard (w\<lparr>sv_household := sv_household w', sv_costs := sv_costs w'\<rparr>)"
    unfolding only_services_def by (rule arg_cong)
  then show ?thesis by simp
qed

lemma only_services_alt: "only_services w w' \<longleftrightarrow> (\<exists>h c. w' = w\<lparr>sv_household := h, sv_costs := c\<rparr>)"
  unfolding only_services_def by (rule iffI) (blast, auto)

lemma only_services_costs: "only_services u c \<Longrightarrow> only_services u (c\<lparr>sv_costs := x\<rparr>)"
proof -
  assume "only_services u c"
  then obtain h d where "c = u\<lparr>sv_household := h, sv_costs := d\<rparr>" unfolding only_services_alt by blast
  then have "c\<lparr>sv_costs := x\<rparr> = u\<lparr>sv_household := h, sv_costs := x\<rparr>" by simp
  then show ?thesis unfolding only_services_alt by blast
qed

lemma svc_same_refl: "svc_ready w \<Longrightarrow> svc_same now w w"
  by (simp add: svc_same_def)

lemma svc_same_trans: "svc_same now w w' \<Longrightarrow> svc_same now w' w'' \<Longrightarrow> svc_same now w w''"
  by (auto simp: svc_same_def)

lemma svc_same_ready: "svc_same now w w' \<Longrightarrow> svc_ready w'"
  by (simp add: svc_same_def)

lemma svc_same_only_guard: "svc_ready w \<Longrightarrow> svc_same now w (w\<lparr>gw_guard := g\<rparr>)"
  by (simp add: svc_same_def svc_used_def svc_ready_def)

lemma svc_same_costs:
  "svc_ready w \<Longrightarrow> c \<in> {sv_costs w, ct_checkMonthRollover now (sv_costs w)} \<Longrightarrow>
   svc_same now w (w\<lparr>sv_costs := c\<rparr>) \<and> only_services w (w\<lparr>sv_costs := c\<rparr>)"
  by (simp add: svc_same_def svc_used_def svc_ready_def only_services_def)

section \<open>The verdicts\<close>

text \<open>What each step decides, as a predicate of the state before it.\<close>

definition app_rate_free :: "time \<Rightarrow> llm_guard \<Rightarrow> bool" where
  "app_rate_free now g \<longleftrightarrow> \<not> rl_disposed (lg_rateLimiter g) \<and>
     rl_used now (lg_appId g) (lg_rateLimiter g) < rl_maxAttempts (lg_rateLimiter g)"

definition household_rate_free :: "time \<Rightarrow> string option \<Rightarrow> 'a llm_services_scheme \<Rightarrow> bool" where
  "household_rate_free now hh w \<longleftrightarrow>
     (case (sv_household w, hl_attribute hh) of
        (Some hl, Enforced) \<Rightarrow> hl_used now (the hh) hl < hl_cap (the hh) hl | _ \<Rightarrow> True)"

text \<open>What a household has spent or promised in the current month.\<close>

definition household_load :: "time \<Rightarrow> string \<Rightarrow> cost_tracker \<Rightarrow> usd" where
  "household_load now hh ct =
     (let ct = ct_checkMonthRollover now ct
      in round6 (get_or 0 (ct_monthlyHouseholdCosts ct) hh + pending_of now hh (ct_reservations ct)))"

definition household_budget_free :: "time \<Rightarrow> string option \<Rightarrow> usd \<Rightarrow> 'a llm_services_scheme \<Rightarrow> bool" where
  "household_budget_free now hh est w \<longleftrightarrow>
     (case (sv_household w, hl_attribute hh) of
        (Some hl, Enforced) \<Rightarrow>
          \<not> reaches (household_load now (the hh) (sv_costs w) + est) (hl_costCap (the hh) hl)
      | _ \<Rightarrow> True)"

definition app_budget_free :: "time \<Rightarrow> string \<Rightarrow> jsnum \<Rightarrow> cost_tracker \<Rightarrow> bool" where
  "app_budget_free now app cap ct \<longleftrightarrow>
     \<not> reaches (get_or 0 (ct_monthlyCosts (ct_checkMonthRollover now ct)) app) cap"

definition global_budget_free :: "time \<Rightarrow> jsnum \<Rightarrow> cost_tracker \<Rightarrow> bool" where
  "global_budget_free now cap ct \<longleftrightarrow> \<not> reaches (ct_monthlyTotal (ct_checkMonthRollover now ct)) cap"

lemma rollover_again [simp]:
  "ct_checkMonthRollover now (ct_checkMonthRollover now ct) = ct_checkMonthRollover now ct"
  by simp

lemma svc_same_rollover:
  "svc_same now w w' \<Longrightarrow> ct_checkMonthRollover now (sv_costs w') = ct_checkMonthRollover now (sv_costs w)"
  by (auto simp: svc_same_def)

lemma hl_config_cost:
  "hl_config hl = hl_config hl' \<Longrightarrow> hl_costCap hh hl = hl_costCap hh hl'"
  "hl_config hl = hl_config hl' \<Longrightarrow> hl_cap hh hl = hl_cap hh hl'"
  by (simp_all add: hl_costCap_def hl_override_def hl_cap_def hl_effectiveRate_def)

lemma svc_same_limiter:
  assumes "svc_same now w w'" "sv_household w = Some a" "sv_household w' = Some b"
  shows "hl_costCap k b = hl_costCap k a" "hl_cap k b = hl_cap k a" "hl_used now k b = hl_used now k a"
proof -
  have c: "hl_config b = hl_config a" and u: "svc_used now k w' = svc_used now k w"
    using assms by (simp_all add: svc_same_def)
  show "hl_costCap k b = hl_costCap k a" "hl_cap k b = hl_cap k a" using hl_config_cost [OF c] by simp_all
  show "hl_used now k b = hl_used now k a" using u assms(2,3) by (simp add: svc_used_def)
qed

lemma svc_same_None: "svc_same now w w' \<Longrightarrow> sv_household w' = None \<longleftrightarrow> sv_household w = None"
  by (metis map_option_is_None svc_same_def)

lemma svc_same_verdicts:
  assumes "svc_same now w w'"
  shows "household_budget_free now hh est w' = household_budget_free now hh est w"
    "household_rate_free now hh w' = household_rate_free now hh w"
    "app_budget_free now app cap (sv_costs w') = app_budget_free now app cap (sv_costs w)"
    "global_budget_free now cap (sv_costs w') = global_budget_free now cap (sv_costs w)"
proof -
  note roll = svc_same_rollover [OF assms]
  have load: "household_load now k (sv_costs w') = household_load now k (sv_costs w)" for k
    by (simp add: household_load_def roll)
  show "household_budget_free now hh est w' = household_budget_free now hh est w"
    "household_rate_free now hh w' = household_rate_free now hh w"
    using svc_same_None [OF assms] svc_same_limiter [OF assms]
    by (auto simp: household_budget_free_def household_rate_free_def load
        split: attribution.split option.split)
  show "app_budget_free now app cap (sv_costs w') = app_budget_free now app cap (sv_costs w)"
    "global_budget_free now cap (sv_costs w') = global_budget_free now cap (sv_costs w)"
    by (simp_all add: app_budget_free_def global_budget_free_def roll)
qed

section \<open>Step by step\<close>

lemma app_rate_peek_step:
  assumes "app_rate_peek now w = (r, w')" "rl_ready (lg_rateLimiter (gw_guard w))" "svc_ready w"
  shows "svc_same now w w' \<and> app_same now (gw_guard w) (gw_guard w') \<and>
    ((\<exists>tk. r = Inr tk) \<longleftrightarrow> app_rate_free now (gw_guard w)) \<and>
    (\<forall>tk. r = Inr tk \<longrightarrow> tk_allowed tk \<and> rl_check now (lg_appId (gw_guard w)) (lg_rateLimiter (gw_guard w)) =
        Inr (tk, lg_rateLimiter (gw_guard w')))"
proof (cases "rl_check now (lg_appId (gw_guard w)) (lg_rateLimiter (gw_guard w))")
  case (Inl e)
  then show ?thesis
    using assms by (auto simp: app_rate_peek_def svc_same_refl app_same_def app_rate_free_def rl_check_def Let_def
        split: if_splits)
next
  case (Inr p)
  then obtain tk rl where c: "rl_check now (lg_appId (gw_guard w)) (lg_rateLimiter (gw_guard w)) = Inr (tk, rl)"
    by (cases p) auto
  note ok = rl_check_ok [OF c]
  have "app_same now (gw_guard w) ((gw_guard w)\<lparr>lg_rateLimiter := rl\<rparr>)"
    using assms(2) ok(5) by (simp add: app_same_def ok(1) rl_ready_def)
  then show ?thesis
    using assms c ok(2,5) svc_same_only_guard
    by (auto simp: app_rate_peek_def Let_def app_rate_free_def split: if_splits)
qed

lemma household_rate_peek_step:
  assumes "household_rate_peek now hh w = (r, w')" "svc_ready w"
  shows "svc_same now w w' \<and> only_services w w' \<and> ((\<exists>t. r = Inr t) \<longleftrightarrow> household_rate_free now hh w) \<and>
    (\<forall>t. r = Inr (Some t) \<longrightarrow> ht_allowed t \<and> (\<exists>hl hl'. sv_household w = Some hl \<and> sv_household w' = Some hl' \<and>
       hl_check now hh hl = Inr (t, hl'))) \<and>
    (r = Inr None \<longrightarrow> sv_household w' = None)"
proof (cases "sv_household w")
  case None
  with assms show ?thesis
    by (auto simp: household_rate_peek_def svc_same_refl only_services_def household_rate_free_def)
next
  case (Some hl)
  with assms(2) have ready: "hl_ready hl" "\<not> hl_disposed hl" by (simp_all add: svc_ready_def)
  from hl_check_succeeds [OF this] obtain t hl' where c: "hl_check now hh hl = Inr (t, hl')" by blast
  have frame: "(\<forall>k. hl_used now k hl' = hl_used now k hl) \<and> hl_ready hl' \<and> hl_config hl' = hl_config hl \<and>
      hl_disposed hl' = hl_disposed hl \<and>
      (ht_allowed t \<longleftrightarrow> (hl_attribute hh = Enforced \<longrightarrow> hl_used now (the hh) hl < hl_cap (the hh) hl))"
  proof (cases "hl_attribute hh")
    case Platform
    then show ?thesis using hl_check_platform [OF c] ready by simp
  next
    case Enforced
    then obtain k where k: "hh = Some k" by (cases hh) (auto simp: hl_attribute_def split: if_splits)
    have e: "hl_enforced k" using Enforced k by (simp add: hl_enforced_def)
    have "hl_config hl' = hl_config hl \<and> hl_disposed hl' = hl_disposed hl"
      using hl_check_enforced [OF c [unfolded k] e] hl_getRateLimiter_ok(4,5) [OF ready(1)] by fastforce
    then show ?thesis
      using hl.check_used [OF ready(1) c [unfolded k]] hl.check_ready [OF ready(1) c [unfolded k]]
        hl.check_verdict [OF ready(1) e c [unfolded k]] k Enforced by simp
  qed
  have same: "svc_same now w (w\<lparr>sv_household := Some hl'\<rparr>)" "only_services w (w\<lparr>sv_household := Some hl'\<rparr>)"
    using frame ready Some by (simp_all add: svc_same_def svc_used_def svc_ready_def only_services_def)
  show ?thesis
    using assms(1) same frame Some c
    by (auto simp: household_rate_peek_def Let_def household_rate_free_def split: if_splits attribution.splits)
qed

lemma app_cost_cap_step:
  assumes "app_cost_cap now w = (r, w')" "svc_ready w"
  shows "svc_same now w w' \<and> only_services w w' \<and>
    (r = Inr () \<longleftrightarrow> app_budget_free now (lg_appId (gw_guard w)) (gc_monthlyCostCap (lg_config (gw_guard w))) (sv_costs w))"
  using assms svc_same_costs [OF assms(2), of "ct_checkMonthRollover now (sv_costs w)" now]
  by (auto simp: app_cost_cap_def ct_getMonthlyAppCost_def Let_def app_budget_free_def split: if_splits)

lemma global_cost_cap_step:
  assumes "global_cost_cap now cap w = (r, w')" "svc_ready w"
  shows "svc_same now w w' \<and> only_services w w' \<and> (r = Inr () \<longleftrightarrow> global_budget_free now cap (sv_costs w)) \<and>
    sv_costs w' = ct_checkMonthRollover now (sv_costs w)"
  using assms svc_same_costs [OF assms(2), of "ct_checkMonthRollover now (sv_costs w)" now]
  by (auto simp: global_cost_cap_def ct_getMonthlyTotalCost_def Let_def global_budget_free_def split: if_splits)

lemma household_cost_cap_step:
  assumes "household_cost_cap now hh est w = (r, w')" "svc_ready w" "0 \<le> est"
  shows "svc_same now w w' \<and> only_services w w' \<and> (r = Inr () \<longleftrightarrow> household_budget_free now hh est w)"
proof (cases "sv_household w")
  case None
  with assms show ?thesis
    by (auto simp: household_cost_cap_def svc_same_refl only_services_def household_budget_free_def)
next
  case (Some hl)
  with assms(2) have nd: "\<not> hl_disposed hl" by (simp add: svc_ready_def)
  obtain err c where c: "hl_checkCost now hh (Fin est) hl (sv_costs w) = (err, c)" by fastforce
  have "c \<in> {sv_costs w, ct_checkMonthRollover now (sv_costs w)} \<and> (err = None \<longleftrightarrow> household_budget_free now hh est w)"
    using c nd assms(3) Some
    by (auto simp: hl_checkCost_def household_budget_free_def reaches_def household_load_def
        ct_getMonthlyHouseholdCost_def Let_def split: attribution.splits if_splits)
  then show ?thesis
    using assms(1) Some c svc_same_costs [OF assms(2), of c now]
    by (auto simp: household_cost_cap_def Let_def split: option.splits)
qed

lemma cost_steps_keep_household:
  "sv_household (snd (app_cost_cap now u)) = sv_household u"
  "sv_household (snd (household_cost_cap now hh est w)) = sv_household w"
  "sv_household (snd (global_cost_cap now cap w)) = sv_household w"
  by (simp_all add: app_cost_cap_def household_cost_cap_def global_cost_cap_def Let_def case_prod_unfold
      split: option.split)

section \<open>Taking the slots and the reservation\<close>

definition enforced_here :: "string option \<Rightarrow> 'a llm_services_scheme \<Rightarrow> bool" where
  "enforced_here hh w \<longleftrightarrow> sv_household w \<noteq> None \<and> hl_attribute hh = Enforced"

lemma svc_same_enforced: "svc_same now w w' \<Longrightarrow> enforced_here hh w' = enforced_here hh w"
  by (drule svc_same_None) (simp add: enforced_here_def)

lemma enforced_Some: "hl_attribute hh = Enforced \<Longrightarrow> hh = Some (the hh) \<and> hl_enforced (the hh)"
  by (cases hh) (auto simp: hl_attribute_def hl_enforced_def split: if_splits)

lemma household_commit_step:
  assumes p: "household_rate_peek now hh w = (Inr hhR, w')" and ready: "svc_ready w"
    and v: "sv_household v = sv_household w'"
  shows "svc_used now k (household_commit now hhR v) =
      svc_used now k w + (if enforced_here hh w \<and> k = the hh then 1 else 0)"
    "svc_ready (household_commit now hhR v)"
    "map_option hl_config (sv_household (household_commit now hhR v)) = map_option hl_config (sv_household w)"
    "sv_costs (household_commit now hhR v) = sv_costs v"
    "only_services v (household_commit now hhR v)"
proof -
  note step = household_rate_peek_step [OF p ready]
  have "svc_used now k (household_commit now hhR v) =
      svc_used now k w + (if enforced_here hh w \<and> k = the hh then 1 else 0) \<and>
    svc_ready (household_commit now hhR v) \<and>
    map_option hl_config (sv_household (household_commit now hhR v)) = map_option hl_config (sv_household w)"
  proof (cases hhR)
    case None
    then show ?thesis
      using step v svc_same_None [of now w w']
      by (auto simp: household_commit_def enforced_here_def svc_used_def svc_ready_def)
  next
    case (Some t)
    then obtain hl hl' where t: "ht_allowed t" "sv_household w = Some hl" "sv_household w' = Some hl'"
        "hl_check now hh hl = Inr (t, hl')" using step by blast
    have r: "hl_ready hl" "hl_ready hl'" "\<not> hl_disposed hl'" "hl_config hl' = hl_config hl"
      "\<And>k. hl_used now k hl' = hl_used now k hl"
      using ready step t(2,3) by (auto simp: svc_ready_def svc_same_def svc_used_def)
    have c: "hl_ready (snd (hl_commit now t hl'))" using r(2) by (rule hl.commit_ready)
    have d: "hl_disposed (snd (hl_commit now t hl')) = hl_disposed hl'"
      "hl_config (snd (hl_commit now t hl')) = hl_config hl'"
      by (simp_all add: hl_commit_def case_prod_unfold Let_def split: option.split)
    have u: "hl_used now k (snd (hl_commit now t hl')) =
        hl_used now k hl + (if hl_attribute hh = Enforced \<and> k = the hh then 1 else 0)"
    proof (cases "hl_attribute hh")
      case Platform
      then show ?thesis using hl_check_platform [OF t(4)] by (simp add: hl_commit_def)
    next
      case Enforced
      then show ?thesis
        using enforced_Some [OF Enforced] hl.commit_used [OF r(1) _ t(1), of now "the hh" hl' k] t(4) by simp
    qed
    show ?thesis
      using t(2,3) v Some r c d u by (simp add: household_commit_def enforced_here_def svc_used_def svc_ready_def)
  qed
  then show "svc_used now k (household_commit now hhR v) =
      svc_used now k w + (if enforced_here hh w \<and> k = the hh then 1 else 0)"
    "svc_ready (household_commit now hhR v)"
    "map_option hl_config (sv_household (household_commit now hhR v)) = map_option hl_config (sv_household w)"
    by blast+
  show "sv_costs (household_commit now hhR v) = sv_costs v" "only_services v (household_commit now hhR v)"
    by (simp_all add: household_commit_def only_services_def split: option.split)
qed

text \<open>The ledger after a call was let in: rolled over, and the reservation added where it applies.\<close>

definition admitted_costs ::
    "time \<Rightarrow> string \<Rightarrow> string option \<Rightarrow> string \<Rightarrow> string option \<Rightarrow> usd \<Rightarrow> 'a llm_services_scheme \<Rightarrow> cost_tracker" where
  "admitted_costs now uuid hh app user est w =
     (let ct = ct_checkMonthRollover now (sv_costs w)
      in if enforced_here hh w
         then ct\<lparr>ct_reservations := set_key uuid \<lparr>r_householdId = the hh, r_appId = Some app, r_userId = user,
                  r_amount = est, r_expiresAt = now + 60000\<rparr> (ct_reservations ct),
                ct_reservationTimer := True\<rparr>
         else ct)"

definition admitted_id :: "string \<Rightarrow> string option \<Rightarrow> 'a llm_services_scheme \<Rightarrow> string" where
  "admitted_id uuid hh w =
     (if enforced_here hh w then uuid
      else if sv_household w = None then ''60000'' else PLATFORM_NOOP_RESERVATION)"

text \<open>With a valid estimate and a live limiter the reservation never throws.\<close>

lemma reserve_estimate_step:
  assumes "svc_ready w" "0 \<le> est" "sv_costs w = ct_checkMonthRollover now (sv_costs w0)"
    "enforced_here hh w = enforced_here hh w0" "sv_household w = None \<longleftrightarrow> sv_household w0 = None"
  shows "reserve_estimate rb now uuid hh app user est w =
    (Inr (admitted_id uuid hh w0), w\<lparr>sv_costs := admitted_costs now uuid hh app user est w0\<rparr>)"
  using assms
  by (auto simp: reserve_estimate_def hl_reserveEstimated_def ct_reserveEstimated_def admitted_id_def
      admitted_costs_def enforced_here_def svc_ready_def Let_def split: option.splits attribution.splits)

section \<open>The guard as a whole\<close>

text \<open>
  A triple with an exit for thrown errors: from \<open>P\<close>, \<open>m\<close> returns in \<open>Q\<close> or throws in \<open>E\<close>.
\<close>

definition hoareE :: "('s \<Rightarrow> bool) \<Rightarrow> ('s, 'e, 'a) throwing \<Rightarrow> ('a \<Rightarrow> 's \<Rightarrow> bool) \<Rightarrow> ('s \<Rightarrow> bool) \<Rightarrow> bool" where
  "hoareE P m Q E \<longleftrightarrow> (\<forall>w. P w \<longrightarrow> (case m w of (Inr a, w') \<Rightarrow> Q a w' | (Inl e, w') \<Rightarrow> E w'))"

lemma hoareE_bind:
  assumes "hoareE P m Q E" "\<And>a. hoareE (Q a) (f a) R E"
  shows "hoareE P (bindE m f) R E"
  using assms unfolding hoareE_def bindE_def
  by (fastforce split: prod.splits sum.splits)

lemma hoareEI:
  assumes "\<And>w r w'. P w \<Longrightarrow> m w = (r, w') \<Longrightarrow> (\<forall>a. r = Inr a \<longrightarrow> Q a w') \<and> ((\<nexists>a. r = Inr a) \<longrightarrow> E w')"
  shows "hoareE P m Q E"
  unfolding hoareE_def
proof (intro allI impI)
  fix w assume "P w"
  from assms [OF this, of "fst (m w)" "snd (m w)"]
  show "case m w of (Inr a, w') \<Rightarrow> Q a w' | (Inl e, w') \<Rightarrow> E w'"
    by (auto split: prod.split sum.split)
qed

text \<open>The decision of a guard as a whole, on the state a call finds.\<close>

definition services_open :: "time \<Rightarrow> string option \<Rightarrow> usd \<Rightarrow> jsnum \<Rightarrow> 'a llm_services_scheme \<Rightarrow> bool" where
  "services_open now hh est cap w \<longleftrightarrow>
     household_rate_free now hh w \<and> household_budget_free now hh est w \<and> global_budget_free now cap (sv_costs w)"

definition guard_open :: "time \<Rightarrow> string option \<Rightarrow> usd \<Rightarrow> guard_world \<Rightarrow> bool" where
  "guard_open now hh est w \<longleftrightarrow>
     app_rate_free now (gw_guard w) \<and>
     app_budget_free now (lg_appId (gw_guard w)) (gc_monthlyCostCap (lg_config (gw_guard w))) (sv_costs w) \<and>
     services_open now hh est (gc_globalMonthlyCostCap (lg_config (gw_guard w))) w"

text \<open>What a household ticket stands for: the peek that produced it.\<close>

definition household_peeked :: "time \<Rightarrow> string option \<Rightarrow> hl_ticket option \<Rightarrow> 'a llm_services_scheme \<Rightarrow>
    'a llm_services_scheme \<Rightarrow> bool" where
  "household_peeked now hh hhR w0 w \<longleftrightarrow>
     (\<exists>u u' :: 'a llm_services_scheme. svc_same now w0 u \<and> svc_ready u \<and>
        household_rate_peek now hh u = (Inr hhR, u') \<and> sv_household w = sv_household u')"

lemma household_peeked_commit:
  fixes w0 v :: "'a llm_services_scheme"
  assumes "household_peeked now hh hhR w0 v"
  shows "svc_used now k (household_commit now hhR v) =
      svc_used now k w0 + (if enforced_here hh w0 \<and> k = the hh then 1 else 0)"
    "svc_ready (household_commit now hhR v)"
    "map_option hl_config (sv_household (household_commit now hhR v)) = map_option hl_config (sv_household w0)"
proof -
  obtain u u' :: "'a llm_services_scheme" where u: "svc_same now w0 u" "svc_ready u" "household_rate_peek now hh u = (Inr hhR, u')"
    "sv_household v = sv_household u'" using assms unfolding household_peeked_def by blast
  note c = household_commit_step [OF u(3,2,4)]
  show "svc_used now k (household_commit now hhR v) =
      svc_used now k w0 + (if enforced_here hh w0 \<and> k = the hh then 1 else 0)"
    using c(1) [of k] u(1) svc_same_enforced [OF u(1)] by (simp add: svc_same_def)
  show "svc_ready (household_commit now hhR v)" by (rule c(2))
  show "map_option hl_config (sv_household (household_commit now hhR v)) = map_option hl_config (sv_household w0)"
    using c(3) u(1) by (simp add: svc_same_def)
qed

text \<open>
  The steps both guards share, as triples about the state \<open>w0\<close> the call found. \<open>I\<close> is what
  the caller keeps of its own part of the state.
\<close>

definition keeps :: "('a llm_services_scheme \<Rightarrow> bool) \<Rightarrow> bool" where
  "keeps I \<longleftrightarrow> (\<forall>w w'. I w \<longrightarrow> only_services w w' \<longrightarrow> I w')"

lemma household_rate_peek_triple:
  assumes "keeps I"
  shows "hoareE (\<lambda>w. svc_same now w0 w \<and> I w) (household_rate_peek now hh)
    (\<lambda>hhR w. svc_same now w0 w \<and> I w \<and> household_rate_free now hh w0 \<and> household_peeked now hh hhR w0 w)
    (\<lambda>w. svc_same now w0 w \<and> I w \<and> \<not> household_rate_free now hh w0)"
proof (rule hoareEI)
  fix w r w'
  assume w: "svc_same now w0 w \<and> I w" and m: "household_rate_peek now hh w = (r, w')"
  have ready: "svc_ready w" using w by (blast intro: svc_same_ready)
  note step = household_rate_peek_step [OF m ready]
  have "svc_same now w0 w'" "I w'" "household_rate_free now hh w = household_rate_free now hh w0"
    using step w assms svc_same_trans [of now w0 w w'] svc_same_verdicts(2) [of now w0 w hh]
    by (auto simp: keeps_def)
  then show "(\<forall>a. r = Inr a \<longrightarrow> svc_same now w0 w' \<and> I w' \<and> household_rate_free now hh w0 \<and>
      household_peeked now hh a w0 w') \<and>
    ((\<nexists>a. r = Inr a) \<longrightarrow> svc_same now w0 w' \<and> I w' \<and> \<not> household_rate_free now hh w0)"
    using step w ready m by (auto simp: household_peeked_def)
qed

text \<open>The cost checks are alike: a verdict, nothing but the ledger touched.\<close>

lemma cost_check_triple:
  assumes "\<And>w r w'. m w = (r, w') \<Longrightarrow> svc_ready w \<Longrightarrow> I w \<Longrightarrow>
      svc_same now w w' \<and> only_services w w' \<and> sv_household w' = sv_household w \<and> (r = Inr () \<longleftrightarrow> free w)"
    and "\<And>w. svc_same now w0 w \<Longrightarrow> I w \<Longrightarrow> free w \<longleftrightarrow> verdict"
    and "keeps I"
  shows "hoareE (\<lambda>w. svc_same now w0 w \<and> I w \<and> household_peeked now hh hhR w0 w) m
    (\<lambda>_ w. svc_same now w0 w \<and> I w \<and> household_peeked now hh hhR w0 w \<and> verdict)
    (\<lambda>w. svc_same now w0 w \<and> I w \<and> \<not> verdict)"
proof (rule hoareEI)
  fix w r w'
  assume w: "svc_same now w0 w \<and> I w \<and> household_peeked now hh hhR w0 w" and m: "m w = (r, w')"
  have ready: "svc_ready w" using w by (blast intro: svc_same_ready)
  note step = assms(1) [OF m ready conjunct1 [OF conjunct2 [OF w]]]
  have "svc_same now w0 w'" "I w'" "household_peeked now hh hhR w0 w'" "free w = verdict"
    using step w assms(2,3) svc_same_trans [of now w0 w w'] by (auto simp: keeps_def household_peeked_def)
  then show "(\<forall>a. r = Inr a \<longrightarrow> svc_same now w0 w' \<and> I w' \<and> household_peeked now hh hhR w0 w' \<and> verdict) \<and>
    ((\<nexists>a. r = Inr a) \<longrightarrow> svc_same now w0 w' \<and> I w' \<and> \<not> verdict)"
    using step by auto
qed

lemma hoareE_conseq:
  assumes "hoareE P m Q E" "\<And>w. P' w \<Longrightarrow> P w" "\<And>a w. Q a w \<Longrightarrow> Q' a w" "\<And>w. E w \<Longrightarrow> E' w"
  shows "hoareE P' m Q' E'"
  using assms unfolding hoareE_def by (fastforce split: prod.splits sum.splits)

text \<open>The three shared steps up to the last check, with the ledger rolled over.\<close>

lemma global_cost_cap_triple:
  assumes "keeps I"
  shows "hoareE (\<lambda>w. svc_same now w0 w \<and> I w \<and> household_peeked now hh hhR w0 w) (global_cost_cap now cap)
    (\<lambda>_ w. svc_same now w0 w \<and> I w \<and> household_peeked now hh hhR w0 w \<and>
       global_budget_free now cap (sv_costs w0) \<and> sv_costs w = ct_checkMonthRollover now (sv_costs w0))
    (\<lambda>w. svc_same now w0 w \<and> I w \<and> \<not> global_budget_free now cap (sv_costs w0))"
proof (rule hoareEI)
  fix w r w'
  assume w: "svc_same now w0 w \<and> I w \<and> household_peeked now hh hhR w0 w" and m: "global_cost_cap now cap w = (r, w')"
  have ready: "svc_ready w" using w by (blast intro: svc_same_ready)
  note step = global_cost_cap_step [OF m ready]
  have "sv_household w' = sv_household w" using cost_steps_keep_household(3) [of now cap w] by (simp add: m)
  then have "svc_same now w0 w'" "I w'" "household_peeked now hh hhR w0 w'"
    "global_budget_free now cap (sv_costs w) = global_budget_free now cap (sv_costs w0)"
    "sv_costs w' = ct_checkMonthRollover now (sv_costs w0)"
    using step w assms svc_same_trans [of now w0 w w'] svc_same_verdicts(4) [of now w0 w cap]
      svc_same_rollover [of now w0 w]
    by (auto simp: keeps_def household_peeked_def)
  then show "(\<forall>a. r = Inr a \<longrightarrow> svc_same now w0 w' \<and> I w' \<and> household_peeked now hh hhR w0 w' \<and>
      global_budget_free now cap (sv_costs w0) \<and> sv_costs w' = ct_checkMonthRollover now (sv_costs w0)) \<and>
    ((\<nexists>a. r = Inr a) \<longrightarrow> svc_same now w0 w' \<and> I w' \<and> \<not> global_budget_free now cap (sv_costs w0))"
    using step by auto
qed

lemma household_cost_cap_triple:
  assumes "keeps I" "0 \<le> est"
  shows "hoareE (\<lambda>w. svc_same now w0 w \<and> I w \<and> household_peeked now hh hhR w0 w) (household_cost_cap now hh est)
    (\<lambda>_ w. svc_same now w0 w \<and> I w \<and> household_peeked now hh hhR w0 w \<and> household_budget_free now hh est w0)
    (\<lambda>w. svc_same now w0 w \<and> I w \<and> \<not> household_budget_free now hh est w0)"
proof (rule cost_check_triple [where free = "household_budget_free now hh est"])
  show "svc_same now w w' \<and> only_services w w' \<and> sv_household w' = sv_household w \<and>
      (r = Inr () \<longleftrightarrow> household_budget_free now hh est w)"
    if "household_cost_cap now hh est w = (r, w')" "svc_ready w" for w r w'
    using household_cost_cap_step [OF that assms(2)] cost_steps_keep_household(2) [of now hh est w] that(1) by simp
qed (auto simp: assms svc_same_verdicts)

text \<open>The system guard: its decision, what a refusal leaves, what an admission takes.\<close>

definition admits ::
    "time \<Rightarrow> string \<Rightarrow> string option \<Rightarrow> string \<Rightarrow> string option \<Rightarrow> usd \<Rightarrow> 'a llm_services_scheme \<Rightarrow> string \<Rightarrow>
     'a llm_services_scheme \<Rightarrow> bool" where
  "admits now uuid hh app user est w rid w' \<longleftrightarrow>
     rid = admitted_id uuid hh w \<and> sv_costs w' = admitted_costs now uuid hh app user est w \<and>
     map_option hl_config (sv_household w') = map_option hl_config (sv_household w) \<and> svc_ready w' \<and>
     (\<forall>k. svc_used now k w' = svc_used now k w + (if enforced_here hh w \<and> k = the hh then 1 else 0))"

lemma reserve_admits:
  assumes "household_peeked now hh hhR w0 v" "svc_same now w0 v" "sv_costs v = ct_checkMonthRollover now (sv_costs w0)"
    "0 \<le> est" "sv_household u = sv_household v" "sv_costs u = sv_costs v"
  shows "\<exists>rid w'. reserve_estimate rb now uuid hh app user est (household_commit now hhR u) = (Inr rid, w') \<and>
    admits now uuid hh app user est w0 rid w' \<and> only_services u w'"
proof -
  have pk: "household_peeked now hh hhR w0 u" using assms(1,5) by (simp add: household_peeked_def)
  note hc = household_peeked_commit [OF pk]
  let ?c = "household_commit now hhR u"
  have c: "sv_costs ?c = sv_costs u" "sv_household ?c = None \<longleftrightarrow> sv_household u = None" "only_services u ?c"
    by (simp_all add: household_commit_def only_services_def split: option.split)
  have n: "sv_household ?c = None \<longleftrightarrow> sv_household w0 = None"
    using c(2) assms(5) svc_same_None [OF assms(2)] by simp
  then have "enforced_here hh ?c = enforced_here hh w0" by (simp add: enforced_here_def)
  from reserve_estimate_step [OF hc(2) assms(4) _ this n] c(1) assms(3,6)
  have r: "reserve_estimate rb now uuid hh app user est ?c =
      (Inr (admitted_id uuid hh w0), ?c\<lparr>sv_costs := admitted_costs now uuid hh app user est w0\<rparr>)" by simp
  show ?thesis
    using r hc only_services_costs [OF c(3)]
    by (simp add: admits_def svc_used_def svc_ready_def)
qed

lemma keeps_True [simp]: "keeps (\<lambda>_. True)"
  by (simp add: keeps_def)

lemma keeps_const: "keeps I \<Longrightarrow> keeps (\<lambda>w. I w \<and> P)"
  unfolding keeps_def by blast

text \<open>
  From the household cost check to the reservation; \<open>com\<close> and \<open>rb\<close> are what the app guard
  adds to the commit and to its rollback.
\<close>

lemma guard_tail_triple:
  fixes w :: "'a llm_services_scheme"
  assumes k: "keeps I" and pos: "0 \<le> est"
    and com: "\<And>v. sv_household (com v) = sv_household v" "\<And>v. sv_costs (com v) = sv_costs v"
  shows "hoareE (\<lambda>v. svc_same now w v \<and> I v \<and> household_peeked now hh hhR w v)
    (bindE (household_cost_cap now hh est) (\<lambda>_. bindE (global_cost_cap now cap) (\<lambda>_ v.
       reserve_estimate rb now uuid hh app user est (household_commit now hhR (com v)))))
    (\<lambda>rid w'. household_budget_free now hh est w \<and> global_budget_free now cap (sv_costs w) \<and>
       admits now uuid hh app user est w rid w' \<and> (\<exists>v. I v \<and> only_services (com v) w'))
    (\<lambda>w'. svc_same now w w' \<and> I w' \<and>
       \<not> (household_budget_free now hh est w \<and> global_budget_free now cap (sv_costs w)))"
  (is "hoareE _ _ ?ok ?E")
proof -
  let ?B = "\<lambda>v :: 'a llm_services_scheme. I v \<and> household_budget_free now hh est w"
  have budget: "hoareE (\<lambda>v. svc_same now w v \<and> I v \<and> household_peeked now hh hhR w v) (household_cost_cap now hh est)
      (\<lambda>_ v. svc_same now w v \<and> ?B v \<and> household_peeked now hh hhR w v) ?E"
    by (rule hoareE_conseq [OF household_cost_cap_triple [OF k pos]]) auto
  have total: "hoareE (\<lambda>v. svc_same now w v \<and> ?B v \<and> household_peeked now hh hhR w v) (global_cost_cap now cap)
      (\<lambda>_ v. svc_same now w v \<and> ?B v \<and> household_peeked now hh hhR w v \<and>
        global_budget_free now cap (sv_costs w) \<and> sv_costs v = ct_checkMonthRollover now (sv_costs w)) ?E"
    by (rule hoareE_conseq [OF global_cost_cap_triple [OF keeps_const [OF k]]]) auto
  have reserve: "hoareE (\<lambda>v. svc_same now w v \<and> ?B v \<and> household_peeked now hh hhR w v \<and>
        global_budget_free now cap (sv_costs w) \<and> sv_costs v = ct_checkMonthRollover now (sv_costs w))
      (\<lambda>v. reserve_estimate rb now uuid hh app user est (household_commit now hhR (com v))) ?ok ?E"
  proof (rule hoareEI)
    fix v r w'
    assume v: "svc_same now w v \<and> ?B v \<and> household_peeked now hh hhR w v \<and>
        global_budget_free now cap (sv_costs w) \<and> sv_costs v = ct_checkMonthRollover now (sv_costs w)"
      and m: "reserve_estimate rb now uuid hh app user est (household_commit now hhR (com v)) = (r, w')"
    have "household_peeked now hh hhR w v" "svc_same now w v" "sv_costs v = ct_checkMonthRollover now (sv_costs w)"
      using v by blast+
    from reserve_admits [OF this pos com, of rb uuid app user] m obtain rid where
      "r = Inr rid" "admits now uuid hh app user est w rid w'" "only_services (com v) w'" by auto
    with v show "(\<forall>a. r = Inr a \<longrightarrow> ?ok a w') \<and> ((\<nexists>a. r = Inr a) \<longrightarrow> ?E w')" by blast
  qed
  show ?thesis by (intro hoareE_bind [OF budget] hoareE_bind [OF total] reserve)
qed

text \<open>A guard's entry: it opens exactly when its checks pass, and then or otherwise does this.\<close>

definition enters ::
    "('s, llm_error, string) throwing \<Rightarrow> 's \<Rightarrow> bool \<Rightarrow> (string \<Rightarrow> 's \<Rightarrow> bool) \<Rightarrow> ('s \<Rightarrow> bool) \<Rightarrow> bool" where
  "enters m w opened ok refused \<longleftrightarrow>
     (case m w of (Inr rid, w') \<Rightarrow> opened \<and> ok rid w' | (Inl e, w') \<Rightarrow> \<not> opened \<and> refused w')"

lemma guard_estimate_bind:
  "estimateGuardCost input prices = Inr est \<Longrightarrow> bindE (guard_estimate input prices) f w = f est w"
  by (simp add: bindE_def guard_estimate_def)

lemma system_enter_spec:
  fixes w :: "'a llm_services_scheme"
  assumes ready: "svc_ready w" and est: "estimateGuardCost input (sy_priceLookup sy) = Inr est"
  shows "enters (system_enter now uuid hh user input sy) w
    (services_open now hh est (sy_globalMonthlyCostCap sy) w)
    (admits now uuid hh (sy_attributionId sy) user est w) (svc_same now w)"
proof -
  have pos: "0 \<le> est" using est by (rule estimateGuardCost_nonneg)
  let ?A = "\<lambda>v :: 'a llm_services_scheme. household_rate_free now hh w"
  have A: "keeps ?A" by (simp add: keeps_def)
  have "hoareE (\<lambda>v. v = w)
    (bindE (household_rate_peek now hh) (\<lambda>hhR.
     bindE (household_cost_cap now hh est) (\<lambda>_.
     bindE (global_cost_cap now (sy_globalMonthlyCostCap sy)) (\<lambda>_ v.
     reserve_estimate id now uuid hh (sy_attributionId sy) user est (household_commit now hhR v)))))
    (\<lambda>rid w'. services_open now hh est (sy_globalMonthlyCostCap sy) w \<and>
       admits now uuid hh (sy_attributionId sy) user est w rid w')
    (\<lambda>w'. \<not> services_open now hh est (sy_globalMonthlyCostCap sy) w \<and> svc_same now w w')"
    by (rule hoareE_bind [OF hoareE_conseq [OF household_rate_peek_triple [OF keeps_True, of now w hh]]
          hoareE_conseq [OF guard_tail_triple [OF A pos, of id, simplified]]])
       (auto simp: services_open_def svc_same_refl [OF ready])
  then show ?thesis
    by (simp add: hoareE_def enters_def system_enter_def guard_estimate_bind [OF est]
        split: prod.splits sum.splits)
qed

text \<open>The app guard: the same, around its own rate limiter and cost cap.\<close>

definition app_peeked :: "time \<Rightarrow> rl_ticket \<Rightarrow> guard_world \<Rightarrow> guard_world \<Rightarrow> bool" where
  "app_peeked now tk w v \<longleftrightarrow>
     app_same now (gw_guard w) (gw_guard v) \<and> tk_allowed tk \<and>
     rl_check now (lg_appId (gw_guard w)) (lg_rateLimiter (gw_guard w)) = Inr (tk, lg_rateLimiter (gw_guard v))"

lemma app_peeked_keeps: "keeps (app_peeked now tk w)" "keeps (\<lambda>v. app_same now g (gw_guard v))"
  by (simp_all add: keeps_def app_peeked_def only_services_guard)

text \<open>One slot of the app's own limiter, and nothing else of the guard.\<close>

definition app_charged :: "time \<Rightarrow> guard_world \<Rightarrow> guard_world \<Rightarrow> bool" where
  "app_charged now w w' \<longleftrightarrow>
     gw_guard w' = (gw_guard w)\<lparr>lg_rateLimiter := lg_rateLimiter (gw_guard w')\<rparr> \<and>
     rl_maxAttempts (lg_rateLimiter (gw_guard w')) = rl_maxAttempts (lg_rateLimiter (gw_guard w)) \<and>
     rl_ready (lg_rateLimiter (gw_guard w')) \<and>
     (\<forall>k. rl_used now k (lg_rateLimiter (gw_guard w')) =
        rl_used now k (lg_rateLimiter (gw_guard w)) + (if k = lg_appId (gw_guard w) then 1 else 0))"

lemma app_commit_charges:
  assumes "app_peeked now tk w v" "rl_ready (lg_rateLimiter (gw_guard w))" "only_services (app_commit now tk v) w'"
  shows "app_charged now w w'"
proof -
  let ?g = "gw_guard w" and ?rl = "lg_rateLimiter (gw_guard v)"
  have c: "rl_check now (lg_appId ?g) (lg_rateLimiter ?g) = Inr (tk, ?rl)" and a: "tk_allowed tk"
    and s: "app_same now ?g (gw_guard v)" using assms(1) by (simp_all add: app_peeked_def)
  have g: "gw_guard w' = (gw_guard v)\<lparr>lg_rateLimiter := snd (rl_commit now tk ?rl)\<rparr>"
    using only_services_guard [OF assms(3)] by (simp add: app_commit_def)
  have gv: "gw_guard v = ?g\<lparr>lg_rateLimiter := ?rl\<rparr>" using s by (simp add: app_same_def)
  have "gw_guard w' = ?g\<lparr>lg_rateLimiter := snd (rl_commit now tk ?rl)\<rparr>"
    unfolding g by (subst gv) simp
  moreover have "rl_ready ?rl" "rl_maxAttempts ?rl = rl_maxAttempts (lg_rateLimiter ?g)"
    using s by (simp_all add: app_same_def)
  ultimately show ?thesis
    using rl.commit_used [OF assms(2) c a] rl.commit_ready [of ?rl now tk] by (simp add: app_charged_def)
qed

lemma guard_enter_spec:
  assumes ready: "svc_ready w" "rl_ready (lg_rateLimiter (gw_guard w))"
    and est: "estimateGuardCost input (lg_priceLookup (gw_guard w)) = Inr est"
  shows "enters (guard_enter now uuid hh user input) w (guard_open now hh est w)
    (\<lambda>rid w'. admits now uuid hh (lg_appId (gw_guard w)) user est w rid w' \<and> app_charged now w w')
    (\<lambda>w'. svc_same now w w' \<and> app_same now (gw_guard w) (gw_guard w'))"
proof -
  have pos: "0 \<le> est" using est by (rule estimateGuardCost_nonneg)
  let ?g = "gw_guard w" and ?cap = "gc_globalMonthlyCostCap (lg_config (gw_guard w))"
  let ?E = "\<lambda>w'. \<not> guard_open now hh est w \<and> svc_same now w w' \<and> app_same now ?g (gw_guard w')"
  let ?ok = "\<lambda>rid w'. guard_open now hh est w \<and> admits now uuid hh (lg_appId ?g) user est w rid w' \<and> app_charged now w w'"
  let ?P = "\<lambda>appR v. app_peeked now appR w v \<and> app_rate_free now ?g"
  let ?Q = "\<lambda>appR v. ?P appR v \<and> household_rate_free now hh w"
  let ?R = "\<lambda>appR v. ?Q appR v \<and> app_budget_free now (lg_appId ?g) (gc_monthlyCostCap (lg_config ?g)) (sv_costs w)"
  have k: "keeps (?P appR)" "keeps (?Q appR)" "keeps (?R appR)" for appR
    using app_peeked_keeps(1) [unfolded keeps_def] unfolding keeps_def by blast+
  have tail: "hoareE (\<lambda>v. svc_same now w v \<and> ?R appR v \<and> household_peeked now hh hhR w v)
    (bindE (household_cost_cap now hh est) (\<lambda>_. bindE (global_cost_cap now ?cap) (\<lambda>_ v.
     reserve_estimate app_revoke now uuid hh (lg_appId ?g) user est
       (household_commit now hhR (app_commit now appR v))))) ?ok ?E" for appR hhR
    by (rule hoareE_conseq [OF guard_tail_triple [OF k(3) pos]])
       (auto simp: app_commit_def guard_open_def services_open_def app_peeked_def
         intro: app_commit_charges [OF _ ready(2), unfolded app_commit_def] simp: app_peeked_def)
  have app: "hoareE (\<lambda>v. v = w) (app_rate_peek now) (\<lambda>appR v. svc_same now w v \<and> ?P appR v) ?E"
  proof (rule hoareEI)
    fix v r w' assume "v = w" and m: "app_rate_peek now v = (r, w')"
    then have "app_rate_peek now w = (r, w')" by simp
    from app_rate_peek_step [OF this ready(2,1)]
    show "(\<forall>a. r = Inr a \<longrightarrow> svc_same now w w' \<and> ?P a w') \<and> ((\<nexists>a. r = Inr a) \<longrightarrow> ?E w')"
      by (auto simp: app_peeked_def guard_open_def)
  qed
  have rate: "hoareE (\<lambda>v. svc_same now w v \<and> ?P appR v) (household_rate_peek now hh)
      (\<lambda>hhR v. svc_same now w v \<and> ?Q appR v \<and> household_peeked now hh hhR w v) ?E" for appR
    by (rule hoareE_conseq [OF household_rate_peek_triple [OF k(1)]])
       (auto simp: guard_open_def services_open_def app_peeked_def)
  have cost: "hoareE (\<lambda>v. svc_same now w v \<and> ?Q appR v \<and> household_peeked now hh hhR w v) (app_cost_cap now)
      (\<lambda>_ v. svc_same now w v \<and> ?R appR v \<and> household_peeked now hh hhR w v) ?E" for appR hhR
  proof (rule hoareE_conseq [OF cost_check_triple [where I = "?Q appR" and free = "\<lambda>v.
      app_budget_free now (lg_appId ?g) (gc_monthlyCostCap (lg_config ?g)) (sv_costs v)" and
      verdict = "app_budget_free now (lg_appId ?g) (gc_monthlyCostCap (lg_config ?g)) (sv_costs w)", OF _ _ k(2)]])
    fix v r w' assume m: "app_cost_cap now v = (r, w')" and v: "svc_ready v" "?Q appR v"
    have "lg_appId (gw_guard v) = lg_appId ?g" "lg_config (gw_guard v) = lg_config ?g"
      using v(2) by (auto simp: app_peeked_def app_same_def) (metis llm_guard.ext_inject llm_guard.surjective llm_guard.update_convs(5))+
    then show "svc_same now v w' \<and> only_services v w' \<and> sv_household w' = sv_household v \<and>
        (r = Inr () \<longleftrightarrow> app_budget_free now (lg_appId ?g) (gc_monthlyCostCap (lg_config ?g)) (sv_costs v))"
      using app_cost_cap_step [OF m v(1)] cost_steps_keep_household(1) [of now v] m by simp
  qed (auto simp: svc_same_verdicts(3) guard_open_def app_peeked_def)
  have "hoareE (\<lambda>v. v = w)
    (bindE (app_rate_peek now) (\<lambda>appR. bindE (household_rate_peek now hh) (\<lambda>hhR. bindE (app_cost_cap now) (\<lambda>_.
     bindE (household_cost_cap now hh est) (\<lambda>_. bindE (global_cost_cap now ?cap) (\<lambda>_ v.
     reserve_estimate app_revoke now uuid hh (lg_appId ?g) user est
       (household_commit now hhR (app_commit now appR v)))))))) ?ok ?E"
    by (intro hoareE_bind [OF app] hoareE_bind [OF rate] hoareE_bind [OF cost] tail)
  then show ?thesis
    by (simp add: hoareE_def enters_def guard_enter_def guard_estimate_bind [OF est] split: prod.splits sum.splits)
qed

section \<open>Properties\<close>

text \<open>What a state and a guard must be for the laws to apply: built by the constructors, not disposed.\<close>

definition guard_ready :: "guard_world \<Rightarrow> bool" where
  "guard_ready w \<longleftrightarrow> svc_ready w \<and> rl_ready (lg_rateLimiter (gw_guard w))"

lemma new_llm_guard_ready:
  assumes "new_llm_guard app cfg prices tier = Inr g" "new_household_limiter scfg = Inr hl"
  shows "guard_ready \<lparr>sv_household = Some hl, sv_costs = ct, gw_guard = g\<rparr>"
proof -
  have "rl_ready (lg_rateLimiter g)"
    using assms(1) by (auto simp: new_llm_guard_def new_rate_limiter_def rl_ready_def rl_startCleanup_def
        split: if_splits sum.splits)
  moreover have "\<not> hl_disposed hl"
    using assms(2) by (auto simp: new_household_limiter_def split: if_splits)
  ultimately show ?thesis
    using new_household_limiter_ready [OF assms(2)] by (simp add: guard_ready_def svc_ready_def)
qed

lemma estimate_fails: "estimateGuardCost input (lg_priceLookup (gw_guard w)) = Inl x \<Longrightarrow>
    guard_enter now uuid hh user input w = (Inl (EstimateFailed x), w)"
  by (simp add: guard_enter_def bindE_def guard_estimate_def)

definition demo_rate :: "nat \<Rightarrow> hh_rate" where
  "demo_rate n = \<lparr>hr_maxRequests = Fin (of_nat n), hr_windowSeconds = Fin 60\<rparr>"

definition demo_limiter :: household_limiter where
  "demo_limiter = \<lparr>hl_config = \<lparr>sg_defaultHouseholdRateLimit = Some (demo_rate 3),
       sg_defaultHouseholdMonthlyCostCap = Some (Fin 1), sg_householdOverrides = None\<rparr>,
     hl_rateLimiters = [], hl_disposed = False\<rparr>"

definition demo_guard :: llm_guard where
  "demo_guard = \<lparr>lg_appId = ''food'',
     lg_config = \<lparr>gc_maxRequests = Fin 2, gc_windowSeconds = Fin 60, gc_monthlyCostCap = Fin 10,
       gc_globalMonthlyCostCap = Fin 50\<rparr>,
     lg_priceLookup = NULL_PRICE_LOOKUP, lg_tier = TierFast,
     lg_rateLimiter = \<lparr>rl_maxAttempts = 2, rl_windowMs = 60000, rl_entries = [], rl_cleanupTimer = True,
       rl_disposed = False\<rparr>\<rparr>"

definition demo_world :: "usd \<Rightarrow> guard_world" where
  "demo_world spent = \<lparr>sv_household = Some demo_limiter,
     sv_costs = (clean_start 1775822400000)\<lparr>ct_monthlyHouseholdCosts := [(''h1'', spent)], ct_monthlyTotal := spent\<rparr>,
     gw_guard = demo_guard\<rparr>"

lemma demo_ready: "guard_ready (demo_world spent)"
proof -
  have "valid_safeguards (hl_config demo_limiter)"
    by (simp add: valid_safeguards_def demo_limiter_def orElse_def demo_rate_def)
  then show ?thesis
    by (simp add: guard_ready_def svc_ready_def demo_world_def hl_ready_def rl_ready_def demo_guard_def)
       (simp add: demo_limiter_def)
qed

lemma demo_estimate: "estimateGuardCost (guard_classify text) (lg_priceLookup (gw_guard (demo_world spent))) = Inr (1 / 20)"
  by (simp add: demo_world_def demo_guard_def NULL_PRICE_LOOKUP_def guard_classify_def guard_fast_def
      estimateGuardCost_def METHOD_DEFAULT_OUTPUT_TOKENS_def defaultReservationUsd_def Let_def)

lemma demo_month: "iso_month 1775822400000 = ''2026-04''"
  by code_simp

lemma floor_half_rat: "\<lfloor>1 / 2 :: rat\<rfloor> = 0"
  by (simp add: floor_eq_iff)

lemma demo_open: "guard_open 1775822400000 (Some ''h1'') (1 / 20) (demo_world spent) \<longleftrightarrow>
    \<not> reaches (round6 spent + 1 / 20) (Fin 1) \<and> \<not> reaches spent (Fin 50)"
  by (simp add: guard_open_def services_open_def app_rate_free_def app_budget_free_def household_rate_free_def
      household_budget_free_def global_budget_free_def demo_world_def demo_guard_def demo_limiter_def
      hl_attribute_def PLATFORM_SYSTEM_HOUSEHOLD_ID_def rl_used_def get_or_def hl_used_def hl_cap_def
      hl_effectiveRate_def hl_override_def orElse_def demo_rate_def household_load_def pending_of_def
      hl_costCap_def clean_start_eq new_cost_tracker_def demo_month Let_def reaches_def)

text \<open>
  C5. An app guard lets a call through exactly when its own rate window and the household's
  have a free slot and the app's monthly cost, the household's spent and reserved money plus
  the estimate, and the global monthly cost are all below their caps; the system guard
  exactly when the household and the global checks pass.
\<close>

theorem guard_decides:
  assumes "guard_ready w" and "estimateGuardCost input (lg_priceLookup (gw_guard w)) = Inr est"
    and "estimateGuardCost input (sy_priceLookup sy) = Inr est'"
  shows "is_ok (fst (guard_enter now uuid hh user input w)) = guard_open now hh est w \<and>
    is_ok (fst (system_enter now uuid hh user input sy w)) =
      services_open now hh est' (sy_globalMonthlyCostCap sy) w"
proof -
  have r: "svc_ready w" "rl_ready (lg_rateLimiter (gw_guard w))" using assms(1) by (simp_all add: guard_ready_def)
  show ?thesis
    using guard_enter_spec [OF r assms(2), of now uuid hh user]
      system_enter_spec [OF r(1) assms(3), of now uuid hh user]
    by (auto simp: enters_def split: prod.splits sum.splits)
qed

text \<open>
  A refused call costs nothing: whichever check refused it, no rate slot of the app or of
  any household is taken, no reservation is made or lost and no cost moves; at most the
  ledger has started the new month.
\<close>

lemma guard_refusal_is_free:
  assumes "guard_ready w" and "guard_enter now uuid hh user input w = (Inl e, w')"
  shows "rl_used now k (lg_rateLimiter (gw_guard w')) = rl_used now k (lg_rateLimiter (gw_guard w)) \<and>
    svc_used now k w' = svc_used now k w \<and>
    sv_costs w' \<in> {sv_costs w, ct_checkMonthRollover now (sv_costs w)}"
proof (cases "estimateGuardCost input (lg_priceLookup (gw_guard w))")
  case (Inl x)
  then show ?thesis using assms(2) by (simp add: estimate_fails)
next
  case (Inr est)
  have "svc_same now w w' \<and> app_same now (gw_guard w) (gw_guard w')"
    using guard_enter_spec [OF _ _ Inr, of now uuid hh user] assms by (simp add: guard_ready_def enters_def)
  then show ?thesis by (simp add: svc_same_def app_same_def)
qed

text \<open>
  An admitted call takes one slot of its app and, when it is charged to a household, one
  slot of that household, both within their limits, and nobody else's; it reserves its
  estimate for sixty seconds against that household and changes no other money. The
  rollback of the reservation step is never needed.
\<close>

lemma guard_admission_takes:
  assumes "guard_ready w" and "guard_enter now uuid hh user input w = (Inr rid, w')"
    and "estimateGuardCost input (lg_priceLookup (gw_guard w)) = Inr est"
  shows "(\<forall>k. rl_used now k (lg_rateLimiter (gw_guard w')) =
        rl_used now k (lg_rateLimiter (gw_guard w)) + (if k = lg_appId (gw_guard w) then 1 else 0)) \<and>
    rl_used now (lg_appId (gw_guard w)) (lg_rateLimiter (gw_guard w')) \<le> rl_maxAttempts (lg_rateLimiter (gw_guard w')) \<and>
    (\<forall>k. svc_used now k w' = svc_used now k w + (if enforced_here hh w \<and> k = the hh then 1 else 0)) \<and>
    rid = admitted_id uuid hh w \<and>
    sv_costs w' = admitted_costs now uuid hh (lg_appId (gw_guard w)) user est w \<and> guard_ready w'"
proof -
  have *: "guard_open now hh est w" "admits now uuid hh (lg_appId (gw_guard w)) user est w rid w'" "app_charged now w w'"
    using guard_enter_spec [OF _ _ assms(3), of now uuid hh user] assms(1,2)
    by (simp_all add: guard_ready_def enters_def)
  then show ?thesis by (simp add: admits_def app_charged_def guard_open_def app_rate_free_def guard_ready_def)
qed

theorem guard_decides_witness:
  "is_ok (fst (guard_enter 1775822400000 ''r1'' (Some ''h1'') None (guard_classify ''hi'') (demo_world 0))) \<and>
   \<not> is_ok (fst (guard_enter 1775822400000 ''r1'' (Some ''h1'') None (guard_classify ''hi'') (demo_world (19 / 20))))"
proof -
  let ?sy = "\<lparr>sy_attributionId = ''system'', sy_globalMonthlyCostCap = Fin 50,
      sy_priceLookup = NULL_PRICE_LOOKUP, sy_tier = TierFast\<rparr>"
  have e: "estimateGuardCost (guard_classify ''hi'') (sy_priceLookup ?sy) = Inr (1 / 20)"
    using demo_estimate [of "''hi''"] by (simp add: demo_world_def demo_guard_def)
  show ?thesis
    using guard_decides [OF demo_ready [of 0] demo_estimate e, of 1775822400000 "''r1''" "Some ''h1''" None]
      guard_decides [OF demo_ready [of "19 / 20"] demo_estimate e, of 1775822400000 "''r1''" "Some ''h1''" None]
    by (simp only: demo_open) (simp add: reaches_def round6_def floor_rat_numeral floor_half_rat)
qed

text \<open>The two demonstration calls.\<close>

lemma demo_enter:
  "is_ok (fst (guard_enter 1775822400000 ''r1'' (Some ''h1'') None (guard_classify ''hi'') (demo_world s))) \<longleftrightarrow>
     guard_open 1775822400000 (Some ''h1'') (1 / 20) (demo_world s)"
proof -
  have r: "svc_ready (demo_world s)" "rl_ready (lg_rateLimiter (gw_guard (demo_world s)))"
    using demo_ready by (simp_all add: guard_ready_def)
  show ?thesis
    using guard_enter_spec [OF r demo_estimate [of "''hi''"], where now = 1775822400000 and uuid = "''r1''" and hh = "Some ''h1''" and user = None]
    by (auto simp: enters_def split: prod.splits sum.splits)
qed

lemma is_ok_Inr: "is_ok (fst x) \<Longrightarrow> \<exists>a s. x = (Inr a, s)" "\<not> is_ok (fst x) \<Longrightarrow> \<exists>e s. x = (Inl e, s)"
  by (cases x; cases "fst x"; simp)+

lemma demo_outcomes:
  "\<exists>e w'. guard_enter 1775822400000 ''r1'' (Some ''h1'') None (guard_classify ''hi'') (demo_world (19 / 20)) = (Inl e, w')"
  "\<exists>rid w'. guard_enter 1775822400000 ''r1'' (Some ''h1'') None (guard_classify ''hi'') (demo_world 0) = (Inr rid, w')"
  by (rule is_ok_Inr; simp only: demo_enter demo_open; simp add: reaches_def round6_def floor_rat_numeral floor_half_rat)+

lemma guard_refusal_is_free_witness:
  "\<exists>e w'. guard_enter 1775822400000 ''r1'' (Some ''h1'') None (guard_classify ''hi'') (demo_world (19 / 20)) = (Inl e, w') \<and>
     rl_used 1775822400000 ''food'' (lg_rateLimiter (gw_guard w')) = 0 \<and> svc_used 1775822400000 ''h1'' w' = 0"
proof -
  obtain e w' where w: "guard_enter 1775822400000 ''r1'' (Some ''h1'') None (guard_classify ''hi'')
      (demo_world (19 / 20)) = (Inl e, w')" using demo_outcomes(1) by blast
  have z: "rl_used 1775822400000 k (lg_rateLimiter (gw_guard (demo_world s))) = 0" "svc_used 1775822400000 k (demo_world s) = 0" for k s
    by (simp_all add: rl_used_def demo_world_def demo_guard_def svc_used_def hl_used_def demo_limiter_def get_or_def)
  show ?thesis
    using w guard_refusal_is_free [OF demo_ready w, of "''food''"] guard_refusal_is_free [OF demo_ready w, of "''h1''"]
    by (simp add: z)
qed

lemma guard_admission_takes_witness:
  "\<exists>rid w'. guard_enter 1775822400000 ''r1'' (Some ''h1'') None (guard_classify ''hi'') (demo_world 0) = (Inr rid, w') \<and>
     svc_used 1775822400000 ''h1'' w' = 1 \<and> rid = ''r1''"
proof -
  obtain rid w' where w: "guard_enter 1775822400000 ''r1'' (Some ''h1'') None (guard_classify ''hi'')
      (demo_world 0) = (Inr rid, w')" using demo_outcomes(2) by blast
  have z: "svc_used 1775822400000 ''h1'' (demo_world 0) = 0" "enforced_here (Some ''h1'') (demo_world 0)"
    by (simp_all add: demo_world_def demo_guard_def svc_used_def hl_used_def demo_limiter_def enforced_here_def
        hl_attribute_def PLATFORM_SYSTEM_HOUSEHOLD_ID_def)
  show ?thesis
    using w guard_admission_takes [OF demo_ready w demo_estimate] by (simp add: z admitted_id_def)
qed

end
