(* ===== verification/LLM_Budget.thy ===== *)
theory LLM_Budget
  imports LLM_Guard
begin

text \<open>
  What the guards, the household limiter and the cost tracker give together: a household
  cannot spend past its monthly cap, however its calls interleave.

  The locale \<open>cost_ledger\<close> is what the argument needs of the cost tracker: what a household
  has spent, which reservations it holds, and what reading, reserving, releasing and charging
  do to both. It is interpreted on \<open>cost-tracker.ts\<close> as modelled. The interleaving is the
  inductive relation \<open>budget_step\<close> over the shared services and the calls in flight.
\<close>

section \<open>Calls in flight\<close>

record call =
  cl_household :: string
  cl_left :: usd
  cl_expires :: time

text \<open>What the unexpired calls of a household may still spend.\<close>

definition live_left :: "time \<Rightarrow> string \<Rightarrow> call jsmap \<Rightarrow> usd" where
  "live_left now hh calls =
     sum_list (map (\<lambda>(_, c). if cl_household c = hh \<and> cl_expires c > now then cl_left c else 0) calls)"

lemma live_left_Nil [simp]: "live_left now hh [] = 0"
  by (simp add: live_left_def)

lemma live_left_Cons: "live_left now hh ((rid, c) # calls) =
    (if cl_household c = hh \<and> cl_expires c > now then cl_left c else 0) + live_left now hh calls"
  by (simp add: live_left_def)

lemma live_left_later:
  assumes "now \<le> t" "\<forall>(_, c) \<in> set calls. 0 \<le> cl_left c"
  shows "live_left t hh calls \<le> live_left now hh calls"
  using assms(2,1) by (induction calls) (auto simp: live_left_def)

lemma live_left_del:
  assumes "distinct (keys calls)" "map_of calls rid = Some c"
  shows "live_left now hh (del_key rid calls) =
    live_left now hh calls - (if cl_household c = hh \<and> cl_expires c > now then cl_left c else 0)"
  using sum_del_key [OF assms, of "\<lambda>(_, c). if cl_household c = hh \<and> cl_expires c > now then cl_left c else 0"]
  by (simp add: live_left_def)

lemma live_left_set:
  assumes "distinct (keys calls)" "map_of calls rid = Some c" "cl_household c' = cl_household c" "cl_expires c' = cl_expires c"
  shows "live_left now hh (set_key rid c' calls) =
    live_left now hh calls - (if cl_household c = hh \<and> cl_expires c > now then cl_left c - cl_left c' else 0)"
  using assms(1,2)
proof (induction calls)
  case (Cons p m)
  obtain k v where p: "p = (k, v)" by (cases p)
  show ?case
  proof (cases "k = rid")
    case True
    then show ?thesis using Cons.prems assms(3,4) by (simp add: p live_left_Cons)
  next
    case False
    then show ?thesis using Cons.IH Cons.prems by (simp add: p live_left_Cons)
  qed
qed simp

section \<open>The ledger's contract\<close>

locale cost_ledger =
  fixes valid :: "'c \<Rightarrow> bool"
    and month :: "'c \<Rightarrow> string"
    and spent :: "string \<Rightarrow> 'c \<Rightarrow> usd"
    and held :: "time \<Rightarrow> string \<Rightarrow> 'c \<Rightarrow> usd"
    and holds :: "'c \<Rightarrow> string \<Rightarrow> (string \<times> usd \<times> time) option"
    and read :: "time \<Rightarrow> string \<Rightarrow> 'c \<Rightarrow> usd"
    and reserve :: "time \<Rightarrow> string \<Rightarrow> string \<Rightarrow> 'x \<Rightarrow> 'y \<Rightarrow> jsnum \<Rightarrow> 'c \<Rightarrow> 'e + (string \<times> 'c)"
    and release :: "string \<Rightarrow> 'c \<Rightarrow> 'c"
    and charge :: "time \<Rightarrow> 'u \<Rightarrow> 'c \<Rightarrow> 'c"
    and cost_of :: "'u \<Rightarrow> usd"
    and payer :: "'u \<Rightarrow> string option"
  assumes read_covers: "valid c \<Longrightarrow> month c = iso_month now \<Longrightarrow>
      spent hh c + held now hh c \<le> read now hh c + 1 / 2000000"
    and held_covers: "valid c \<Longrightarrow> distinct (keys m) \<Longrightarrow>
      (\<forall>(rid, cl) \<in> set m. cl_household cl = hh \<and> cl_expires cl > now \<longrightarrow>
         (\<exists>a. holds c rid = Some (hh, a, cl_expires cl) \<and> cl_left cl \<le> a)) \<Longrightarrow> live_left now hh m \<le> held now hh c"
    and reserve_ok: "valid c \<Longrightarrow> reserve now rid hh x y (Fin a) c = Inr (rid', c') \<Longrightarrow>
      rid' = rid \<and> valid c' \<and> month c' = month c \<and> spent h c' = spent h c \<and>
      holds c' = (holds c)(rid \<mapsto> (hh, a, now + 60000))"
    and release_ok: "valid c \<Longrightarrow> valid (release rid c) \<and> month (release rid c) = month c \<and>
      spent h (release rid c) = spent h c \<and> holds (release rid c) = (holds c)(rid := None)"
    and charge_ok: "valid c \<Longrightarrow> month c = iso_month now \<Longrightarrow> valid (charge now u c) \<and> month (charge now u c) = month c \<and>
      spent h (charge now u c) = spent h c + (if payer u = Some h then cost_of u else 0) \<and>
      holds (charge now u c) = holds c"
    and cost_nonneg: "0 \<le> cost_of u"
begin

lemmas laws = reserve_ok release_ok charge_ok

text \<open>Every live call is backed by a reservation of at least what it may still spend.\<close>

definition backed :: "time \<Rightarrow> call jsmap \<Rightarrow> 'c \<Rightarrow> bool" where
  "backed now calls c \<longleftrightarrow> distinct (keys calls) \<and>
     (\<forall>(rid, cl) \<in> set calls. 0 \<le> cl_left cl \<and> (cl_expires cl > now \<longrightarrow>
        (\<exists>a. holds c rid = Some (cl_household cl, a, cl_expires cl) \<and> cl_left cl \<le> a)))"

definition solvent :: "(string \<Rightarrow> usd) \<Rightarrow> (string \<Rightarrow> bool) \<Rightarrow> time \<Rightarrow> call jsmap \<Rightarrow> 'c \<Rightarrow> bool" where
  "solvent cap limited now calls c \<longleftrightarrow> valid c \<and> month c = iso_month now \<and> backed now calls c \<and>
     (\<forall>hh. limited hh \<longrightarrow> spent hh c + live_left now hh calls < cap hh + 1 / 2000000)"

lemma solvent_spent:
  assumes "solvent cap limited now calls c" "limited hh"
  shows "spent hh c < cap hh + 1 / 2000000"
proof -
  have "0 \<le> live_left now hh calls"
    using assms(1) unfolding live_left_def solvent_def backed_def
    by (intro sum_list_nonneg) (auto split: prod.splits)
  with assms show ?thesis by (force simp: solvent_def)
qed

lemma solvent_later:
  assumes "solvent cap limited now calls c" "now \<le> t" "iso_month t = iso_month now"
  shows "solvent cap limited t calls c"
proof -
  have n: "\<forall>(_, c) \<in> set calls. 0 \<le> cl_left c" using assms(1) by (auto simp: solvent_def backed_def)
  have "spent hh c + live_left t hh calls < cap hh + 1 / 2000000" if "limited hh" for hh
    using live_left_later [OF assms(2) n, of hh] assms(1) that by (force simp: solvent_def)
  moreover have "backed t calls c" using assms(1,2) by (fastforce simp: solvent_def backed_def)
  ultimately show ?thesis using assms(1,3) by (simp add: solvent_def)
qed

lemma solvent_same:
  assumes "solvent cap limited now calls c" "valid c'" "month c' = month c" "\<And>h. spent h c' = spent h c"
    "\<And>rid cl. (rid, cl) \<in> set calls \<Longrightarrow> cl_expires cl > now \<Longrightarrow> holds c' rid = holds c rid"
  shows "solvent cap limited now calls c'"
  using assms unfolding solvent_def backed_def by fastforce

text \<open>Letting a call in after reading the load under the cap.\<close>

lemma solvent_admit:
  assumes w: "solvent cap limited now calls c" and r: "reserve now rid hh x y (Fin a) c = Inr (rid', c')"
    and fresh: "rid \<notin> set (keys calls)" and a: "0 \<le> a" and under: "read now hh c + a < cap hh"
  shows "solvent cap limited now ((rid, \<lparr>cl_household = hh, cl_left = a, cl_expires = now + 60000\<rparr>) # calls) c'"
proof -
  have v: "valid c" "month c = iso_month now" and b: "backed now calls c" using w by (simp_all add: solvent_def)
  note res = reserve_ok [OF v(1) r]
  have b': "backed now ((rid, \<lparr>cl_household = hh, cl_left = a, cl_expires = now + 60000\<rparr>) # calls) c'"
    using b fresh a res by (fastforce simp: backed_def image_iff)
  have "live_left now hh calls \<le> held now hh c"
    using b by (intro held_covers [OF v(1)]) (auto simp: backed_def)
  then have "spent hh c + (a + live_left now hh calls) < cap hh + 1 / 2000000"
    using read_covers [OF v, of hh] under by linarith
  then show ?thesis
    using w res b' by (auto simp: solvent_def live_left_def)
qed

lemma solvent_spend:
  assumes w: "solvent cap limited now calls c" and m: "map_of calls rid = Some cl"
    and p: "payer u = Some (cl_household cl)" and le: "cost_of u \<le> cl_left cl" and live: "now < cl_expires cl"
  shows "solvent cap limited now (set_key rid (cl\<lparr>cl_left := cl_left cl - cost_of u\<rparr>) calls) (charge now u c)"
proof -
  have v: "valid c" "month c = iso_month now" and b: "backed now calls c" and d: "distinct (keys calls)"
    using w by (simp_all add: solvent_def backed_def)
  note ch = charge_ok [OF v, of u]
  let ?calls = "set_key rid (cl\<lparr>cl_left := cl_left cl - cost_of u\<rparr>) calls"
  have left: "live_left now hh ?calls = live_left now hh calls - (if cl_household cl = hh then cost_of u else 0)" for hh
    using live_left_set [OF d m, of "cl\<lparr>cl_left := cl_left cl - cost_of u\<rparr>" now hh] live by simp
  have "backed now ?calls (charge now u c)"
  proof -
    obtain a where a: "holds c rid = Some (cl_household cl, a, cl_expires cl)" "cl_left cl \<le> a"
      using b m live by (auto simp: backed_def dest!: map_of_SomeD)
    have sub: "set ?calls \<subseteq> insert (rid, cl\<lparr>cl_left := cl_left cl - cost_of u\<rparr>) (set calls)"
      by (rule set_key_subset)
    have "cl_left cl - cost_of u \<le> a" using a(2) cost_nonneg [of u] by simp
    then have "\<forall>(rid, cl) \<in> set ?calls. 0 \<le> cl_left cl \<and> (cl_expires cl > now \<longrightarrow>
        (\<exists>a. holds c rid = Some (cl_household cl, a, cl_expires cl) \<and> cl_left cl \<le> a))"
      using a(1) le b unfolding backed_def by (intro ballI) (drule subsetD [OF sub], auto)
    moreover have "distinct (keys ?calls)" using d by simp
    ultimately show ?thesis using ch by (simp add: backed_def)
  qed
  then show ?thesis using w ch left p by (auto simp: solvent_def)
qed

lemma solvent_finish:
  assumes w: "solvent cap limited now calls c" and m: "map_of calls rid = Some cl"
  shows "solvent cap limited now (del_key rid calls) (release rid c)" "solvent cap limited now (del_key rid calls) c"
proof -
  have v: "valid c" and b: "backed now calls c" and d: "distinct (keys calls)"
    using w by (simp_all add: solvent_def backed_def)
  have "0 \<le> cl_left cl" using b m by (auto simp: backed_def dest!: map_of_SomeD)
  then have "live_left now hh (del_key rid calls) \<le> live_left now hh calls" for hh
    using live_left_del [OF d m, of now hh] by simp
  then have left: "limited hh \<Longrightarrow> spent hh c + live_left now hh (del_key rid calls) < cap hh + 1 / 2000000" for hh
  proof -
    assume l: "limited hh"
    then have "spent hh c + live_left now hh calls < cap hh + 1 / 2000000" using w by (simp add: solvent_def)
    with \<open>\<And>hh. live_left now hh (del_key rid calls) \<le> live_left now hh calls\<close> [of hh] show ?thesis by linarith
  qed
  have sub: "set (del_key rid calls) \<subseteq> {(k, x) \<in> set calls. k \<noteq> rid}" by (auto simp: del_key_filter)
  have bd: "backed now (del_key rid calls) c" "backed now (del_key rid calls) (release rid c)"
    using b sub release_ok [OF v, of rid] d unfolding backed_def by (fastforce intro: distinct_del_key)+
  show "solvent cap limited now (del_key rid calls) c" using w left bd by (simp add: solvent_def)
  show "solvent cap limited now (del_key rid calls) (release rid c)"
    using w left bd release_ok [OF v, of rid] by (simp add: solvent_def)
qed

end

section \<open>The cost tracker keeps the contract\<close>

definition ledger_valid :: "cost_tracker \<Rightarrow> bool" where
  "ledger_valid ct \<longleftrightarrow> ct_wf ct \<and> ct_attributed ct"

definition ledger_spent :: "string \<Rightarrow> cost_tracker \<Rightarrow> usd" where
  "ledger_spent hh ct = get_or 0 (ct_monthlyHouseholdCosts ct) hh"

definition ledger_held :: "time \<Rightarrow> string \<Rightarrow> cost_tracker \<Rightarrow> usd" where
  "ledger_held now hh ct = pending_of now hh (ct_reservations ct)"

definition ledger_holds :: "cost_tracker \<Rightarrow> string \<Rightarrow> (string \<times> usd \<times> time) option" where
  "ledger_holds ct rid =
     map_option (\<lambda>r. (r_householdId r, r_amount r, r_expiresAt r)) (map_of (ct_reservations ct) rid)"

definition ledger_read :: "time \<Rightarrow> string \<Rightarrow> cost_tracker \<Rightarrow> usd" where
  "ledger_read now hh ct = fst (ct_getMonthlyHouseholdCost now hh ct)"

definition ledger_payer :: "usage_input \<Rightarrow> string option" where
  "ledger_payer ui = effective_household (ui_householdId ui)"

lemma pending_of_del:
  assumes "distinct (keys rs)" "map_of rs rid = Some r"
  shows "pending_of now hh rs =
    (if r_householdId r = hh \<and> r_expiresAt r > now then r_amount r else 0) + pending_of now hh (del_key rid rs)"
  using sum_del_key [OF assms, of "\<lambda>(_, r). if r_householdId r = hh \<and> r_expiresAt r > now then r_amount r else 0"]
  by (simp add: pending_of_def)

lemma pending_covers:
  assumes "distinct (keys rs)" "\<forall>(_, r) \<in> set rs. 0 \<le> r_amount r" "distinct (keys m)"
    "\<forall>(rid, cl) \<in> set m. cl_household cl = hh \<and> cl_expires cl > now \<longrightarrow>
       (\<exists>r. map_of rs rid = Some r \<and> r_householdId r = hh \<and> r_expiresAt r = cl_expires cl \<and> cl_left cl \<le> r_amount r)"
  shows "live_left now hh m \<le> pending_of now hh rs"
  using assms
proof (induction m arbitrary: rs)
  case Nil
  then show ?case by (fastforce simp: pending_of_def intro!: sum_list_nonneg)
next
  case (Cons p m)
  obtain rid cl where p: "p = (rid, cl)" by (cases p)
  show ?case
  proof (cases "cl_household cl = hh \<and> cl_expires cl > now")
    case False
    then show ?thesis using Cons.IH [OF Cons.prems(1,2)] Cons.prems(3,4) by (auto simp: p live_left_Cons)
  next
    case True
    then obtain r where r: "map_of rs rid = Some r" "r_householdId r = hh" "r_expiresAt r = cl_expires cl"
        "cl_left cl \<le> r_amount r" using Cons.prems(4) p by auto
    have fresh: "rid \<notin> fst ` set m" using Cons.prems(3) p by simp
    have "live_left now hh m \<le> pending_of now hh (del_key rid rs)"
    proof (rule Cons.IH)
      show "\<forall>(k, cl) \<in> set m. cl_household cl = hh \<and> cl_expires cl > now \<longrightarrow>
          (\<exists>r. map_of (del_key rid rs) k = Some r \<and> r_householdId r = hh \<and> r_expiresAt r = cl_expires cl \<and> cl_left cl \<le> r_amount r)"
      proof (intro ballI, clarify)
        fix k c assume kc: "(k, c) \<in> set m" "hh = cl_household c" "now < cl_expires c"
        then have "k \<noteq> rid" using fresh by force
        moreover have "\<exists>r. map_of rs k = Some r \<and> r_householdId r = hh \<and> r_expiresAt r = cl_expires c \<and> cl_left c \<le> r_amount r"
          using Cons.prems(4) kc p by auto
        ultimately show "\<exists>r. map_of (del_key rid rs) k = Some r \<and> r_householdId r = cl_household c \<and>
            r_expiresAt r = cl_expires c \<and> cl_left c \<le> r_amount r"
          using kc(2) by (simp add: map_of_del_key)
      qed
      show "distinct (keys (del_key rid rs))" using Cons.prems(1) by simp
      show "\<forall>(_, r) \<in> set (del_key rid rs). 0 \<le> r_amount r" using Cons.prems(2) by (auto simp: del_key_filter)
      show "distinct (keys m)" using Cons.prems(3) p by simp
    qed
    then show ?thesis
      using pending_of_del [OF Cons.prems(1) r(1), of now hh] r True by (simp add: p live_left_Cons)
  qed
qed

interpretation ledger: cost_ledger ledger_valid ct_currentMonth ledger_spent ledger_held ledger_holds ledger_read
  ct_reserveEstimated ct_releaseReservation ct_record ct_cost_of ledger_payer
proof unfold_locales
  fix c :: cost_tracker and now hh
  assume v: "ledger_valid c" and m: "ct_currentMonth c = iso_month now"
  show "ledger_spent hh c + ledger_held now hh c \<le> ledger_read now hh c + 1 / 2000000"
    using abs_le_D2 [OF round6_error [of "ledger_spent hh c + ledger_held now hh c"]] m
    unfolding ledger_read_def ct_getMonthlyHouseholdCost_def Let_def ledger_spent_def ledger_held_def
    by simp
next
  fix c :: cost_tracker and m :: "call jsmap" and now hh
  assume "ledger_valid c" "distinct (keys m)"
    "\<forall>(rid, cl) \<in> set m. cl_household cl = hh \<and> cl_expires cl > now \<longrightarrow>
       (\<exists>a. ledger_holds c rid = Some (hh, a, cl_expires cl) \<and> cl_left cl \<le> a)"
  then show "live_left now hh m \<le> ledger_held now hh c"
    unfolding ledger_held_def
    by (intro pending_covers) (fastforce simp: ledger_valid_def ct_wf_def ledger_holds_def)+
next
  fix c c' :: cost_tracker and now rid hh x y a rid' h
  assume v: "ledger_valid c" and r: "ct_reserveEstimated now rid hh x y (Fin a) c = Inr (rid', c')"
  have "ledger_valid c'"
    using ct_step_wf [of c now "CtReserve rid hh x y (Fin a)"] v r by (simp add: ledger_valid_def)
  then show "rid' = rid \<and> ledger_valid c' \<and> ct_currentMonth c' = ct_currentMonth c \<and> ledger_spent h c' = ledger_spent h c \<and>
      ledger_holds c' = (ledger_holds c)(rid \<mapsto> (hh, a, now + 60000))"
    using r by (auto simp: ct_reserveEstimated_def ledger_spent_def ledger_holds_def split: if_splits)
next
  fix c :: cost_tracker and rid h
  assume v: "ledger_valid c"
  have "ledger_valid (ct_releaseReservation rid c)"
    using ct_step_wf [of c 0 "CtRelease rid"] v by (simp add: ledger_valid_def)
  then show "ledger_valid (ct_releaseReservation rid c) \<and> ct_currentMonth (ct_releaseReservation rid c) = ct_currentMonth c \<and>
      ledger_spent h (ct_releaseReservation rid c) = ledger_spent h c \<and>
      ledger_holds (ct_releaseReservation rid c) = (ledger_holds c)(rid := None)"
    by (auto simp: ct_releaseReservation_def ledger_spent_def ledger_holds_def map_of_del_key split: option.split)
next
  fix c :: cost_tracker and now u h
  assume v: "ledger_valid c" and m: "ct_currentMonth c = iso_month now"
  have "ledger_valid (ct_record now u c)"
    using ct_step_wf [of c now "CtRecord u"] v by (simp add: ledger_valid_def)
  moreover have "truthy (effective_household hh) = effective_household hh" for hh
    by (cases hh) (auto simp: effective_household_def split: option.split)
  ultimately show "ledger_valid (ct_record now u c) \<and> ct_currentMonth (ct_record now u c) = ct_currentMonth c \<and>
      ledger_spent h (ct_record now u c) = ledger_spent h c + (if ledger_payer u = Some h then ct_cost_of u else 0) \<and>
      ledger_holds (ct_record now u c) = ledger_holds c"
    using v m
    by (auto simp: ct_record_def ct_updateMonthlyCache_def Let_def ledger_spent_def ledger_payer_def ledger_holds_def
        get_or_bump ledger_valid_def ct_wf_def ct_cost_of_def)
next
  fix u show "0 \<le> ct_cost_of u" by (simp add: ct_cost_of_def estimateCallCost_nonneg)
qed

section \<open>The interleaving\<close>

text \<open>
  The shared services, the clock and the calls in flight. Any app guard and any system guard
  may try to let a call in; \<open>uuid\<close> is fresh, as \<open>randomUUID\<close> promises. A call in flight is
  charged through \<open>ct_record\<close>, any number of times within its estimate, until its reservation
  expires; then it finishes. Calls without a household are charged to none.
\<close>

record budget_state =
  bs_now :: time
  bs_household :: household_limiter
  bs_costs :: cost_tracker
  bs_calls :: "call jsmap"

definition call_estimate :: "estimate_input \<Rightarrow> price_lookup \<Rightarrow> usd" where
  "call_estimate input prices = (case estimateGuardCost input prices of Inl _ \<Rightarrow> 0 | Inr est \<Rightarrow> est)"

definition after_entry ::
    "string option \<Rightarrow> usd \<Rightarrow> llm_error + string \<Rightarrow> 'a llm_services_scheme \<Rightarrow> budget_state \<Rightarrow> budget_state" where
  "after_entry hh est r w s =
     s\<lparr>bs_household := the (sv_household w), bs_costs := sv_costs w,
       bs_calls := (case r of
          Inr rid \<Rightarrow> if hl_attribute hh = Enforced
                    then (rid, \<lparr>cl_household = the hh, cl_left = est, cl_expires = bs_now s + 60000\<rparr>) # bs_calls s
                    else bs_calls s
        | Inl _ \<Rightarrow> bs_calls s)\<rparr>"

inductive budget_step :: "budget_state \<Rightarrow> budget_state \<Rightarrow> bool" where
  later: "bs_now s \<le> t \<Longrightarrow> iso_month t = iso_month (bs_now s) \<Longrightarrow> budget_step s (s\<lparr>bs_now := t\<rparr>)"
| app_call: "uuid \<notin> set (keys (bs_calls s)) \<Longrightarrow> rl_ready (lg_rateLimiter g) \<Longrightarrow>
    guard_enter (bs_now s) uuid hh user input
      \<lparr>sv_household = Some (bs_household s), sv_costs = bs_costs s, gw_guard = g\<rparr> = (r, w) \<Longrightarrow>
    budget_step s (after_entry hh (call_estimate input (lg_priceLookup g)) r w s)"
| system_call: "uuid \<notin> set (keys (bs_calls s)) \<Longrightarrow>
    system_enter (bs_now s) uuid hh user input sy
      \<lparr>sv_household = Some (bs_household s), sv_costs = bs_costs s\<rparr> = (r, w) \<Longrightarrow>
    budget_step s (after_entry hh (call_estimate input (sy_priceLookup sy)) r w s)"
| spend: "map_of (bs_calls s) rid = Some cl \<Longrightarrow> effective_household (ui_householdId ui) = Some (cl_household cl) \<Longrightarrow>
    ct_cost_of ui \<le> cl_left cl \<Longrightarrow> bs_now s < cl_expires cl \<Longrightarrow>
    budget_step s (s\<lparr>bs_costs := ct_record (bs_now s) ui (bs_costs s),
      bs_calls := set_key rid (cl\<lparr>cl_left := cl_left cl - ct_cost_of ui\<rparr>) (bs_calls s)\<rparr>)"
| spend_unattributed: "effective_household (ui_householdId ui) = None \<Longrightarrow>
    budget_step s (s\<lparr>bs_costs := ct_record (bs_now s) ui (bs_costs s)\<rparr>)"
| finish: "map_of (bs_calls s) rid = Some cl \<Longrightarrow>
    budget_step s (s\<lparr>bs_costs := hl_releaseReservation rid (bs_household s) (bs_costs s),
      bs_calls := del_key rid (bs_calls s)\<rparr>)"
| cleanup: "budget_step s (s\<lparr>bs_costs := ct_cleanupTick (bs_now s) (bs_costs s)\<rparr>)"
| persist: "budget_step s (s\<lparr>bs_costs := ct_persistTick (bs_costs s)\<rparr>)"
| drain: "budget_step s (s\<lparr>bs_costs := ct_drain (bs_costs s)\<rparr>)"

section \<open>The budget holds\<close>

definition budget_cap :: "household_limiter \<Rightarrow> string \<Rightarrow> usd" where
  "budget_cap hl hh = num_val (hl_costCap hh hl)"

definition budget_ok :: "household_limiter \<Rightarrow> budget_state \<Rightarrow> bool" where
  "budget_ok hl0 s \<longleftrightarrow>
     ledger.solvent (budget_cap hl0) hl_enforced (bs_now s) (bs_calls s) (bs_costs s) \<and>
     hl_ready (bs_household s) \<and> \<not> hl_disposed (bs_household s) \<and> hl_config (bs_household s) = hl_config hl0"

lemma valid_cap_finite: "valid_safeguards (hl_config hl) \<Longrightarrow> is_finite (hl_costCap hh hl)"
proof -
  assume v: "valid_safeguards (hl_config hl)"
  have "finite_nonneg (hl_costCap hh hl)"
    using v by (auto simp: valid_safeguards_def hl_costCap_def hl_override_def orElse_def valid_override_def
        list_all_iff split: option.splits dest!: map_of_SomeD)
  then show ?thesis by (cases "hl_costCap hh hl") auto
qed

lemma household_load_read: "household_load now hh ct = ledger_read now hh ct"
  by (simp add: household_load_def ledger_read_def ct_getMonthlyHouseholdCost_def Let_def)

lemma solvent_month: "ledger.solvent cap enforced now calls c \<Longrightarrow> ct_checkMonthRollover now c = c"
  by (simp add: ledger.solvent_def)

text \<open>An entry attempt, refused or not, of either guard.\<close>

lemma budget_entry:
  fixes w0 w :: "'a llm_services_scheme"
  assumes ok: "budget_ok hl0 s" and fresh: "uuid \<notin> set (keys (bs_calls s))"
    and w0: "sv_household w0 = Some (bs_household s)" "sv_costs w0 = bs_costs s"
    and est: "0 \<le> est"
    and err: "\<And>e. r = Inl e \<Longrightarrow> svc_same (bs_now s) w0 w"
    and adm: "\<And>rid. r = Inr rid \<Longrightarrow> household_budget_free (bs_now s) hh est w0 \<and>
      admits (bs_now s) uuid hh app user est w0 rid w"
  shows "budget_ok hl0 (after_entry hh est r w s)"
proof -
  note sol = ok [unfolded budget_ok_def, THEN conjunct1]
  have roll: "ct_checkMonthRollover (bs_now s) (bs_costs s) = bs_costs s" using sol by (rule solvent_month)
  have hl: "sv_household w = Some hl' \<Longrightarrow> hl_ready hl' \<and> \<not> hl_disposed hl' \<and> hl_config hl' = hl_config hl0"
    and some: "sv_household w \<noteq> None" for hl'
    using err adm ok w0 by (cases r; fastforce simp: svc_same_def admits_def svc_ready_def budget_ok_def)+
  have "ledger.solvent (budget_cap hl0) hl_enforced (bs_now s) (bs_calls (after_entry hh est r w s)) (sv_costs w)"
  proof (cases r)
    case (Inl e)
    then show ?thesis using err sol roll w0 by (auto simp: svc_same_def after_entry_def)
  next
    case (Inr rid)
    then have free: "household_budget_free (bs_now s) hh est w0" and a: "admits (bs_now s) uuid hh app user est w0 rid w"
      using adm by blast+
    show ?thesis
    proof (cases "hl_attribute hh")
      case Platform
      then show ?thesis using a sol roll w0 Inr
        by (simp add: admits_def admitted_costs_def enforced_here_def after_entry_def)
    next
      case Enforced
      then have here: "enforced_here hh w0" using w0 by (simp add: enforced_here_def)
      have res: "ct_reserveEstimated (bs_now s) uuid (the hh) (Some app) user (Fin est) (bs_costs s) = Inr (uuid, sv_costs w)"
        using a here est roll w0 by (simp add: admits_def admitted_costs_def ct_reserveEstimated_def Let_def)
      have cfg: "hl_config (bs_household s) = hl_config hl0" and v: "valid_safeguards (hl_config (bs_household s))"
        using ok unfolding budget_ok_def hl_ready_def by blast+
      have "ledger_read (bs_now s) (the hh) (bs_costs s) + est < budget_cap hl0 (the hh)"
        using free Enforced w0 valid_cap_finite [OF v] hl_config_cost(1) [OF cfg]
        by (simp add: household_budget_free_def reaches_def household_load_read budget_cap_def not_le)
      from ledger.solvent_admit [OF sol res fresh est this] show ?thesis
        using a here Enforced Inr by (simp add: after_entry_def admits_def admitted_id_def)
    qed
  qed
  then show ?thesis using hl some by (auto simp: budget_ok_def after_entry_def)
qed

lemma budget_ok_costs:
  assumes "budget_ok hl0 s" "ledger_valid c" "ct_currentMonth c = ct_currentMonth (bs_costs s)"
    "ct_monthlyHouseholdCosts c = ct_monthlyHouseholdCosts (bs_costs s)"
    "\<And>rid. ledger_holds c rid = ledger_holds (bs_costs s) rid \<or>
      (\<exists>h a e. ledger_holds (bs_costs s) rid = Some (h, a, e) \<and> e \<le> bs_now s)"
  shows "budget_ok hl0 (s\<lparr>bs_costs := c\<rparr>)"
proof -
  have sol: "ledger.solvent (budget_cap hl0) hl_enforced (bs_now s) (bs_calls s) (bs_costs s)"
    using assms(1) by (simp add: budget_ok_def)
  then have b: "ledger.backed (bs_now s) (bs_calls s) (bs_costs s)" by (simp add: ledger.solvent_def)
  have "ledger_holds c rid = ledger_holds (bs_costs s) rid"
    if "(rid, cl) \<in> set (bs_calls s)" "cl_expires cl > bs_now s" for rid cl
    using b assms(5) [of rid] that by (fastforce simp: ledger.backed_def)
  with sol assms(2-4) have "ledger.solvent (budget_cap hl0) hl_enforced (bs_now s) (bs_calls s) c"
    by (intro ledger.solvent_same [OF sol]) (simp_all add: ledger_spent_def)
  then show ?thesis using assms(1) by (simp add: budget_ok_def)
qed

lemma budget_ok_house:
  assumes ok: "budget_ok hl0 s" and e: "e \<in> {CtCleanup, CtPersist, CtDrain}"
  shows "budget_ok hl0 (s\<lparr>bs_costs := ct_step (bs_now s) e (bs_costs s)\<rparr>)"
proof (rule budget_ok_costs [OF ok])
  have "ledger_valid (bs_costs s)" using ok by (simp add: budget_ok_def ledger.solvent_def)
  then show "ledger_valid (ct_step (bs_now s) e (bs_costs s))"
    using ct_step_wf by (simp add: ledger_valid_def)
  have d: "distinct (keys (ct_reservations (bs_costs s)))"
    using \<open>ledger_valid (bs_costs s)\<close> by (simp add: ledger_valid_def ct_wf_def)
  show "ct_currentMonth (ct_step (bs_now s) e (bs_costs s)) = ct_currentMonth (bs_costs s)"
    "ct_monthlyHouseholdCosts (ct_step (bs_now s) e (bs_costs s)) = ct_monthlyHouseholdCosts (bs_costs s)"
    using e by (auto simp: ct_cleanupTick_def ct_persistTick_def ct_persistMonthlyCosts_def ct_drain_def Let_def
        split: list.split)
  fix rid
  have "map_of (filter (\<lambda>(_, r). \<not> r_expiresAt r \<le> t) m) rid =
      (case map_of m rid of None \<Rightarrow> None | Some r \<Rightarrow> if r_expiresAt r \<le> t then None else Some r)"
    if "distinct (keys m)" for t and m :: "reservation jsmap"
    using that by (induction m) (auto split: option.split simp: map_of_eq_None_iff)
  from this [OF d] show "ledger_holds (ct_step (bs_now s) e (bs_costs s)) rid = ledger_holds (bs_costs s) rid \<or>
      (\<exists>h a x. ledger_holds (bs_costs s) rid = Some (h, a, x) \<and> x \<le> bs_now s)"
    using e by (auto simp: ledger_holds_def ct_cleanupTick_def ct_persistTick_def ct_persistMonthlyCosts_def
        ct_drain_def Let_def split: list.split option.split)
qed

lemma budget_step_ok:
  assumes "budget_step s s'" and "budget_ok hl0 s"
  shows "budget_ok hl0 s'"
  using assms
proof (induction rule: budget_step.induct)
  case (later s t)
  then show ?case by (auto simp: budget_ok_def intro: ledger.solvent_later)
next
  case (app_call uuid s g hh user input r w)
  let ?w0 = "\<lparr>sv_household = Some (bs_household s), sv_costs = bs_costs s, gw_guard = g\<rparr>"
  have ready: "svc_ready ?w0" using app_call.prems by (simp add: svc_ready_def budget_ok_def)
  show ?case
  proof (cases "estimateGuardCost input (lg_priceLookup g)")
    case (Inl x)
    then have "r = Inl (EstimateFailed x)" "w = ?w0" using app_call(3) by (simp_all add: estimate_fails)
    then show ?thesis
      by (intro budget_entry [OF app_call.prems app_call(1), of ?w0]) (simp_all add: Inl call_estimate_def svc_same_refl [OF ready])
  next
    case (Inr est)
    have "enters (guard_enter (bs_now s) uuid hh user input) ?w0 (guard_open (bs_now s) hh est ?w0)
        (\<lambda>rid w'. admits (bs_now s) uuid hh (lg_appId g) user est ?w0 rid w' \<and> app_charged (bs_now s) ?w0 w')
        (\<lambda>w'. svc_same (bs_now s) ?w0 w' \<and> app_same (bs_now s) g (gw_guard w'))"
      using guard_enter_spec [OF ready] app_call(2) Inr by simp
    then show ?thesis
      using Inr estimateGuardCost_nonneg [OF Inr] unfolding enters_def app_call(3)
      by (intro budget_entry [OF app_call.prems app_call(1), of ?w0 _ r w hh "lg_appId g" user])
         (auto simp: call_estimate_def guard_open_def services_open_def)
  qed
next
  case (system_call uuid s hh user input sy r w)
  let ?w0 = "\<lparr>sv_household = Some (bs_household s), sv_costs = bs_costs s\<rparr>"
  have ready: "svc_ready ?w0" using system_call.prems by (simp add: svc_ready_def budget_ok_def)
  show ?case
  proof (cases "estimateGuardCost input (sy_priceLookup sy)")
    case (Inl x)
    then have "r = Inl (EstimateFailed x)" "w = ?w0"
      using system_call(2) by (simp_all add: system_enter_def bindE_def guard_estimate_def)
    then show ?thesis
      by (intro budget_entry [OF system_call.prems system_call(1), of ?w0]) (simp_all add: Inl call_estimate_def svc_same_refl [OF ready])
  next
    case (Inr est)
    note spec = system_enter_spec [OF ready Inr, of "bs_now s" uuid hh user, unfolded enters_def system_call(2)]
    show ?thesis
      using Inr estimateGuardCost_nonneg [OF Inr] spec
      by (intro budget_entry [OF system_call.prems system_call(1), of ?w0 _ r w hh "sy_attributionId sy" user])
         (auto simp: call_estimate_def services_open_def)
  qed
next
  case (spend s rid cl ui)
  then show ?case
    using ledger.solvent_spend [of "budget_cap hl0" hl_enforced "bs_now s" "bs_calls s" "bs_costs s" rid cl ui]
    by (simp add: budget_ok_def ledger_payer_def)
next
  case (spend_unattributed ui s)
  let ?c = "ct_record (bs_now s) ui (bs_costs s)"
  have v: "ledger_valid (bs_costs s)" "ct_currentMonth (bs_costs s) = iso_month (bs_now s)"
    using spend_unattributed by (simp_all add: budget_ok_def ledger.solvent_def)
  note ch = ledger.charge_ok [OF v, of ui]
  have "ct_monthlyHouseholdCosts ?c = ct_monthlyHouseholdCosts (bs_costs s)"
    using spend_unattributed(1) v(2) by (simp add: ct_record_def ct_updateMonthlyCache_def Let_def bump_def)
  with ch show ?case by (intro budget_ok_costs [OF spend_unattributed(2)]) simp_all
next
  case (finish s rid cl)
  then show ?case
    using ledger.solvent_finish [of "budget_cap hl0" hl_enforced "bs_now s" "bs_calls s" "bs_costs s" rid cl]
    by (auto simp: budget_ok_def hl_releaseReservation_def)
next
  case (cleanup s)
  then show ?case using budget_ok_house [of hl0 s CtCleanup] by simp
next
  case (persist s)
  then show ?case using budget_ok_house [of hl0 s CtPersist] by simp
next
  case (drain s)
  then show ?case using budget_ok_house [of hl0 s CtDrain] by simp
qed

text \<open>A start: services built by their constructors, nothing in flight, no household over its cap.\<close>

definition budget_start :: "budget_state \<Rightarrow> bool" where
  "budget_start s \<longleftrightarrow> hl_ready (bs_household s) \<and> \<not> hl_disposed (bs_household s) \<and> ledger_valid (bs_costs s) \<and>
     ct_currentMonth (bs_costs s) = iso_month (bs_now s) \<and> bs_calls s = [] \<and>
     (\<forall>hh. hl_enforced hh \<longrightarrow> ledger_spent hh (bs_costs s) \<le> budget_cap (bs_household s) hh)"

lemma budget_start_ok: "budget_start s \<Longrightarrow> budget_ok (bs_household s) s"
  by (force simp: budget_start_def budget_ok_def ledger.solvent_def ledger.backed_def)

lemma budget_reach_ok: "budget_step\<^sup>*\<^sup>* s s' \<Longrightarrow> budget_ok hl0 s \<Longrightarrow> budget_ok hl0 s'"
  by (induction rule: rtranclp_induct) (auto intro: budget_step_ok)

lemma micro_below:
  assumes "micro x" "micro y" "x < y + 1 / 2000000"
  shows "x \<le> y"
proof -
  obtain i j :: int where ij: "x * 1000000 = of_int i" "y * 1000000 = of_int j"
    using assms(1,2) by (auto simp: micro_def)
  have "rat_of_int i < rat_of_int j + 1" using assms(3) ij by (simp add: field_simps)
  then have "rat_of_int i < rat_of_int (j + 1)" by simp
  then have "i \<le> j" unfolding of_int_less_iff by simp
  then have "x * 1000000 \<le> y * 1000000" unfolding ij by simp
  then show ?thesis by simp
qed

text \<open>
  C8. A household never spends past its monthly cap. Take any interleaving, within one month,
  of calls entering through any app guards and system guards, of charges, of calls finishing,
  and of the timers and queued writes, in which a call is charged at most its estimate and
  before its sixty-second reservation expires. Then what every household has spent stays
  below its cap up to the half micro-dollar the rounding of the sum can hide, and at most its
  cap when the cap is a whole number of micro-dollars.
\<close>

theorem household_budget_safe:
  assumes "budget_start s" and "budget_step\<^sup>*\<^sup>* s s'" and "hl_enforced hh"
  shows "ledger_spent hh (bs_costs s') < budget_cap (bs_household s) hh + 1 / 2000000 \<and>
    (micro (budget_cap (bs_household s) hh) \<longrightarrow> ledger_spent hh (bs_costs s') \<le> budget_cap (bs_household s) hh)"
proof -
  have "budget_ok (bs_household s) s'"
    using budget_reach_ok [OF assms(2)] budget_start_ok [OF assms(1)] .
  then have sol: "ledger.solvent (budget_cap (bs_household s)) hl_enforced (bs_now s') (bs_calls s') (bs_costs s')"
    by (simp add: budget_ok_def)
  then have "micro (ledger_spent hh (bs_costs s'))"
    by (auto simp: ledger.solvent_def ledger_valid_def ct_wf_def ledger_spent_def intro: totals_ok_get)
  then show ?thesis using ledger.solvent_spent [OF sol assms(3)] micro_below by blast
qed

definition demo_start :: budget_state where
  "demo_start = \<lparr>bs_now = 1775822400000, bs_household = demo_limiter, bs_costs = sv_costs (demo_world 0), bs_calls = []\<rparr>"

lemma demo_start_ok: "budget_start demo_start"
proof -
  have "hl_ready demo_limiter"
    using demo_ready [of 0] by (simp add: guard_ready_def svc_ready_def demo_world_def)
  moreover have "ledger_valid (sv_costs (demo_world 0))"
    by (simp add: ledger_valid_def demo_world_def clean_start_eq new_cost_tracker_def ct_wf_def ct_attributed_def
        total_of_def totals_ok_def)
  ultimately show ?thesis
    by (simp add: budget_start_def demo_start_def demo_limiter_def ledger_spent_def demo_world_def clean_start_eq
        new_cost_tracker_def get_or_def budget_cap_def hl_costCap_def hl_override_def orElse_def)
qed

theorem household_budget_safe_witness:
  "\<exists>s'. budget_step\<^sup>*\<^sup>* demo_start s' \<and> 6 / 1000 \<le> ledger_spent ''h1'' (bs_costs s') \<and>
     ledger_spent ''h1'' (bs_costs s') \<le> 1"
proof -
  obtain rid w where g: "guard_enter 1775822400000 ''r1'' (Some ''h1'') None (guard_classify ''hi'') (demo_world 0) = (Inr rid, w)"
    using demo_outcomes(2) by blast
  define s1 where "s1 = after_entry (Some ''h1'') (1 / 20) (Inr rid) w demo_start"
  have e: "call_estimate (guard_classify ''hi'') (lg_priceLookup demo_guard) = 1 / 20"
    using demo_estimate [of "''hi''" 0] by (simp add: call_estimate_def demo_world_def)
  have w0: "demo_world 0 = \<lparr>sv_household = Some (bs_household demo_start), sv_costs = bs_costs demo_start, gw_guard = demo_guard\<rparr>"
    by (simp add: demo_start_def demo_world_def)
  have "rl_ready (lg_rateLimiter demo_guard)" by (simp add: demo_guard_def rl_ready_def)
  then have st1: "budget_step demo_start s1"
    using app_call [of "''r1''" demo_start demo_guard "Some ''h1''" None "guard_classify ''hi''" "Inr rid" w] g e
    by (simp add: w0 [symmetric] s1_def) (simp add: demo_start_def)
  have ok1: "budget_ok demo_limiter s1"
    using budget_step_ok [OF st1] budget_start_ok [OF demo_start_ok] by (simp add: demo_start_def)
  have c: "ct_cost_of sample_call = 3 / 500"
    by (simp add: ct_cost_of_def sample_call_def estimateCallCost_def getModelPricing_def MODEL_PRICING_def round6_def
        floor_eq_iff)
  have p: "effective_household (ui_householdId sample_call) = Some ''h1''"
    by (simp add: sample_call_def effective_household_def PLATFORM_SYSTEM_HOUSEHOLD_ID_def)
  have calls: "bs_calls s1 = [(rid, \<lparr>cl_household = ''h1'', cl_left = 1 / 20, cl_expires = 1775822460000\<rparr>)]" "bs_now s1 = 1775822400000"
    by (simp_all add: s1_def after_entry_def demo_start_def hl_attribute_def PLATFORM_SYSTEM_HOUSEHOLD_ID_def)
  define s2 where "s2 = s1\<lparr>bs_costs := ct_record (bs_now s1) sample_call (bs_costs s1),
      bs_calls := set_key rid (\<lparr>cl_household = ''h1'', cl_left = 1 / 20 - ct_cost_of sample_call, cl_expires = 1775822460000\<rparr>) (bs_calls s1)\<rparr>"
  have st2: "budget_step s1 s2"
    using spend [of s1 rid "\<lparr>cl_household = ''h1'', cl_left = 1 / 20, cl_expires = 1775822460000\<rparr>" sample_call]
    by (simp add: p c calls s2_def)
  have v: "ledger_valid (bs_costs s1)" "ct_currentMonth (bs_costs s1) = iso_month (bs_now s1)"
    using ok1 by (simp_all add: budget_ok_def ledger.solvent_def)
  have "0 \<le> ledger_spent ''h1'' (bs_costs s1)"
    using v(1) by (auto simp: ledger_valid_def ct_wf_def ledger_spent_def intro: totals_ok_get)
  then have "6 / 1000 \<le> ledger_spent ''h1'' (bs_costs s2)"
    using ledger.charge_ok [OF v, of sample_call "''h1''"] by (simp add: ledger_payer_def p c s2_def)
  moreover have reach: "budget_step\<^sup>*\<^sup>* demo_start s2" 
    by (rule rtranclp.rtrancl_into_rtrancl [OF r_into_rtranclp [of budget_step, OF st1] st2])
  moreover have "ledger_spent ''h1'' (bs_costs s2) \<le> 1"
  proof -
    have "hl_enforced ''h1''" by (simp add: hl_enforced_def hl_attribute_def PLATFORM_SYSTEM_HOUSEHOLD_ID_def)
    moreover have "budget_cap (bs_household demo_start) ''h1'' = 1"
      by (simp add: budget_cap_def demo_start_def demo_limiter_def hl_costCap_def hl_override_def orElse_def)
    moreover have "micro (1 :: rat)" unfolding micro_def by (rule exI [of _ 1000000]) simp
    ultimately show ?thesis using household_budget_safe [OF demo_start_ok reach, of "''h1''"] by simp
  qed
  ultimately show ?thesis by blast
qed

section \<open>Why the sixty seconds matter\<close>

text \<open>
  The bound needs calls to be charged before their reservation expires. The providers allow a
  request 120 seconds, so a call may outlive its reservation: here a second call is let in
  when the first one's reservation has just expired, both are charged their estimate, and
  the household ends above its cap of one dollar.
\<close>

definition five_cents :: usage_input where
  "five_cents = sample_call\<lparr>ui_inputTokens := Fin 0, ui_outputTokens := Fin 5000\<rparr>"

definition demo_ledger :: "reservation jsmap \<Rightarrow> cost_tracker" where
  "demo_ledger rs = \<lparr>ct_monthlyCosts = [], ct_monthlyUserCosts = [],
     ct_monthlyHouseholdCosts = [(''h1'', 47 / 50)], ct_monthlyTotal = 47 / 50, ct_currentMonth = ''2026-04'',
     ct_persistDirty = False, ct_persistTimer = False, ct_reservations = rs, ct_reservationTimer = rs \<noteq> [],
     ct_tokensIn = 0, ct_tokensOut = 0, ct_writeQueue = [], ct_costFile = FileMissing, ct_usageFile = None,
     ct_writable = True\<rparr>"

definition demo_reservation :: "time \<Rightarrow> reservation" where
  "demo_reservation t = \<lparr>r_householdId = ''h1'', r_appId = Some ''food'', r_userId = None, r_amount = 1 / 20, r_expiresAt = t + 60000\<rparr>"

definition demo_after :: "time list \<Rightarrow> time list \<Rightarrow> reservation jsmap \<Rightarrow> guard_world" where
  "demo_after app house rs = \<lparr>sv_household = Some (demo_limiter\<lparr>hl_rateLimiters := (if house = [] then [] else [(''h1'',
       \<lparr>rl_maxAttempts = 3, rl_windowMs = 60000, rl_entries = [(''h1'', house)], rl_cleanupTimer = False, rl_disposed = False\<rparr>)])\<rparr>),
     sv_costs = demo_ledger rs,
     gw_guard = demo_guard\<lparr>lg_rateLimiter := \<lparr>rl_maxAttempts = 2, rl_windowMs = 60000,
        rl_entries = (if app = [] then [] else [(''food'', app)]), rl_cleanupTimer = True, rl_disposed = False\<rparr>\<rparr>\<rparr>"

lemma demo_months: "iso_month 1775822460000 = ''2026-04''" "iso_month 1775822460001 = ''2026-04''"
    "iso_month 1775822460002 = ''2026-04''"
  by code_simp+

lemmas demo_eval = guard_enter_def bindE_def guard_estimate_def app_rate_peek_def household_rate_peek_def
  app_cost_cap_def household_cost_cap_def global_cost_cap_def reserve_estimate_def household_commit_def app_commit_def
  rl_check_def rl_purge_key_def rl_commit_def hl_check_def hl_getRateLimiter_def hl_effectiveRate_def hl_override_def
  hl_attribute_def hl_commit_def hl_checkCost_def hl_reserveEstimated_def ct_reserveEstimated_def hl_costCap_def
  ct_getMonthlyAppCost_def ct_getMonthlyHouseholdCost_def ct_getMonthlyTotalCost_def new_rate_limiter_def
  orElse_def reaches_def get_or_def pending_of_def live_def PLATFORM_SYSTEM_HOUSEHOLD_ID_def demo_month demo_months
  demo_rate_def

lemma demo_first_call:
  "guard_enter 1775822400000 ''r1'' (Some ''h1'') None (guard_classify ''hi'') (demo_after [] [] []) =
     (Inr ''r1'', demo_after [1775822400000] [1775822400000] [(''r1'', demo_reservation 1775822400000)])"
  using demo_estimate [of "''hi''" 0]
  by (simp add: demo_eval demo_after_def demo_guard_def demo_world_def demo_limiter_def demo_ledger_def demo_reservation_def
      Let_def round6_def floor_half_rat)

lemma demo_second_call:
  "guard_enter 1775822460000 ''r2'' (Some ''h1'') None (guard_classify ''hi'')
      (demo_after [1775822400000] [1775822400000] [(''r1'', demo_reservation 1775822400000)]) =
     (Inr ''r2'', demo_after [1775822460000] [1775822460000]
        [(''r1'', demo_reservation 1775822400000), (''r2'', demo_reservation 1775822460000)])"
  using demo_estimate [of "''hi''" 0]
  by (simp add: demo_eval demo_after_def demo_guard_def demo_world_def demo_limiter_def demo_ledger_def demo_reservation_def
      Let_def round6_def floor_half_rat)

lemma five_cents_cost: "ct_cost_of five_cents = 1 / 20"
  by (simp add: five_cents_def ct_cost_of_def sample_call_def estimateCallCost_def getModelPricing_def
      MODEL_PRICING_def round6_def floor_eq_iff)

text \<open>Both calls were estimated at five cents and charged five cents; the cap is one dollar.\<close>

lemma expired_reservation_overspends:
  "\<exists>w1 w2. guard_enter 1775822400000 ''r1'' (Some ''h1'') None (guard_classify ''hi'') (demo_after [] [] []) = (Inr ''r1'', w1) \<and>
     guard_enter 1775822460000 ''r2'' (Some ''h1'') None (guard_classify ''hi'') w1 = (Inr ''r2'', w2) \<and>
     call_estimate (guard_classify ''hi'') (lg_priceLookup (gw_guard w1)) = ct_cost_of five_cents \<and>
     budget_cap demo_limiter ''h1'' < ledger_spent ''h1''
       (ct_record 1775822460002 five_cents (ct_record 1775822460001 five_cents (sv_costs w2)))"
proof -
  let ?ct = "demo_ledger [(''r1'', demo_reservation 1775822400000), (''r2'', demo_reservation 1775822460000)]"
  have v: "ledger_valid ?ct"
    by (auto simp: ledger_valid_def demo_ledger_def ct_wf_def ct_attributed_def total_of_def totals_ok_def
        demo_reservation_def micro_def intro: exI [of _ 940000])
  have m: "ct_currentMonth ?ct = iso_month 1775822460001" by (simp add: demo_ledger_def demo_months)
  have p: "ledger_payer five_cents = Some ''h1''"
    by (simp add: ledger_payer_def five_cents_def sample_call_def effective_household_def PLATFORM_SYSTEM_HOUSEHOLD_ID_def)
  note c1 = ledger.charge_ok [OF v m, of five_cents]
  let ?c1 = "ct_record 1775822460001 five_cents ?ct"
  have v1: "ledger_valid ?c1" and m1: "ct_currentMonth ?c1 = iso_month 1775822460002"
    using c1 m by (simp_all add: demo_months)
  have "ledger_spent ''h1'' (ct_record 1775822460002 five_cents ?c1) = 47 / 50 + 1 / 20 + 1 / 20"
    using ledger.charge_ok [OF v1 m1, of five_cents "''h1''"] c1 [of "''h1''"] p
    by (simp add: five_cents_cost) (simp add: ledger_spent_def demo_ledger_def get_or_def)
  moreover have "budget_cap demo_limiter ''h1'' = 1"
    by (simp add: budget_cap_def demo_limiter_def hl_costCap_def hl_override_def orElse_def)
  moreover have "call_estimate (guard_classify ''hi'') (lg_priceLookup (gw_guard (demo_after a h rs))) = 1 / 20" for a h rs
    using demo_estimate [of "''hi''" 0] by (simp add: call_estimate_def demo_world_def demo_after_def)
  moreover have "sv_costs (demo_after a h rs) = demo_ledger rs" for a h rs by (simp add: demo_after_def)
  ultimately show ?thesis
    using demo_first_call demo_second_call by (simp add: five_cents_cost)
qed

end
