(* ===== verification/Paths.thy ===== *)
theory Paths
  imports Prelude
begin

text \<open>
  \<open>core/src/services/data-store/paths.ts\<close>: where a relative path of an app ends up on disk,
  and whether its manifest lets it go there. The functions of \<open>node:path\<close> (POSIX) that the
  file uses are modelled first, over the segments of a path; \<open>cwd\<close> is the working directory
  \<open>resolve\<close> falls back on.
\<close>

section \<open>\<open>node:path\<close>\<close>

definition segs :: "string \<Rightarrow> string list" where
  "segs p = split_on (CHR ''/'') p"

definition is_abs :: "string \<Rightarrow> bool" where
  "is_abs p \<longleftrightarrow> starts_with ''/'' p"

text \<open>One pass over the segments of an absolute path; \<open>st\<close> is the result so far, reversed.\<close>

fun norm_abs :: "string list \<Rightarrow> string list \<Rightarrow> string list" where
  "norm_abs st [] = rev st"
| "norm_abs st (s # ss) =
     (if s = [] \<or> s = ''.'' then norm_abs st ss
      else if s = ''..'' then norm_abs (tl st) ss
      else norm_abs (s # st) ss)"

text \<open>The same on a relative path, where a leading \<open>..\<close> stays.\<close>

fun norm_rel :: "string list \<Rightarrow> string list \<Rightarrow> string list" where
  "norm_rel st [] = rev st"
| "norm_rel st (s # ss) =
     (if s = [] \<or> s = ''.'' then norm_rel st ss
      else if s = ''..'' then
        (if st = [] \<or> hd st = ''..'' then norm_rel (''..'' # st) ss else norm_rel (tl st) ss)
      else norm_rel (s # st) ss)"

definition render :: "string list \<Rightarrow> string" where
  "render ss = ''/'' @ join ''/'' ss"

text \<open>The segments \<open>resolve(...paths)\<close> yields; an absolute argument discards what precedes it.\<close>

definition resolve_segs :: "string \<Rightarrow> string list \<Rightarrow> string list" where
  "resolve_segs cwd ps =
     norm_abs [] (foldl (\<lambda>acc p. if is_abs p then segs p else acc @ segs p) (segs cwd) ps)"

definition node_resolve :: "string \<Rightarrow> string list \<Rightarrow> string" where
  "node_resolve cwd ps = render (resolve_segs cwd ps)"

fun common_prefix :: "'a list \<Rightarrow> 'a list \<Rightarrow> 'a list" where
  "common_prefix (x # xs) (y # ys) = (if x = y then x # common_prefix xs ys else [])"
| "common_prefix _ _ = []"

text \<open>\<open>relative(from, to)\<close>: up from what is not shared, then down.\<close>

definition node_relative :: "string \<Rightarrow> string \<Rightarrow> string \<Rightarrow> string" where
  "node_relative cwd src dst =
     (let f = resolve_segs cwd [src]; t = resolve_segs cwd [dst]; c = length (common_prefix f t)
      in join ''/'' (replicate (length f - c) ''..'' @ drop c t))"

definition node_normalize :: "string \<Rightarrow> string" where
  "node_normalize p =
     (if p = [] then ''.''
      else let trail = ends_with ''/'' p;
               body = join ''/'' (if is_abs p then norm_abs [] (segs p) else norm_rel [] (segs p))
           in if body = [] then (if is_abs p then ''/'' else if trail then ''./'' else ''.'')
              else (if is_abs p then ''/'' else []) @ body @ (if trail then ''/'' else []))"

text \<open>\<open>join(...)\<close>: the non-empty arguments with slashes between, normalized.\<close>

definition node_join :: "string list \<Rightarrow> string" where
  "node_join ps = node_normalize (join ''/'' (filter (\<lambda>p. p \<noteq> []) ps))"

section \<open>The source\<close>

datatype path_error =
    PathTraversalError string string
  | HouseholdBoundaryError "string option" "string option"
  | UserBoundaryError string string
  | SpaceMembershipError string string
  | ScopeViolationError string string string
  | NoHouseholdInContext string
  | InvalidBypassToken

definition is_sep :: "char \<Rightarrow> bool" where
  "is_sep c \<longleftrightarrow> c = CHR ''/'' \<or> c = CHR 0x5C"

text \<open>
  The regular expression \<open>[/\\]households[/\\]([^/\\]+)[/\\]\<close>: the leftmost match, as the
  text before it, the captured id and whether anything matched.
\<close>

definition household_here :: "string \<Rightarrow> string option" where
  "household_here s =
     (case s of
        [] \<Rightarrow> None
      | c # r \<Rightarrow>
          if is_sep c \<and> starts_with ''households'' r
          then (case drop 10 r of
                  [] \<Rightarrow> None
                | d # q \<Rightarrow>
                    let hh = takeWhile (\<lambda>c. \<not> is_sep c) q
                    in if is_sep d \<and> hh \<noteq> [] \<and> length hh < length q then Some hh else None)
          else None)"

fun household_match :: "string \<Rightarrow> string \<Rightarrow> (string \<times> string) option" where
  "household_match pre [] = None"
| "household_match pre (c # s) =
     (case household_here (c # s) of
        Some hh \<Rightarrow> Some (pre, hh)
      | None \<Rightarrow> household_match (pre @ [c]) s)"

definition extractHouseholdIdFromPath :: "string \<Rightarrow> string option" where
  "extractHouseholdIdFromPath p = map_option snd (household_match [] p)"

definition escapes :: "string \<Rightarrow> bool" where
  "escapes rel \<longleftrightarrow> starts_with ''..'' rel \<or> starts_with ''/'' rel"

text \<open>\<open>hhRoot\<close> is the base up to and including the id: the match without its last separator.\<close>

definition resolveScopedPath :: "string \<Rightarrow> string \<Rightarrow> string \<Rightarrow> path_error + string" where
  "resolveScopedPath cwd baseDir relativePath =
     (let resolvedBase = node_resolve cwd [baseDir];
          resolvedPath = node_resolve cwd [resolvedBase, relativePath]
      in if escapes (node_relative cwd resolvedBase resolvedPath)
         then Inl (PathTraversalError relativePath baseDir)
         else (case household_match [] resolvedBase of
                 None \<Rightarrow> Inr resolvedPath
               | Some (pre, hh) \<Rightarrow>
                   (let hhRoot = take (length pre + 12 + length hh) resolvedBase
                    in if escapes (node_relative cwd hhRoot resolvedPath)
                       then Inl (HouseholdBoundaryError (Some hh) None)
                       else Inr resolvedPath)))"

datatype access = AccRead | AccWrite | AccReadWrite

record data_scope =
  ds_path :: string
  ds_access :: access

definition unback :: "string \<Rightarrow> string" where
  "unback = map (\<lambda>c. if c = CHR 0x5C then CHR ''/'' else c)"

definition normalizePosix :: "string \<Rightarrow> string" where
  "normalizePosix p =
     (if CHR 0x00 \<in> set p then ''..''
      else let n = node_normalize (unback p) in if starts_with ''./'' n then drop 2 n else n)"

definition scope_dir :: "data_scope \<Rightarrow> string" where
  "scope_dir sc =
     (let n = normalizePosix (ds_path sc)
      in if ends_with ''/'' (ds_path sc) \<and> \<not> ends_with ''/'' n then n @ ''/'' else n)"

definition scope_matches :: "string \<Rightarrow> data_scope \<Rightarrow> bool" where
  "scope_matches n sc =
     (let d = scope_dir sc
      in n = d \<or> (ends_with ''/'' d \<and> (starts_with d n \<or> n = butlast d)))"

definition findMatchingScope :: "string \<Rightarrow> data_scope list \<Rightarrow> data_scope option" where
  "findMatchingScope path scopes =
     (if scopes = [] then None
      else let n = normalizePosix path
           in if starts_with ''..'' n \<or> starts_with ''/'' n then None
              else find (scope_matches n) scopes)"

text \<open>
  \<open>resolveScopedDataDir\<close>. The household id is absent (\<open>None\<close>), \<open>null\<close> (\<open>Some None\<close>) or a
  string; \<open>getSpace\<close> gives the kind and the household of a space.
\<close>

record data_dir_opts =
  dd_dataDir :: string
  dd_appId :: string
  dd_userId :: "string option"
  dd_spaceId :: "string option"
  dd_householdId :: "string option option"
  dd_getSpace :: "(string \<Rightarrow> (string \<times> string option) option) option"

fun unsafe_opt :: "string option \<Rightarrow> bool" where
  "unsafe_opt None = False"
| "unsafe_opt (Some s) = (\<not> safe_segment s)"

definition resolveScopedDataDir :: "string \<Rightarrow> data_dir_opts \<Rightarrow> path_error + string" where
  "resolveScopedDataDir cwd opts =
     (let dir = (\<lambda>ps. Inr (node_resolve cwd [node_join (dd_dataDir opts # ps)]));
          spaceDef = (\<lambda>sid. case dd_getSpace opts of None \<Rightarrow> None | Some f \<Rightarrow> f sid)
      in if \<not> safe_segment (dd_appId opts) then Inl (PathTraversalError (dd_appId opts) (dd_dataDir opts))
         else if unsafe_opt (dd_userId opts) then Inl (PathTraversalError (the (dd_userId opts)) (dd_dataDir opts))
         else if unsafe_opt (dd_spaceId opts) then Inl (PathTraversalError (the (dd_spaceId opts)) (dd_dataDir opts))
         else (case dd_spaceId opts of
                 Some sid \<Rightarrow>
                   (case spaceDef sid of
                      Some (kind, hh) \<Rightarrow>
                        if kind = ''household'' \<and> hh \<noteq> None \<and> hh \<noteq> Some []
                        then dir [''households'', the hh, ''spaces'', sid, dd_appId opts]
                        else if kind = ''collaboration'' then dir [''collaborations'', sid, dd_appId opts]
                        else dir [''spaces'', sid, dd_appId opts]
                    | None \<Rightarrow> dir [''spaces'', sid, dd_appId opts])
               | None \<Rightarrow>
                   (case dd_householdId opts of
                      Some None \<Rightarrow> Inl (HouseholdBoundaryError None None)
                    | hh \<Rightarrow>
                        (case dd_userId opts of
                           None \<Rightarrow> Inl (PathTraversalError ''(missing userId)'' (dd_dataDir opts))
                         | Some u \<Rightarrow>
                             (case hh of
                                Some (Some h) \<Rightarrow> dir [''households'', h, ''users'', u, dd_appId opts]
                              | _ \<Rightarrow> dir [''users'', u, dd_appId opts])))))"

definition warnScopePathPrefix :: "string \<Rightarrow> data_scope list \<Rightarrow> string list" where
  "warnScopePathPrefix appId scopes = map ds_path (filter (\<lambda>sc. starts_with (appId @ ''/'') (ds_path sc)) scopes)"

section \<open>Normalized segments\<close>

definition plain :: "string \<Rightarrow> bool" where
  "plain s \<longleftrightarrow> s \<noteq> [] \<and> s \<noteq> ''.'' \<and> s \<noteq> ''..'' \<and> CHR ''/'' \<notin> set s"

lemma segs_no_slash: "s \<in> set (segs p) \<Longrightarrow> CHR ''/'' \<notin> set s"
  unfolding segs_def by (rule split_on_pieces)

lemma set_norm_abs:
  "set (norm_abs st ss) \<subseteq> set st \<union> {s \<in> set ss. s \<noteq> [] \<and> s \<noteq> ''.'' \<and> s \<noteq> ''..''}"
proof (induction st ss rule: norm_abs.induct)
  case (2 st s ss)
  have "set (tl st) \<subseteq> set st" by (cases st) auto
  with 2 show ?case by auto
qed simp

lemma norm_abs_plain: "\<forall>s \<in> set st. plain s \<Longrightarrow> \<forall>s \<in> set ss. CHR ''/'' \<notin> set s \<Longrightarrow> \<forall>s \<in> set (norm_abs st ss). plain s"
  using set_norm_abs [of st ss] by (auto simp: plain_def)

lemma norm_abs_id: "\<forall>s \<in> set ss. plain s \<or> s = [] \<Longrightarrow> norm_abs st ss = rev st @ filter (\<lambda>s. s \<noteq> []) ss"
  by (induction st ss rule: norm_abs.induct) (auto simp: plain_def)

lemma norm_abs_append: "norm_abs st (xs @ ys) = norm_abs (rev (norm_abs st xs)) ys"
  by (induction st xs rule: norm_abs.induct) auto

lemma foldl_segs_no_slash:
  "\<forall>s \<in> set acc. CHR ''/'' \<notin> set s \<Longrightarrow>
   \<forall>s \<in> set (foldl (\<lambda>acc p. if is_abs p then segs p else acc @ segs p) acc ps). CHR ''/'' \<notin> set s"
proof (induction ps arbitrary: acc)
  case (Cons p ps)
  have "\<forall>s \<in> set (if is_abs p then segs p else acc @ segs p). CHR ''/'' \<notin> set s"
    using Cons.prems segs_no_slash by auto
  from Cons.IH [OF this] show ?case by simp
qed simp

lemma resolve_segs_plain: "\<forall>s \<in> set (resolve_segs cwd ps). plain s"
  unfolding resolve_segs_def by (intro norm_abs_plain foldl_segs_no_slash) (auto simp: segs_no_slash)

lemma segs_render: "\<forall>s \<in> set ss. plain s \<Longrightarrow> segs (render ss) = [] # (if ss = [] then [[]] else ss)"
  by (simp add: segs_def render_def split_join plain_def)

lemma render_abs: "is_abs (render ss)"
  by (simp add: is_abs_def render_def starts_with_def)

lemma resolve_rendered [simp]: "\<forall>s \<in> set ss. plain s \<Longrightarrow> resolve_segs cwd (render ss # ps) = resolve_segs ''/'' (render ss # ps)"
  by (simp add: resolve_segs_def render_abs)

lemma resolve_render: "\<forall>s \<in> set ss. plain s \<Longrightarrow> resolve_segs cwd [render ss] = ss"
  by (simp add: resolve_segs_def render_abs segs_render norm_abs_id) (auto simp: filter_id_conv plain_def)

lemma resolve_node [simp]: "resolve_segs cwd [node_resolve cwd' ps] = resolve_segs cwd' ps"
  unfolding node_resolve_def by (rule resolve_render [OF resolve_segs_plain])

text \<open>Resolving under a base: the base's segments, then those of a relative argument.\<close>

definition below :: "string list \<Rightarrow> string \<Rightarrow> string list" where
  "below bs p = (if is_abs p then norm_abs [] (segs p) else norm_abs (rev bs) (segs p))"

lemma resolve_under: "resolve_segs cwd [node_resolve cwd' ps, p] = below (resolve_segs cwd' ps) p"
proof -
  let ?b = "resolve_segs cwd' ps"
  have b: "\<forall>s \<in> set ?b. plain s" by (rule resolve_segs_plain)
  have "norm_abs [] (segs (render ?b)) = ?b"
    using resolve_render [OF b, of "''/''"] by (simp add: resolve_segs_def render_abs)
  then show ?thesis
    by (simp add: resolve_segs_def node_resolve_def below_def render_abs norm_abs_append)
qed

lemma resolve_two: "resolve_segs cwd [b, p] = below (resolve_segs cwd [b]) p"
  by (simp add: resolve_segs_def below_def norm_abs_append)

section \<open>Containment\<close>

lemma common_prefix_take: "common_prefix xs ys = take (length (common_prefix xs ys)) xs"
  "common_prefix xs ys = take (length (common_prefix xs ys)) ys"
  by (induction xs ys rule: common_prefix.induct) auto

lemma common_prefix_append [simp]: "common_prefix xs (xs @ ys) = xs"
  by (induction xs) auto

text \<open>A relative path that does not escape leads below its base, and only such paths do not escape.\<close>

lemma join_slash_Cons: "join ''/'' (x # xs) = (if xs = [] then x else x @ CHR ''/'' # join ''/'' xs)"
  by (cases xs) simp_all

lemma starts_with_dots_join:
  "CHR ''/'' \<notin> set x \<Longrightarrow> starts_with ''..'' (join ''/'' (x # xs)) \<longleftrightarrow> starts_with ''..'' x"
proof (cases x)
  case (Cons a r)
  then show "CHR ''/'' \<notin> set x \<Longrightarrow> starts_with ''..'' (join ''/'' (x # xs)) \<longleftrightarrow> starts_with ''..'' x"
    by (cases r) (auto simp: starts_with_def join_slash_Cons)
qed (auto simp: starts_with_def join_slash_Cons)

lemma relative_escapes:
  assumes "f = resolve_segs cwd [src]" and "t = resolve_segs cwd [dst]"
  shows "escapes (node_relative cwd src dst) \<longleftrightarrow>
    \<not> (\<exists>rest. t = f @ rest \<and> (rest = [] \<or> \<not> starts_with ''..'' (hd rest)))"
proof -
  let ?c = "length (common_prefix f t)"
  have rel: "node_relative cwd src dst = join ''/'' (replicate (length f - ?c) ''..'' @ drop ?c t)"
    by (simp add: node_relative_def assms Let_def)
  have tp: "\<forall>s \<in> set t. plain s" unfolding assms by (rule resolve_segs_plain)
  show ?thesis
  proof (cases "length f - ?c")
    case (Suc n)
    have "\<not> (\<exists>rest. t = f @ rest)" using Suc by auto
    moreover have "escapes (node_relative cwd src dst)"
      using Suc unfolding rel escapes_def by (simp add: join_slash_Cons starts_with_def)
    ultimately show ?thesis by blast
  next
    case 0
    then have "f = common_prefix f t" using common_prefix_take(1) [of f t] by (metis diff_is_0_eq take_all)
    then have t: "t = f @ drop (length f) t" using common_prefix_take(2) [of f t] by (metis append_take_drop_id)
    have c: "?c = length f" using \<open>f = common_prefix f t\<close> by simp
    let ?r = "drop (length f) t"
    have r: "\<forall>s \<in> set ?r. plain s" using tp by (meson in_set_dropD)
    have rel': "node_relative cwd src dst = join ''/'' ?r" using rel c by simp
    have "escapes (join ''/'' ?r) \<longleftrightarrow> ?r \<noteq> [] \<and> starts_with ''..'' (hd ?r)"
    proof (cases ?r)
      case (Cons x xs)
      then have x: "plain x" using r by simp
      have "\<not> starts_with ''/'' (join ''/'' (x # xs))"
        using x by (cases x) (auto simp: plain_def starts_with_def join_slash_Cons)
      then show ?thesis
        unfolding Cons escapes_def using x starts_with_dots_join by (simp add: plain_def)
    qed (simp add: escapes_def starts_with_def)
    then show ?thesis unfolding rel' using t by (metis append_eq_conv_conj)
  qed
qed

lemma household_hereD:
  assumes "household_here s = Some hh"
  obtains c d e v where "s = c # ''households'' @ d # hh @ e # v" "is_sep c" "is_sep d" "is_sep e"
    "\<forall>x \<in> set hh. \<not> is_sep x" "hh \<noteq> []"
proof -
  obtain c r where s: "s = c # r" and c: "is_sep c" and h: "starts_with ''households'' r"
    using assms by (cases s) (auto simp: household_here_def split: if_splits)
  obtain t where r: "r = ''households'' @ t" using h by (auto simp: starts_with_iff)
  obtain d q where t: "t = d # q" using assms c h by (cases t) (simp_all add: household_here_def s r)
  have hh: "is_sep d" "hh = takeWhile (\<lambda>c. \<not> is_sep c) q" "hh \<noteq> []" "length hh < length q"
    using assms c h by (auto simp: household_here_def s r t Let_def split: if_splits)
  obtain e v where ev: "dropWhile (\<lambda>c. \<not> is_sep c) q = e # v"
    using hh(2,4) by (cases "dropWhile (\<lambda>c. \<not> is_sep c) q") (auto dest: dropWhile_eq_Nil_conv [THEN iffD1] simp: takeWhile_eq_all_conv [THEN iffD2])
  then have e: "is_sep e" using hd_dropWhile [of "\<lambda>c. \<not> is_sep c" q] by simp
  have q: "q = hh @ e # v" using takeWhile_dropWhile_id [of "\<lambda>c. \<not> is_sep c" q] ev hh(2) by simp
  have no: "\<forall>x \<in> set hh. \<not> is_sep x" using hh(2) by (auto dest: set_takeWhileD)
  show thesis using that [of c d e v] c hh(1,3) e no by (simp add: s r t q)
qed

lemma household_matchD:
  assumes "household_match pre s = Some (p, hh)"
  shows "\<exists>u c d e v. p = pre @ u \<and> s = u @ c # ''households'' @ d # hh @ e # v \<and>
    is_sep c \<and> is_sep d \<and> is_sep e \<and> (\<forall>x \<in> set hh. \<not> is_sep x) \<and> hh \<noteq> []"
  using assms
proof (induction pre s rule: household_match.induct)
  case (2 pre c s)
  show ?case
  proof (cases "household_here (c # s)")
    case None
    then obtain u where "p = (pre @ [c]) @ u" "\<exists>x d e v. s = u @ x # ''households'' @ d # hh @ e # v \<and>
        is_sep x \<and> is_sep d \<and> is_sep e \<and> (\<forall>x \<in> set hh. \<not> is_sep x) \<and> hh \<noteq> []"
      using 2 by auto
    then show ?thesis by (intro exI [of _ "c # u"]) auto
  next
    case (Some h)
    then have "p = pre" "h = hh" using 2(2) by simp_all
    from Some obtain x d e v where "c # s = x # ''households'' @ d # h @ e # v" "is_sep x" "is_sep d" "is_sep e"
        "\<forall>x \<in> set h. \<not> is_sep x" "h \<noteq> []" by (rule household_hereD)
    with \<open>p = pre\<close> \<open>h = hh\<close> show ?thesis by (intro exI [of _ "[]"]) fastforce
  qed
qed simp

text \<open>A prefix of a rendered path that ends before a slash names a prefix of its segments.\<close>

lemma render_prefix:
  assumes "\<forall>s \<in> set bs. plain s" and "render bs = a @ CHR ''/'' # b" and "a \<noteq> []"
  shows "\<exists>k. resolve_segs cwd [a] = take k bs"
proof -
  have abs: "is_abs a" using assms(2,3) render_abs [of bs] by (cases a) (auto simp: is_abs_def starts_with_def)
  have split: "segs (a @ CHR ''/'' # b) = segs a @ segs b" for a b
  proof (induction a)
    case (Cons x a)
    then show ?case
      by (cases "segs a") (auto simp: segs_def split: list.splits)
  qed (simp add: segs_def)
  have "segs a @ segs b = [] # (if bs = [] then [[]] else bs)"
    using split [of a b] segs_render [OF assms(1)] by (simp add: assms(2))
  then obtain n where n: "segs a = take n ([] # (if bs = [] then [[]] else bs))"
    by (metis append_eq_conv_conj)
  have "norm_abs [] (segs a) = filter (\<lambda>s. s \<noteq> []) (segs a)"
  proof -
    have "\<forall>s \<in> set (segs a). plain s \<or> s = []"
      using assms(1) unfolding n by (auto dest!: in_set_takeD split: if_splits)
    then show ?thesis by (simp add: norm_abs_id)
  qed
  also have "\<dots> = take (n - 1) bs"
  proof (cases "bs = []")
    case False
    have "filter (\<lambda>s. s \<noteq> []) (take (n - 1) bs) = take (n - 1) bs"
      using assms(1) by (auto simp: filter_id_conv plain_def dest: in_set_takeD)
    then show ?thesis using False by (cases n) (simp_all add: n)
  qed (simp add: n take_Cons' )
  finally show ?thesis using abs by (auto simp: resolve_segs_def)
qed

text \<open>
  A base as the program builds them: no backslash in it, and no segment that starts with two
  dots. On those the household check never adds a rejection.
\<close>

definition no_backslash :: "string \<Rightarrow> bool" where
  "no_backslash p \<longleftrightarrow> CHR 0x5C \<notin> set p"

definition tame_base :: "string \<Rightarrow> string \<Rightarrow> bool" where
  "tame_base cwd base \<longleftrightarrow> no_backslash (node_resolve cwd [base]) \<and>
     (\<forall>s \<in> set (resolve_segs cwd [base]). \<not> starts_with ''..'' s)"

lemma resolveScopedPath_eq:
  assumes "tame_base cwd baseDir"
  shows "resolveScopedPath cwd baseDir rel =
    (if \<exists>rest. resolve_segs cwd [baseDir, rel] = resolve_segs cwd [baseDir] @ rest \<and>
          (rest = [] \<or> \<not> starts_with ''..'' (hd rest))
     then Inr (node_resolve cwd [baseDir, rel]) else Inl (PathTraversalError rel baseDir))"
proof -
  let ?b = "node_resolve cwd [baseDir]" and ?bs = "resolve_segs cwd [baseDir]" and ?ts = "resolve_segs cwd [baseDir, rel]"
  have path: "node_resolve cwd [?b, rel] = node_resolve cwd [baseDir, rel]"
    by (simp add: node_resolve_def [of cwd "[?b, rel]"] resolve_under) (simp add: node_resolve_def resolve_two)
  let ?inside = "\<exists>rest. ?ts = ?bs @ rest \<and> (rest = [] \<or> \<not> starts_with ''..'' (hd rest))"
  have first: "escapes (node_relative cwd ?b (node_resolve cwd [baseDir, rel])) \<longleftrightarrow> \<not> ?inside"
    by (rule relative_escapes) simp_all
  show ?thesis
  proof (cases "?inside \<and> household_match [] ?b \<noteq> None")
    case False
    then show ?thesis by (auto simp: resolveScopedPath_def Let_def path first split: option.split)
  next
    case True
    then obtain pre hh where m: "household_match [] ?b = Some (pre, hh)" by auto
    from household_matchD [OF m] obtain c d e v where
      b: "?b = pre @ c # ''households'' @ d # hh @ e # v" and sep: "is_sep e" by auto
    define root where "root = pre @ c # ''households'' @ d # hh"
    have len: "length pre + 12 + length hh = length root" and split: "?b = root @ e # v"
      by (simp_all add: b root_def)
    have root: "take (length pre + 12 + length hh) ?b = root" "?b = root @ e # v" "root \<noteq> []"
      unfolding len by (simp_all add: split) (simp add: root_def)
    have "e = CHR ''/''" using sep assms by (auto simp: root(2) is_sep_def tame_base_def no_backslash_def)
    then have b': "render ?bs = root @ CHR ''/'' # v"
      using root(2) by (simp add: node_resolve_def)
    obtain k where k: "resolve_segs cwd [root] = take k ?bs"
      using render_prefix [OF resolve_segs_plain b' root(3), of cwd] by auto
    obtain rest where rest: "?ts = ?bs @ rest" using True by blast
    have "?ts = take k ?bs @ (drop k ?bs @ rest)" by (simp add: rest)
    moreover have "drop k ?bs @ rest = [] \<or> \<not> starts_with ''..'' (hd (drop k ?bs @ rest))"
    proof (cases "drop k ?bs")
      case Nil
      then show ?thesis using True rest by auto
    next
      case (Cons x xs)
      then have "x \<in> set ?bs" by (metis in_set_dropD list.set_intros(1))
      then show ?thesis using assms Cons by (simp add: tame_base_def)
    qed
    ultimately have "\<not> escapes (node_relative cwd root (node_resolve cwd [baseDir, rel]))"
      using relative_escapes [where cwd = cwd and src = root and dst = "node_resolve cwd [baseDir, rel]"
          and f = "take k ?bs" and t = ?ts] k by (simp only: resolve_node) blast
    then show ?thesis using True by (simp add: resolveScopedPath_def Let_def path first m root(1))
  qed
qed

lemma resolveScopedPath_inside:
  assumes "resolveScopedPath cwd base rel = Inr p"
  shows "p = node_resolve cwd [base, rel]" "\<exists>rest. resolve_segs cwd [base, rel] = resolve_segs cwd [base] @ rest \<and>
    (rest = [] \<or> \<not> starts_with ''..'' (hd rest))"
proof -
  let ?b = "node_resolve cwd [base]"
  have path: "node_resolve cwd [?b, rel] = node_resolve cwd [base, rel]"
    by (simp add: node_resolve_def [of cwd "[?b, rel]"] resolve_under) (simp add: node_resolve_def resolve_two)
  show "p = node_resolve cwd [base, rel]"
    using assms by (auto simp: resolveScopedPath_def Let_def path split: if_splits option.splits)
  have "\<not> escapes (node_relative cwd ?b (node_resolve cwd [base, rel]))"
    using assms by (auto simp: resolveScopedPath_def Let_def path split: if_splits)
  then show "\<exists>rest. resolve_segs cwd [base, rel] = resolve_segs cwd [base] @ rest \<and>
      (rest = [] \<or> \<not> starts_with ''..'' (hd rest))"
    using relative_escapes [where cwd = cwd and src = ?b and dst = "node_resolve cwd [base, rel]"
        and f = "resolve_segs cwd [base]" and t = "resolve_segs cwd [base, rel]"] by (simp only: resolve_node) blast
qed

section \<open>Scopes\<close>

text \<open>The segments of a normalized relative path, and when they never leave upward.\<close>

definition nsegs :: "string \<Rightarrow> string list" where
  "nsegs p = norm_rel [] (segs p)"

lemma norm_rel_keeps_dots: "''..'' \<in> set st \<Longrightarrow> ''..'' \<in> set (norm_rel st ss)"
proof (induction st ss rule: norm_rel.induct)
  case (2 st s ss)
  then show ?case by (cases st) auto
qed simp

lemma norm_rel_abs:
  "''..'' \<notin> set (norm_rel st ss) \<Longrightarrow> norm_abs (st @ bs) ss = rev bs @ norm_rel st ss"
proof (induction st ss rule: norm_rel.induct)
  case (2 st s ss)
  show ?case
  proof (cases "s = ''..''")
    case True
    have st: "st \<noteq> [] \<and> hd st \<noteq> ''..''"
      using 2(5) norm_rel_keeps_dots [of "''..'' # st" ss] True by (auto split: if_splits)
    then have "norm_abs (tl st @ bs) ss = rev bs @ norm_rel (tl st) ss" using 2(3,5) True by simp
    then show ?thesis using st True by simp
  qed (use 2 in auto)
qed simp

lemma norm_rel_pieces: "\<forall>s \<in> set st. plain s \<or> s = ''..'' \<Longrightarrow> \<forall>s \<in> set ss. CHR ''/'' \<notin> set s \<Longrightarrow>
    \<forall>s \<in> set (norm_rel st ss). plain s \<or> s = ''..''"
proof (induction st ss rule: norm_rel.induct)
  case (2 st s ss)
  have tl: "\<forall>s \<in> set (tl st). plain s \<or> s = ''..''" using 2(5) by (cases st) auto
  show ?case
  proof (cases "s = [] \<or> s = ''.'' \<or> s = ''..''")
    case True
    then show ?thesis using 2 tl by auto
  next
    case False
    then have "plain s" using 2(6) by (simp add: plain_def)
    with False show ?thesis using 2(4,5,6) by simp
  qed
qed simp

lemma norm_rel_dots_first:
  "\<exists>k xs. rev st = replicate k ''..'' @ xs \<and> ''..'' \<notin> set xs \<Longrightarrow>
   \<exists>k xs. norm_rel st ss = replicate k ''..'' @ xs \<and> ''..'' \<notin> set xs"
proof (induction st ss rule: norm_rel.induct)
  case (2 st s ss)
  obtain k xs where st: "rev st = replicate k ''..'' @ xs" "''..'' \<notin> set xs" using 2(5) by blast
  consider (skip) "s = [] \<or> s = ''.''" | (up) "s = ''..''" | (push) "s \<noteq> []" "s \<noteq> ''.''" "s \<noteq> ''..''" by blast
  then show ?case
  proof cases
    case skip
    then show ?thesis using 2 by auto
  next
    case push
    then have "\<exists>k xs. rev (s # st) = replicate k ''..'' @ xs \<and> ''..'' \<notin> set xs"
      using st by (intro exI [of _ k] exI [of _ "xs @ [s]"]) simp
    then show ?thesis using 2(4) push by simp
  next
    case up
    show ?thesis
    proof (cases "st = [] \<or> hd st = ''..''")
      case True
      have "xs = []"
      proof (rule ccontr)
        assume "xs \<noteq> []"
        then have "hd st = last xs" "st \<noteq> []" using st(1) by (metis hd_rev last_appendR rev_rev_ident, auto)
        with True \<open>xs \<noteq> []\<close> st(2) show False by (metis last_in_set)
      qed
      then have "rev (''..'' # st) = replicate (Suc k) ''..'' @ []" using st(1) by (simp add: replicate_append_same)
      then have "\<exists>k xs. rev (''..'' # st) = replicate k ''..'' @ xs \<and> ''..'' \<notin> set xs"
        by (intro exI [of _ "Suc k"] exI [of _ "[]"]) simp
      then show ?thesis using 2(2) up True by simp
    next
      case False
      then obtain a t where a: "st = a # t" "a \<noteq> ''..''" by (cases st) auto
      have "xs \<noteq> []"
      proof
        assume "xs = []"
        then have "a \<in> set (replicate k ''..'')" using st(1) a(1) by (metis append_Nil2 list.set_intros(1) set_rev)
        with a(2) show False by simp
      qed
      then have "rev t = replicate k ''..'' @ butlast xs" using st(1) a(1)
        by (metis append_butlast_last_id butlast_append rev.simps(2) butlast_snoc)
      moreover have "''..'' \<notin> set (butlast xs)" using st(2) by (meson in_set_butlastD)
      ultimately have "\<exists>k xs. rev (tl st) = replicate k ''..'' @ xs \<and> ''..'' \<notin> set xs" using a(1) by auto
      then show ?thesis using 2(3) up False by simp
    qed
  qed
qed auto

lemma nsegs_upward: "''..'' \<in> set (nsegs p) \<Longrightarrow> hd (nsegs p) = ''..''"
proof -
  assume u: "''..'' \<in> set (nsegs p)"
  obtain k xs where "nsegs p = replicate k ''..'' @ xs" "''..'' \<notin> set xs"
    using norm_rel_dots_first [of "[]" "segs p"] by (auto simp: nsegs_def)
  with u show ?thesis by (cases k) auto
qed

definition clean :: "string list \<Rightarrow> string list" where
  "clean ss = filter (\<lambda>s. s \<noteq> [] \<and> s \<noteq> ''.'') ss"

lemma clean_append [simp]: "clean (xs @ ys) = clean xs @ clean ys"
  by (simp add: clean_def)

lemma segs_slash: "segs (a @ CHR ''/'' # b) = segs a @ segs b"
proof (induction a)
  case (Cons x a)
  then show ?case by (cases "segs a") (auto simp: segs_def split: list.splits)
qed (simp add: segs_def)

lemma clean_segs_slash [simp]: "clean (segs (a @ ''/'')) = clean (segs a)"
  using segs_slash [of a "[]"] by (simp add: segs_def clean_def)

lemma clean_segs_Nil [simp]: "clean (segs []) = []"
  by (simp add: segs_def clean_def)

lemma unback_id: "no_backslash p \<Longrightarrow> unback p = p"
  by (induction p) (auto simp: no_backslash_def unback_def)

lemma nsegs_pieces: "\<forall>s \<in> set (nsegs p). plain s \<or> s = ''..''"
  unfolding nsegs_def by (rule norm_rel_pieces) (auto simp: segs_no_slash)

lemma join_nsegs_start:
  assumes "nsegs p \<noteq> []"
  shows "join ''/'' (nsegs p) \<noteq> []" "\<not> starts_with ''./'' (join ''/'' (nsegs p) @ t)"
    "\<not> starts_with ''/'' (join ''/'' (nsegs p) @ t)"
proof -
  obtain x xs where x: "nsegs p = x # xs" using assms by (cases "nsegs p") auto
  have "plain x \<or> x = ''..''" using nsegs_pieces [of p] x by simp
  then have px: "x \<noteq> []" "x \<noteq> ''.''" "CHR ''/'' \<notin> set x" by (auto simp: plain_def)
  then obtain c r where c: "x = c # r" "c \<noteq> CHR ''/''" by (cases x) auto
  show "join ''/'' (nsegs p) \<noteq> []" "\<not> starts_with ''/'' (join ''/'' (nsegs p) @ t)"
    using c by (auto simp: x join_slash_Cons starts_with_def)
  show "\<not> starts_with ''./'' (join ''/'' (nsegs p) @ t)"
    using px c by (cases r) (auto simp: x join_slash_Cons starts_with_def)
qed

text \<open>What a normalized relative path, as a string, says about its segments.\<close>

lemma normalizePosix_rel:
  assumes nb: "no_backslash p" and up: "\<not> starts_with ''..'' (normalizePosix p)" and rel: "\<not> is_abs p"
  shows "''..'' \<notin> set (nsegs p)" "clean (segs (normalizePosix p)) = nsegs p"
proof -
  have null: "CHR 0x00 \<notin> set p" using up by (auto simp: normalizePosix_def starts_with_def)
  let ?body = "join ''/'' (nsegs p)"
  have "''..'' \<notin> set (nsegs p) \<and> clean (segs (normalizePosix p)) = nsegs p"
  proof (cases "nsegs p")
    case Nil
    then have "normalizePosix p = ''.'' \<or> normalizePosix p = []"
      using null nb rel by (auto simp: normalizePosix_def unback_id node_normalize_def Let_def nsegs_def starts_with_def)
    then show ?thesis using Nil by (auto simp: segs_def clean_def)
  next
    case (Cons x xs)
    then have ne: "nsegs p \<noteq> []" by simp
    then have "p \<noteq> []" by (auto simp: nsegs_def segs_def)
    then obtain t where t: "normalizePosix p = ?body @ t" "t = [] \<or> t = ''/''"
      using null nb rel join_nsegs_start(1,2) [OF ne]
      by (auto simp: normalizePosix_def unback_id node_normalize_def Let_def nsegs_def [symmetric] split: if_splits)
    have "\<not> starts_with ''..'' ?body" using up t(1) by (auto simp: starts_with_iff)
    moreover have "starts_with ''..'' (join ''/'' (''..'' # xs))" by (cases xs) (simp_all add: starts_with_def)
    ultimately have "x \<noteq> ''..''" using Cons by auto
    then have nd: "''..'' \<notin> set (nsegs p)" using nsegs_upward [of p] Cons by auto
    then have pl: "\<forall>s \<in> set (nsegs p). plain s" using nsegs_pieces by blast
    then have "segs ?body = nsegs p" using ne by (simp add: segs_def split_join plain_def)
    moreover have "clean (nsegs p) = nsegs p" using pl by (simp add: clean_def filter_id_conv plain_def)
    ultimately show ?thesis using nd t by auto
  qed
  then show "''..'' \<notin> set (nsegs p)" "clean (segs (normalizePosix p)) = nsegs p" by blast+
qed

lemma normalizePosix_abs:
  assumes "no_backslash p" "is_abs p" "CHR 0x00 \<notin> set p"
  shows "starts_with ''/'' (normalizePosix p)" "normalizePosix p = ''/'' \<Longrightarrow> norm_abs [] (segs p) = []"
proof -
  have n: "normalizePosix p = (let body = join ''/'' (norm_abs [] (segs p))
      in if body = [] then ''/'' else ''/'' @ body @ (if ends_with ''/'' p then ''/'' else []))"
    using assms by (cases p) (auto simp: normalizePosix_def unback_id node_normalize_def Let_def is_abs_def starts_with_def)
  then show "starts_with ''/'' (normalizePosix p)" by (simp add: Let_def starts_with_def)
  assume "normalizePosix p = ''/''"
  then have j: "join ''/'' (norm_abs [] (segs p)) = []" using n by (auto simp: Let_def split: if_splits)
  have "\<forall>s \<in> set (norm_abs [] (segs p)). plain s" by (intro norm_abs_plain) (auto simp: segs_no_slash)
  then show "norm_abs [] (segs p) = []"
    using j by (cases "norm_abs [] (segs p)") (auto simp: join_slash_Cons plain_def split: if_splits)
qed

lemma relative_below: "\<not> is_abs p \<Longrightarrow> ''..'' \<notin> set (nsegs p) \<Longrightarrow> resolve_segs cwd [base, p] = resolve_segs cwd [base] @ nsegs p"
  using norm_rel_abs [of "[]" "segs p" "rev (resolve_segs cwd [base])"]
  by (simp add: resolve_two below_def nsegs_def)

lemma scope_matches_below:
  assumes m: "scope_matches n sc" and n: "n = normalizePosix path" "\<not> starts_with ''..'' n" "\<not> starts_with ''/'' n"
    and nb: "no_backslash path" "no_backslash (ds_path sc)"
  shows "\<exists>rest. resolve_segs cwd [base, path] = resolve_segs cwd [base, ds_path sc] @ rest"
proof -
  let ?n' = "normalizePosix (ds_path sc)" and ?d = "scope_dir sc"
  have null: "CHR 0x00 \<notin> set path" using n(1,2) by (auto simp: normalizePosix_def starts_with_def)
  have rel: "\<not> is_abs path" using normalizePosix_abs(1) [OF nb(1) _ null] n(1,3) by blast
  note path = normalizePosix_rel [OF nb(1) n(2) [unfolded n(1)] rel]
  have d: "?d = ?n' \<or> ?d = ?n' @ ''/''" by (simp add: scope_dir_def Let_def)
  have match: "n = ?d \<or> (\<exists>x y. ?d = x @ ''/'' \<and> n = x @ CHR ''/'' # y) \<or> ?d = n @ ''/''"
    using m unfolding scope_matches_def Let_def ends_with_iff starts_with_iff by (auto simp: butlast_append)
  then have "\<exists>rest. clean (segs n) = clean (segs ?d) @ rest"
    by (auto simp: segs_slash)
  moreover have cd: "clean (segs ?d) = clean (segs ?n')" using d by auto
  ultimately obtain rest where rest: "nsegs path = clean (segs ?n') @ rest" using path(2) n(1) by auto
  have dd: "starts_with ''..'' ?n' \<Longrightarrow> starts_with ''..'' n"
  proof -
    assume "starts_with ''..'' ?n'"
    then have "starts_with ''..'' ?d" using d by (auto simp: starts_with_iff)
    then obtain t where t: "?d = ''..'' @ t" by (auto simp: starts_with_iff)
    from match consider "n = ?d" | y where "n = ?d @ y" | "?d = n @ ''/''" by fastforce
    then show "starts_with ''..'' n"
    proof cases
      case 3
      show ?thesis using t unfolding 3 by (cases n; cases "tl n") (auto simp: starts_with_def)
    qed (auto simp: t starts_with_def)
  qed
  then have up: "\<not> starts_with ''..'' ?n'" using n(2) by blast
  show ?thesis
  proof (cases "is_abs (ds_path sc)")
    case False
    note scope = normalizePosix_rel [OF nb(2) up False]
    show ?thesis
      using relative_below [OF rel path(1)] relative_below [OF False scope(1)] rest scope(2) by simp
  next
    case True
    have null': "CHR 0x00 \<notin> set (ds_path sc)" using up by (auto simp: normalizePosix_def starts_with_def)
    note abs = normalizePosix_abs [OF nb(2) True null']
    obtain q where q: "?n' = CHR ''/'' # q" using abs(1) by (auto simp: starts_with_iff)
    obtain q' where q': "?d = CHR ''/'' # q'" using d q by auto
    from match consider "n = ?d" | y where "n = ?d @ y" | "?d = n @ ''/''" by fastforce
    then have "?d = ''/''"
    proof cases
      case 3
      then show ?thesis using q' n(3) by (cases n) (auto simp: starts_with_def)
    qed (use n(3) q' in \<open>auto simp: starts_with_def\<close>)
    then have "?n' = ''/''" using d q by auto
    then have "resolve_segs cwd [base, ds_path sc] = []" using abs(2) True by (simp add: resolve_two below_def)
    then show ?thesis by simp
  qed
qed

lemma findMatchingScope_D:
  assumes "findMatchingScope path scopes = Some sc"
  shows "sc \<in> set scopes" "scope_matches (normalizePosix path) sc" "\<not> starts_with ''..'' (normalizePosix path)"
    "\<not> starts_with ''/'' (normalizePosix path)"
  using assms by (auto simp: findMatchingScope_def Let_def find_Some_iff split: if_splits)

lemma scope_accepts:
  assumes m: "scope_matches n sc" and n: "n = normalizePosix path" "\<not> starts_with ''..'' n" "\<not> starts_with ''/'' n"
    and nb: "no_backslash path" and tame: "tame_base cwd base"
  shows "resolveScopedPath cwd base path = Inr (node_resolve cwd [base, path])"
proof -
  have null: "CHR 0x00 \<notin> set path" using n(1,2) by (auto simp: normalizePosix_def starts_with_def)
  have rel: "\<not> is_abs path" using normalizePosix_abs(1) [OF nb _ null] n(1,3) by blast
  note path = normalizePosix_rel [OF nb n(2) [unfolded n(1)] rel]
  have "nsegs path = [] \<or> \<not> starts_with ''..'' (hd (nsegs path))"
  proof (cases "nsegs path")
    case (Cons x xs)
    have "plain x" using nsegs_pieces [of path] path(1) Cons by auto
    have "\<not> starts_with ''..'' x"
    proof
      assume "starts_with ''..'' x"
      then have "starts_with ''..'' (join ''/'' (nsegs path))"
        using starts_with_dots_join [of x xs] \<open>plain x\<close> by (simp add: Cons plain_def)
      moreover have "path \<noteq> []" using Cons by (auto simp: nsegs_def segs_def)
      then have "starts_with (join ''/'' (nsegs path)) n"
        using null nb rel Cons n(1) join_nsegs_start(1,2) [of path]
        by (auto simp: normalizePosix_def unback_id node_normalize_def Let_def nsegs_def [symmetric])
      ultimately show False using n(2) by (auto simp: starts_with_iff)
    qed
    then show ?thesis by (simp add: Cons)
  qed simp
  then show ?thesis
    using resolveScopedPath_eq [OF tame] relative_below [OF rel path(1), of cwd base] by simp
qed

section \<open>Properties\<close>

text \<open>
  C11. No path leaves its base directory: whatever string an app passes (dots, empty
  segments, absolute paths, backslashes) and wherever the base is, the path that
  \<open>resolveScopedPath\<close> returns consists of the base's own segments followed by ordinary ones.
\<close>

theorem resolved_path_contained:
  assumes "resolveScopedPath cwd base rel = Inr p"
  shows "\<exists>rest. resolve_segs cwd [p] = resolve_segs cwd [base] @ rest \<and>
    (\<forall>s \<in> set rest. s \<noteq> [] \<and> s \<noteq> ''.'' \<and> s \<noteq> ''..'' \<and> CHR ''/'' \<notin> set s)"
proof -
  obtain rest where r: "resolve_segs cwd [base, rel] = resolve_segs cwd [base] @ rest"
    using resolveScopedPath_inside(2) [OF assms] by blast
  have "\<forall>s \<in> set rest. plain s" using resolve_segs_plain [of cwd "[base, rel]"] r by simp
  then show ?thesis using r resolveScopedPath_inside(1) [OF assms] by (auto simp: plain_def)
qed

theorem resolved_path_contained_witness:
  "\<exists>p. resolveScopedPath ''/'' ''/data/app'' ''a/../b'' = Inr p \<and>
     (\<exists>rest. resolve_segs ''/'' [p] = resolve_segs ''/'' [''/data/app''] @ rest)"
proof -
  have "resolveScopedPath ''/'' ''/data/app'' ''a/../b'' = Inr ''/data/app/b''" by code_simp
  from resolved_path_contained [OF this] this show ?thesis by blast
qed

text \<open>
  On the base directories the program builds, \<open>resolveScopedPath\<close> refuses exactly the paths
  that lead outside the base or whose first step below it starts with two dots, and
  otherwise returns what \<open>resolve\<close> gives; the household check it adds never decides.
\<close>

lemma resolveScopedPath_decides:
  assumes "tame_base cwd base"
  shows "resolveScopedPath cwd base rel =
    (if \<exists>rest. resolve_segs cwd [base, rel] = resolve_segs cwd [base] @ rest \<and>
          (rest = [] \<or> \<not> starts_with ''..'' (hd rest))
     then Inr (node_resolve cwd [base, rel]) else Inl (PathTraversalError rel base))"
  by (rule resolveScopedPath_eq [OF assms])

lemma resolveScopedPath_decides_witness:
  "resolveScopedPath ''/'' ''/data/households/h1/shared/food'' ''../../x'' =
     Inl (PathTraversalError ''../../x'' ''/data/households/h1/shared/food'')"
proof -
  have t: "tame_base ''/'' ''/data/households/h1/shared/food''" unfolding tame_base_def no_backslash_def by code_simp
  have b: "resolve_segs ''/'' [''/data/households/h1/shared/food''] = [''data'', ''households'', ''h1'', ''shared'', ''food'']"
    and p: "resolve_segs ''/'' [''/data/households/h1/shared/food'', ''../../x''] = [''data'', ''households'', ''h1'', ''x'']"
    by code_simp+
  show ?thesis unfolding resolveScopedPath_decides [OF t] b p by simp
qed



text \<open>
  With a backslash the two halves disagree on POSIX: the matcher reads it as a separator, the
  file system as a character. An app allowed \<open>public/\<close> only is let write below \<open>private/\<close>.
\<close>

lemma backslash_leaves_scope:
  "findMatchingScope (''private/x'' @ [CHR 0x5C] @ ''..'' @ [CHR 0x5C] @ ''..'' @ [CHR 0x5C] @ ''public/f'')
     [\<lparr>ds_path = ''public/'', ds_access = AccReadWrite\<rparr>] = Some \<lparr>ds_path = ''public/'', ds_access = AccReadWrite\<rparr> \<and>
   take 3 (resolve_segs ''/'' [''/data/app'', ''private/x'' @ [CHR 0x5C] @ ''..'' @ [CHR 0x5C] @ ''..'' @ [CHR 0x5C] @ ''public/f'']) =
     [''data'', ''app'', ''private''] \<and>
   is_ok (resolveScopedPath ''/'' ''/data/app'' (''private/x'' @ [CHR 0x5C] @ ''..'' @ [CHR 0x5C] @ ''..'' @ [CHR 0x5C] @ ''public/f''))"
  by code_simp

end
