(* ===== verification/Household.thy ===== *)
theory Household
  imports Js_Text Paths
begin

text \<open>
  \<open>core/src/services/household/index.ts\<close>: the tenants of the system, their admins, and which
  household a user belongs to.

  Writing operations check their arguments at once and then run as a job of the write queue;
  a job mutates the map and writes it to disk (\<open>hs_file\<close>; \<open>hs_writable\<close> says whether the disk
  takes it). \<open>syncUser\<close> and \<open>removeUser\<close> act at once. The locale \<open>tenant_directory\<close> at the end
  is what the data store relies on. Ids are no property of \<open>Object.prototype\<close>.
\<close>

section \<open>Slugs\<close>

text \<open>\<open>s.replace(/P+/g, r)\<close> for a character class \<open>P\<close>.\<close>

function (sequential) replace_runs :: "(char \<Rightarrow> bool) \<Rightarrow> string \<Rightarrow> string \<Rightarrow> string" where
  "replace_runs P r [] = []"
| "replace_runs P r (c # s) =
     (if P c then r @ replace_runs P r (dropWhile P s) else c # replace_runs P r s)"
  by pat_completeness auto
termination
  by (relation "measure (\<lambda>(P, r, s). length s)") (auto simp: less_Suc_eq_le length_dropWhile_le)

definition slug_char :: "char \<Rightarrow> bool" where
  "slug_char c \<longleftrightarrow> is_lower_az c \<or> is_digit c \<or> c = CHR ''_'' \<or> c = CHR ''-''"

definition trim_dashes :: "string \<Rightarrow> string" where
  "trim_dashes s = rev (dropWhile (\<lambda>c. c = CHR ''-'') (rev (dropWhile (\<lambda>c. c = CHR ''-'') s)))"

definition slugify :: "string \<Rightarrow> string" where
  "slugify input =
     trim_dashes (replace_runs (\<lambda>c. c = CHR ''-'') ''-''
       (replace_runs (\<lambda>c. \<not> slug_char c) ''-'' (lower input)))"

section \<open>State\<close>

record reg_user =
  ru_id :: string
  ru_name :: string
  ru_isAdmin :: bool
  ru_enabledApps :: "string list"
  ru_sharedScopes :: "string list"
  ru_householdId :: "string option"

record household =
  hh_id :: string
  hh_name :: string
  hh_createdAt :: string
  hh_createdBy :: string
  hh_adminUserIds :: "string list"

datatype hs_job =
    JobCreate string string string "string list"
  | JobAddAdmin string string
  | JobRemoveAdmin string string

datatype hs_error =
    NameRequired
  | NoValidId string
  | HouseholdNotFound string
  | LastAdmin string
  | PersistFailed

record household_service =
  hs_households :: "household jsmap"
  hs_userMap :: "string jsmap"
  hs_registry :: "reg_user list"
  hs_queue :: "hs_job list"
  hs_file :: "household jsmap option"
  hs_writable :: bool

text \<open>Later users of the initial list overwrite earlier ones in the map; all are registered.\<close>

definition new_household_service :: "reg_user list \<Rightarrow> household_service" where
  "new_household_service users =
     \<lparr>hs_households = [],
      hs_userMap = foldl (\<lambda>m u. case truthy (ru_householdId u) of None \<Rightarrow> m | Some h \<Rightarrow> set_key (ru_id u) h m) [] users,
      hs_registry = users, hs_queue = [], hs_file = None, hs_writable = True\<rparr>"

text \<open>A raw YAML entry: the fields that are of the right type.\<close>

record raw_household =
  rh_id :: "string option"
  rh_name :: "string option"
  rh_createdAt :: "string option"
  rh_createdBy :: "string option"
  rh_adminUserIds :: "string list option"

datatype 'a yaml_file = YamlMissing | YamlError | YamlData "'a option jsmap"

definition isValidHouseholdEntry :: "string \<Rightarrow> raw_household option \<Rightarrow> bool" where
  "isValidHouseholdEntry key value =
     (case value of
        None \<Rightarrow> False
      | Some v \<Rightarrow>
          (case rh_id v of None \<Rightarrow> False | Some i \<Rightarrow> i = key \<and> safe_segment i) \<and>
          (case rh_name v of None \<Rightarrow> False | Some n \<Rightarrow> n \<noteq> []) \<and>
          rh_createdAt v \<noteq> None \<and> rh_createdBy v \<noteq> None \<and> rh_adminUserIds v \<noteq> None)"

definition household_of_raw :: "raw_household \<Rightarrow> household" where
  "household_of_raw v =
     \<lparr>hh_id = the (rh_id v), hh_name = the (rh_name v), hh_createdAt = the (rh_createdAt v),
      hh_createdBy = the (rh_createdBy v), hh_adminUserIds = the (rh_adminUserIds v)\<rparr>"

definition hs_init :: "raw_household yaml_file \<Rightarrow> household_service \<Rightarrow> household_service" where
  "hs_init f s =
     (case f of
        YamlMissing \<Rightarrow> s
      | YamlError \<Rightarrow> s
      | YamlData entries \<Rightarrow>
          s\<lparr>hs_households := map (\<lambda>(k, v). (k, household_of_raw (the v)))
               (filter (\<lambda>(k, v). isValidHouseholdEntry k v) entries)\<rparr>)"

section \<open>Operations\<close>

definition hs_getHousehold :: "string \<Rightarrow> household_service \<Rightarrow> household option" where
  "hs_getHousehold i s = map_of (hs_households s) i"

definition hs_getHouseholdForUser :: "string \<Rightarrow> household_service \<Rightarrow> string option" where
  "hs_getHouseholdForUser u s = map_of (hs_userMap s) u"

definition hs_getMembers :: "string \<Rightarrow> household_service \<Rightarrow> reg_user list" where
  "hs_getMembers hh s = filter (\<lambda>u. ru_householdId u = Some hh) (hs_registry s)"

text \<open>The synchronous half of the writing operations: an error, or the job enqueued.\<close>

definition hs_createHousehold ::
    "string \<Rightarrow> string \<Rightarrow> string list \<Rightarrow> household_service \<Rightarrow> hs_error option \<times> household_service" where
  "hs_createHousehold name createdBy admins s =
     (let trimmed = trim name; base = slugify trimmed
      in if trimmed = [] then (Some NameRequired, s)
         else if \<not> safe_segment base then (Some (NoValidId name), s)
         else (None, s\<lparr>hs_queue := hs_queue s @ [JobCreate trimmed base createdBy admins]\<rparr>))"

definition hs_addAdmin :: "string \<Rightarrow> string \<Rightarrow> household_service \<Rightarrow> hs_error option \<times> household_service" where
  "hs_addAdmin hh user s =
     (if map_of (hs_households s) hh = None then (Some (HouseholdNotFound hh), s)
      else (None, s\<lparr>hs_queue := hs_queue s @ [JobAddAdmin hh user]\<rparr>))"

definition hs_removeAdmin :: "string \<Rightarrow> string \<Rightarrow> household_service \<Rightarrow> hs_error option \<times> household_service" where
  "hs_removeAdmin hh user s =
     (if map_of (hs_households s) hh = None then (Some (HouseholdNotFound hh), s)
      else (None, s\<lparr>hs_queue := hs_queue s @ [JobRemoveAdmin hh user]\<rparr>))"

definition hs_persist :: "household_service \<Rightarrow> hs_error option \<times> household_service" where
  "hs_persist s =
     (if hs_writable s then (None, s\<lparr>hs_file := Some (hs_households s)\<rparr>) else (Some PersistFailed, s))"

text \<open>
  The loop that looks for a free id; \<open>n\<close> is how many more ids it may try. There are more
  candidates than households, so \<open>length + 1\<close> always suffices (\<open>free_id_fresh\<close>).
\<close>

fun free_id :: "nat \<Rightarrow> string \<Rightarrow> nat \<Rightarrow> string \<Rightarrow> 'v jsmap \<Rightarrow> string option" where
  "free_id 0 base suffix i m = None"
| "free_id (Suc n) base suffix i m =
     (if has_key i m then free_id n base (Suc suffix) (base @ ''-'' @ dec suffix) m else Some i)"

text \<open>\<open>Array.from(new Set(xs))\<close>: first occurrences, in order.\<close>

fun uniq :: "'a list \<Rightarrow> 'a list" where
  "uniq [] = []"
| "uniq (x # xs) = x # removeAll x (uniq xs)"

text \<open>The asynchronous half: one job from start to end, at time \<open>now\<close>.\<close>

definition hs_job_create ::
    "time \<Rightarrow> string \<Rightarrow> string \<Rightarrow> string \<Rightarrow> string list \<Rightarrow> household_service \<Rightarrow> hs_error option \<times> household_service" where
  "hs_job_create now name base createdBy admins s =
     (let i = the (free_id (Suc (length (hs_households s))) base 2 base (hs_households s));
          h = \<lparr>hh_id = i, hh_name = name, hh_createdAt = iso_string now, hh_createdBy = createdBy,
               hh_adminUserIds = uniq (createdBy # admins)\<rparr>
      in hs_persist (s\<lparr>hs_households := set_key i h (hs_households s)\<rparr>))"

definition hs_job_addAdmin :: "string \<Rightarrow> string \<Rightarrow> household_service \<Rightarrow> hs_error option \<times> household_service" where
  "hs_job_addAdmin hh user s =
     (case map_of (hs_households s) hh of
        None \<Rightarrow> (Some (HouseholdNotFound hh), s)
      | Some h \<Rightarrow>
          if user \<in> set (hh_adminUserIds h) then (None, s)
          else hs_persist (s\<lparr>hs_households :=
                 set_key hh (h\<lparr>hh_adminUserIds := hh_adminUserIds h @ [user]\<rparr>) (hs_households s)\<rparr>))"

definition hs_job_removeAdmin :: "string \<Rightarrow> string \<Rightarrow> household_service \<Rightarrow> hs_error option \<times> household_service" where
  "hs_job_removeAdmin hh user s =
     (case map_of (hs_households s) hh of
        None \<Rightarrow> (Some (HouseholdNotFound hh), s)
      | Some h \<Rightarrow>
          if user \<notin> set (hh_adminUserIds h) then (None, s)
          else if length (hh_adminUserIds h) \<le> 1 then (Some (LastAdmin hh), s)
          else hs_persist (s\<lparr>hs_households :=
                 set_key hh (h\<lparr>hh_adminUserIds := filter (\<lambda>i. i \<noteq> user) (hh_adminUserIds h)\<rparr>) (hs_households s)\<rparr>))"

definition hs_run_job :: "time \<Rightarrow> household_service \<Rightarrow> hs_error option \<times> household_service" where
  "hs_run_job now s =
     (case hs_queue s of
        [] \<Rightarrow> (None, s)
      | j # js \<Rightarrow>
          (let s = s\<lparr>hs_queue := js\<rparr>
           in (case j of
                 JobCreate name base by admins \<Rightarrow> hs_job_create now name base by admins s
               | JobAddAdmin hh user \<Rightarrow> hs_job_addAdmin hh user s
               | JobRemoveAdmin hh user \<Rightarrow> hs_job_removeAdmin hh user s)))"

definition hs_requireSameHousehold :: "string \<Rightarrow> string \<Rightarrow> household_service \<Rightarrow> path_error option" where
  "hs_requireSameHousehold a b s =
     (let hhA = hs_getHouseholdForUser a s; hhB = hs_getHouseholdForUser b s
      in if hhA = None \<or> hhB = None \<or> hhA \<noteq> hhB then Some (HouseholdBoundaryError hhA hhB) else None)"

definition hs_assertUserCanAccessHousehold :: "string \<Rightarrow> string \<Rightarrow> household_service \<Rightarrow> path_error option" where
  "hs_assertUserCanAccessHousehold user hh s =
     (let u = hs_getHouseholdForUser user s
      in if u \<noteq> Some hh then Some (HouseholdBoundaryError u (Some hh)) else None)"

fun remove_first_user :: "string \<Rightarrow> reg_user list \<Rightarrow> reg_user list" where
  "remove_first_user i [] = []"
| "remove_first_user i (u # us) = (if ru_id u = i then us else u # remove_first_user i us)"

fun put_user :: "reg_user \<Rightarrow> reg_user list \<Rightarrow> reg_user list" where
  "put_user u [] = [u]"
| "put_user u (v # vs) = (if ru_id v = ru_id u then u # vs else v # put_user u vs)"

definition hs_removeUser :: "string \<Rightarrow> household_service \<Rightarrow> household_service" where
  "hs_removeUser i s =
     s\<lparr>hs_userMap := del_key i (hs_userMap s), hs_registry := remove_first_user i (hs_registry s)\<rparr>"

definition hs_syncUser :: "reg_user \<Rightarrow> household_service \<Rightarrow> household_service" where
  "hs_syncUser u s =
     s\<lparr>hs_userMap := (case truthy (ru_householdId u) of
                       Some h \<Rightarrow> set_key (ru_id u) h (hs_userMap s)
                     | None \<Rightarrow> del_key (ru_id u) (hs_userMap s)),
       hs_registry := put_user u (hs_registry s)\<rparr>"

section \<open>Slugs are safe identifiers\<close>

text \<open>The normal form: no dash at either end, no two dashes in a row.\<close>

fun no_double :: "string \<Rightarrow> bool" where
  "no_double (a # b # s) = (\<not> (a = CHR ''-'' \<and> b = CHR ''-'') \<and> no_double (b # s))"
| "no_double _ = True"

definition slug_form :: "string \<Rightarrow> bool" where
  "slug_form s \<longleftrightarrow> list_all slug_char s \<and> no_double s \<and> \<not> starts_with ''-'' s \<and> \<not> ends_with ''-'' s"

lemma replace_runs_id: "\<forall>c \<in> set s. \<not> P c \<Longrightarrow> replace_runs P r s = s"
  by (induction s) auto

lemma replace_runs_set: "set (replace_runs P r s) \<subseteq> {c \<in> set s. \<not> P c} \<union> set r"
proof (induction P r s rule: replace_runs.induct)
  case (2 P r c s)
  have sub: "c' \<in> set (dropWhile P s) \<Longrightarrow> c' \<in> set s" for c' by (rule set_dropWhileD)
  show ?case
  proof (cases "P c")
    case True
    then show ?thesis using 2(1) sub by auto
  next
    case False
    then show ?thesis using 2(2) by auto
  qed
qed simp

lemma starts_dash [simp]: "starts_with ''-'' (c # s) \<longleftrightarrow> c = CHR ''-''" "\<not> starts_with ''-'' []"
  by (auto simp: starts_with_def)

abbreviation dash :: "char \<Rightarrow> bool" where
  "dash c \<equiv> c = CHR ''-''"

lemma collapse_no_double: "no_double (replace_runs dash ''-'' s)"
proof (induction s rule: length_induct)
  case (1 s)
  show ?case
  proof (cases s)
    case (Cons c t)
    show ?thesis
    proof (cases "dash c")
      case True
      let ?t = "dropWhile dash t"
      have ih: "no_double (replace_runs dash ''-'' ?t)"
        using 1 Cons by (simp add: length_dropWhile_le less_Suc_eq_le)
      show ?thesis
      proof (cases ?t)
        case Nil
        then show ?thesis unfolding \<open>s = c # t\<close> replace_runs.simps Nil using True by simp
      next
        case (Cons d u)
        then have "\<not> dash d" using hd_dropWhile [of dash t] by auto
        then show ?thesis using ih True Cons \<open>s = c # t\<close> by simp
      qed
    next
      case False
      have "no_double (replace_runs dash ''-'' t)" using 1 Cons by simp
      then show ?thesis
        using False Cons by (cases "replace_runs dash ''-'' t") simp_all
    qed
  qed simp
qed

lemma collapse_id: "no_double s \<Longrightarrow> replace_runs (\<lambda>c. c = CHR ''-'') ''-'' s = s"
proof (induction s rule: no_double.induct)
  case (1 a b s)
  then show ?case by (cases "b = CHR ''-''") auto
qed auto

lemma no_double_suffix: "no_double (xs @ ys) \<Longrightarrow> no_double ys"
proof (induction xs)
  case (Cons x xs)
  then show ?case by (cases "xs @ ys") auto
qed simp

lemma no_double_rev: "no_double (rev s) = no_double s"
proof -
  have snoc: "no_double (s @ [a, b]) \<longleftrightarrow> no_double (s @ [a]) \<and> \<not> (a = CHR ''-'' \<and> b = CHR ''-'')" for s a b
    by (induction s rule: no_double.induct) auto
  show ?thesis
    by (induction s rule: no_double.induct) (auto simp: snoc)
qed

lemma trim_suffix: "\<exists>u v. s = u @ trim_dashes s @ v"
proof -
  let ?d = "dropWhile (\<lambda>c. c = CHR ''-'')" let ?t = "takeWhile (\<lambda>c. c = CHR ''-'')"
  have "s = ?t s @ rev (?d (rev (?d s))) @ rev (?t (rev (?d s)))"
    by (metis rev_append rev_rev_ident takeWhile_dropWhile_id)
  then show ?thesis unfolding trim_dashes_def by blast
qed


lemma dropWhile_dash: "\<not> starts_with ''-'' (dropWhile dash s)"
  by (induction s) auto

lemma dropWhile_dash_id: "\<not> starts_with ''-'' s \<Longrightarrow> dropWhile dash s = s"
  by (cases s) auto

lemma trim_dashes_form: "list_all slug_char s \<Longrightarrow> no_double s \<Longrightarrow> slug_form (trim_dashes s)"
proof -
  assume s: "list_all slug_char s" "no_double s"
  obtain u v where uv: "s = u @ trim_dashes s @ v" using trim_suffix by blast
  let ?x = "dropWhile dash s"
  have "no_double (rev (v) @ rev (trim_dashes s))"
    using s(2) uv no_double_suffix no_double_rev by (metis rev_append)
  then have "no_double (trim_dashes s)" using no_double_suffix no_double_rev by metis
  moreover have "list_all slug_char (trim_dashes s)" using s(1) uv by (metis list_all_append)
  moreover have "\<not> ends_with ''-'' (trim_dashes s)"
    using dropWhile_dash [of "rev ?x"] by (simp add: trim_dashes_def ends_with_def)
  moreover have "\<not> starts_with ''-'' (trim_dashes s)"
  proof (cases "trim_dashes s")
    case (Cons c r)
    obtain w where w: "?x = trim_dashes s @ w"
      unfolding trim_dashes_def by (metis rev_append rev_rev_ident takeWhile_dropWhile_id)
    then show ?thesis using dropWhile_dash [of s] Cons by simp
  qed simp
  ultimately show ?thesis by (simp add: slug_form_def)
qed

lemma trim_dashes_id: "slug_form s \<Longrightarrow> trim_dashes s = s"
  by (simp add: slug_form_def trim_dashes_def ends_with_def dropWhile_dash_id)

lemma lower_id: "list_all slug_char s \<Longrightarrow> lower s = s"
  unfolding lower_def by (induction s) (auto simp: slug_char_def is_lower_az_def is_digit_def lower_char_def)

lemma slug_char_safe: "list_all slug_char s \<Longrightarrow> s \<noteq> [] \<Longrightarrow> safe_segment s"
  by (auto simp: safe_segment_def list_all_iff slug_char_def safe_char_def)

lemma slugify_form: "slug_form (slugify s)"
proof -
  have "list_all slug_char (replace_runs (\<lambda>c. \<not> slug_char c) ''-'' (lower s))"
    using replace_runs_set [of "\<lambda>c. \<not> slug_char c" "''-''" "lower s"]
    by (auto simp: list_all_iff slug_char_def)
  then have "list_all slug_char (replace_runs dash ''-'' (replace_runs (\<lambda>c. \<not> slug_char c) ''-'' (lower s)))"
    using replace_runs_set [of dash "''-''" "replace_runs (\<lambda>c. \<not> slug_char c) ''-'' (lower s)"]
    by (auto simp: list_all_iff slug_char_def)
  then show ?thesis
    unfolding slugify_def by (intro trim_dashes_form collapse_no_double)
qed

lemma slugify_id: "slug_form s \<Longrightarrow> slugify s = s"
  by (auto simp: slugify_def lower_id replace_runs_id collapse_id trim_dashes_id slug_form_def list_all_iff)

section \<open>The loop for a free id\<close>

fun tried :: "nat \<Rightarrow> string \<Rightarrow> nat \<Rightarrow> string \<Rightarrow> string list" where
  "tried 0 base suffix i = []"
| "tried (Suc n) base suffix i = i # tried n base (Suc suffix) (base @ ''-'' @ dec suffix)"

lemma free_id_None: "free_id n base suffix i m = None \<Longrightarrow> set (tried n base suffix i) \<subseteq> set (keys m)"
  by (induction n base suffix i m rule: free_id.induct) (auto split: if_splits simp: map_of_None_keys)

lemma free_id_Some: "free_id n base suffix i m = Some j \<Longrightarrow> \<not> has_key j m \<and> j \<in> set (tried n base suffix i)"
  by (induction n base suffix i m rule: free_id.induct) (auto split: if_splits)

lemma dec_inj [simp]: "dec a = dec b \<longleftrightarrow> a = b"
  by (metis dec_val_dec)

lemma tried_numbered: "tried n base k (base @ ''-'' @ dec j) = map (\<lambda>x. base @ ''-'' @ dec x) (case n of 0 \<Rightarrow> [] | Suc m \<Rightarrow> j # [k ..< k + m])"
proof (induction n arbitrary: j k)
  case (Suc n)
  then show ?case by (cases n) (auto simp: upt_conv_Cons)
qed simp

lemma distinct_tried: "distinct (tried n base 2 base)"
proof (cases n)
  case (Suc m)
  show ?thesis
    unfolding Suc tried.simps tried_numbered by (cases m) (auto simp: distinct_map inj_on_def)
qed simp

lemma length_tried [simp]: "length (tried n base k i) = n"
  by (induction n arbitrary: k i) simp_all

lemma free_id_fresh: "\<exists>j. free_id (Suc (length m)) base 2 base m = Some j \<and> \<not> has_key j m"
proof (cases "free_id (Suc (length m)) base 2 base m")
  case None
  from free_id_None [OF this] have "card (set (tried (Suc (length m)) base 2 base)) \<le> card (set (keys m))"
    by (intro card_mono) auto
  then have "Suc (length m) \<le> card (set (keys m))"
    using distinct_card [OF distinct_tried [of "Suc (length m)" base]] by simp
  also have "\<dots> \<le> length m" using card_length [of "keys m"] by simp
  finally show ?thesis by simp
qed (use free_id_Some in blast)

lemma tried_safe: "safe_segment base \<Longrightarrow> safe_segment i \<Longrightarrow> j \<in> set (tried n base k i) \<Longrightarrow> safe_segment j"
proof (induction n arbitrary: k i)
  case (Suc n)
  have "list_all safe_char (dec k)" using dec_digits [of k] by (auto simp: list_all_iff safe_char_def)
  then have "safe_segment (base @ ''-'' @ dec k)"
    using Suc.prems(1) by (auto simp: safe_segment_def safe_char_def)
  with Suc show ?case by auto
qed simp

section \<open>Any interleaving of calls and jobs\<close>

text \<open>
  A job changes the map before it waits for the disk, and only jobs change it, so a job is one
  step; the synchronous halves, \<open>removeUser\<close> and \<open>syncUser\<close> fall between jobs at will, and the
  disk may stop or start taking writes.
\<close>

inductive hs_step :: "household_service \<Rightarrow> household_service \<Rightarrow> bool" where
  hs_create: "hs_createHousehold name user admins s = (r, t) \<Longrightarrow> hs_step s t"
| hs_add: "hs_addAdmin hh user s = (r, t) \<Longrightarrow> hs_step s t"
| hs_remove: "hs_removeAdmin hh user s = (r, t) \<Longrightarrow> hs_step s t"
| hs_job: "hs_run_job now s = (r, t) \<Longrightarrow> hs_step s t"
| hs_leave: "hs_step s (hs_removeUser i s)"
| hs_sync: "hs_step s (hs_syncUser u s)"
| hs_disk: "hs_step s (s\<lparr>hs_writable := w\<rparr>)"

definition hh_ok :: "string \<Rightarrow> household \<Rightarrow> bool" where
  "hh_ok k h \<longleftrightarrow> hh_id h = k \<and> safe_segment k \<and> hh_name h \<noteq> [] \<and>
     hh_adminUserIds h \<noteq> [] \<and> distinct (hh_adminUserIds h)"

definition map_ok :: "household jsmap \<Rightarrow> bool" where
  "map_ok m \<longleftrightarrow> distinct (keys m) \<and> (\<forall>k h. map_of m k = Some h \<longrightarrow> hh_ok k h)"

fun job_ok :: "hs_job \<Rightarrow> bool" where
  "job_ok (JobCreate name base user admins) \<longleftrightarrow> name \<noteq> [] \<and> safe_segment base"
| "job_ok _ \<longleftrightarrow> True"

definition hs_ok :: "household_service \<Rightarrow> bool" where
  "hs_ok s \<longleftrightarrow> map_ok (hs_households s) \<and> list_all job_ok (hs_queue s) \<and>
     (case hs_file s of None \<Rightarrow> True | Some m \<Rightarrow> map_ok m)"

text \<open>What no operation changes of a household that exists.\<close>

definition same_core :: "household \<Rightarrow> household \<Rightarrow> bool" where
  "same_core h h' \<longleftrightarrow> hh_id h' = hh_id h \<and> hh_name h' = hh_name h \<and>
     hh_createdAt h' = hh_createdAt h \<and> hh_createdBy h' = hh_createdBy h"

definition kept :: "household jsmap \<Rightarrow> household jsmap \<Rightarrow> bool" where
  "kept m n \<longleftrightarrow> (\<forall>k h. map_of m k = Some h \<longrightarrow> (\<exists>h'. map_of n k = Some h' \<and> same_core h h'))"

lemma same_core_refl [simp]: "same_core h h" "same_core h (h\<lparr>hh_adminUserIds := as\<rparr>)"
  by (simp_all add: same_core_def)

lemma same_core_trans: "same_core a b \<Longrightarrow> same_core b c \<Longrightarrow> same_core a c"
  by (simp add: same_core_def)

lemma kept_refl [simp]: "kept m m"
  by (simp add: kept_def)

lemma kept_trans: "kept l m \<Longrightarrow> kept m n \<Longrightarrow> kept l n"
  unfolding kept_def using same_core_trans by blast

lemma kept_new: "\<not> has_key k m \<Longrightarrow> kept m (set_key k h m)"
  unfolding kept_def by auto

lemma kept_admins: "map_of m k = Some h \<Longrightarrow> kept m (set_key k (h\<lparr>hh_adminUserIds := as\<rparr>) m)"
  by (auto simp: kept_def)

lemma map_ok_set: "map_ok m \<Longrightarrow> hh_ok k h \<Longrightarrow> map_ok (set_key k h m)"
  by (simp add: map_ok_def)

lemma hs_okD: "hs_ok s \<Longrightarrow> map_of (hs_households s) k = Some h \<Longrightarrow> hh_ok k h"
  by (auto simp: hs_ok_def map_ok_def)

lemma map_okD: "map_ok m \<Longrightarrow> map_of m k = Some h \<Longrightarrow> hh_ok k h"
  by (simp add: map_ok_def)

lemma uniq_props [simp]: "set (uniq xs) = set xs" "distinct (uniq xs)"
  by (induction xs) (simp_all add: insert_Diff_if distinct_removeAll)

lemma hs_persist_ok:
  "hs_ok s \<Longrightarrow> map_ok m \<Longrightarrow> hs_persist (s\<lparr>hs_households := m\<rparr>) = (r, t) \<Longrightarrow> hs_ok t \<and> hs_households t = m"
  by (auto simp: hs_persist_def hs_ok_def split: if_splits)

text \<open>A created household goes under an id that was free; nothing else moves.\<close>

lemma create_job_new:
  assumes "hs_job_create now name base user admins s = (r, t)"
  obtains i h where "\<not> has_key i (hs_households s)" "hs_households t = set_key i h (hs_households s)"
    "free_id (Suc (length (hs_households s))) base 2 base (hs_households s) = Some i"
    "h = \<lparr>hh_id = i, hh_name = name, hh_createdAt = iso_string now, hh_createdBy = user,
          hh_adminUserIds = uniq (user # admins)\<rparr>"
    "hs_persist (s\<lparr>hs_households := set_key i h (hs_households s)\<rparr>) = (r, t)"
proof -
  obtain i where i: "free_id (Suc (length (hs_households s))) base 2 base (hs_households s) = Some i"
    and new: "\<not> has_key i (hs_households s)"
    using free_id_fresh [of "hs_households s" base] by auto
  show thesis
    using that [OF new _ i refl] assms i
    by (auto simp: hs_job_create_def Let_def hs_persist_def split: if_splits simp del: free_id.simps)
qed

lemma create_job_ok:
  assumes "hs_ok s" "name \<noteq> []" "safe_segment base" "hs_job_create now name base user admins s = (r, t)"
  shows "hs_ok t \<and> kept (hs_households s) (hs_households t)"
  using assms(4)
proof (rule create_job_new)
  fix i h
  assume new: "\<not> has_key i (hs_households s)" and t: "hs_households t = set_key i h (hs_households s)"
    and i: "free_id (Suc (length (hs_households s))) base 2 base (hs_households s) = Some i"
    and h: "h = \<lparr>hh_id = i, hh_name = name, hh_createdAt = iso_string now, hh_createdBy = user,
          hh_adminUserIds = uniq (user # admins)\<rparr>"
    and p: "hs_persist (s\<lparr>hs_households := set_key i h (hs_households s)\<rparr>) = (r, t)"
  have "safe_segment i" using free_id_Some [OF i] tried_safe assms(3) by blast
  then have "hh_ok i h" using assms(2) uniq_props(2) [of "user # admins"] by (simp add: hh_ok_def h)
  then have "map_ok (set_key i h (hs_households s))"
    using assms(1) by (simp add: hs_ok_def map_ok_set)
  then show ?thesis using hs_persist_ok [OF assms(1) _ p] kept_new [OF new] t by simp
qed

lemma admin_job_ok:
  assumes s: "hs_ok s" and h: "map_of (hs_households s) hh = Some h"
    and as: "as \<noteq> []" "distinct as"
    and p: "hs_persist (s\<lparr>hs_households := set_key hh (h\<lparr>hh_adminUserIds := as\<rparr>) (hs_households s)\<rparr>) = (r, t)"
  shows "hs_ok t \<and> kept (hs_households s) (hs_households t)"
proof -
  have m: "map_ok (hs_households s)" using s by (simp add: hs_ok_def)
  then have "map_ok (set_key hh (h\<lparr>hh_adminUserIds := as\<rparr>) (hs_households s))"
    using map_okD [OF m h] as by (intro map_ok_set) (simp_all add: hh_ok_def)
  then show ?thesis using hs_persist_ok [OF s _ p] kept_admins [OF h] by simp
qed

lemma addAdmin_job_ok:
  assumes "hs_ok s" "hs_job_addAdmin hh user s = (r, t)"
  shows "hs_ok t \<and> kept (hs_households s) (hs_households t)"
proof (cases "map_of (hs_households s) hh")
  case (Some h)
  have "hh_ok hh h" by (rule hs_okD [OF assms(1) Some])
  then show ?thesis
    using assms Some admin_job_ok [OF assms(1) Some, of "hh_adminUserIds h @ [user]"]
    by (auto simp: hs_job_addAdmin_def hh_ok_def split: if_splits)
qed (use assms in \<open>simp add: hs_job_addAdmin_def\<close>)

lemma removeAdmin_job_ok:
  assumes "hs_ok s" "hs_job_removeAdmin hh user s = (r, t)"
  shows "hs_ok t \<and> kept (hs_households s) (hs_households t)"
proof (cases "map_of (hs_households s) hh")
  case (Some h)
  let ?as = "filter (\<lambda>i. i \<noteq> user) (hh_adminUserIds h)"
  have d: "distinct (hh_adminUserIds h)" using hs_okD [OF assms(1) Some] by (simp add: hh_ok_def)
  have "?as \<noteq> []" if "1 < length (hh_adminUserIds h)"
  proof
    assume "?as = []"
    then have "set (hh_adminUserIds h) \<subseteq> {user}" by (auto simp: filter_empty_conv)
    then have "card (set (hh_adminUserIds h)) \<le> 1" by (metis card_mono card.empty card_insert_disjoint empty_iff finite.emptyI finite.insertI One_nat_def)
    with that d show False by (simp add: distinct_card)
  qed
  then show ?thesis
    using assms Some d admin_job_ok [OF assms(1) Some, of ?as]
    by (auto simp: hs_job_removeAdmin_def split: if_splits)
qed (use assms in \<open>simp add: hs_job_removeAdmin_def\<close>)

lemma run_job_ok:
  assumes s: "hs_ok s" and run: "hs_run_job now s = (r, t)"
  shows "hs_ok t \<and> kept (hs_households s) (hs_households t)"
proof (cases "hs_queue s")
  case (Cons j js)
  let ?s = "s\<lparr>hs_queue := js\<rparr>"
  have ok: "hs_ok ?s" "job_ok j" using s Cons by (auto simp: hs_ok_def)
  show ?thesis
  proof (cases j)
    case (JobCreate name base user admins)
    then show ?thesis
      using run Cons ok create_job_ok [OF ok(1), of name base now user admins r t] by (simp add: hs_run_job_def)
  next
    case (JobAddAdmin hh user)
    then show ?thesis using run Cons addAdmin_job_ok [OF ok(1)] by (simp add: hs_run_job_def)
  next
    case (JobRemoveAdmin hh user)
    then show ?thesis using run Cons removeAdmin_job_ok [OF ok(1)] by (simp add: hs_run_job_def)
  qed
qed (use s run in \<open>simp add: hs_run_job_def\<close>)

lemma hs_step_ok: "hs_step s t \<Longrightarrow> hs_ok s \<Longrightarrow> hs_ok t \<and> kept (hs_households s) (hs_households t)"
proof (induction rule: hs_step.induct)
  case (hs_create name user admins s r t)
  then show ?case by (auto simp: hs_createHousehold_def hs_ok_def Let_def split: if_splits)
next
  case (hs_job now s r t)
  then show ?case using run_job_ok by blast
qed (auto simp: hs_addAdmin_def hs_removeAdmin_def hs_removeUser_def hs_syncUser_def hs_ok_def split: if_splits)

lemma hs_steps_ok: "hs_step\<^sup>*\<^sup>* s t \<Longrightarrow> hs_ok s \<Longrightarrow> hs_ok t \<and> kept (hs_households s) (hs_households t)"
  by (induction rule: rtranclp_induct) (auto dest: hs_step_ok intro: kept_trans)

section \<open>The map and the registry agree\<close>

abbreviation home_of :: "reg_user \<Rightarrow> string option" where
  "home_of u \<equiv> truthy (ru_householdId u)"

definition dir_ok :: "household_service \<Rightarrow> bool" where
  "dir_ok s \<longleftrightarrow> distinct (map ru_id (hs_registry s)) \<and>
     (\<forall>i. map_of (hs_userMap s) i = Option.bind (find (\<lambda>u. ru_id u = i) (hs_registry s)) home_of)"

lemma find_put_user:
  "find (\<lambda>v. ru_id v = i) (put_user u us) = (if i = ru_id u then Some u else find (\<lambda>v. ru_id v = i) us)"
  by (induction us) auto

lemma ids_put_user: "ru_id ` set (put_user u us) = insert (ru_id u) (ru_id ` set us)"
  by (induction us) auto

lemma distinct_put_user: "distinct (map ru_id us) \<Longrightarrow> distinct (map ru_id (put_user u us))"
  by (induction us) (auto simp: ids_put_user)

lemma ids_remove_user: "ru_id ` set (remove_first_user i us) \<subseteq> ru_id ` set us"
  by (induction us) auto

lemma distinct_remove_user: "distinct (map ru_id us) \<Longrightarrow> distinct (map ru_id (remove_first_user i us))"
  by (induction us) (use ids_remove_user in auto)

lemma find_fresh: "i \<notin> ru_id ` set us \<Longrightarrow> find (\<lambda>v. ru_id v = i) us = None"
  by (auto simp: find_None_iff)

lemma find_remove_user:
  "distinct (map ru_id us) \<Longrightarrow>
   find (\<lambda>v. ru_id v = j) (remove_first_user i us) = (if j = i then None else find (\<lambda>v. ru_id v = j) us)"
  by (induction us) (auto simp: find_fresh)

lemma find_distinct:
  "distinct (map ru_id us) \<Longrightarrow> u \<in> set us \<Longrightarrow> find (\<lambda>v. ru_id v = ru_id u) us = Some u"
  by (induction us) auto

lemma hs_jobs_leave_directory:
  assumes "hs_run_job now s = (r, t)"
  shows "hs_userMap t = hs_userMap s \<and> hs_registry t = hs_registry s"
  using assms
  by (auto simp: hs_run_job_def hs_job_create_def hs_job_addAdmin_def hs_job_removeAdmin_def hs_persist_def Let_def
      split: list.splits hs_job.splits option.splits if_splits)

lemma dir_step: "hs_step s t \<Longrightarrow> dir_ok s \<Longrightarrow> dir_ok t"
proof (induction rule: hs_step.induct)
  case (hs_create name user admins s r t)
  then show ?case by (auto simp: hs_createHousehold_def dir_ok_def Let_def split: if_splits)
next
  case (hs_job now s r t)
  then show ?case using hs_jobs_leave_directory by (simp add: dir_ok_def)
next
  case (hs_leave s i)
  then show ?case
    by (simp add: dir_ok_def hs_removeUser_def distinct_remove_user find_remove_user)
next
  case (hs_sync s u)
  then show ?case
    by (auto simp: dir_ok_def hs_syncUser_def distinct_put_user find_put_user split: option.splits)
qed (auto simp: hs_addAdmin_def hs_removeAdmin_def dir_ok_def split: if_splits)

lemma dir_steps: "hs_step\<^sup>*\<^sup>* s t \<Longrightarrow> dir_ok s \<Longrightarrow> dir_ok t"
  by (induction rule: rtranclp_induct) (auto dest: dir_step)

lemma find_snoc:
  "find P (xs @ [x]) = (case find P xs of Some y \<Rightarrow> Some y | None \<Rightarrow> if P x then Some x else None)"
  by (induction xs) auto

lemma dir_new: "distinct (map ru_id users) \<Longrightarrow> dir_ok (new_household_service users)"
proof (induction users rule: rev_induct)
  case (snoc u users)
  then have ih: "dir_ok (new_household_service users)" and u: "find (\<lambda>v. ru_id v = ru_id u) users = None"
    by (simp_all add: find_fresh)
  show ?case
    using ih u snoc.prems by (auto simp: dir_ok_def new_household_service_def find_snoc split: option.splits)
qed (simp add: dir_ok_def new_household_service_def)

section \<open>A file that the service wrote is read back\<close>

definition raw_of :: "household \<Rightarrow> raw_household" where
  "raw_of h = \<lparr>rh_id = Some (hh_id h), rh_name = Some (hh_name h), rh_createdAt = Some (hh_createdAt h),
     rh_createdBy = Some (hh_createdBy h), rh_adminUserIds = Some (hh_adminUserIds h)\<rparr>"

lemma household_of_raw_of [simp]: "household_of_raw (raw_of h) = h"
  by (simp add: household_of_raw_def raw_of_def)

lemma raw_of_valid: "hh_ok k h \<Longrightarrow> isValidHouseholdEntry k (Some (raw_of h))"
  by (auto simp: hh_ok_def isValidHouseholdEntry_def raw_of_def)

lemma reload_ok:
  assumes "map_ok m"
  shows "hs_households (hs_init (YamlData (map (\<lambda>(k, h). (k, Some (raw_of h))) m)) s) = m"
proof -
  have "\<forall>p \<in> set m. hh_ok (fst p) (snd p)" using assms by (auto simp: map_ok_def)
  then have "map (\<lambda>(k, v). (k, household_of_raw (the v)))
      (filter (\<lambda>(k, v). isValidHouseholdEntry k v) (map (\<lambda>(k, h). (k, Some (raw_of h))) m)) = m"
    by (induction m) (auto simp: raw_of_valid)
  then show ?thesis by (simp add: hs_init_def)
qed

section \<open>The contract the data store relies on\<close>

locale tenant_directory =
  fixes household_of :: "string \<Rightarrow> 's \<Rightarrow> string option"
    and assert_access :: "string \<Rightarrow> string \<Rightarrow> 's \<Rightarrow> 'e option"
    and same :: "string \<Rightarrow> string \<Rightarrow> 's \<Rightarrow> 'e option"
  assumes access_law: "assert_access u h s = None \<longleftrightarrow> household_of u s = Some h"
    and same_law: "same u v s = None \<longleftrightarrow> household_of u s \<noteq> None \<and> household_of u s = household_of v s"
begin

lemma one_household: "assert_access u h s = None \<Longrightarrow> assert_access u h' s = None \<Longrightarrow> h = h'"
  by (simp add: access_law)

lemma no_household_no_access: "household_of u s = None \<Longrightarrow> assert_access u h s \<noteq> None"
  by (simp add: access_law)

lemma same_iff_shared: "same u v s = None \<longleftrightarrow> (\<exists>h. assert_access u h s = None \<and> assert_access v h s = None)"
  by (auto simp: access_law same_law)

lemma same_sym: "same u v s = None \<Longrightarrow> same v u s = None"
  unfolding same_law by metis

lemma same_trans: "same u v s = None \<Longrightarrow> same v w s = None \<Longrightarrow> same u w s = None"
  unfolding same_law by metis

end

interpretation hs: tenant_directory hs_getHouseholdForUser hs_assertUserCanAccessHousehold hs_requireSameHousehold
  by unfold_locales (auto simp: hs_assertUserCanAccessHousehold_def hs_requireSameHousehold_def Let_def)

section \<open>Properties\<close>

text \<open>
  Slugs are canonical: whatever the name, \<open>slugify\<close> yields either nothing or a
  \<open>SAFE_SEGMENT\<close> in which no dash leads, ends or repeats, and a string is left alone exactly when
  it already has that form (so slugifying twice is slugifying once).
\<close>

lemma slugify_normal:
  "slug_form (slugify s) \<and> (slugify s = [] \<or> safe_segment (slugify s)) \<and> (slugify t = t \<longleftrightarrow> slug_form t)"
proof -
  have "slug_form (slugify s)" "slugify t = t \<longleftrightarrow> slug_form t"
    using slugify_form [of s] slugify_form [of t] slugify_id [of t] by auto
  then show ?thesis using slug_char_safe by (auto simp: slug_form_def)
qed

text \<open>
  C15. Creating a household never touches another: the job that runs, however many names like it
  there are, finds in bounded time an id that no household has, adds the household at the
  end of the map and leaves every other entry alone. It reports success exactly when the map
  reached the disk (otherwise the household is in memory only).
\<close>

theorem createHousehold_fresh:
  assumes "hs_queue s = JobCreate name base user admins # js" "hs_run_job now s = (r, t)"
  shows "\<exists>i. \<not> has_key i (hs_households s) \<and> (i = base \<or> (\<exists>n\<ge>2. i = base @ ''-'' @ dec n)) \<and>
    hs_households t = hs_households s @ [(i,
      \<lparr>hh_id = i, hh_name = name, hh_createdAt = iso_string now, hh_createdBy = user,
       hh_adminUserIds = uniq (user # admins)\<rparr>)] \<and>
    (r = None \<longleftrightarrow> hs_writable s) \<and>
    hs_file t = (if hs_writable s then Some (hs_households t) else hs_file s)"
proof -
  let ?s = "s\<lparr>hs_queue := js\<rparr>"
  have "hs_job_create now name base user admins ?s = (r, t)"
    using assms by (simp add: hs_run_job_def)
  then show ?thesis
  proof (rule create_job_new)
    fix i h
    assume new: "\<not> has_key i (hs_households ?s)" and t: "hs_households t = set_key i h (hs_households ?s)"
      and i: "free_id (Suc (length (hs_households ?s))) base 2 base (hs_households ?s) = Some i"
      and h: "h = \<lparr>hh_id = i, hh_name = name, hh_createdAt = iso_string now, hh_createdBy = user,
          hh_adminUserIds = uniq (user # admins)\<rparr>"
      and p: "hs_persist (?s\<lparr>hs_households := set_key i h (hs_households ?s)\<rparr>) = (r, t)"
    have tail: "set (tried n base k (base @ ''-'' @ dec j)) \<subseteq> {base @ ''-'' @ dec x |x. 2 \<le> x}"
      if "2 \<le> j" "2 \<le> k" for n j k
      using that unfolding tried_numbered by (auto split: nat.splits)
    have form: "i = base \<or> (\<exists>n\<ge>2. i = base @ ''-'' @ dec n)"
      using free_id_Some [OF i] tail [of 2 3 "length (hs_households s)"] by (auto simp: numeral_eq_Suc)
    have "hs_households t = hs_households s @ [(i, h)]"
      using t new by (simp add: set_key_new map_of_None_keys)
    then show ?thesis
      using new form p h by (intro exI [of _ i]) (auto simp: hs_persist_def split: if_splits)
  qed
qed

lemma createHousehold_fresh_witness:
  defines "s \<equiv> (new_household_service [])\<lparr>hs_queue := [JobCreate ''Smith'' ''smith'' ''u1'' [''u1'', ''u2'']],
     hs_households := [(''smith'', \<lparr>hh_id = ''smith'', hh_name = ''Smith'', hh_createdAt = [], hh_createdBy = ''u0'',
       hh_adminUserIds = [''u0'']\<rparr>)]\<rparr>"
  shows "\<exists>i. \<not> has_key i (hs_households s) \<and> (i = ''smith'' \<or> (\<exists>n\<ge>2. i = ''smith'' @ ''-'' @ dec n)) \<and>
    hs_households (snd (hs_run_job 0 s)) = hs_households s @ [(i,
      \<lparr>hh_id = i, hh_name = ''Smith'', hh_createdAt = iso_string 0, hh_createdBy = ''u1'',
       hh_adminUserIds = uniq [''u1'', ''u1'', ''u2'']\<rparr>)] \<and>
    (fst (hs_run_job 0 s) = None \<longleftrightarrow> hs_writable s) \<and>
    hs_file (snd (hs_run_job 0 s)) = (if hs_writable s then Some (hs_households (snd (hs_run_job 0 s))) else hs_file s)"
  by (rule createHousehold_fresh) (simp_all add: s_def)

text \<open>
  C16. Through any interleaving of calls, jobs, user changes and disk failures: every
  household, in memory and on disk, is filed under its own safe id and keeps at least one admin
  (none twice), and no household is ever lost, renamed or given another creator.
\<close>

theorem household_admins_safe:
  assumes "hs_ok s" "hs_step\<^sup>*\<^sup>* s t"
  shows "hs_ok t \<and> kept (hs_households s) (hs_households t)"
  using hs_steps_ok [OF assms(2) assms(1)] .

lemma household_admins_safe_witness:
  "hs_ok (snd (hs_createHousehold '' The Smiths '' ''u1'' [] (new_household_service [])))"
proof -
  have "hs_ok (new_household_service [])" by (simp add: hs_ok_def new_household_service_def map_ok_def)
  moreover have "hs_step (new_household_service []) (snd (hs_createHousehold '' The Smiths '' ''u1'' [] (new_household_service [])))"
    by (rule hs_create [OF surjective_pairing])
  ultimately show ?thesis using household_admins_safe by blast
qed

text \<open>
  The two user indexes never disagree: starting from users with distinct ids, through any
  sequence of syncs, removals and jobs, the members listed for a household are exactly the
  registered users whose looked-up household it is, and \<open>requireSameHousehold\<close> lets two users
  through exactly when some household lists them both as entitled.
\<close>

lemma directory_agrees:
  assumes "distinct (map ru_id users)" "hs_step\<^sup>*\<^sup>* (new_household_service users) t" "hh \<noteq> []"
  shows "(u \<in> set (hs_getMembers hh t) \<longleftrightarrow>
      u \<in> set (hs_registry t) \<and> hs_getHouseholdForUser (ru_id u) t = Some hh) \<and>
    (hs_requireSameHousehold a b t = None \<longleftrightarrow>
      (\<exists>h. hs_assertUserCanAccessHousehold a h t = None \<and> hs_assertUserCanAccessHousehold b h t = None))"
proof -
  have t: "dir_ok t" by (rule dir_steps [OF assms(2) dir_new [OF assms(1)]])
  have "map_of (hs_userMap t) (ru_id u) = home_of u" if "u \<in> set (hs_registry t)"
    using t that find_distinct [OF _ that] by (simp add: dir_ok_def)
  moreover have "home_of u = Some hh \<longleftrightarrow> ru_householdId u = Some hh"
    using assms(3) by (cases "ru_householdId u") auto
  ultimately show ?thesis
    by (auto simp: hs_getMembers_def hs_getHouseholdForUser_def hs.same_iff_shared)
qed

definition sample_user :: "string \<Rightarrow> string option \<Rightarrow> reg_user" where
  "sample_user i h = \<lparr>ru_id = i, ru_name = i, ru_isAdmin = False, ru_enabledApps = [''*''],
     ru_sharedScopes = [], ru_householdId = h\<rparr>"

lemma directory_agrees_witness:
  "(sample_user ''a'' (Some ''h'') \<in> set (hs_getMembers ''h'' (new_household_service [sample_user ''a'' (Some ''h'')])) \<longleftrightarrow>
     sample_user ''a'' (Some ''h'') \<in> set (hs_registry (new_household_service [sample_user ''a'' (Some ''h'')])) \<and>
     hs_getHouseholdForUser (ru_id (sample_user ''a'' (Some ''h''))) (new_household_service [sample_user ''a'' (Some ''h'')]) = Some ''h'') \<and>
   (hs_requireSameHousehold ''a'' ''b'' (new_household_service [sample_user ''a'' (Some ''h'')]) = None \<longleftrightarrow>
     (\<exists>h. hs_assertUserCanAccessHousehold ''a'' h (new_household_service [sample_user ''a'' (Some ''h'')]) = None \<and>
          hs_assertUserCanAccessHousehold ''b'' h (new_household_service [sample_user ''a'' (Some ''h'')]) = None))"
  by (rule directory_agrees [OF _ rtranclp.rtrancl_refl]) (simp_all add: sample_user_def)

text \<open>
  C18. Households survive a restart: whatever the service has written to disk, a fresh service
  that loads it accepts every entry and holds exactly the map that was written.
\<close>

theorem households_survive_restart:
  assumes "hs_ok s" "hs_step\<^sup>*\<^sup>* s t" "hs_file t = Some m"
  shows "hs_households (hs_init (YamlData (map (\<lambda>(k, h). (k, Some (raw_of h))) m)) (new_household_service users)) = m"
  using hs_steps_ok [OF assms(2,1)] assms(3) by (intro reload_ok) (simp add: hs_ok_def)

lemma households_survive_restart_witness:
  defines "s0 \<equiv> new_household_service []"
  defines "s1 \<equiv> snd (hs_createHousehold ''Smith'' ''u1'' [] s0)"
  defines "s2 \<equiv> snd (hs_run_job 0 s1)"
  shows "hs_households (hs_init (YamlData (map (\<lambda>(k, h). (k, Some (raw_of h))) (hs_households s2)))
    (new_household_service [])) = hs_households s2"
proof (rule households_survive_restart)
  show "hs_ok s0" by (simp add: s0_def hs_ok_def new_household_service_def map_ok_def)
  have "hs_step s0 s1" unfolding s1_def by (rule hs_create [OF surjective_pairing])
  moreover have "hs_step s1 s2" unfolding s2_def by (rule hs_job [OF surjective_pairing])
  ultimately show "hs_step\<^sup>*\<^sup>* s0 s2" by simp
  show "hs_file s2 = Some (hs_households s2)" unfolding s2_def s1_def s0_def by code_simp
qed

text \<open>
  A household whose stored admin list names one user twice passes the load check, and removing
  that user then leaves it without an admin.
\<close>

lemma duplicate_admin_removed:
  "let h = \<lparr>hh_id = ''h'', hh_name = ''H'', hh_createdAt = [], hh_createdBy = ''u'', hh_adminUserIds = [''u'', ''u'']\<rparr>;
       s = hs_init (YamlData [(''h'', Some (raw_of h))]) (new_household_service []);
       t = snd (hs_job_removeAdmin ''h'' ''u'' s)
   in map_option hh_adminUserIds (map_of (hs_households t) ''h'') = Some []"
  by code_simp

end
