(* ===== verification/Spaces.thy ===== *)
theory Spaces
  imports Household
begin

text \<open>
  \<open>core/src/services/spaces/index.ts\<close>: named shared areas with a membership, and the space each
  user is working in.

  A handler checks the space it was asked about at once and then enqueues a job that holds a
  \<^emph>\<open>reference\<close> to the space object it checked. So the objects live in a store \<open>sp_objs\<close>, an
  address is a position in it, and \<open>sp_spaces\<close> maps ids to addresses; \<open>saveSpace\<close> puts the
  caller's object, which is fresh, in place of the old one. \<open>sp_vault\<close> logs the calls to the vault
  service, when one is wired, and \<open>sp_file\<close>, \<open>sp_activeFile\<close> are the two YAML files.
\<close>

section \<open>Data\<close>

datatype space_kind = KHousehold | KCollaboration

record space =
  sd_id :: string
  sd_name :: string
  sd_description :: string
  sd_members :: "string list"
  sd_createdBy :: string
  sd_createdAt :: string
  sd_kind :: "space_kind option"
  sd_householdId :: "string option"

definition MAX_SPACE_ID_LENGTH :: nat where "MAX_SPACE_ID_LENGTH = 50"
definition MAX_SPACE_NAME_LENGTH :: nat where "MAX_SPACE_NAME_LENGTH = 100"
definition MAX_SPACES :: nat where "MAX_SPACES = 20"
definition MAX_MEMBERS_PER_SPACE :: nat where "MAX_MEMBERS_PER_SPACE = 50"

text \<open>\<open>/^[a-z][a-z0-9-]*$/\<close>\<close>

fun space_id_pattern :: "string \<Rightarrow> bool" where
  "space_id_pattern [] = False"
| "space_id_pattern (c # s) =
     (is_lower_az c \<and> list_all (\<lambda>c. is_lower_az c \<or> is_digit c \<or> c = CHR ''-'') s)"

text \<open>The validation errors, one constructor per message.\<close>

datatype space_error =
    IdRequired | IdMalformed | IdTooLong
  | SpaceNameRequired | NameTooLong
  | TooManyMembers | MemberNotRegistered string | DuplicateMembers
  | CreatorRequired | CreatorNotRegistered | CreatorNotMember
  | HouseholdIdRequired | HouseholdIdMalformed | HouseholdIdForbidden
  | MemberWithoutHousehold string string | MemberOfOther string string string
  | SpaceNotFound | UserNotRegistered | AlreadyMember | CannotRemoveCreator | NotMember
  | ActiveNotMember | SpaceLimit

datatype space_job =
    JobSave nat
  | JobDelete string
  | JobAdd nat string string
  | JobRemove nat string string nat
  | JobActivate string "string option"

datatype vault_call =
    RebuildVault string
  | AddSpaceLink string string
  | RemoveSpaceLink string string
  | RemoveSpaceFromAll string "string list"

record space_service =
  sp_objs :: "space list"
  sp_spaces :: "nat jsmap"
  sp_active :: "string option jsmap"
  sp_queue :: "space_job list"
  sp_vault :: "vault_call list option"
  sp_file :: "space jsmap"
  sp_activeFile :: "string option jsmap"
  sp_writable :: bool

text \<open>The services it asks: the registered user ids, and the household service when wired.\<close>

record space_env =
  se_registered :: "string list"
  se_household :: "household_service option"

abbreviation obj :: "space_service \<Rightarrow> nat \<Rightarrow> space" where
  "obj s a \<equiv> sp_objs s ! a"

section \<open>Loading\<close>

record raw_space =
  rs_id :: "string option"
  rs_name :: "string option"
  rs_members :: "string list option"
  rs_createdBy :: "string option"
  rs_kind :: "string option"
  rs_description :: string
  rs_createdAt :: string
  rs_householdId :: "string option"

definition isValidSpaceEntry :: "string \<Rightarrow> raw_space option \<Rightarrow> bool" where
  "isValidSpaceEntry key value =
     (case value of
        None \<Rightarrow> False
      | Some v \<Rightarrow>
          rs_id v = Some key \<and> rs_name v \<noteq> None \<and> rs_name v \<noteq> Some [] \<and>
          rs_members v \<noteq> None \<and> rs_createdBy v \<noteq> None \<and>
          (rs_kind v = None \<or> rs_kind v = Some ''household'' \<or> rs_kind v = Some ''collaboration''))"

definition space_of_raw :: "raw_space \<Rightarrow> space" where
  "space_of_raw v =
     \<lparr>sd_id = the (rs_id v), sd_name = the (rs_name v), sd_description = rs_description v,
      sd_members = the (rs_members v), sd_createdBy = the (rs_createdBy v), sd_createdAt = rs_createdAt v,
      sd_kind = (case rs_kind v of None \<Rightarrow> None
                 | Some k \<Rightarrow> Some (if k = ''household'' then KHousehold else KCollaboration)),
      sd_householdId = rs_householdId v\<rparr>"

definition sp_init :: "raw_space yaml_file \<Rightarrow> string option jsmap option \<Rightarrow> space_service \<Rightarrow> space_service" where
  "sp_init f act s =
     (let valid = (case f of YamlData es \<Rightarrow> filter (\<lambda>(k, v). isValidSpaceEntry k v) es | _ \<Rightarrow> [])
      in s\<lparr>sp_objs := map (\<lambda>(k, v). space_of_raw (the v)) valid,
           sp_spaces := zip (map fst valid) [0 ..< length valid],
           sp_active := (case act of None \<Rightarrow> [] | Some m \<Rightarrow> m)\<rparr>)"

section \<open>Reads\<close>

definition sp_getSpace :: "string \<Rightarrow> space_service \<Rightarrow> space option" where
  "sp_getSpace i s = map_option (obj s) (map_of (sp_spaces s) i)"

definition sp_isMember :: "string \<Rightarrow> string \<Rightarrow> space_service \<Rightarrow> bool" where
  "sp_isMember i u s =
     (case sp_getSpace i s of None \<Rightarrow> False | Some sp \<Rightarrow> u \<in> set (sd_members sp))"

section \<open>Validation\<close>

definition is_registered :: "space_env \<Rightarrow> string \<Rightarrow> bool" where
  "is_registered env u \<longleftrightarrow> u \<in> set (se_registered env)"

text \<open>The household check on one user: the error, unless the user lives in \<open>hh\<close>.\<close>

definition home_errors :: "household_service \<Rightarrow> string \<Rightarrow> string \<Rightarrow> space_error list" where
  "home_errors h hh u =
     (case hs_getHouseholdForUser u h of
        None \<Rightarrow> [MemberWithoutHousehold u hh]
      | Some other \<Rightarrow> if other = hh then [] else [MemberOfOther u other hh])"

definition validateSpace :: "space_env \<Rightarrow> space \<Rightarrow> space_error list" where
  "validateSpace env d =
     (if sd_id d = [] then [IdRequired]
      else if \<not> space_id_pattern (sd_id d) then [IdMalformed]
      else if length (sd_id d) > MAX_SPACE_ID_LENGTH then [IdTooLong] else []) @
     (if trim (sd_name d) = [] then [SpaceNameRequired]
      else if length (sd_name d) > MAX_SPACE_NAME_LENGTH then [NameTooLong] else []) @
     (if length (sd_members d) > MAX_MEMBERS_PER_SPACE then [TooManyMembers] else []) @
     map MemberNotRegistered (filter (\<lambda>u. \<not> is_registered env u) (sd_members d)) @
     (if length (uniq (sd_members d)) \<noteq> length (sd_members d) then [DuplicateMembers] else []) @
     (if sd_createdBy d = [] then [CreatorRequired]
      else (if is_registered env (sd_createdBy d) then [] else [CreatorNotRegistered]) @
           (if sd_createdBy d \<in> set (sd_members d) then [] else [CreatorNotMember])) @
     (case sd_kind d of
        Some KHousehold \<Rightarrow>
          (case truthy (sd_householdId d) of
             None \<Rightarrow> [HouseholdIdRequired]
           | Some hh \<Rightarrow> if safe_segment hh then [] else [HouseholdIdMalformed])
      | Some KCollaboration \<Rightarrow> if truthy (sd_householdId d) = None then [] else [HouseholdIdForbidden]
      | None \<Rightarrow> []) @
     (case (sd_kind d, truthy (sd_householdId d), se_household env) of
        (Some KHousehold, Some hh, Some h) \<Rightarrow> concat (map (home_errors h hh) (sd_members d))
      | _ \<Rightarrow> [])"

section \<open>The synchronous halves\<close>

text \<open>\<open>saveSpace\<close> stores the caller's object at the next free address.\<close>

definition sp_saveSpace :: "space_env \<Rightarrow> space \<Rightarrow> space_service \<Rightarrow> space_error list \<times> space_service" where
  "sp_saveSpace env d s =
     (case validateSpace env d of
        [] \<Rightarrow> ([], s\<lparr>sp_objs := sp_objs s @ [d], sp_queue := sp_queue s @ [JobSave (length (sp_objs s))]\<rparr>)
      | es \<Rightarrow> (es, s))"

definition sp_deleteSpace :: "string \<Rightarrow> space_service \<Rightarrow> bool \<times> space_service" where
  "sp_deleteSpace i s =
     (if map_of (sp_spaces s) i = None then (False, s)
      else (True, s\<lparr>sp_queue := sp_queue s @ [JobDelete i]\<rparr>))"

definition sp_addMember :: "space_env \<Rightarrow> string \<Rightarrow> string \<Rightarrow> space_service \<Rightarrow> space_error list \<times> space_service" where
  "sp_addMember env i u s =
     (case map_of (sp_spaces s) i of
        None \<Rightarrow> ([SpaceNotFound], s)
      | Some a \<Rightarrow>
          (let sp = obj s a in
           if \<not> is_registered env u then ([UserNotRegistered], s)
           else if u \<in> set (sd_members sp) then ([AlreadyMember], s)
           else if length (sd_members sp) \<ge> MAX_MEMBERS_PER_SPACE then ([TooManyMembers], s)
           else (case (case (sd_kind sp, truthy (sd_householdId sp), se_household env) of
                         (Some KHousehold, Some hh, Some h) \<Rightarrow> home_errors h hh u
                       | _ \<Rightarrow> []) of
                   [] \<Rightarrow> ([], s\<lparr>sp_queue := sp_queue s @ [JobAdd a i u]\<rparr>)
                 | es \<Rightarrow> (es, s))))"

fun index_of :: "'a \<Rightarrow> 'a list \<Rightarrow> nat option" where
  "index_of x [] = None"
| "index_of x (y # ys) = (if x = y then Some 0 else map_option Suc (index_of x ys))"

definition sp_removeMember :: "string \<Rightarrow> string \<Rightarrow> space_service \<Rightarrow> space_error list \<times> space_service" where
  "sp_removeMember i u s =
     (case map_of (sp_spaces s) i of
        None \<Rightarrow> ([SpaceNotFound], s)
      | Some a \<Rightarrow>
          if sd_createdBy (obj s a) = u then ([CannotRemoveCreator], s)
          else (case index_of u (sd_members (obj s a)) of
                  None \<Rightarrow> ([NotMember], s)
                | Some n \<Rightarrow> ([], s\<lparr>sp_queue := sp_queue s @ [JobRemove a i u n]\<rparr>)))"

definition sp_setActiveSpace :: "string \<Rightarrow> string option \<Rightarrow> space_service \<Rightarrow> space_error list \<times> space_service" where
  "sp_setActiveSpace u i s =
     (case i of
        None \<Rightarrow> ([], s\<lparr>sp_queue := sp_queue s @ [JobActivate u None]\<rparr>)
      | Some sid \<Rightarrow>
          (case map_of (sp_spaces s) sid of
             None \<Rightarrow> ([SpaceNotFound], s)
           | Some a \<Rightarrow>
               if u \<notin> set (sd_members (obj s a)) then ([ActiveNotMember], s)
               else ([], s\<lparr>sp_queue := sp_queue s @ [JobActivate u (Some sid)]\<rparr>)))"

definition sp_persistActive :: "space_service \<Rightarrow> bool \<times> space_service" where
  "sp_persistActive s =
     (if sp_writable s then (True, s\<lparr>sp_activeFile := sp_active s\<rparr>) else (False, s))"

definition sp_persist :: "space_service \<Rightarrow> bool \<times> space_service" where
  "sp_persist s =
     (if sp_writable s then (True, s\<lparr>sp_file := map (\<lambda>(k, a). (k, obj s a)) (sp_spaces s)\<rparr>) else (False, s))"

text \<open>
  \<open>getActiveSpace\<close> acts at once; its write of a cleared entry is not awaited, and a failed one
  is only logged.
\<close>

definition sp_getActiveSpace :: "string \<Rightarrow> space_service \<Rightarrow> string option \<times> space_service" where
  "sp_getActiveSpace u s =
     (case truthy (get_or None (sp_active s) u) of
        None \<Rightarrow> (None, s)
      | Some i \<Rightarrow>
          if sp_isMember i u s then (Some i, s)
          else (None, snd (sp_persistActive (s\<lparr>sp_active := set_key u None (sp_active s)\<rparr>))))"

section \<open>The jobs\<close>

text \<open>A job ends with success, with the limit error, or with the failure of the disk.\<close>

datatype space_done = Done | LimitReached | DiskFailed

definition vault_calls :: "vault_call list \<Rightarrow> space_service \<Rightarrow> space_service" where
  "vault_calls cs s = s\<lparr>sp_vault := map_option (\<lambda>l. l @ cs) (sp_vault s)\<rparr>"

definition sp_job_save :: "nat \<Rightarrow> space_service \<Rightarrow> space_done \<times> space_service" where
  "sp_job_save a s =
     (let d = obj s a;
          old = map_option (\<lambda>b. sd_members (obj s b)) (map_of (sp_spaces s) (sd_id d))
      in if old = None \<and> length (sp_spaces s) \<ge> MAX_SPACES then (LimitReached, s)
         else (let (ok, t) = sp_persist (s\<lparr>sp_spaces := set_key (sd_id d) a (sp_spaces s)\<rparr>)
               in if \<not> ok then (DiskFailed, t)
                  else (Done, vault_calls
                    (map RebuildVault (sd_members d) @
                     map (\<lambda>u. RemoveSpaceLink u (sd_id d))
                       (filter (\<lambda>u. u \<notin> set (sd_members d)) (case old of None \<Rightarrow> [] | Some us \<Rightarrow> us))) t)))"

definition sp_job_delete :: "string \<Rightarrow> space_service \<Rightarrow> space_done \<times> space_service" where
  "sp_job_delete i s =
     (case map_of (sp_spaces s) i of
        None \<Rightarrow> (Done, s)
      | Some a \<Rightarrow>
          (let changed = Some i \<in> set (map snd (sp_active s));
               (ok, t) = sp_persist (s\<lparr>sp_spaces := del_key i (sp_spaces s),
                 sp_active := map (\<lambda>(u, v). (u, if v = Some i then None else v)) (sp_active s)\<rparr>)
           in if \<not> ok then (DiskFailed, t)
              else (let (ok, t) = (if changed then sp_persistActive t else (True, t))
                    in if \<not> ok then (DiskFailed, t)
                       else (Done, vault_calls [RemoveSpaceFromAll i (sd_members (obj s a))] t))))"

definition sp_job_add :: "nat \<Rightarrow> string \<Rightarrow> string \<Rightarrow> space_service \<Rightarrow> space_done \<times> space_service" where
  "sp_job_add a i u s =
     (let (ok, t) = sp_persist (s\<lparr>sp_objs := (sp_objs s)[a := (obj s a)\<lparr>sd_members := sd_members (obj s a) @ [u]\<rparr>]\<rparr>)
      in if \<not> ok then (DiskFailed, t) else (Done, vault_calls [AddSpaceLink u i] t))"

text \<open>\<open>xs.splice(n, 1)\<close>\<close>

definition splice1 :: "nat \<Rightarrow> 'a list \<Rightarrow> 'a list" where
  "splice1 n xs = take n xs @ drop (Suc n) xs"

definition sp_job_remove :: "nat \<Rightarrow> string \<Rightarrow> string \<Rightarrow> nat \<Rightarrow> space_service \<Rightarrow> space_done \<times> space_service" where
  "sp_job_remove a i u n s =
     (let (ok, t) = sp_persist (s\<lparr>sp_objs := (sp_objs s)[a := (obj s a)\<lparr>sd_members := splice1 n (sd_members (obj s a))\<rparr>]\<rparr>)
      in if \<not> ok then (DiskFailed, t)
         else (let (ok, t) = (if get_or None (sp_active t) u = Some i
                              then sp_persistActive (t\<lparr>sp_active := set_key u None (sp_active t)\<rparr>)
                              else (True, t))
               in if \<not> ok then (DiskFailed, t) else (Done, vault_calls [RemoveSpaceLink u i] t)))"

definition sp_job_activate :: "string \<Rightarrow> string option \<Rightarrow> space_service \<Rightarrow> space_done \<times> space_service" where
  "sp_job_activate u i s =
     (let (ok, t) = sp_persistActive (s\<lparr>sp_active := set_key u i (sp_active s)\<rparr>)
      in (if ok then Done else DiskFailed, t))"

fun sp_job :: "space_job \<Rightarrow> space_service \<Rightarrow> space_done \<times> space_service" where
  "sp_job (JobSave a) s = sp_job_save a s"
| "sp_job (JobDelete i) s = sp_job_delete i s"
| "sp_job (JobAdd a i u) s = sp_job_add a i u s"
| "sp_job (JobRemove a i u n) s = sp_job_remove a i u n s"
| "sp_job (JobActivate u i) s = sp_job_activate u i s"

definition sp_run_job :: "space_service \<Rightarrow> space_done \<times> space_service" where
  "sp_run_job s =
     (case sp_queue s of [] \<Rightarrow> (Done, s) | j # js \<Rightarrow> sp_job j (s\<lparr>sp_queue := js\<rparr>))"

section \<open>Any interleaving\<close>

inductive sp_step :: "space_service \<Rightarrow> space_service \<Rightarrow> bool" where
  sp_save: "sp_saveSpace env d s = (r, t) \<Longrightarrow> sp_step s t"
| sp_delete: "sp_deleteSpace i s = (b, t) \<Longrightarrow> sp_step s t"
| sp_add: "sp_addMember env i u s = (r, t) \<Longrightarrow> sp_step s t"
| sp_remove: "sp_removeMember i u s = (r, t) \<Longrightarrow> sp_step s t"
| sp_activate: "sp_setActiveSpace u act s = (r, t) \<Longrightarrow> sp_step s t"
| sp_look: "sp_getActiveSpace u s = (act, t) \<Longrightarrow> sp_step s t"
| sp_work: "sp_run_job s = (d', t) \<Longrightarrow> sp_step s t"
| sp_disk: "sp_step s (s\<lparr>sp_writable := w\<rparr>)"

text \<open>
  Every id names an object with that id, jobs refer to objects that exist, and there are at most
  \<open>MAX_SPACES\<close> spaces.
\<close>

fun sjob_ok :: "space list \<Rightarrow> space_job \<Rightarrow> bool" where
  "sjob_ok os (JobSave a) \<longleftrightarrow> a < length os"
| "sjob_ok os (JobAdd a i u) \<longleftrightarrow> a < length os"
| "sjob_ok os (JobRemove a i u n) \<longleftrightarrow> a < length os"
| "sjob_ok os _ \<longleftrightarrow> True"

definition named :: "space list \<Rightarrow> nat jsmap \<Rightarrow> bool" where
  "named os m \<longleftrightarrow> distinct (keys m) \<and> (\<forall>k a. map_of m k = Some a \<longrightarrow> a < length os \<and> sd_id (os ! a) = k)"

definition sp_wf :: "space_service \<Rightarrow> bool" where
  "sp_wf s \<longleftrightarrow> named (sp_objs s) (sp_spaces s) \<and> length (sp_spaces s) \<le> MAX_SPACES \<and>
     list_all (sjob_ok (sp_objs s)) (sp_queue s)"

lemma namedD: "named os m \<Longrightarrow> map_of m k = Some a \<Longrightarrow> a < length os \<and> sd_id (os ! a) = k"
  unfolding named_def by blast

lemma named_grow:
  assumes "named os m" "length os \<le> length os'" "\<forall>a < length os. sd_id (os' ! a) = sd_id (os ! a)"
  shows "named os' m"
  unfolding named_def
proof (intro conjI allI impI)
  show "distinct (keys m)" using assms(1) by (simp add: named_def)
  fix k a assume "map_of m k = Some a"
  from namedD [OF assms(1) this] show "a < length os'" "sd_id (os' ! a) = k" using assms(2,3) by auto
qed

lemma named_append: "named os m \<Longrightarrow> named (os @ [d]) m"
  by (erule named_grow) (simp_all add: nth_append)

lemma named_members: "named os m \<Longrightarrow> named (os[a := (os ! a)\<lparr>sd_members := us\<rparr>]) m"
  by (erule named_grow) (cases "a < length os"; auto simp: nth_list_update list_update_beyond)+

lemma named_set: "named os m \<Longrightarrow> a < length os \<Longrightarrow> named os (set_key (sd_id (os ! a)) a m)"
  by (auto simp: named_def)

lemma named_del: "named os m \<Longrightarrow> named os (del_key i m)"
  by (auto simp: named_def)

lemma length_set_key: "length (set_key k v m) = (if has_key k m then length m else Suc (length m))"
  by (induction m) auto

lemma length_del_key: "length (del_key k m) \<le> length m"
  by (simp add: del_key_filter)

lemma sjob_ok_grow: "length os \<le> length os' \<Longrightarrow> list_all (sjob_ok os) js \<Longrightarrow> list_all (sjob_ok os') js"
proof (induction js)
  case (Cons j js)
  then show ?case by (cases j) auto
qed simp

lemma sp_persist_fields [simp]:
  "sp_objs (snd (sp_persist s)) = sp_objs s" "sp_spaces (snd (sp_persist s)) = sp_spaces s"
  "sp_active (snd (sp_persist s)) = sp_active s" "sp_queue (snd (sp_persist s)) = sp_queue s"
  "sp_objs (snd (sp_persistActive s)) = sp_objs s" "sp_spaces (snd (sp_persistActive s)) = sp_spaces s"
  "sp_active (snd (sp_persistActive s)) = sp_active s" "sp_queue (snd (sp_persistActive s)) = sp_queue s"
  "sp_objs (vault_calls cs s) = sp_objs s" "sp_spaces (vault_calls cs s) = sp_spaces s"
  "sp_active (vault_calls cs s) = sp_active s" "sp_queue (vault_calls cs s) = sp_queue s"
  by (simp_all add: sp_persist_def sp_persistActive_def vault_calls_def)

text \<open>What each job leaves in memory, whether or not the disk takes the write.\<close>

lemma job_save_state:
  assumes "sp_job_save a s = (d', t)"
  shows "sp_objs t = sp_objs s \<and> sp_queue t = sp_queue s \<and> sp_active t = sp_active s \<and>
    sp_spaces t = (if map_of (sp_spaces s) (sd_id (obj s a)) = None \<and> length (sp_spaces s) \<ge> MAX_SPACES
                   then sp_spaces s else set_key (sd_id (obj s a)) a (sp_spaces s))"
  using assms by (auto simp: sp_job_save_def Let_def sp_persist_def vault_calls_def split: if_splits)

lemma job_delete_state:
  assumes "sp_job_delete i s = (d', t)"
  shows "sp_objs t = sp_objs s \<and> sp_queue t = sp_queue s \<and>
    (map_of (sp_spaces s) i = None \<longrightarrow> t = s) \<and>
    (map_of (sp_spaces s) i \<noteq> None \<longrightarrow> sp_spaces t = del_key i (sp_spaces s) \<and>
       sp_active t = map (\<lambda>(u, v). (u, if v = Some i then None else v)) (sp_active s))"
  using assms
  by (auto simp: sp_job_delete_def Let_def sp_persist_def sp_persistActive_def vault_calls_def
      split: if_splits option.splits)

lemma job_add_state:
  assumes "sp_job_add a i u s = (d', t)"
  shows "sp_queue t = sp_queue s \<and> sp_spaces t = sp_spaces s \<and> sp_active t = sp_active s \<and>
    sp_objs t = (sp_objs s)[a := (obj s a)\<lparr>sd_members := sd_members (obj s a) @ [u]\<rparr>]"
  using assms by (auto simp: sp_job_add_def Let_def sp_persist_def vault_calls_def split: if_splits)

lemma job_remove_state:
  assumes "sp_job_remove a i u n s = (d', t)"
  shows "sp_queue t = sp_queue s \<and> sp_spaces t = sp_spaces s \<and>
    sp_objs t = (sp_objs s)[a := (obj s a)\<lparr>sd_members := splice1 n (sd_members (obj s a))\<rparr>]"
  using assms
  by (auto simp: sp_job_remove_def Let_def sp_persist_def sp_persistActive_def vault_calls_def split: if_splits)

lemma job_activate_state:
  assumes "sp_job_activate u i s = (d', t)"
  shows "sp_queue t = sp_queue s \<and> sp_spaces t = sp_spaces s \<and> sp_objs t = sp_objs s \<and>
    sp_active t = set_key u i (sp_active s)"
  using assms by (auto simp: sp_job_activate_def Let_def sp_persistActive_def split: if_splits)

lemmas job_states = job_save_state job_delete_state job_add_state job_remove_state job_activate_state

lemma sp_job_wf:
  assumes s: "sp_wf s" and j: "sjob_ok (sp_objs s) j" and run: "sp_job j s = (d', t)"
  shows "sp_wf t"
proof (cases j)
  case (JobSave a)
  then show ?thesis
    using s j job_save_state [of a s d' t] run by (auto simp: sp_wf_def length_set_key intro: named_set)
next
  case (JobDelete i)
  then show ?thesis
    using s job_delete_state [of i s d' t] run le_trans [OF length_del_key]
    by (cases "map_of (sp_spaces s) i") (auto simp: sp_wf_def intro: named_del)
next
  case (JobAdd a i u)
  then show ?thesis
    using s job_add_state [of a i u s d' t] run sjob_ok_grow [of "sp_objs s" "sp_objs t"]
    by (auto simp: sp_wf_def intro: named_members)
next
  case (JobRemove a i u n)
  then show ?thesis
    using s job_remove_state [of a i u n s d' t] run sjob_ok_grow [of "sp_objs s" "sp_objs t"]
    by (auto simp: sp_wf_def intro: named_members)
next
  case (JobActivate u i)
  then show ?thesis using s job_activate_state [of u i s d' t] run by (auto simp: sp_wf_def)
qed

lemma sp_step_wf: "sp_step s t \<Longrightarrow> sp_wf s \<Longrightarrow> sp_wf t"
proof (induction rule: sp_step.induct)
  case (sp_save env d s r t)
  have wf: "named (sp_objs s @ [d]) (sp_spaces s)" "list_all (sjob_ok (sp_objs s @ [d])) (sp_queue s)"
    using sp_save.prems named_append sjob_ok_grow [of "sp_objs s" "sp_objs s @ [d]"]
    by (simp_all add: sp_wf_def)
  show ?case
  proof (cases "validateSpace env d")
    case Nil
    then have "t = s\<lparr>sp_objs := sp_objs s @ [d], sp_queue := sp_queue s @ [JobSave (length (sp_objs s))]\<rparr>"
      using sp_save.hyps by (simp add: sp_saveSpace_def)
    then show ?thesis using wf sp_save.prems by (simp add: sp_wf_def)
  qed (use sp_save in \<open>simp add: sp_saveSpace_def\<close>)
next
  case (sp_work s d' t)
  then show ?case
  proof (cases "sp_queue s")
    case (Cons j js)
    then have "sp_wf (s\<lparr>sp_queue := js\<rparr>)" "sjob_ok (sp_objs (s\<lparr>sp_queue := js\<rparr>)) j"
      using sp_work.prems by (auto simp: sp_wf_def)
    moreover have "sp_job j (s\<lparr>sp_queue := js\<rparr>) = (d', t)"
      using sp_work.hyps Cons by (simp add: sp_run_job_def)
    ultimately show ?thesis by (rule sp_job_wf)
  qed (simp add: sp_run_job_def)
next
  case (sp_look u s act t)
  then show ?case by (auto simp: sp_getActiveSpace_def sp_wf_def split: option.splits if_splits)
next
  case (sp_add env i u s r t)
  then show ?case
    by (auto simp: sp_addMember_def sp_wf_def Let_def named_def split: option.splits if_splits list.splits)
next
  case (sp_remove i u s r t)
  then show ?case
    by (auto simp: sp_removeMember_def sp_wf_def named_def split: option.splits if_splits)
qed (auto simp: sp_deleteSpace_def sp_setActiveSpace_def sp_wf_def split: option.splits if_splits)

lemma sp_steps_wf: "sp_step\<^sup>*\<^sup>* s t \<Longrightarrow> sp_wf s \<Longrightarrow> sp_wf t"
  by (induction rule: rtranclp_induct) (auto dest: sp_step_wf)

section \<open>What validation accepts\<close>

definition lives_in :: "space_env \<Rightarrow> string \<Rightarrow> string \<Rightarrow> bool" where
  "lives_in env hh u \<longleftrightarrow>
     (case se_household env of None \<Rightarrow> True | Some h \<Rightarrow> hs_getHouseholdForUser u h = Some hh)"

definition valid_space :: "space_env \<Rightarrow> space \<Rightarrow> bool" where
  "valid_space env d \<longleftrightarrow>
     space_id_pattern (sd_id d) \<and> length (sd_id d) \<le> 50 \<and>
     trim (sd_name d) \<noteq> [] \<and> length (sd_name d) \<le> 100 \<and>
     length (sd_members d) \<le> 50 \<and> distinct (sd_members d) \<and>
     set (sd_members d) \<subseteq> set (se_registered env) \<and>
     sd_createdBy d \<noteq> [] \<and> sd_createdBy d \<in> set (sd_members d) \<and>
     (case sd_kind d of
        None \<Rightarrow> True
      | Some KCollaboration \<Rightarrow> sd_householdId d = None \<or> sd_householdId d = Some []
      | Some KHousehold \<Rightarrow>
          (\<exists>hh. sd_householdId d = Some hh \<and> safe_segment hh \<and> (\<forall>u \<in> set (sd_members d). lives_in env hh u)))"

lemma length_uniq: "length (uniq xs) = length xs \<longleftrightarrow> distinct xs"
proof
  show "length (uniq xs) = length xs \<Longrightarrow> distinct xs"
    by (metis card_distinct distinct_card uniq_props)
  show "distinct xs \<Longrightarrow> length (uniq xs) = length xs"
    by (metis distinct_card uniq_props)
qed

lemma home_errors_Nil: "home_errors h hh u = [] \<longleftrightarrow> hs_getHouseholdForUser u h = Some hh"
  by (auto simp: home_errors_def split: option.splits)

lemma kind_checks:
  "(case k of
      Some KHousehold \<Rightarrow>
        (case truthy hid of None \<Rightarrow> [HouseholdIdRequired]
         | Some hh \<Rightarrow> if safe_segment hh then [] else [HouseholdIdMalformed])
    | Some KCollaboration \<Rightarrow> if truthy hid = None then [] else [HouseholdIdForbidden]
    | None \<Rightarrow> []) = [] \<and>
   (case (k, truthy hid, se_household env) of
      (Some KHousehold, Some hh, Some h) \<Rightarrow> concat (map (home_errors h hh) us)
    | _ \<Rightarrow> []) = [] \<longleftrightarrow>
   (case k of
      None \<Rightarrow> True
    | Some KCollaboration \<Rightarrow> hid = None \<or> hid = Some []
    | Some KHousehold \<Rightarrow> (\<exists>hh. hid = Some hh \<and> safe_segment hh \<and> (\<forall>u \<in> set us. lives_in env hh u)))"
proof (cases k)
  case (Some kind)
  show ?thesis
  proof (cases kind)
    case KHousehold
    then show ?thesis
      using Some
      by (cases hid; cases "se_household env")
        (auto simp: lives_in_def home_errors_Nil safe_segment_def split: if_splits option.splits)
  next
    case KCollaboration
    then show ?thesis using Some by (auto simp: truthy_iff)
  qed
qed simp

lemma id_checks:
  "(if sd_id d = [] then [IdRequired] else if \<not> space_id_pattern (sd_id d) then [IdMalformed]
    else if length (sd_id d) > MAX_SPACE_ID_LENGTH then [IdTooLong] else []) = [] \<longleftrightarrow>
   space_id_pattern (sd_id d) \<and> length (sd_id d) \<le> 50"
  by (cases "sd_id d") (auto simp: MAX_SPACE_ID_LENGTH_def)

lemma creator_checks:
  "map MemberNotRegistered (filter (\<lambda>u. \<not> is_registered env u) us) = [] \<Longrightarrow>
   (if c = [] then [CreatorRequired]
    else (if is_registered env c then [] else [CreatorNotRegistered]) @
         (if c \<in> set us then [] else [CreatorNotMember])) = [] \<longleftrightarrow> c \<noteq> [] \<and> c \<in> set us"
  by (auto simp: filter_empty_conv)

lemma validateSpace_iff: "validateSpace env d = [] \<longleftrightarrow> valid_space env d"
proof -
  have reg: "map MemberNotRegistered (filter (\<lambda>u. \<not> is_registered env u) (sd_members d)) = [] \<longleftrightarrow>
      set (sd_members d) \<subseteq> set (se_registered env)"
    by (auto simp: filter_empty_conv is_registered_def)
  note * = kind_checks [where k = "sd_kind d" and hid = "sd_householdId d" and env = env and us = "sd_members d"]
  show ?thesis
    unfolding validateSpace_def append_is_Nil_conv id_checks valid_space_def
    using * reg creator_checks [of env "sd_members d" "sd_createdBy d"] length_uniq [of "sd_members d"]
    by (auto simp: MAX_SPACE_NAME_LENGTH_def MAX_MEMBERS_PER_SPACE_def simp del: option.case append_is_Nil_conv)
qed

section \<open>Calls that are awaited before the next\<close>

datatype space_call =
    CSave space
  | CDelete string
  | CAdd string string
  | CRemove string string
  | CActivate string "string option"

text \<open>The synchronous half, with whether it was accepted, and then the job it left.\<close>

fun sp_call :: "space_env \<Rightarrow> space_call \<Rightarrow> space_service \<Rightarrow> bool \<times> space_service" where
  "sp_call env (CSave d) s = (let (es, t) = sp_saveSpace env d s in (es = [], t))"
| "sp_call env (CDelete i) s = sp_deleteSpace i s"
| "sp_call env (CAdd i u) s = (let (es, t) = sp_addMember env i u s in (es = [], t))"
| "sp_call env (CRemove i u) s = (let (es, t) = sp_removeMember i u s in (es = [], t))"
| "sp_call env (CActivate u i) s = (let (es, t) = sp_setActiveSpace u i s in (es = [], t))"

definition sp_serve :: "space_env \<Rightarrow> space_call \<Rightarrow> space_service \<Rightarrow> space_service" where
  "sp_serve env c s = snd (sp_run_job (snd (sp_call env c s)))"

text \<open>The abstract state: who belongs to which space.\<close>

definition members_of :: "space_service \<Rightarrow> string \<Rightarrow> string set option" where
  "members_of s i = map_option (\<lambda>sp. set (sd_members sp)) (sp_getSpace i s)"

fun ab_call :: "space_call \<Rightarrow> (string \<Rightarrow> string set option) \<Rightarrow> string \<Rightarrow> string set option" where
  "ab_call (CSave d) M =
     (if M (sd_id d) = None \<and> card (dom M) \<ge> 20 then M else M(sd_id d \<mapsto> set (sd_members d)))"
| "ab_call (CDelete i) M = M(i := None)"
| "ab_call (CAdd i u) M = M(i := map_option (insert u) (M i))"
| "ab_call (CRemove i u) M = M(i := map_option (\<lambda>m. m - {u}) (M i))"
| "ab_call (CActivate u i) M = M"

definition all_valid :: "space_env \<Rightarrow> space list \<Rightarrow> nat jsmap \<Rightarrow> bool" where
  "all_valid env os m \<longleftrightarrow> named os m \<and> (\<forall>k a. map_of m k = Some a \<longrightarrow> valid_space env (os ! a))"

definition members_in :: "space list \<Rightarrow> nat jsmap \<Rightarrow> string \<Rightarrow> string set option" where
  "members_in os m i = map_option (\<lambda>a. set (sd_members (os ! a))) (map_of m i)"

lemma members_of_in: "members_of s = members_in (sp_objs s) (sp_spaces s)"
  by (rule ext) (simp add: members_of_def members_in_def sp_getSpace_def option.map_comp comp_def)

lemma all_validD:
  assumes "all_valid env os m" "map_of m k = Some a"
  shows "a < length os" "sd_id (os ! a) = k" "valid_space env (os ! a)"
  using assms namedD by (auto simp: all_valid_def)

lemma card_members: "named os m \<Longrightarrow> card (dom (members_in os m)) = length m"
proof -
  assume "named os m"
  then have "distinct (keys m)" by (simp add: named_def)
  moreover have "dom (members_in os m) = set (keys m)"
    using dom_map_of_conv_image_fst [of m] by (auto simp: members_in_def dom_def)
  ultimately show ?thesis by (metis distinct_card length_map)
qed

text \<open>Replacing the members of one object changes one entry.\<close>

lemma edit_members:
  assumes v: "all_valid env os m" and a: "map_of m i = Some a"
    and ok: "valid_space env ((os ! a)\<lparr>sd_members := us\<rparr>)"
  defines "os' \<equiv> os[a := (os ! a)\<lparr>sd_members := us\<rparr>]"
  shows "members_in os' m = (members_in os m)(i \<mapsto> set us)" "all_valid env os' m"
proof -
  have other: "os' ! b = os ! b" if "map_of m k = Some b" "k \<noteq> i" for k b
    using that all_validD [OF v that(1)] all_validD [OF v a] by (auto simp: os'_def nth_list_update)
  have this_one: "os' ! a = (os ! a)\<lparr>sd_members := us\<rparr>"
    using all_validD [OF v a] by (simp add: os'_def)
  show "members_in os' m = (members_in os m)(i \<mapsto> set us)"
  proof (rule ext)
    fix k
    show "members_in os' m k = ((members_in os m)(i \<mapsto> set us)) k"
      using other [of k] this_one a by (cases "map_of m k") (auto simp: members_in_def)
  qed
  have "valid_space env (os' ! b)" if "map_of m k = Some b" for k b
    using other [OF that] this_one ok a that all_validD [OF v that] by (cases "k = i") auto
  then show "all_valid env os' m"
    using v named_members by (auto simp: all_valid_def os'_def)
qed

lemma splice_index:
  "index_of u us = Some n \<Longrightarrow> distinct us \<Longrightarrow> set (splice1 n us) = set us - {u} \<and> distinct (splice1 n us) \<and> length (splice1 n us) \<le> length us"
proof (induction us arbitrary: n)
  case (Cons v us)
  then show ?case
    by (cases "u = v"; cases n) (auto simp: splice1_def)
qed simp

lemma index_of_None: "index_of u us = None \<longleftrightarrow> u \<notin> set us"
  by (induction us) auto

lemma valid_add:
  assumes "valid_space env sp" "is_registered env u" "u \<notin> set (sd_members sp)"
    "length (sd_members sp) < MAX_MEMBERS_PER_SPACE"
    "(case (sd_kind sp, truthy (sd_householdId sp), se_household env) of
        (Some KHousehold, Some hh, Some h) \<Rightarrow> home_errors h hh u | _ \<Rightarrow> []) = []"
  shows "valid_space env (sp\<lparr>sd_members := sd_members sp @ [u]\<rparr>)"
proof (cases "sd_kind sp = Some KHousehold")
  case True
  then obtain hh where "sd_householdId sp = Some hh" "safe_segment hh"
    using assms(1) by (auto simp: valid_space_def)
  moreover have "lives_in env hh u"
    using calculation assms(5) True
    by (cases "se_household env") (auto simp: lives_in_def home_errors_Nil truthy_iff safe_segment_def)
  ultimately show ?thesis
    using assms(1-4) True by (auto simp: valid_space_def is_registered_def MAX_MEMBERS_PER_SPACE_def)
next
  case False
  then show ?thesis
    using assms(1-4)
    by (cases "sd_kind sp"; cases "the (sd_kind sp)")
       (auto simp: valid_space_def is_registered_def MAX_MEMBERS_PER_SPACE_def)
qed

lemma valid_remove:
  assumes "valid_space env sp" "set us = set (sd_members sp) - {u}" "distinct us"
    "length us \<le> length (sd_members sp)" "sd_createdBy sp \<noteq> u"
  shows "valid_space env (sp\<lparr>sd_members := us\<rparr>)"
  using assms by (cases "sd_kind sp"; cases "the (sd_kind sp)") (auto simp: valid_space_def)

definition sp_valid :: "space_env \<Rightarrow> space_service \<Rightarrow> bool" where
  "sp_valid env s \<longleftrightarrow> all_valid env (sp_objs s) (sp_spaces s) \<and> length (sp_spaces s) \<le> MAX_SPACES \<and> sp_queue s = []"

lemma serve_save:
  assumes v: "sp_valid env s" and "sp_saveSpace env d s = ([], t)"
  shows "members_of (snd (sp_run_job t)) = ab_call (CSave d) (members_of s) \<and> sp_valid env (snd (sp_run_job t))"
proof -
  let ?os = "sp_objs s @ [d]" and ?a = "length (sp_objs s)" and ?m = "sp_spaces s"
  have d: "valid_space env d"
    using assms(2) validateSpace_iff by (auto simp: sp_saveSpace_def split: list.splits)
  have t: "t = s\<lparr>sp_objs := ?os, sp_queue := [JobSave ?a]\<rparr>"
    using assms by (auto simp: sp_saveSpace_def sp_valid_def split: list.splits)
  have av: "all_valid env (sp_objs s) ?m" using v by (simp add: sp_valid_def)
  have grow: "members_in ?os m = members_in (sp_objs s) m" if "all_valid env (sp_objs s) m" for m
  proof (rule ext)
    fix k
    show "members_in ?os m k = members_in (sp_objs s) m k"
      using all_validD [OF that, of k] by (cases "map_of m k") (auto simp: members_in_def nth_append)
  qed
  have keep: "all_valid env ?os ?m"
    using av all_validD [OF av] named_append by (auto simp: all_valid_def nth_append)
  have nm: "named (sp_objs s) ?m" using av by (simp add: all_valid_def)
  let ?full = "map_of ?m (sd_id d) = None \<and> length ?m \<ge> MAX_SPACES"
  define r where "r = snd (sp_run_job t)"
  have "sp_job (JobSave ?a) (s\<lparr>sp_objs := ?os, sp_queue := []\<rparr>) = (fst (sp_run_job t), r)"
    by (simp add: r_def t sp_run_job_def)
  from job_save_state [OF this [simplified]]
  have r: "sp_objs r = ?os" "sp_queue r = []"
    "sp_spaces r = (if ?full then ?m else set_key (sd_id d) ?a ?m)" by simp_all
  have full: "?full \<longleftrightarrow> members_of s (sd_id d) = None \<and> card (dom (members_of s)) \<ge> 20"
    using card_members [OF nm] by (simp add: members_of_in members_in_def MAX_SPACES_def)
  have "members_in ?os (set_key (sd_id d) ?a ?m) = (members_in ?os ?m)(sd_id d \<mapsto> set (sd_members d))"
    by (rule ext) (simp add: members_in_def)
  then have "members_of r = ab_call (CSave d) (members_of s)"
    using full grow [OF av] by (simp add: members_of_in r)
  moreover have "all_valid env ?os (set_key (sd_id d) ?a ?m)"
    using keep d named_set [of ?os ?m ?a] by (auto simp: all_valid_def)
  then have "sp_valid env r"
    using keep v by (auto simp: sp_valid_def r length_set_key)
  ultimately show ?thesis by (simp add: r_def)
qed

lemma serve_delete:
  assumes v: "sp_valid env s" and "sp_deleteSpace i s = (True, t)"
  shows "members_of (snd (sp_run_job t)) = ab_call (CDelete i) (members_of s) \<and> sp_valid env (snd (sp_run_job t))"
proof -
  have i: "map_of (sp_spaces s) i \<noteq> None" and t: "t = s\<lparr>sp_queue := [JobDelete i]\<rparr>"
    using assms by (auto simp: sp_deleteSpace_def sp_valid_def split: if_splits)
  define r where "r = snd (sp_run_job t)"
  have "sp_job (JobDelete i) (s\<lparr>sp_queue := []\<rparr>) = (fst (sp_run_job t), r)"
    by (simp add: r_def t sp_run_job_def)
  from job_delete_state [OF this [simplified]]
  have r: "sp_objs r = sp_objs s" "sp_queue r = []" "sp_spaces r = del_key i (sp_spaces s)" using i by simp_all
  have "members_of r = (members_of s)(i := None)"
    by (rule ext) (simp add: members_of_in members_in_def r)
  moreover have "sp_valid env r"
    using v named_del le_trans [OF length_del_key] by (auto simp: sp_valid_def all_valid_def r)
  ultimately show ?thesis by (simp add: r_def)
qed

lemma serve_add:
  assumes v: "sp_valid env s" and acc: "sp_addMember env i u s = ([], t)"
  shows "members_of (snd (sp_run_job t)) = ab_call (CAdd i u) (members_of s) \<and> sp_valid env (snd (sp_run_job t))"
proof -
  have av: "all_valid env (sp_objs s) (sp_spaces s)" using v by (simp add: sp_valid_def)
  obtain a where a: "map_of (sp_spaces s) i = Some a"
    and u: "is_registered env u" "u \<notin> set (sd_members (obj s a))" "length (sd_members (obj s a)) < MAX_MEMBERS_PER_SPACE"
      "(case (sd_kind (obj s a), truthy (sd_householdId (obj s a)), se_household env) of
          (Some KHousehold, Some hh, Some h) \<Rightarrow> home_errors h hh u | _ \<Rightarrow> []) = []"
    and t: "t = s\<lparr>sp_queue := [JobAdd a i u]\<rparr>"
    using acc v by (simp add: sp_addMember_def Let_def sp_valid_def split: option.split_asm if_split_asm list.split_asm)
  define r where "r = snd (sp_run_job t)"
  have "sp_job (JobAdd a i u) (s\<lparr>sp_queue := []\<rparr>) = (fst (sp_run_job t), r)"
    by (simp add: r_def t sp_run_job_def)
  note r = job_add_state [OF this [simplified], simplified]
  have ok: "valid_space env ((obj s a)\<lparr>sd_members := sd_members (obj s a) @ [u]\<rparr>)"
    by (rule valid_add [OF all_validD(3) [OF av a] u])
  show ?thesis
    using edit_members [OF av a ok] v r a
    by (simp add: members_of_in r_def [symmetric] sp_valid_def members_in_def)
qed

lemma serve_remove:
  assumes v: "sp_valid env s" and acc: "sp_removeMember i u s = ([], t)"
  shows "members_of (snd (sp_run_job t)) = ab_call (CRemove i u) (members_of s) \<and> sp_valid env (snd (sp_run_job t))"
proof -
  have av: "all_valid env (sp_objs s) (sp_spaces s)" using v by (simp add: sp_valid_def)
  obtain a n where a: "map_of (sp_spaces s) i = Some a" and c: "sd_createdBy (obj s a) \<noteq> u"
    and n: "index_of u (sd_members (obj s a)) = Some n" and t: "t = s\<lparr>sp_queue := [JobRemove a i u n]\<rparr>"
    using acc v by (simp add: sp_removeMember_def sp_valid_def split: option.split_asm if_split_asm)
  define r where "r = snd (sp_run_job t)"
  have "sp_job (JobRemove a i u n) (s\<lparr>sp_queue := []\<rparr>) = (fst (sp_run_job t), r)"
    by (simp add: r_def t sp_run_job_def)
  note r = job_remove_state [OF this [simplified], simplified]
  have sp: "valid_space env (obj s a)" by (rule all_validD(3) [OF av a])
  then have "distinct (sd_members (obj s a))" by (simp add: valid_space_def)
  from splice_index [OF n this] have spl: "set (splice1 n (sd_members (obj s a))) = set (sd_members (obj s a)) - {u}"
    "distinct (splice1 n (sd_members (obj s a)))"
    "length (splice1 n (sd_members (obj s a))) \<le> length (sd_members (obj s a))" by simp_all
  from edit_members [OF av a valid_remove [OF sp spl c]] show ?thesis
    using v r a spl(1) by (simp add: members_of_in r_def [symmetric] sp_valid_def members_in_def)
qed

lemma serve_activate:
  assumes v: "sp_valid env s" and acc: "sp_setActiveSpace u act s = ([], t)"
  shows "members_of (snd (sp_run_job t)) = members_of s \<and> sp_valid env (snd (sp_run_job t))"
proof -
  have t: "t = s\<lparr>sp_queue := [JobActivate u act]\<rparr>"
    using acc v by (simp add: sp_setActiveSpace_def sp_valid_def split: option.split_asm if_split_asm)
  define r where "r = snd (sp_run_job t)"
  have "sp_job (JobActivate u act) (s\<lparr>sp_queue := []\<rparr>) = (fst (sp_run_job t), r)"
    by (simp add: r_def t sp_run_job_def)
  note r = job_activate_state [OF this [simplified], simplified]
  show ?thesis using v r by (simp add: members_of_in r_def [symmetric] sp_valid_def)
qed

lemma refused_unchanged: "sp_call env c s = (False, t) \<Longrightarrow> t = s"
  by (cases c)
     (auto simp: sp_saveSpace_def sp_deleteSpace_def sp_addMember_def sp_removeMember_def sp_setActiveSpace_def Let_def
       split: list.split_asm option.split_asm if_split_asm prod.split_asm)

lemma sp_serve_refines:
  assumes "sp_valid env s"
  shows "members_of (sp_serve env c s) =
      (if fst (sp_call env c s) then ab_call c (members_of s) else members_of s) \<and> sp_valid env (sp_serve env c s)"
proof (cases "sp_call env c s")
  case (Pair b t)
  show ?thesis
  proof (cases b)
    case True
    then show ?thesis
      using Pair assms serve_save serve_delete serve_add serve_remove serve_activate
      by (cases c) (auto simp: sp_serve_def Let_def split: prod.splits)
  next
    case False
    then show ?thesis
      using Pair assms refused_unchanged [of env c s t]
      by (simp add: sp_serve_def sp_run_job_def sp_valid_def)
  qed
qed

section \<open>What happens when calls overlap\<close>

definition three_members :: space_service where
  "three_members =
     \<lparr>sp_objs = [\<lparr>sd_id = ''s'', sd_name = ''S'', sd_description = [], sd_members = [''b'', ''owner'', ''c''],
        sd_createdBy = ''owner'', sd_createdAt = [], sd_kind = None, sd_householdId = None\<rparr>],
      sp_spaces = [(''s'', 0)], sp_active = [], sp_queue = [], sp_vault = None, sp_file = [], sp_activeFile = [],
      sp_writable = True\<rparr>"

text \<open>
  Two requests to remove the same member, the second arriving before the first job has run, both
  report success; the second one splices out whoever then stands at the stale index: here the
  creator, whom no request can remove.
\<close>

lemma overlapping_removals_remove_the_creator:
  "let (e1, s1) = sp_removeMember ''s'' ''b'' three_members;
       (e2, s2) = sp_removeMember ''s'' ''b'' s1;
       s3 = snd (sp_run_job (snd (sp_run_job s2)))
   in e1 = [] \<and> e2 = [] \<and> map_option sd_members (sp_getSpace ''s'' s3) = Some [''c'']"
  by code_simp

text \<open>A member added while a save is queued lands in the object that the save replaces.\<close>

lemma overlapping_save_loses_the_member:
  "let env = \<lparr>se_registered = [''owner'', ''b'', ''c'', ''d''], se_household = None\<rparr>;
       (e1, s1) = sp_saveSpace env (hd (sp_objs three_members)) three_members;
       (e2, s2) = sp_addMember env ''s'' ''d'' s1;
       s3 = snd (sp_run_job (snd (sp_run_job s2)))
   in e1 = [] \<and> e2 = [] \<and> \<not> sp_isMember ''s'' ''d'' s3"
  by code_simp

section \<open>The contract the data store relies on\<close>

locale space_directory =
  fixes is_member :: "string \<Rightarrow> string \<Rightarrow> 's \<Rightarrow> bool"
    and get_space :: "string \<Rightarrow> 's \<Rightarrow> 'd option"
    and roster :: "'d \<Rightarrow> string list"
  assumes member_law: "is_member i u s \<longleftrightarrow> (\<exists>d. get_space i s = Some d \<and> u \<in> set (roster d))"
begin

lemma member_has_space: "is_member i u s \<Longrightarrow> get_space i s \<noteq> None"
  by (auto simp: member_law)

lemma no_space_no_member: "get_space i s = None \<Longrightarrow> \<not> is_member i u s"
  by (simp add: member_law)

end

interpretation sp: space_directory sp_isMember sp_getSpace sd_members
  by unfold_locales (auto simp: sp_isMember_def split: option.splits)

section \<open>Properties\<close>

text \<open>
  \<open>validateSpace\<close> accepts a definition, with no error at all, exactly when it is a valid space:
  well-formed id and name within their limits, at most 50 distinct registered members among them
  the creator, a household kind with a safe household where every member lives (when the household
  service is wired), and no household on a collaboration.
\<close>

lemma validateSpace_decides: "validateSpace env d = [] \<longleftrightarrow> valid_space env d"
  by (rule validateSpace_iff)

text \<open>
  Under any interleaving of requests, jobs and disk failures every space stays filed under its
  own id, ids stay unique, there are never more than 20 spaces and every queued job refers to an
  object that exists.
\<close>

lemma spaces_well_filed: "sp_wf s \<Longrightarrow> sp_step\<^sup>*\<^sup>* s t \<Longrightarrow> sp_wf t"
  using sp_steps_wf by blast

lemma spaces_well_filed_witness: "sp_wf (snd (sp_run_job (snd (sp_removeMember ''s'' ''b'' three_members))))"
proof -
  let ?t = "snd (sp_removeMember ''s'' ''b'' three_members)"
  have "sp_wf three_members" by (simp add: sp_wf_def named_def three_members_def MAX_SPACES_def)
  moreover have "sp_step three_members ?t" by (rule sp_remove [OF surjective_pairing])
  moreover have "sp_step ?t (snd (sp_run_job ?t))" by (rule sp_work [OF surjective_pairing])
  ultimately show ?thesis by (meson rtranclp.intros spaces_well_filed)
qed

text \<open>
  C21. Calls that are awaited before the next one refine an abstract membership table: an
  accepted save writes one row (unless the table is full), a delete erases one, adding and
  removing a member insert and delete exactly that member, a refused call changes nothing,
  and every space on file stays valid, whether or not the disk takes the writes.
\<close>

theorem spaces_refine_membership:
  assumes "sp_valid env s"
  shows "members_of (sp_serve env c s) =
      (if fst (sp_call env c s) then ab_call c (members_of s) else members_of s) \<and> sp_valid env (sp_serve env c s)"
  by (rule sp_serve_refines [OF assms])

definition sample_env :: space_env where
  "sample_env = \<lparr>se_registered = [''owner'', ''b'', ''c'', ''d''], se_household = None\<rparr>"

lemma spaces_refine_membership_witness:
  "members_of (sp_serve sample_env (CRemove ''s'' ''b'') three_members) =
     (if fst (sp_call sample_env (CRemove ''s'' ''b'') three_members)
      then ab_call (CRemove ''s'' ''b'') (members_of three_members) else members_of three_members) \<and>
   sp_valid sample_env (sp_serve sample_env (CRemove ''s'' ''b'') three_members)"
proof (rule spaces_refine_membership)
  have "valid_space sample_env (hd (sp_objs three_members))"
    by (simp add: valid_space_def three_members_def sample_env_def is_lower_az_def trim_def is_ws_def)
  then show "sp_valid sample_env three_members"
    by (simp add: sp_valid_def all_valid_def named_def three_members_def MAX_SPACES_def)
qed

text \<open>
  No user ever works in a space they do not belong to: whatever the stored choice and however
  memberships changed since, \<open>getActiveSpace\<close> answers a space only to one of its present members, and
  otherwise answers none and forgets the choice, leaving other users' choices alone.
\<close>

lemma active_space_is_own:
  "case sp_getActiveSpace u s of
     (Some i, t) \<Rightarrow> t = s \<and> sp_isMember i u s \<and> map_of (sp_active s) u = Some (Some i)
   | (None, t) \<Rightarrow>
       truthy (get_or None (sp_active t) u) = None \<and> sp_objs t = sp_objs s \<and> sp_spaces t = sp_spaces s \<and>
       (v = u \<or> map_of (sp_active t) v = map_of (sp_active s) v)"
  by (auto simp: sp_getActiveSpace_def truthy_iff get_or_def split: option.splits)

end
