(* ===== verification/Data_Store.thy ===== *)
theory Data_Store
  imports Spaces
begin

text \<open>
  \<open>core/src/services/data-store\<close> (\<open>index.ts\<close>, \<open>scoped-store.ts\<close>, \<open>change-log.ts\<close>) with what it uses of
  \<open>utils/file.ts\<close>: the stores an app gets for a user, for the shared area or for a space, and the
  file operations they offer.

  The disk is a map from absolute paths to contents and a list of directories; an operation that
  the operating system refuses (a file in the place of a directory or the other way round)
  fails. The request context, which the code reads from the asynchronous store, and the time are
  arguments. \<open>ws_log\<close> holds the entries of \<open>change-log.jsonl\<close>, \<open>ws_events\<close> the events emitted.
  Overlapping operations on one file are not modelled; the ones on different files commute.
\<close>

section \<open>Files\<close>

record disk =
  dk_files :: "string jsmap"
  dk_dirs :: "string list"

definition ancestors :: "string \<Rightarrow> string list" where
  "ancestors p = (let ss = resolve_segs ''/'' [p] in map (\<lambda>k. render (take k ss)) [0 ..< Suc (length ss)])"

definition dirname :: "string \<Rightarrow> string" where
  "dirname p = render (butlast (resolve_segs ''/'' [p]))"

definition is_file :: "string \<Rightarrow> disk \<Rightarrow> bool" where
  "is_file p d \<longleftrightarrow> has_key p (dk_files d)"

definition is_dir :: "string \<Rightarrow> disk \<Rightarrow> bool" where
  "is_dir p d \<longleftrightarrow> p \<in> set (dk_dirs d)"

definition ensureDir :: "string \<Rightarrow> disk \<Rightarrow> disk option" where
  "ensureDir p d =
     (if list_ex (\<lambda>a. is_file a d) (ancestors p) then None
      else Some (d\<lparr>dk_dirs := dk_dirs d @ filter (\<lambda>a. a \<notin> set (dk_dirs d)) (ancestors p)\<rparr>))"

definition put_file :: "string \<Rightarrow> string \<Rightarrow> disk \<Rightarrow> disk option" where
  "put_file p c d = (if is_dir p d then None else Some (d\<lparr>dk_files := set_key p c (dk_files d)\<rparr>))"

definition atomicWrite :: "string \<Rightarrow> string \<Rightarrow> disk \<Rightarrow> disk option" where
  "atomicWrite p c d = Option.bind (ensureDir (dirname p) d) (put_file p c)"

definition fs_append :: "string \<Rightarrow> string \<Rightarrow> disk \<Rightarrow> disk option" where
  "fs_append p c d = put_file p (get_or [] (dk_files d) p @ c) d"

definition appendWithFrontmatter :: "string \<Rightarrow> string \<Rightarrow> string \<Rightarrow> disk \<Rightarrow> disk option" where
  "appendWithFrontmatter p c fm d =
     Option.bind (ensureDir (dirname p) d)
       (\<lambda>d. if \<not> (is_file p d \<or> is_dir p d) then put_file p (fm @ c) d else fs_append p c d)"

definition fs_rename :: "string \<Rightarrow> string \<Rightarrow> disk \<Rightarrow> disk option" where
  "fs_rename a b d =
     (case map_of (dk_files d) a of
        None \<Rightarrow> None
      | Some c \<Rightarrow> if is_dir b d then None
                  else Some (d\<lparr>dk_files := set_key b c (if a = b then dk_files d else del_key a (dk_files d))\<rparr>))"

text \<open>\<open>readdir\<close>: the names of the files and directories directly below.\<close>

definition readdir :: "string \<Rightarrow> disk \<Rightarrow> string list" where
  "readdir p d =
     (let ss = resolve_segs ''/'' [p];
          below = filter (\<lambda>q. q \<noteq> [] \<and> butlast q = ss) (map (\<lambda>q. resolve_segs ''/'' [q]) (keys (dk_files d) @ dk_dirs d))
      in remdups (map last below))"

text \<open>\<open>toArchiveTimestamp\<close>: \<open>replace(/:/g, '-')\<close>, then the first \<open>T\<close>, then 19 characters.\<close>

fun replace_char :: "char \<Rightarrow> char \<Rightarrow> string \<Rightarrow> string" where
  "replace_char a b [] = []"
| "replace_char a b (c # s) = (if c = a then b # s else c # replace_char a b s)"

definition toArchiveTimestamp :: "time \<Rightarrow> string" where
  "toArchiveTimestamp t =
     take 19 (replace_char (CHR ''T'') (CHR ''_'')
       (map (\<lambda>c. if c = CHR '':'' then CHR ''-'' else c) (iso_string t)))"

section \<open>Stores\<close>

datatype symbol = SYSTEM_BYPASS_TOKEN | OtherSymbol nat

record event_meta =
  em_householdId :: "string option"
  em_spaceKind :: "space_kind option"
  em_collaborationId :: "string option"
  em_sharedSelector :: "string option"

datatype operation = OpRead | OpWrite | OpAppend | OpArchive

record change_entry =
  ce_timestamp :: string
  ce_operation :: operation
  ce_path :: string
  ce_appId :: string
  ce_userId :: string
  ce_spaceId :: "string option"
  ce_meta :: event_meta

record data_event =
  de_operation :: operation
  de_appId :: string
  de_userId :: "string option"
  de_path :: string
  de_spaceId :: "string option"
  de_meta :: event_meta

record scoped_store =
  ss_baseDir :: string
  ss_appId :: string
  ss_userId :: "string option"
  ss_spaceId :: "string option"
  ss_hasBus :: bool
  ss_scopes :: "data_scope list option"
  ss_bypass :: bool
  ss_meta :: event_meta

record store_world =
  ws_disk :: disk
  ws_log :: "change_entry list"
  ws_events :: "data_event list"

datatype store_error = Refused path_error | DiskError

definition new_ScopedStore :: "scoped_store \<Rightarrow> symbol option \<Rightarrow> path_error + scoped_store" where
  "new_ScopedStore opts tok =
     (if tok \<noteq> None \<and> tok \<noteq> Some SYSTEM_BYPASS_TOKEN then Inl InvalidBypassToken
      else Inr (opts\<lparr>ss_bypass := (tok = Some SYSTEM_BYPASS_TOKEN)\<rparr>))"

text \<open>\<open>op\<close> is \<open>read\<close> or \<open>write\<close>.\<close>

definition op_name :: "bool \<Rightarrow> string" where
  "op_name wr = (if wr then ''write'' else ''read'')"

definition checkScope :: "scoped_store \<Rightarrow> string \<Rightarrow> bool \<Rightarrow> path_error option" where
  "checkScope st path wr =
     (let no = Some (ScopeViolationError path (op_name wr) (ss_appId st)) in
      if ss_bypass st then None
      else (case ss_scopes st of
              None \<Rightarrow> no
            | Some scs \<Rightarrow>
                if scs = [] then no
                else (case findMatchingScope path scs of
                        None \<Rightarrow> no
                      | Some sc \<Rightarrow>
                          if wr \<and> ds_access sc = AccRead then no
                          else if \<not> wr \<and> ds_access sc = AccWrite then no
                          else None)))"

definition record_change :: "time \<Rightarrow> scoped_store \<Rightarrow> operation \<Rightarrow> string \<Rightarrow> store_world \<Rightarrow> store_world" where
  "record_change now st op path w =
     w\<lparr>ws_log := ws_log w @
        [\<lparr>ce_timestamp = iso_string now, ce_operation = op, ce_path = path, ce_appId = ss_appId st,
          ce_userId = (case ss_userId st of None \<Rightarrow> ''system'' | Some u \<Rightarrow> u),
          ce_spaceId = truthy (ss_spaceId st), ce_meta = ss_meta st\<rparr>]\<rparr>"

definition emitDataChanged :: "scoped_store \<Rightarrow> operation \<Rightarrow> string \<Rightarrow> store_world \<Rightarrow> store_world" where
  "emitDataChanged st op path w =
     (if \<not> ss_hasBus st then w
      else w\<lparr>ws_events := ws_events w @
        [\<lparr>de_operation = op, de_appId = ss_appId st, de_userId = ss_userId st, de_path = path,
          de_spaceId = truthy (ss_spaceId st), de_meta = ss_meta st\<rparr>]\<rparr>)"

text \<open>The check and the resolution every operation starts with.\<close>

definition store_path :: "string \<Rightarrow> scoped_store \<Rightarrow> string \<Rightarrow> bool \<Rightarrow> store_error + string" where
  "store_path cwd st path wr =
     (case checkScope st path wr of
        Some e \<Rightarrow> Inl (Refused e)
      | None \<Rightarrow> (case resolveScopedPath cwd (ss_baseDir st) path of Inl e \<Rightarrow> Inl (Refused e) | Inr p \<Rightarrow> Inr p))"

definition store_read :: "string \<Rightarrow> time \<Rightarrow> scoped_store \<Rightarrow> string \<Rightarrow> store_world \<Rightarrow> (store_error + string) \<times> store_world" where
  "store_read cwd now st path w =
     (case store_path cwd st path False of
        Inl e \<Rightarrow> (Inl e, w)
      | Inr p \<Rightarrow>
          (case map_of (dk_files (ws_disk w)) p of
             None \<Rightarrow> (Inr [], w)
           | Some c \<Rightarrow> (Inr c, record_change now st OpRead path w)))"

text \<open>What a changing operation does once the disk has answered.\<close>

definition finish_change ::
    "time \<Rightarrow> scoped_store \<Rightarrow> operation \<Rightarrow> string \<Rightarrow> disk option \<Rightarrow> store_world \<Rightarrow> (store_error + unit) \<times> store_world" where
  "finish_change now st op path d w =
     (case d of
        None \<Rightarrow> (Inl DiskError, w)
      | Some d \<Rightarrow> (Inr (), emitDataChanged st op path (record_change now st op path (w\<lparr>ws_disk := d\<rparr>))))"

definition store_write ::
    "string \<Rightarrow> time \<Rightarrow> scoped_store \<Rightarrow> string \<Rightarrow> string \<Rightarrow> store_world \<Rightarrow> (store_error + unit) \<times> store_world" where
  "store_write cwd now st path content w =
     (case store_path cwd st path True of
        Inl e \<Rightarrow> (Inl e, w)
      | Inr p \<Rightarrow> finish_change now st OpWrite path (atomicWrite p content (ws_disk w)) w)"

definition store_append ::
    "string \<Rightarrow> time \<Rightarrow> scoped_store \<Rightarrow> string \<Rightarrow> string \<Rightarrow> string option \<Rightarrow> store_world \<Rightarrow> (store_error + unit) \<times> store_world" where
  "store_append cwd now st path content fm w =
     (case store_path cwd st path True of
        Inl e \<Rightarrow> (Inl e, w)
      | Inr p \<Rightarrow>
          finish_change now st OpAppend path
            (Option.bind (ensureDir (node_join [p, ''..'']) (ws_disk w))
               (\<lambda>d. case truthy fm of
                      Some f \<Rightarrow> appendWithFrontmatter p content f d
                    | None \<Rightarrow> fs_append p content d)) w)"

definition store_exists :: "string \<Rightarrow> scoped_store \<Rightarrow> string \<Rightarrow> store_world \<Rightarrow> store_error + bool" where
  "store_exists cwd st path w =
     (case store_path cwd st path False of
        Inl e \<Rightarrow> Inl e
      | Inr p \<Rightarrow> Inr (is_file p (ws_disk w) \<or> is_dir p (ws_disk w)))"

definition store_list :: "string \<Rightarrow> scoped_store \<Rightarrow> string \<Rightarrow> store_world \<Rightarrow> store_error + string list" where
  "store_list cwd st dir w =
     (case store_path cwd st dir False of
        Inl e \<Rightarrow> Inl e
      | Inr p \<Rightarrow> Inr (if is_dir p (ws_disk w) then sort (readdir p (ws_disk w)) else []))"

text \<open>\<open>lastIndexOf('.')\<close>, as the part before the last dot and the part from it on.\<close>

definition split_ext :: "string \<Rightarrow> (string \<times> string) option" where
  "split_ext path =
     (let r = takeWhile (\<lambda>c. c \<noteq> CHR ''.'') (rev path)
      in if length r = length path then None
         else Some (take (length path - length r - 1) path, CHR ''.'' # rev r))"

definition archive_name :: "string \<Rightarrow> string \<Rightarrow> string" where
  "archive_name stamp path =
     (case split_ext path of
        Some (stem, ext) \<Rightarrow> if stem \<noteq> [] then stem @ ''.'' @ stamp @ ext else path @ ''.'' @ stamp
      | None \<Rightarrow> path @ ''.'' @ stamp)"

definition store_archive ::
    "string \<Rightarrow> time \<Rightarrow> scoped_store \<Rightarrow> string \<Rightarrow> store_world \<Rightarrow> (store_error + unit) \<times> store_world" where
  "store_archive cwd now st path w =
     (case store_path cwd st path True of
        Inl e \<Rightarrow> (Inl e, w)
      | Inr p \<Rightarrow>
          if \<not> is_file p (ws_disk w) then (Inr (), w)
          else (case store_path cwd st (archive_name (toArchiveTimestamp now) path) True of
                  Inl e \<Rightarrow> (Inl e, w)
                | Inr q \<Rightarrow>
                    finish_change now st OpArchive path
                      (Option.bind (ensureDir (node_join [q, ''..'']) (ws_disk w)) (fs_rename p q)) w))"

section \<open>The factory\<close>

record data_service =
  dsv_dataDir :: string
  dsv_appId :: string
  dsv_userScopes :: "data_scope list"
  dsv_sharedScopes :: "data_scope list"
  dsv_spaces :: "space_service option"
  dsv_hasBus :: bool
  dsv_households :: "household_service option"
  dsv_bypass :: "symbol option"

text \<open>The request context.\<close>

record request =
  rq_userId :: "string option"
  rq_householdId :: "string option"

definition NO_META :: event_meta where
  "NO_META = \<lparr>em_householdId = None, em_spaceKind = None, em_collaborationId = None, em_sharedSelector = None\<rparr>"

definition make_store ::
    "data_service \<Rightarrow> string \<Rightarrow> string option \<Rightarrow> string option \<Rightarrow> data_scope list \<Rightarrow> event_meta \<Rightarrow> path_error + scoped_store" where
  "make_store s base user sid scopes meta =
     new_ScopedStore \<lparr>ss_baseDir = base, ss_appId = dsv_appId s, ss_userId = user, ss_spaceId = sid,
       ss_hasBus = dsv_hasBus s, ss_scopes = Some scopes, ss_bypass = False, ss_meta = meta\<rparr> (dsv_bypass s)"

text \<open>The actor check that \<open>forUser\<close> and \<open>forSpace\<close> share.\<close>

definition actor_check :: "data_service \<Rightarrow> request \<Rightarrow> string \<Rightarrow> path_error option" where
  "actor_check s rq user =
     (case (dsv_households s, rq_userId rq) of
        (Some _, None) \<Rightarrow> Some (UserBoundaryError ''(no actor in context)'' user)
      | (_, Some a) \<Rightarrow> if a \<noteq> user then Some (UserBoundaryError a user) else None
      | (None, None) \<Rightarrow> None)"

definition forUser :: "data_service \<Rightarrow> request \<Rightarrow> string \<Rightarrow> path_error + scoped_store" where
  "forUser s rq user =
     (case actor_check s rq user of
        Some e \<Rightarrow> Inl e
      | None \<Rightarrow>
          (let hh = Option.bind (dsv_households s) (hs_getHouseholdForUser user);
               base = (case truthy hh of
                         Some h \<Rightarrow> node_join [dsv_dataDir s, ''households'', h, ''users'', user, dsv_appId s]
                       | None \<Rightarrow> node_join [dsv_dataDir s, ''users'', user, dsv_appId s])
           in make_store s base (Some user) None (dsv_userScopes s) (NO_META\<lparr>em_householdId := hh\<rparr>)))"

definition forShared :: "data_service \<Rightarrow> request \<Rightarrow> string \<Rightarrow> path_error + scoped_store" where
  "forShared s rq scp =
     (let hh = (case dsv_households s of
                  None \<Rightarrow> Inr None
                | Some hs \<Rightarrow>
                    (case truthy (rq_householdId rq) of
                       Some h \<Rightarrow> Inr (Some h)
                     | None \<Rightarrow>
                         (case truthy (rq_userId rq) of
                            Some u \<Rightarrow> Inr (hs_getHouseholdForUser u hs)
                          | None \<Rightarrow> Inl (NoHouseholdInContext scp))))
      in case hh of
           Inl e \<Rightarrow> Inl e
         | Inr hh \<Rightarrow>
             (let base = (case truthy hh of
                            Some h \<Rightarrow> node_join [dsv_dataDir s, ''households'', h, ''shared'', dsv_appId s]
                          | None \<Rightarrow> node_join [dsv_dataDir s, ''users'', ''shared'', dsv_appId s])
              in make_store s base None None (dsv_sharedScopes s)
                   (NO_META\<lparr>em_householdId := hh, em_sharedSelector := Some scp\<rparr>)))"

definition forSpace :: "data_service \<Rightarrow> request \<Rightarrow> string \<Rightarrow> string \<Rightarrow> path_error + scoped_store" where
  "forSpace s rq sid user =
     (case actor_check s rq user of
        Some e \<Rightarrow> Inl e
      | None \<Rightarrow>
          if \<not> space_id_pattern sid then Inl (SpaceMembershipError sid user)
          else (case dsv_spaces s of
                  None \<Rightarrow> Inl (SpaceMembershipError sid user)
                | Some spaces \<Rightarrow>
                    if \<not> sp_isMember sid user spaces then Inl (SpaceMembershipError sid user)
                    else (let def = sp_getSpace sid spaces;
                              kind = Option.bind def sd_kind;
                              home = truthy (Option.bind def sd_householdId);
                              go = (\<lambda>base hh coll. make_store s base (Some user) (Some sid) (dsv_sharedScopes s)
                                     \<lparr>em_householdId = hh, em_spaceKind = kind, em_collaborationId = coll, em_sharedSelector = None\<rparr>)
                          in case (kind, home) of
                               (Some KCollaboration, _) \<Rightarrow>
                                 go (node_join [dsv_dataDir s, ''collaborations'', sid, dsv_appId s]) None (Some sid)
                             | (Some KHousehold, Some h) \<Rightarrow>
                                 (case Option.bind (dsv_households s) (hs_assertUserCanAccessHousehold user h) of
                                    Some e \<Rightarrow> Inl e
                                  | None \<Rightarrow> go (node_join [dsv_dataDir s, ''households'', h, ''spaces'', sid, dsv_appId s]) (Some h) None)
                             | _ \<Rightarrow> go (node_join [dsv_dataDir s, ''spaces'', sid, dsv_appId s]) None None)))"

definition forSystem :: "data_service \<Rightarrow> symbol \<Rightarrow> path_error + scoped_store" where
  "forSystem s tok =
     (if tok \<noteq> SYSTEM_BYPASS_TOKEN then Inl InvalidBypassToken
      else new_ScopedStore \<lparr>ss_baseDir = node_join [dsv_dataDir s, ''system''], ss_appId = dsv_appId s, ss_userId = None,
             ss_spaceId = None, ss_hasBus = dsv_hasBus s, ss_scopes = Some [], ss_bypass = False, ss_meta = NO_META\<rparr>
             (Some SYSTEM_BYPASS_TOKEN))"

section \<open>Where stores are rooted\<close>

lemma segs_join: "xs \<noteq> [] \<Longrightarrow> segs (join ''/'' xs) = concat (map segs xs)"
  by (induction xs rule: list_nonempty_induct) (auto simp: join_slash_Cons segs_slash)

lemma segs_plain: "plain s \<Longrightarrow> segs s = [s]"
  by (simp add: segs_def plain_def split_on_no_sep)

lemma norm_abs_plains: "\<forall>s \<in> set ss. plain s \<Longrightarrow> norm_abs st ss = rev st @ ss"
  using norm_abs_id [of ss st] by (simp add: filter_id_conv plain_def)

lemma resolve_normalize:
  assumes "is_abs p"
  shows "resolve_segs cwd [node_normalize p] = norm_abs [] (segs p)"
proof -
  let ?ss = "norm_abs [] (segs p)"
  have pl: "\<forall>s \<in> set ?ss. plain s" by (intro norm_abs_plain) (auto simp: segs_no_slash)
  have p: "p \<noteq> []" using assms by (auto simp: is_abs_def starts_with_def)
  show ?thesis
  proof (cases "?ss = []")
    case True
    then have "node_normalize p = ''/''" using assms p by (simp add: node_normalize_def Let_def)
    moreover have "segs ''/'' = [[], []]" by (simp add: segs_def)
    ultimately show ?thesis by (simp add: True resolve_segs_def is_abs_def starts_with_def)
  next
    case False
    then have body: "join ''/'' ?ss \<noteq> []"
      using pl by (cases ?ss) (auto simp: join_slash_Cons plain_def)
    have segs_body: "segs (join ''/'' ?ss) = ?ss"
      using False pl by (simp add: segs_def split_join plain_def)
    have n: "node_normalize p = ''/'' @ join ''/'' ?ss @ (if ends_with ''/'' p then ''/'' else [])"
      using assms p body by (simp add: node_normalize_def Let_def)
    have ab: "is_abs (node_normalize p)" by (simp add: n is_abs_def starts_with_def)
    have "segs (''/'' @ join ''/'' ?ss @ t) = [] # segs (join ''/'' ?ss @ t)" for t
      by (simp add: segs_def)
    moreover have "segs (join ''/'' ?ss @ ''/'') = ?ss @ [[]]"
      using segs_slash [of "join ''/'' ?ss" "[]"] segs_body by (simp add: segs_def)
    ultimately have "segs (node_normalize p) = [] # ?ss @ (if ends_with ''/'' p then [[]] else [])"
      using segs_body by (simp add: n)
    then show ?thesis
      using norm_abs_plains [OF pl, of "[]"] norm_abs_append [of "[]" ?ss "[[]]"]
      by (simp add: resolve_segs_def ab)
  qed
qed

lemma resolve_node_join:
  assumes "is_abs d" "\<forall>s \<in> set parts. plain s"
  shows "resolve_segs cwd [node_join (d # parts)] = resolve_segs cwd [d] @ parts"
proof -
  have d: "d \<noteq> []" using assms(1) by (auto simp: is_abs_def starts_with_def)
  have f: "filter (\<lambda>p. p \<noteq> []) (d # parts) = d # parts"
    using d assms(2) by (auto simp: filter_id_conv plain_def)
  have "is_abs (join ''/'' (d # parts))"
    using assms(1) d by (cases d) (auto simp: is_abs_def join_slash_Cons starts_with_def)
  moreover have "segs (join ''/'' (d # parts)) = segs d @ parts"
  proof -
    have "concat (map segs parts) = parts"
      using assms(2) by (induction parts) (auto simp: segs_plain)
    then show ?thesis by (simp add: segs_join)
  qed
  ultimately have "resolve_segs cwd [node_join (d # parts)] = norm_abs [] (segs d @ parts)"
    unfolding node_join_def f by (simp add: resolve_normalize)
  also have "\<dots> = norm_abs [] (segs d) @ parts"
    using norm_abs_plains [OF assms(2)] by (simp add: norm_abs_append)
  finally show ?thesis using assms(1) by (simp add: resolve_segs_def)
qed

text \<open>The areas of the data directory, each with the directories that lead to an app's part of it.\<close>

datatype area =
    UserArea "string option" string
  | SharedArea "string option"
  | CollaborationArea string
  | HouseholdSpaceArea string string
  | LegacySpaceArea string

fun area_parts :: "area \<Rightarrow> string \<Rightarrow> string list" where
  "area_parts (UserArea (Some h) u) app = [''households'', h, ''users'', u, app]"
| "area_parts (UserArea None u) app = [''users'', u, app]"
| "area_parts (SharedArea (Some h)) app = [''households'', h, ''shared'', app]"
| "area_parts (SharedArea None) app = [''users'', ''shared'', app]"
| "area_parts (CollaborationArea i) app = [''collaborations'', i, app]"
| "area_parts (HouseholdSpaceArea h i) app = [''households'', h, ''spaces'', i, app]"
| "area_parts (LegacySpaceArea i) app = [''spaces'', i, app]"

text \<open>Names that are one path segment; the user id \<open>shared\<close> would name the legacy shared area.\<close>

fun area_ok :: "area \<Rightarrow> bool" where
  "area_ok (UserArea h u) \<longleftrightarrow> plain u \<and> u \<noteq> ''shared'' \<and> (case h of None \<Rightarrow> True | Some h \<Rightarrow> plain h)"
| "area_ok (SharedArea h) \<longleftrightarrow> (case h of None \<Rightarrow> True | Some h \<Rightarrow> plain h)"
| "area_ok (CollaborationArea i) \<longleftrightarrow> plain i"
| "area_ok (HouseholdSpaceArea h i) \<longleftrightarrow> plain h \<and> plain i"
| "area_ok (LegacySpaceArea i) \<longleftrightarrow> plain i"

lemma area_parts_plain: "area_ok a \<Longrightarrow> plain app \<Longrightarrow> \<forall>s \<in> set (area_parts a app). plain s"
  by (cases "(a, app)" rule: area_parts.cases) (auto simp: plain_def)

text \<open>No area lies inside another, and neither do two apps' parts of one area.\<close>

lemma areas_apart:
  assumes "area_ok a" "area_ok b" "(a, app) \<noteq> (b, app')"
  shows "area_parts a app @ xs \<noteq> area_parts b app' @ ys"
  using assms
  by (cases "(a, app)" rule: area_parts.cases; cases "(b, app')" rule: area_parts.cases; auto)

inductive opens :: "data_service \<Rightarrow> area \<Rightarrow> scoped_store \<Rightarrow> bool" where
  opens_user: "forUser s rq u = Inr st \<Longrightarrow>
    opens s (UserArea (truthy (Option.bind (dsv_households s) (hs_getHouseholdForUser u))) u) st"
| opens_shared: "forShared s rq scp = Inr st \<Longrightarrow> opens s (SharedArea (truthy (em_householdId (ss_meta st)))) st"
| opens_collab: "forSpace s rq i u = Inr st \<Longrightarrow> em_spaceKind (ss_meta st) = Some KCollaboration \<Longrightarrow>
    opens s (CollaborationArea i) st"
| opens_space: "forSpace s rq i u = Inr st \<Longrightarrow> em_spaceKind (ss_meta st) \<noteq> Some KCollaboration \<Longrightarrow>
    opens s (case em_householdId (ss_meta st) of Some h \<Rightarrow> HouseholdSpaceArea h i | None \<Rightarrow> LegacySpaceArea i) st"

lemma make_store_fields:
  assumes "make_store s base user sid scopes meta = Inr st"
  shows "ss_baseDir st = base \<and> ss_meta st = meta \<and> ss_userId st = user \<and> ss_spaceId st = sid \<and> ss_appId st = dsv_appId s"
  using assms by (auto simp: make_store_def new_ScopedStore_def split: if_splits)

lemma opens_base: "opens s a st \<Longrightarrow> ss_baseDir st = node_join (dsv_dataDir s # area_parts a (dsv_appId s))"
proof (induction rule: opens.induct)
  case (opens_user s rq u st)
  then show ?case
    by (auto simp: forUser_def Let_def split: option.split_asm option.split dest!: make_store_fields)
next
  case (opens_shared s rq scp st)
  then show ?case
    by (auto simp: forShared_def Let_def split: option.split_asm option.split sum.split_asm dest!: make_store_fields)
next
  case (opens_collab s rq i u st)
  then show ?case
    by (auto simp: forSpace_def Let_def split: option.split_asm if_split_asm space_kind.split_asm prod.split_asm dest!: make_store_fields)
next
  case (opens_space s rq i u st)
  then show ?case
    by (auto simp: forSpace_def Let_def split: option.split_asm if_split_asm space_kind.split_asm prod.split_asm dest!: make_store_fields)
qed

section \<open>Stores of different areas share no file\<close>

lemma resolved_under:
  assumes "resolveScopedPath cwd base rel = Inr p"
  shows "\<exists>rest. resolve_segs cwd [p] = resolve_segs cwd [base] @ rest" "p = render (resolve_segs cwd [p])"
proof -
  note r = resolveScopedPath_inside [OF assms]
  show "p = render (resolve_segs cwd [p])"
    using r(1) by (metis node_resolve_def resolve_node)
  show "\<exists>rest. resolve_segs cwd [p] = resolve_segs cwd [base] @ rest"
    using r by (metis resolve_node)
qed

lemma store_path_resolves: "store_path cwd st path wr = Inr p \<Longrightarrow> resolveScopedPath cwd (ss_baseDir st) path = Inr p"
  by (auto simp: store_path_def split: option.split_asm sum.split_asm)

lemma opens_disjoint:
  assumes "opens s a st" "opens s' b st'" "dsv_dataDir s' = dsv_dataDir s" "is_abs (dsv_dataDir s)"
    and "area_ok a" "area_ok b" "plain (dsv_appId s)" "plain (dsv_appId s')"
    and "(a, dsv_appId s) \<noteq> (b, dsv_appId s')"
    and "store_path cwd st x wr = Inr p" "store_path cwd st' y wr' = Inr q"
  shows "p \<noteq> q"
proof
  assume eq: "p = q"
  have "resolve_segs cwd [ss_baseDir st] = resolve_segs cwd [dsv_dataDir s] @ area_parts a (dsv_appId s)"
    unfolding opens_base [OF assms(1)] using assms(4) area_parts_plain [OF assms(5,7)] by (rule resolve_node_join)
  moreover have "resolve_segs cwd [ss_baseDir st'] = resolve_segs cwd [dsv_dataDir s] @ area_parts b (dsv_appId s')"
    unfolding opens_base [OF assms(2)] assms(3) using assms(4) area_parts_plain [OF assms(6,8)] by (rule resolve_node_join)
  ultimately obtain xs ys where "area_parts a (dsv_appId s) @ xs = area_parts b (dsv_appId s') @ ys"
    using resolved_under(1) [OF store_path_resolves [OF assms(10)]]
      resolved_under(1) [OF store_path_resolves [OF assms(11)]] eq
    by (metis append.assoc append_same_eq same_append_eq)
  with areas_apart [OF assms(5,6,9)] show False by blast
qed

text \<open>What a changing operation may do to the files.\<close>

definition only_files :: "(string \<Rightarrow> bool) \<Rightarrow> store_world \<Rightarrow> store_world \<Rightarrow> bool" where
  "only_files P w w' \<longleftrightarrow> (\<forall>q. \<not> P q \<longrightarrow> map_of (dk_files (ws_disk w')) q = map_of (dk_files (ws_disk w)) q)"

abbreviation own :: "string \<Rightarrow> scoped_store \<Rightarrow> string \<Rightarrow> bool" where
  "own cwd st q \<equiv> \<exists>x. store_path cwd st x True = Inr q"

lemma ensureDir_files: "ensureDir p d = Some d' \<Longrightarrow> dk_files d' = dk_files d"
  by (auto simp: ensureDir_def split: if_splits)

lemma put_file_Some: "put_file p c d = Some d' \<longleftrightarrow> \<not> is_dir p d \<and> d' = d\<lparr>dk_files := set_key p c (dk_files d)\<rparr>"
  by (auto simp: put_file_def)

lemma atomicWrite_files: "atomicWrite p c d = Some d' \<Longrightarrow> dk_files d' = set_key p c (dk_files d)"
  by (auto simp: atomicWrite_def put_file_Some bind_eq_Some_conv dest: ensureDir_files)

lemma fs_append_files: "fs_append p c d = Some d' \<Longrightarrow> dk_files d' = set_key p (get_or [] (dk_files d) p @ c) (dk_files d)"
  by (auto simp: fs_append_def put_file_Some)

lemma appendWithFrontmatter_files:
  "appendWithFrontmatter p c fm d = Some d' \<Longrightarrow>
   dk_files d' = set_key p (case map_of (dk_files d) p of None \<Rightarrow> fm @ c | Some old \<Rightarrow> old @ c) (dk_files d)"
  by (auto simp: appendWithFrontmatter_def fs_append_def put_file_Some bind_eq_Some_conv is_file_def get_or_def
      split: if_split_asm option.split_asm option.split dest!: ensureDir_files)

lemma fs_rename_files:
  "fs_rename a b d = Some d' \<Longrightarrow>
   \<exists>c. map_of (dk_files d) a = Some c \<and>
     dk_files d' = set_key b c (if a = b then dk_files d else del_key a (dk_files d))"
  by (auto simp: fs_rename_def split: option.split_asm if_split_asm)

lemma finish_change_disk:
  "finish_change now st op path d w = (r, w') \<Longrightarrow>
   (case d of None \<Rightarrow> r = Inl DiskError \<and> w' = w | Some d' \<Rightarrow> r = Inr () \<and> ws_disk w' = d')"
  by (auto simp: finish_change_def emitDataChanged_def record_change_def split: option.splits)

lemma write_only_own: "store_write cwd now st path c w = (r, w') \<Longrightarrow> only_files (own cwd st) w w'"
  by (auto simp: store_write_def only_files_def split: sum.split_asm option.split_asm
      dest!: finish_change_disk atomicWrite_files)

lemma append_only_own: "store_append cwd now st path c fm w = (r, w') \<Longrightarrow> only_files (own cwd st) w w'"
  by (auto simp: store_append_def only_files_def bind_eq_Some_conv split: sum.split_asm option.split_asm
      dest!: finish_change_disk fs_append_files appendWithFrontmatter_files ensureDir_files)

lemma archive_only_own: "store_archive cwd now st path w = (r, w') \<Longrightarrow> only_files (own cwd st) w w'"
proof -
  assume "store_archive cwd now st path w = (r, w')"
  then consider "w' = w"
    | p q d where "store_path cwd st path True = Inr p"
        "store_path cwd st (archive_name (toArchiveTimestamp now) path) True = Inr q"
        "ensureDir (node_join [q, ''..'']) (ws_disk w) = Some d" "fs_rename p q d = Some (ws_disk w')"
    by (auto simp: store_archive_def bind_eq_Some_conv finish_change_def emitDataChanged_def record_change_def
        split: sum.split_asm option.split_asm if_split_asm)
  then show ?thesis
  proof cases
    case (2 p q d)
    have "map_of (dk_files (ws_disk w')) x = map_of (dk_files (ws_disk w)) x" if "x \<noteq> p" "x \<noteq> q" for x
      using fs_rename_files [OF 2(4)] ensureDir_files [OF 2(3)] that by auto
    moreover have "x \<noteq> p \<and> x \<noteq> q" if "\<not> own cwd st x" for x using 2(1,2) that by blast
    ultimately show ?thesis unfolding only_files_def by blast
  qed (simp add: only_files_def)
qed

text \<open>Reading depends on the one file the path resolves to.\<close>

lemma read_result:
  "fst (store_read cwd now st path w) =
     (case store_path cwd st path False of
        Inl e \<Rightarrow> Inl e | Inr p \<Rightarrow> Inr (get_or [] (dk_files (ws_disk w)) p))"
  by (auto simp: store_read_def get_or_def split: sum.split option.split)

lemma read_frame:
  assumes "only_files P w w'" "\<forall>p. store_path cwd st path False = Inr p \<longrightarrow> \<not> P p"
  shows "fst (store_read cwd now' st path w') = fst (store_read cwd now st path w)"
  using assms by (auto simp: read_result only_files_def get_or_def split: sum.split)

datatype change = Write string string | Append string string "string option" | Archive string

fun change_by :: "string \<Rightarrow> time \<Rightarrow> scoped_store \<Rightarrow> change \<Rightarrow> store_world \<Rightarrow> store_world" where
  "change_by cwd now st (Write p c) w = snd (store_write cwd now st p c w)"
| "change_by cwd now st (Append p c fm) w = snd (store_append cwd now st p c fm w)"
| "change_by cwd now st (Archive p) w = snd (store_archive cwd now st p w)"

lemma change_only_own: "only_files (own cwd st) w (change_by cwd now st ch w)"
  using write_only_own append_only_own archive_only_own by (cases ch) (metis change_by.simps surjective_pairing)+

text \<open>The laws of one file, for a path that both checks let through.\<close>

lemma store_path_rw: "store_path cwd st path True = Inr p \<Longrightarrow> store_path cwd st path False = Inr q \<Longrightarrow> p = q"
  by (auto simp: store_path_def split: option.split_asm sum.split_asm)

lemma write_then_read:
  assumes "store_write cwd now st path c w = (Inr (), w')" "store_path cwd st path False = Inr p"
  shows "fst (store_read cwd now' st path w') = Inr c"
proof -
  obtain q where q: "store_path cwd st path True = Inr q"
    using assms(1) by (auto simp: store_write_def split: sum.split_asm)
  then have "q = p" using store_path_rw assms(2) by blast
  then have "dk_files (ws_disk w') = set_key p c (dk_files (ws_disk w))"
    using assms(1) q by (auto simp: store_write_def dest!: finish_change_disk atomicWrite_files split: option.split_asm)
  then show ?thesis by (simp add: read_result assms(2))
qed

lemma append_then_read:
  assumes "store_append cwd now st path c fm w = (Inr (), w')" "store_path cwd st path False = Inr p"
  shows "fst (store_read cwd now' st path w') =
    Inr (case map_of (dk_files (ws_disk w)) p of
           Some old \<Rightarrow> old @ c | None \<Rightarrow> (case fm of None \<Rightarrow> [] | Some f \<Rightarrow> f) @ c)"
proof -
  obtain q where q: "store_path cwd st path True = Inr q"
    using assms(1) by (auto simp: store_append_def split: sum.split_asm)
  then have qp: "q = p" using store_path_rw assms(2) by blast
  then obtain d d' where d: "ensureDir (node_join [p, ''..'']) (ws_disk w) = Some d" and w': "ws_disk w' = d'"
    and d': "(case truthy fm of Some f \<Rightarrow> appendWithFrontmatter p c f d | None \<Rightarrow> fs_append p c d) = Some d'"
    using assms(1) q
    by (cases "truthy fm") (auto simp: store_append_def bind_eq_Some_conv dest!: finish_change_disk split: option.split_asm)
  have "get_or [] (dk_files d') p =
      (case map_of (dk_files d) p of Some old \<Rightarrow> old @ c | None \<Rightarrow> (case fm of None \<Rightarrow> [] | Some f \<Rightarrow> f) @ c)"
    using d' by (auto simp: get_or_def truthy_iff split: option.split_asm option.split
        dest!: fs_append_files appendWithFrontmatter_files)
  then show ?thesis using ensureDir_files [OF d] w' by (simp add: read_result assms(2))
qed

lemma change_refused:
  "store_write cwd now st path c w = (Inl e, w') \<Longrightarrow> w' = w"
  "store_append cwd now st path c fm w = (Inl e, w') \<Longrightarrow> w' = w"
  "store_archive cwd now st path w = (Inl e, w') \<Longrightarrow> w' = w"
  by (auto simp: store_write_def store_append_def store_archive_def finish_change_def
      split: sum.split_asm option.split_asm if_split_asm)

fun path_of :: "change \<Rightarrow> string" where
  "path_of (Write p c) = p"
| "path_of (Append p c fm) = p"
| "path_of (Archive p) = p"

fun operation_of :: "change \<Rightarrow> operation" where
  "operation_of (Write p c) = OpWrite"
| "operation_of (Append p c fm) = OpAppend"
| "operation_of (Archive p) = OpArchive"

lemma finish_logs:
  "finish_change now st op path d w = (r, w') \<Longrightarrow> w' = w \<or>
   (\<exists>e. ws_log w' = ws_log w @ [e] \<and> ce_operation e = op \<and> ce_path e = path \<and> ce_appId e = ss_appId st \<and>
        ce_userId e = (case ss_userId st of None \<Rightarrow> ''system'' | Some u \<Rightarrow> u) \<and> ce_meta e = ss_meta st \<and>
        ce_timestamp e = iso_string now)"
  by (auto simp: finish_change_def emitDataChanged_def record_change_def split: option.splits)

lemma change_logs:
  "change_by cwd now st ch w = w \<or>
   (\<exists>e. ws_log (change_by cwd now st ch w) = ws_log w @ [e] \<and> ce_operation e = operation_of ch \<and>
        ce_path e = path_of ch \<and> ce_appId e = ss_appId st \<and>
        ce_userId e = (case ss_userId st of None \<Rightarrow> ''system'' | Some u \<Rightarrow> u) \<and> ce_meta e = ss_meta st \<and>
        ce_timestamp e = iso_string now)"
  using finish_logs [OF surjective_pairing]
  by (cases ch) (auto simp: store_write_def store_append_def store_archive_def split: sum.split)

section \<open>Archiving\<close>

lemma archive_name_longer: "length (archive_name stamp path) = length path + 1 + length stamp"
proof -
  let ?k = "length (takeWhile (\<lambda>c. c \<noteq> CHR ''.'') (rev path))"
  have "?k \<le> length path" using length_takeWhile_le [of _ "rev path"] by simp
  then show ?thesis
    by (auto simp: archive_name_def split_ext_def Let_def split: option.split)
qed

lemma archive_moves:
  assumes "store_archive cwd now st path w = (Inr (), w')"
    and p: "store_path cwd st path True = Inr p" "map_of (dk_files (ws_disk w)) p = Some c"
    and q: "store_path cwd st (archive_name (toArchiveTimestamp now) path) True = Inr q" "q \<noteq> p"
  shows "dk_files (ws_disk w') = set_key q c (del_key p (dk_files (ws_disk w)))"
proof -
  obtain d where "ensureDir (node_join [q, ''..'']) (ws_disk w) = Some d" "fs_rename p q d = Some (ws_disk w')"
    using assms(1) p q
    by (auto simp: store_archive_def is_file_def bind_eq_Some_conv dest!: finish_change_disk split: option.split_asm)
  then show ?thesis using fs_rename_files [of p q d "ws_disk w'"] ensureDir_files p(2) q(2) by fastforce
qed

section \<open>Properties\<close>

text \<open>
  C23. Tenants are isolated: a store opened for one area (a user's, a household's shared one, a
  space's, in the household or the legacy layout, for this app or another) never changes what a
  store of any other area reads, whatever paths the two apps pass and whatever their manifests
  allow, as long as names are single path segments and no user is called \<open>shared\<close>.
\<close>

theorem areas_isolated:
  assumes "opens s a st" "opens s' b st'" "dsv_dataDir s' = dsv_dataDir s" "is_abs (dsv_dataDir s)"
    and "area_ok a" "area_ok b" "plain (dsv_appId s)" "plain (dsv_appId s')"
    and "(a, dsv_appId s) \<noteq> (b, dsv_appId s')"
  shows "fst (store_read cwd now' st' path (change_by cwd now st ch w)) = fst (store_read cwd now' st' path w)"
proof (rule read_frame [OF change_only_own], intro allI impI notI)
  fix p
  assume r: "store_path cwd st' path False = Inr p" and "own cwd st p"
  then obtain x where "store_path cwd st x True = Inr p" by blast
  from opens_disjoint [OF assms this r] show False by simp
qed

definition sample_service :: "string \<Rightarrow> data_service" where
  "sample_service app =
     \<lparr>dsv_dataDir = ''/data'', dsv_appId = app, dsv_userScopes = [\<lparr>ds_path = ''notes/'', ds_access = AccReadWrite\<rparr>],
      dsv_sharedScopes = [], dsv_spaces = Some three_members, dsv_hasBus = True,
      dsv_households = Some (new_household_service [sample_user ''a'' (Some ''h''), sample_user ''b'' (Some ''h'')]),
      dsv_bypass = None\<rparr>"

definition asking :: "string \<Rightarrow> request" where
  "asking u = \<lparr>rq_userId = Some u, rq_householdId = None\<rparr>"

definition empty_world :: store_world where
  "empty_world = \<lparr>ws_disk = \<lparr>dk_files = [], dk_dirs = []\<rparr>, ws_log = [], ws_events = []\<rparr>"

definition the_store :: "path_error + scoped_store \<Rightarrow> scoped_store" where
  "the_store r = (case r of Inr st \<Rightarrow> st | Inl _ \<Rightarrow> undefined)"

abbreviation store_a :: scoped_store where
  "store_a \<equiv> the_store (forUser (sample_service ''notes'') (asking ''a'') ''a'')"

abbreviation store_b :: scoped_store where
  "store_b \<equiv> the_store (forUser (sample_service ''notes'') (asking ''b'') ''b'')"

lemma sample_opens:
  "forUser (sample_service ''notes'') (asking ''a'') ''a'' = Inr store_a"
  "forUser (sample_service ''notes'') (asking ''b'') ''b'' = Inr store_b"
  by code_simp+

lemma areas_isolated_witness:
  "fst (store_read ''/'' 0 store_b ''notes/x.md'' (change_by ''/'' 0 store_a (Write ''notes/../../../b/notes/x.md'' ''?'') empty_world)) =
   fst (store_read ''/'' 0 store_b ''notes/x.md'' empty_world)"
proof (rule areas_isolated)
  show "opens (sample_service ''notes'') (UserArea (Some ''h'') ''a'') store_a"
    using opens_user [OF sample_opens(1)] by (simp add: sample_service_def hs_getHouseholdForUser_def new_household_service_def sample_user_def)
  show "opens (sample_service ''notes'') (UserArea (Some ''h'') ''b'') store_b"
    using opens_user [OF sample_opens(2)] by (simp add: sample_service_def hs_getHouseholdForUser_def new_household_service_def sample_user_def)
qed (simp_all add: sample_service_def is_abs_def starts_with_def plain_def)

text \<open>
  Who gets a space store: with the household service wired, \<open>forSpace\<close> hands one out exactly
  when the caller acts for that very user, the id is a space id, the user is a member now, a
  household space is of the user's own household, and the bypass token is absent or genuine.
\<close>

lemma forSpace_decides:
  assumes "dsv_households s = Some hs"
  shows "is_ok (forSpace s rq sid user) \<longleftrightarrow>
    rq_userId rq = Some user \<and> space_id_pattern sid \<and>
    (\<exists>spaces sp. dsv_spaces s = Some spaces \<and> sp_getSpace sid spaces = Some sp \<and> user \<in> set (sd_members sp) \<and>
       (sd_kind sp = Some KHousehold \<and> truthy (sd_householdId sp) \<noteq> None \<longrightarrow>
          hs_getHouseholdForUser user hs = sd_householdId sp)) \<and>
    (dsv_bypass s = None \<or> dsv_bypass s = Some SYSTEM_BYPASS_TOKEN)"
proof -
  have make: "is_ok (make_store s base u i scs meta) \<longleftrightarrow> dsv_bypass s = None \<or> dsv_bypass s = Some SYSTEM_BYPASS_TOKEN"
    for base u i scs meta by (auto simp: make_store_def new_ScopedStore_def)
  have actor: "actor_check s rq user = None \<longleftrightarrow> rq_userId rq = Some user"
    using assms by (auto simp: actor_check_def split: option.splits)
  show ?thesis
  proof (cases "actor_check s rq user = None \<and> space_id_pattern sid")
    case True
    show ?thesis
    proof (cases "\<exists>spaces. dsv_spaces s = Some spaces \<and> sp_isMember sid user spaces")
      case mem: True
      then obtain spaces sp where sp: "dsv_spaces s = Some spaces" "sp_getSpace sid spaces = Some sp" "user \<in> set (sd_members sp)"
        using sp.member_law by blast
      then have m: "sp_isMember sid user spaces" using mem by simp
      show ?thesis
        using True actor sp m assms make
        by (cases "sd_kind sp"; cases "the (sd_kind sp)"; cases "truthy (sd_householdId sp)")
           (auto simp: forSpace_def Let_def truthy_iff hs_assertUserCanAccessHousehold_def split: option.split)
    next
      case False
      then show ?thesis using True sp.member_law by (auto simp: forSpace_def split: option.split)
    qed
  qed (use actor in \<open>auto simp: forSpace_def split: option.split\<close>)
qed

lemma forSpace_decides_witness:
  "is_ok (forSpace (sample_service ''notes'') (asking ''b'') ''s'' ''b'') \<longleftrightarrow>
    rq_userId (asking ''b'') = Some ''b'' \<and> space_id_pattern ''s'' \<and>
    (\<exists>spaces sp. dsv_spaces (sample_service ''notes'') = Some spaces \<and> sp_getSpace ''s'' spaces = Some sp \<and> ''b'' \<in> set (sd_members sp) \<and>
       (sd_kind sp = Some KHousehold \<and> truthy (sd_householdId sp) \<noteq> None \<longrightarrow>
          hs_getHouseholdForUser ''b'' (new_household_service [sample_user ''a'' (Some ''h''), sample_user ''b'' (Some ''h'')]) = sd_householdId sp)) \<and>
    (dsv_bypass (sample_service ''notes'') = None \<or> dsv_bypass (sample_service ''notes'') = Some SYSTEM_BYPASS_TOKEN)"
  by (rule forSpace_decides) (simp add: sample_service_def)

text \<open>
  A store remembers: after a write and an append that both report success, reading the path
  (when the manifest lets the app read it) gives the written text followed by the appended one,
  and frontmatter offered with the append does not get in between.
\<close>

lemma write_append_read:
  assumes "store_write cwd t0 st path c w = (Inr (), w1)" "store_append cwd t1 st path d fm w1 = (Inr (), w2)"
    and "store_path cwd st path False = Inr p"
  shows "fst (store_read cwd t2 st path w2) = Inr (c @ d)"
proof -
  have "get_or [] (dk_files (ws_disk w1)) p = c \<and> map_of (dk_files (ws_disk w1)) p = Some c"
  proof -
    have "store_path cwd st path True = Inr p"
      using assms(1,3) store_path_rw by (auto simp: store_write_def split: sum.split_asm)
    then have "dk_files (ws_disk w1) = set_key p c (dk_files (ws_disk w))"
      using assms(1) by (auto simp: store_write_def dest!: finish_change_disk atomicWrite_files split: option.split_asm)
    then show ?thesis by simp
  qed
  then show ?thesis using append_then_read [OF assms(2,3), of t2] by simp
qed

lemma write_append_read_witness:
  defines "w1 \<equiv> snd (store_write ''/'' 0 store_a ''notes/x.md'' ''ab'' empty_world)"
  defines "w2 \<equiv> snd (store_append ''/'' 0 store_a ''notes/x.md'' ''cd'' (Some ''---'') w1)"
  shows "fst (store_read ''/'' 0 store_a ''notes/x.md'' w2) = Inr (''ab'' @ ''cd'')"
proof (rule write_append_read)
  show "store_write ''/'' 0 store_a ''notes/x.md'' ''ab'' empty_world = (Inr (), w1)"
    unfolding w1_def by code_simp
  show "store_append ''/'' 0 store_a ''notes/x.md'' ''cd'' (Some ''---'') w1 = (Inr (), w2)"
    unfolding w2_def w1_def by code_simp
  show "store_path ''/'' store_a ''notes/x.md'' False = Inr ''/data/households/h/users/a/notes/notes/x.md''"
    by code_simp
qed


section \<open>Where the code falls short\<close>

text \<open>Two archives of one path within a second: the second replaces the first.\<close>

lemma archive_twice_in_a_second_loses_the_first:
  "let w1 = change_by ''/'' 0 store_a (Write ''notes/x.md'' ''old'') empty_world;
       w2 = change_by ''/'' 0 store_a (Archive ''notes/x.md'') w1;
       w3 = change_by ''/'' 500 store_a (Write ''notes/x.md'' ''new'') w2;
       w4 = change_by ''/'' 900 store_a (Archive ''notes/x.md'') w3
   in map snd (dk_files (ws_disk w4)) = [''new'']"
  by code_simp

text \<open>The last dot may stand in a directory: the file then moves to another directory.\<close>

lemma archive_dot_in_directory:
  "archive_name ''T'' ''notes/v1.0/readme'' = ''notes/v1.T.0/readme''"
  by code_simp

text \<open>With households in force a user without one is still handed the shared legacy layout.\<close>

lemma homeless_user_gets_the_legacy_layout:
  "ss_baseDir (the_store (forUser (sample_service ''notes'') (asking ''z'') ''z'')) = ''/data/users/z/notes''"
  by code_simp

end
