(* ===== verification/Users.thy ===== *)
theory Users
  imports Household
begin

text \<open>
  The registered users: \<open>core/src/services/user-manager\<close> (\<open>index.ts\<close>, \<open>user-mutation-service.ts\<close>,
  \<open>scan-duplicate-names.ts\<close>), \<open>invite/normalize.ts\<close>, \<open>app-toggle/index.ts\<close>, and the users key of
  \<open>pas.yaml\<close> that \<open>config/config-writer.ts\<close> writes.
  \<open>UserManager\<close> keeps an array and a map to the same objects; the entry of an id in the map is always
  the last user of the array with that id, so the array alone is the state. A mutation changes it at
  once and then awaits the write of what the array held at that moment; writes reach the file in the
  order they were asked for. \<open>uw_pending\<close> holds the mutations that await their write, with what
  they need to roll back. Registrations hold the display-name lock until their write is done.
\<close>

section \<open>The user manager\<close>

definition normalizeDisplayName :: "string \<Rightarrow> string" where
  "normalizeDisplayName raw = lower (trim raw)"

definition um_getUser :: "string \<Rightarrow> reg_user list \<Rightarrow> reg_user option" where
  "um_getUser i us = find (\<lambda>u. ru_id u = i) (rev us)"

definition um_isRegistered :: "string \<Rightarrow> reg_user list \<Rightarrow> bool" where
  "um_isRegistered i us \<longleftrightarrow> um_getUser i us \<noteq> None"

definition um_findByName :: "string \<Rightarrow> reg_user list \<Rightarrow> reg_user option" where
  "um_findByName name us =
     (let target = normalizeDisplayName name
      in if target = [] then None else find (\<lambda>u. normalizeDisplayName (ru_name u) = target) us)"

definition um_getUserApps :: "string \<Rightarrow> reg_user list \<Rightarrow> string list" where
  "um_getUserApps i us = (case um_getUser i us of None \<Rightarrow> [] | Some u \<Rightarrow> ru_enabledApps u)"

definition um_getSharedScopes :: "string \<Rightarrow> reg_user list \<Rightarrow> string list" where
  "um_getSharedScopes i us = (case um_getUser i us of None \<Rightarrow> [] | Some u \<Rightarrow> ru_sharedScopes u)"

definition um_addUser :: "reg_user \<Rightarrow> reg_user list \<Rightarrow> reg_user list" where
  "um_addUser u us = us @ [u]"

definition um_removeUser :: "string \<Rightarrow> reg_user list \<Rightarrow> bool \<times> reg_user list" where
  "um_removeUser i us =
     (if um_isRegistered i us then (True, filter (\<lambda>u. ru_id u \<noteq> i) us) else (False, us))"

fun change_first :: "string \<Rightarrow> (reg_user \<Rightarrow> reg_user) \<Rightarrow> reg_user list \<Rightarrow> reg_user list" where
  "change_first i f [] = []"
| "change_first i f (u # us) = (if ru_id u = i then f u # us else u # change_first i f us)"

definition change_user :: "string \<Rightarrow> (reg_user \<Rightarrow> reg_user) \<Rightarrow> reg_user list \<Rightarrow> bool \<times> reg_user list" where
  "change_user i f us =
     (if um_isRegistered i us then (True, rev (change_first i f (rev us))) else (False, us))"

definition um_updateUserApps :: "string \<Rightarrow> string list \<Rightarrow> reg_user list \<Rightarrow> bool \<times> reg_user list" where
  "um_updateUserApps i apps = change_user i (\<lambda>u. u\<lparr>ru_enabledApps := apps\<rparr>)"

definition um_updateUserSharedScopes :: "string \<Rightarrow> string list \<Rightarrow> reg_user list \<Rightarrow> bool \<times> reg_user list" where
  "um_updateUserSharedScopes i scopes = change_user i (\<lambda>u. u\<lparr>ru_sharedScopes := scopes\<rparr>)"

datatype config_warning =
    DuplicateUserId string
  | NonNumericId string string
  | EmptyName string
  | UnknownApp string string

fun validate_users :: "string list \<Rightarrow> string list \<Rightarrow> reg_user list \<Rightarrow> config_warning list" where
  "validate_users known seen [] = []"
| "validate_users known seen (u # us) =
     (if ru_id u \<in> set seen then [DuplicateUserId (ru_id u)] else []) @
     (if ru_id u \<noteq> [] \<and> list_all is_digit (ru_id u) then [] else [NonNumericId (ru_name u) (ru_id u)]) @
     (if trim (ru_name u) = [] then [EmptyName (ru_id u)] else []) @
     map (UnknownApp (ru_name u)) (filter (\<lambda>a. a \<noteq> ''*'' \<and> a \<notin> set known) (ru_enabledApps u)) @
     validate_users known (ru_id u # seen) us"

definition um_validateConfig :: "string list \<Rightarrow> reg_user list \<Rightarrow> config_warning list" where
  "um_validateConfig known us = validate_users known [] us"

definition group_user :: "string list jsmap \<Rightarrow> reg_user \<Rightarrow> string list jsmap" where
  "group_user m u =
     (let norm = normalizeDisplayName (ru_name u)
      in if norm = [] then m else set_key norm (get_or [] m norm @ [ru_id u]) m)"

definition scanForDuplicateNames :: "reg_user list \<Rightarrow> string list jsmap" where
  "scanForDuplicateNames us = filter (\<lambda>(name, ids). length ids \<ge> 2) (foldl group_user [] us)"

section \<open>Per-user overrides of the enabled apps\<close>

type_synonym toggles = "bool jsmap jsmap"

definition app_id_char :: "char \<Rightarrow> bool" where
  "app_id_char c \<longleftrightarrow> is_lower_az c \<or> is_digit c \<or> c = CHR ''-''"

definition at_isEnabled :: "string \<Rightarrow> string \<Rightarrow> string list \<Rightarrow> toggles \<Rightarrow> bool" where
  "at_isEnabled user app defaults data =
     (case Option.bind (map_of data user) (\<lambda>own. map_of own app) of
        Some b \<Rightarrow> b
      | None \<Rightarrow> ''*'' \<in> set defaults \<or> app \<in> set defaults)"

definition at_setEnabled :: "string \<Rightarrow> string \<Rightarrow> bool \<Rightarrow> toggles \<Rightarrow> toggles option" where
  "at_setEnabled user app enabled data =
     (if \<not> safe_segment user then None
      else if app = [] \<or> \<not> list_all app_id_char app then None
      else Some (set_key user (set_key app enabled (get_or [] data user)) data))"

definition um_isAppEnabled :: "string \<Rightarrow> string \<Rightarrow> toggles \<Rightarrow> reg_user list \<Rightarrow> bool" where
  "um_isAppEnabled i app data us =
     (case um_getUser i us of None \<Rightarrow> False | Some u \<Rightarrow> at_isEnabled i app (ru_enabledApps u) data)"

section \<open>Mutations\<close>

datatype us_error =
    AlreadyRegistered string
  | NameTaken string
  | OwnAccount
  | UserNotFound
  | LastAdminUser
  | SyncFailed

datatype user_call =
    Register reg_user
  | Remove string "string option"
  | SetApps string "string list"
  | SetScopes string "string list"

text \<open>What awaits its write: the array to write, and for a rollback the user or the array before.\<close>

datatype pending =
    PRegister reg_user "reg_user list"
  | PRemove string "reg_user list" "reg_user list"
  | PUpdate "reg_user list" "reg_user list"

record user_world =
  uw_users :: "reg_user list"
  uw_config :: "reg_user list"
  uw_household :: "household_service option"
  uw_pending :: "pending list"

datatype started = Finished "us_error option" | Awaiting

definition same_set :: "string list \<Rightarrow> string list \<Rightarrow> bool" where
  "same_set a b \<longleftrightarrow> length a = length b \<and> sort a = sort b"

definition orEmpty :: "string option \<Rightarrow> string" where
  "orEmpty x = (case x of None \<Rightarrow> [] | Some s \<Rightarrow> s)"

definition registeredUsersEqual :: "reg_user \<Rightarrow> reg_user \<Rightarrow> bool" where
  "registeredUsersEqual a b \<longleftrightarrow>
     ru_id a = ru_id b \<and> ru_name a = ru_name b \<and> ru_isAdmin a = ru_isAdmin b \<and>
     orEmpty (ru_householdId a) = orEmpty (ru_householdId b) \<and>
     same_set (ru_enabledApps a) (ru_enabledApps b) \<and> same_set (ru_sharedScopes a) (ru_sharedScopes b)"

definition name_taken :: "string \<Rightarrow> reg_user list \<Rightarrow> bool" where
  "name_taken name us \<longleftrightarrow>
     (let n = normalizeDisplayName name in n \<noteq> [] \<and> (\<exists>e \<in> set us. normalizeDisplayName (ru_name e) = n))"

definition us_register :: "reg_user \<Rightarrow> user_world \<Rightarrow> started \<times> user_world" where
  "us_register u w =
     (case um_getUser (ru_id u) (uw_users w) of
        Some e \<Rightarrow> (Finished (if registeredUsersEqual e u then None else Some (AlreadyRegistered (ru_id u))), w)
      | None \<Rightarrow>
          if name_taken (ru_name u) (uw_users w) then (Finished (Some (NameTaken (ru_name u))), w)
          else (let us = um_addUser u (uw_users w)
                in (Awaiting, w\<lparr>uw_users := us, uw_pending := uw_pending w @ [PRegister u us]\<rparr>)))"

definition us_remove :: "string \<Rightarrow> string option \<Rightarrow> user_world \<Rightarrow> started \<times> user_world" where
  "us_remove i caller w =
     (if caller = Some i then (Finished (Some OwnAccount), w)
      else (case um_getUser i (uw_users w) of
              None \<Rightarrow> (Finished (Some UserNotFound), w)
            | Some u \<Rightarrow>
                if ru_isAdmin u \<and> length (filter ru_isAdmin (uw_users w)) \<le> 1 then (Finished (Some LastAdminUser), w)
                else (let us = snd (um_removeUser i (uw_users w))
                      in (Awaiting, w\<lparr>uw_users := us, uw_pending := uw_pending w @ [PRemove i us (uw_users w)]\<rparr>))))"

definition us_update :: "(reg_user list \<Rightarrow> bool \<times> reg_user list) \<Rightarrow> user_world \<Rightarrow> started \<times> user_world" where
  "us_update change w =
     (let (found, us) = change (uw_users w)
      in if \<not> found then (Finished (Some UserNotFound), w)
         else (Awaiting, w\<lparr>uw_users := us, uw_pending := uw_pending w @ [PUpdate us (uw_users w)]\<rparr>))"

fun us_start :: "user_call \<Rightarrow> user_world \<Rightarrow> started \<times> user_world" where
  "us_start (Register u) w = us_register u w"
| "us_start (Remove i caller) w = us_remove i caller w"
| "us_start (SetApps i apps) w = us_update (um_updateUserApps i apps) w"
| "us_start (SetScopes i scopes) w = us_update (um_updateUserSharedScopes i scopes) w"

definition restoreUsers :: "reg_user list \<Rightarrow> reg_user list \<Rightarrow> reg_user list" where
  "restoreUsers saved us =
     foldl (\<lambda>us u. um_addUser u us) (foldl (\<lambda>us i. snd (um_removeUser i us)) us (map ru_id us)) saved"

text \<open>The write at the head of the queue succeeds or fails.\<close>

definition us_settle :: "bool \<Rightarrow> user_world \<Rightarrow> us_error option \<times> user_world" where
  "us_settle ok w =
     (case uw_pending w of
        [] \<Rightarrow> (None, w)
      | p # ps \<Rightarrow>
          (let w = w\<lparr>uw_pending := ps\<rparr> in
           case p of
             PRegister u us \<Rightarrow>
               if ok then (None, w\<lparr>uw_config := us, uw_household := map_option (hs_syncUser u) (uw_household w)\<rparr>)
               else (Some SyncFailed, w\<lparr>uw_users := snd (um_removeUser (ru_id u) (uw_users w))\<rparr>)
           | PRemove i us prev \<Rightarrow>
               if ok then (None, w\<lparr>uw_config := us, uw_household := map_option (hs_removeUser i) (uw_household w)\<rparr>)
               else (Some SyncFailed, w\<lparr>uw_users := restoreUsers prev (uw_users w)\<rparr>)
           | PUpdate us prev \<Rightarrow>
               if ok then (None, w\<lparr>uw_config := us\<rparr>)
               else (Some SyncFailed, w\<lparr>uw_users := restoreUsers prev (uw_users w)\<rparr>)))"

text \<open>A call that is awaited before anything else happens.\<close>

definition us_await :: "bool \<Rightarrow> user_call \<Rightarrow> user_world \<Rightarrow> us_error option \<times> user_world" where
  "us_await ok c w =
     (case us_start c w of
        (Finished r, w) \<Rightarrow> (r, w)
      | (Awaiting, w) \<Rightarrow> us_settle ok w)"

text \<open>
  Overlapping calls: any call may start, a registration only when none is under way, and the oldest
  write settles; \<open>faulty\<close> says whether writes may fail.
\<close>

fun is_registration :: "pending \<Rightarrow> bool" where
  "is_registration (PRegister u us) = True"
| "is_registration _ = False"

inductive us_step :: "bool \<Rightarrow> user_world \<Rightarrow> user_world \<Rightarrow> bool" for faulty where
  us_begin: "(\<forall>u. c = Register u \<longrightarrow> \<not> (\<exists>p \<in> set (uw_pending w). is_registration p)) \<Longrightarrow>
    us_step faulty w (snd (us_start c w))"
| us_end: "uw_pending w \<noteq> [] \<Longrightarrow> ok \<or> faulty \<Longrightarrow> us_step faulty w (snd (us_settle ok w))"

section \<open>The array as a table\<close>

lemma um_getUser_Nil [simp]: "um_getUser i [] = None"
  by (simp add: um_getUser_def)

lemma um_getUser_snoc [simp]: "um_getUser i (us @ [u]) = (if ru_id u = i then Some u else um_getUser i us)"
  by (simp add: um_getUser_def)

lemma um_getUser_None: "um_getUser i us = None \<longleftrightarrow> i \<notin> ru_id ` set us"
  by (auto simp: um_getUser_def find_None_iff)

lemma um_getUser_Some: "um_getUser i us = Some u \<Longrightarrow> u \<in> set us \<and> ru_id u = i"
  by (metis (mono_tags, lifting) find_Some_iff nth_mem set_rev um_getUser_def)

lemma um_removeUser_snd: "snd (um_removeUser i us) = filter (\<lambda>u. ru_id u \<noteq> i) us"
  by (auto simp: um_removeUser_def um_isRegistered_def um_getUser_None intro!: filter_True [symmetric])

lemma find_filter_id:
  "find (\<lambda>u. ru_id u = i) (filter (\<lambda>u. ru_id u \<noteq> j) us) = (if i = j then None else find (\<lambda>u. ru_id u = i) us)"
  by (induction us) auto

lemma um_getUser_filter [simp]:
  "um_getUser i (filter (\<lambda>u. ru_id u \<noteq> j) us) = (if i = j then None else um_getUser i us)"
  by (simp add: um_getUser_def rev_filter find_filter_id)

lemma find_change_first:
  "(\<And>u. ru_id (f u) = ru_id u) \<Longrightarrow>
   find (\<lambda>u. ru_id u = i) (change_first j f us) =
     (if i = j then map_option f (find (\<lambda>u. ru_id u = i) us) else find (\<lambda>u. ru_id u = i) us)"
  by (induction us) auto

lemma change_first_map: "(\<And>u. g (f u) = g u) \<Longrightarrow> map g (change_first i f us) = map g us"
  by (induction us) auto

lemma change_user_map: "(\<And>u. g (f u) = g u) \<Longrightarrow> map g (snd (change_user i f us)) = map g us"
  by (simp add: change_user_def rev_map [symmetric] change_first_map)

lemma change_user_getUser:
  assumes "\<And>u. ru_id (f u) = ru_id u"
  shows "um_getUser j (snd (change_user i f us)) = (if j = i then map_option f (um_getUser j us) else um_getUser j us)"
  using find_change_first [where f = f, OF assms]
  by (auto simp: change_user_def um_getUser_def um_isRegistered_def)

lemma change_user_fst: "fst (change_user i f us) = um_isRegistered i us"
  by (simp add: change_user_def)

lemma restore_saved: "restoreUsers saved us = saved"
proof -
  have "foldl (\<lambda>us i. snd (um_removeUser i us)) us is = filter (\<lambda>u. ru_id u \<notin> set is) us" for us "is"
    by (induction "is" arbitrary: us) (auto simp: um_removeUser_snd intro!: filter_cong)
  then have "foldl (\<lambda>us i. snd (um_removeUser i us)) us (map ru_id us) = []"
    by (auto simp: filter_empty_conv)
  moreover have "foldl (\<lambda>us u. um_addUser u us) us ws = us @ ws" for us ws
    by (induction ws arbitrary: us) (auto simp: um_addUser_def)
  ultimately show ?thesis by (simp add: restoreUsers_def)
qed

section \<open>Nobody appears twice\<close>

definition apart :: "reg_user list \<Rightarrow> bool" where
  "apart us \<longleftrightarrow> distinct (map ru_id us) \<and>
     distinct (filter (\<lambda>n. n \<noteq> []) (map (\<lambda>u. normalizeDisplayName (ru_name u)) us))"

lemma apart_filter: "apart us \<Longrightarrow> apart (filter P us)"
  by (induction us) (auto simp: apart_def split: if_splits)

lemma apart_snoc:
  assumes "apart us" "um_getUser (ru_id u) us = None" "\<not> name_taken (ru_name u) us"
  shows "apart (us @ [u])"
  using assms by (auto simp: apart_def um_getUser_None name_taken_def Let_def)

lemma apart_cong:
  "map ru_id us = map ru_id vs \<Longrightarrow> map ru_name us = map ru_name vs \<Longrightarrow> apart us \<Longrightarrow> apart vs"
  by (metis (no_types, lifting) apart_def list.map_comp comp_def map_eq_conv)

text \<open>The arrays a waiting mutation may still bring back.\<close>

fun pending_lists :: "pending \<Rightarrow> reg_user list list" where
  "pending_lists (PRegister u us) = [us]"
| "pending_lists (PRemove i us prev) = [us, prev]"
| "pending_lists (PUpdate us prev) = [us, prev]"

fun to_write :: "pending \<Rightarrow> reg_user list" where
  "to_write (PRegister u us) = us"
| "to_write (PRemove i us prev) = us"
| "to_write (PUpdate us prev) = us"

definition uw_ok :: "user_world \<Rightarrow> bool" where
  "uw_ok w \<longleftrightarrow> apart (uw_users w) \<and> apart (uw_config w) \<and>
     (\<forall>p \<in> set (uw_pending w). \<forall>us \<in> set (pending_lists p). apart us)"

text \<open>Without faults, what is in memory is what the last write will leave on disk.\<close>

definition uw_synced :: "user_world \<Rightarrow> bool" where
  "uw_synced w \<longleftrightarrow> uw_users w = last (uw_config w # map to_write (uw_pending w))"

lemma change_user_apart:
  assumes "\<And>u. ru_id (f u) = ru_id u" "\<And>u. ru_name (f u) = ru_name u" "apart us"
  shows "apart (snd (change_user i f us))"
  using apart_cong [of us "snd (change_user i f us)"] assms change_user_map by metis

definition begins :: "user_world \<Rightarrow> pending \<Rightarrow> reg_user list \<Rightarrow> bool" where
  "begins w p us \<longleftrightarrow> to_write p = us \<and>
     (apart (uw_users w) \<longrightarrow> apart us \<and> (\<forall>vs \<in> set (pending_lists p). apart vs)) \<and>
     (case p of
        PRegister u v \<Rightarrow> um_getUser (ru_id u) (uw_users w) = None \<and> us = uw_users w @ [u]
      | PRemove i v prev \<Rightarrow> prev = uw_users w
      | PUpdate v prev \<Rightarrow> prev = uw_users w)"

definition start_effect :: "started \<Rightarrow> user_world \<Rightarrow> user_world \<Rightarrow> bool" where
  "start_effect r w w' \<longleftrightarrow>
     (r \<noteq> Awaiting \<and> w' = w) \<or>
     (\<exists>p us. r = Awaiting \<and> w' = w\<lparr>uw_users := us, uw_pending := uw_pending w @ [p]\<rparr> \<and> begins w p us)"

lemma start_refused: "start_effect (Finished e) w w"
  by (simp add: start_effect_def)

lemma start_awaits:
  "begins w p us \<Longrightarrow> start_effect Awaiting w (w\<lparr>uw_users := us, uw_pending := uw_pending w @ [p]\<rparr>)"
  by (auto simp: start_effect_def)

lemma update_effect:
  assumes "\<And>us. apart us \<Longrightarrow> apart (snd (f us))"
  shows "start_effect (fst (us_update f w)) w (snd (us_update f w))"
proof (cases "f (uw_users w)")
  case (Pair found us)
  have "begins w (PUpdate us (uw_users w)) us" using assms [of "uw_users w"] Pair by (simp add: begins_def)
  then show ?thesis using Pair start_refused start_awaits by (simp add: us_update_def)
qed

lemma us_start_effect: "start_effect (fst (us_start c w)) w (snd (us_start c w))"
proof (cases c)
  case (Register u)
  have "begins w (PRegister u (uw_users w @ [u])) (uw_users w @ [u])"
    if "um_getUser (ru_id u) (uw_users w) = None" "\<not> name_taken (ru_name u) (uw_users w)"
    using that by (simp add: begins_def apart_snoc)
  then show ?thesis
    using Register start_refused start_awaits
    by (simp add: us_register_def um_addUser_def Let_def split: option.splits)
next
  case (Remove i caller)
  let ?us = "filter (\<lambda>u. ru_id u \<noteq> i) (uw_users w)"
  have "begins w (PRemove i ?us (uw_users w)) ?us" by (simp add: begins_def apart_filter)
  then show ?thesis
    using Remove start_refused start_awaits
    by (simp add: us_remove_def um_removeUser_snd Let_def split: option.splits)
next
  case (SetApps i apps)
  then show ?thesis
    using update_effect [of "um_updateUserApps i apps"] change_user_apart [of "\<lambda>u. u\<lparr>ru_enabledApps := apps\<rparr>"]
    by (simp add: um_updateUserApps_def)
next
  case (SetScopes i scopes)
  then show ?thesis
    using update_effect [of "um_updateUserSharedScopes i scopes"] change_user_apart [of "\<lambda>u. u\<lparr>ru_sharedScopes := scopes\<rparr>"]
    by (simp add: um_updateUserSharedScopes_def)
qed

lemma start_ok: "uw_ok w \<Longrightarrow> uw_ok (snd (us_start c w))"
  using us_start_effect [of c w] by (auto simp: start_effect_def begins_def uw_ok_def)

lemma settle_ok: "uw_ok w \<Longrightarrow> uw_ok (snd (us_settle ok w))"
  by (cases "uw_pending w")
     (auto simp: us_settle_def uw_ok_def um_removeUser_snd restore_saved apart_filter Let_def split: pending.splits)

lemma start_synced: "uw_synced w \<Longrightarrow> uw_synced (snd (us_start c w))"
  using us_start_effect [of c w] by (auto simp: start_effect_def begins_def uw_synced_def)

lemma settle_synced: "uw_synced w \<Longrightarrow> uw_synced (snd (us_settle True w))"
  by (cases "uw_pending w") (auto simp: us_settle_def uw_synced_def Let_def split: pending.splits)

lemma us_steps_ok: "(us_step faulty)\<^sup>*\<^sup>* w w' \<Longrightarrow> uw_ok w \<Longrightarrow> uw_ok w'"
  by (induction rule: rtranclp_induct) (auto elim!: us_step.cases simp: start_ok settle_ok)

lemma us_steps_synced: "(us_step False)\<^sup>*\<^sup>* w w' \<Longrightarrow> uw_synced w \<Longrightarrow> uw_synced w'"
  by (induction rule: rtranclp_induct) (auto elim!: us_step.cases simp: start_synced settle_synced)

section \<open>Awaited calls as transactions on a table\<close>

abbreviation table :: "user_world \<Rightarrow> string \<Rightarrow> reg_user option" where
  "table w \<equiv> \<lambda>i. um_getUser i (uw_users w)"

fun ab_user_call :: "user_call \<Rightarrow> (string \<Rightarrow> reg_user option) \<Rightarrow> string \<Rightarrow> reg_user option" where
  "ab_user_call (Register u) T = (if T (ru_id u) = None then T(ru_id u \<mapsto> u) else T)"
| "ab_user_call (Remove i caller) T = T(i := None)"
| "ab_user_call (SetApps i apps) T = T(i := map_option (\<lambda>u. u\<lparr>ru_enabledApps := apps\<rparr>) (T i))"
| "ab_user_call (SetScopes i scopes) T = T(i := map_option (\<lambda>u. u\<lparr>ru_sharedScopes := scopes\<rparr>) (T i))"

fun call_allowed :: "user_call \<Rightarrow> reg_user list \<Rightarrow> bool" where
  "call_allowed (Register u) us =
     (case um_getUser (ru_id u) us of Some e \<Rightarrow> registeredUsersEqual e u | None \<Rightarrow> \<not> name_taken (ru_name u) us)"
| "call_allowed (Remove i caller) us =
     (caller \<noteq> Some i \<and> (case um_getUser i us of
        None \<Rightarrow> False | Some u \<Rightarrow> ru_isAdmin u \<longrightarrow> (\<exists>v \<in> set us. ru_isAdmin v \<and> ru_id v \<noteq> i)))"
| "call_allowed (SetApps i apps) us = um_isRegistered i us"
| "call_allowed (SetScopes i scopes) us = um_isRegistered i us"

fun needs_write :: "user_call \<Rightarrow> reg_user list \<Rightarrow> bool" where
  "needs_write (Register u) us = (\<not> um_isRegistered (ru_id u) us)"
| "needs_write _ us = True"

definition homes_ok :: "user_world \<Rightarrow> bool" where
  "homes_ok w \<longleftrightarrow>
     (case uw_household w of
        None \<Rightarrow> True
      | Some h \<Rightarrow> \<forall>i. hs_getHouseholdForUser i h = Option.bind (um_getUser i (uw_users w)) home_of)"

definition at_rest :: "user_world \<Rightarrow> bool" where
  "at_rest w \<longleftrightarrow> uw_pending w = [] \<and> uw_config w = uw_users w \<and> apart (uw_users w) \<and> homes_ok w"

lemma few_admins:
  assumes "distinct (map ru_id us)" "u \<in> set us" "ru_isAdmin u"
  shows "length (filter ru_isAdmin us) \<le> 1 \<longleftrightarrow> \<not> (\<exists>v \<in> set us. ru_isAdmin v \<and> ru_id v \<noteq> ru_id u)"
proof -
  let ?as = "filter ru_isAdmin us"
  have u: "u \<in> set ?as" using assms by simp
  have d: "distinct (map ru_id ?as)" using assms(1) by (rule distinct_map_filter)
  have "length ?as \<le> 1 \<longleftrightarrow> ru_id ` set ?as \<subseteq> {ru_id u}"
  proof
    assume "length ?as \<le> 1"
    then obtain x where "?as = [x]" using u by (cases ?as) auto
    then show "ru_id ` set ?as \<subseteq> {ru_id u}" using u by simp
  next
    assume "ru_id ` set ?as \<subseteq> {ru_id u}"
    then have "card (set (map ru_id ?as)) \<le> card {ru_id u}" by (intro card_mono) auto
    then show "length ?as \<le> 1" using distinct_card [OF d] by simp
  qed
  then show ?thesis by auto
qed

lemma us_update_await:
  assumes "us_start c w = us_update (change_user i f) w" "uw_pending w = []" "us_await ok c w = (e, w')"
  shows "if um_isRegistered i (uw_users w)
    then if ok then e = None \<and> w' = w\<lparr>uw_users := snd (change_user i f (uw_users w)), uw_config := snd (change_user i f (uw_users w))\<rparr>
      else e = Some SyncFailed \<and> w' = w
    else e = Some UserNotFound \<and> w' = w"
  using assms
  by (cases "change_user i f (uw_users w)"; cases w)
     (auto simp: us_await_def us_update_def us_settle_def restore_saved change_user_def Let_def split: if_splits)

lemma us_register_await:
  assumes "uw_pending w = []" "us_await ok (Register u) w = (e, w')"
  shows "case um_getUser (ru_id u) (uw_users w) of
      Some x \<Rightarrow> e = (if registeredUsersEqual x u then None else Some (AlreadyRegistered (ru_id u))) \<and> w' = w
    | None \<Rightarrow> if name_taken (ru_name u) (uw_users w) then e = Some (NameTaken (ru_name u)) \<and> w' = w
      else if ok then e = None \<and> w' = w\<lparr>uw_users := uw_users w @ [u], uw_config := uw_users w @ [u],
        uw_household := map_option (hs_syncUser u) (uw_household w)\<rparr>
      else e = Some SyncFailed \<and> w' = w"
proof (cases "um_getUser (ru_id u) (uw_users w)")
  case None
  then have "filter (\<lambda>v. ru_id v \<noteq> ru_id u) (uw_users w) = uw_users w"
    by (simp add: um_getUser_None) (metis (mono_tags, lifting) filter_True imageI)
  then show ?thesis
    using assms None
    by (cases w) (auto simp: us_await_def us_register_def us_settle_def um_addUser_def um_removeUser_snd Let_def)
next
  case (Some x)
  then show ?thesis using assms by (auto simp: us_await_def us_register_def)
qed

lemma us_remove_await:
  assumes "uw_pending w = []" "us_await ok (Remove i caller) w = (e, w')" "apart (uw_users w)"
  shows "if call_allowed (Remove i caller) (uw_users w)
    then if ok then e = None \<and> w' = w\<lparr>uw_users := filter (\<lambda>u. ru_id u \<noteq> i) (uw_users w),
        uw_config := filter (\<lambda>u. ru_id u \<noteq> i) (uw_users w), uw_household := map_option (hs_removeUser i) (uw_household w)\<rparr>
      else e = Some SyncFailed \<and> w' = w
    else e \<noteq> None \<and> w' = w"
proof (cases "um_getUser i (uw_users w)")
  case None
  then show ?thesis using assms by (auto simp: us_await_def us_remove_def split: if_splits)
next
  case (Some u)
  then have u: "u \<in> set (uw_users w)" "ru_id u = i" using um_getUser_Some by auto
  have "ru_isAdmin u \<Longrightarrow> length (filter ru_isAdmin (uw_users w)) \<le> 1 \<longleftrightarrow> \<not> (\<exists>v \<in> set (uw_users w). ru_isAdmin v \<and> ru_id v \<noteq> i)"
    using few_admins [OF _ u(1)] assms(3) u(2) by (simp add: apart_def)
  then show ?thesis
    using assms(1,2) Some
    by (cases w) (auto simp: us_await_def us_remove_def us_settle_def um_removeUser_snd restore_saved Let_def split: if_splits)
qed

lemma homes_sync:
  assumes "homes_ok w" "um_getUser (ru_id u) (uw_users w) = None"
  shows "homes_ok (w\<lparr>uw_users := uw_users w @ [u], uw_config := c, uw_household := map_option (hs_syncUser u) (uw_household w)\<rparr>)"
  using assms
  by (auto simp: homes_ok_def hs_getHouseholdForUser_def hs_syncUser_def split: option.splits)

lemma homes_remove:
  assumes "homes_ok w"
  shows "homes_ok (w\<lparr>uw_users := filter (\<lambda>u. ru_id u \<noteq> i) (uw_users w), uw_config := c,
    uw_household := map_option (hs_removeUser i) (uw_household w)\<rparr>)"
  using assms by (auto simp: homes_ok_def hs_getHouseholdForUser_def hs_removeUser_def split: option.splits)

lemma homes_change:
  assumes "homes_ok w" "\<And>u. ru_id (f u) = ru_id u" "\<And>u. ru_householdId (f u) = ru_householdId u"
  shows "homes_ok (w\<lparr>uw_users := snd (change_user i f (uw_users w)), uw_config := c\<rparr>)"
proof -
  have "Option.bind (um_getUser j (snd (change_user i f us))) home_of = Option.bind (um_getUser j us) home_of" for j us
    using assms(3) by (cases "um_getUser j us") (auto simp: change_user_getUser assms(2))
  then show ?thesis using assms(1) by (simp add: homes_ok_def split: option.splits)
qed

lemma admins_change:
  assumes "\<And>u. ru_isAdmin (f u) = ru_isAdmin u"
  shows "(\<exists>u \<in> set (snd (change_user i f us)). ru_isAdmin u) \<longleftrightarrow> (\<exists>u \<in> set us. ru_isAdmin u)"
proof -
  have "set (map ru_isAdmin (snd (change_user i f us))) = set (map ru_isAdmin us)"
    using change_user_map [of ru_isAdmin f, OF assms] by simp
  then show ?thesis by (metis (mono_tags, lifting) image_iff set_map)
qed

text \<open>What an awaited call does, in terms of the table.\<close>

definition transaction :: "bool \<Rightarrow> user_call \<Rightarrow> user_world \<Rightarrow> us_error option \<Rightarrow> user_world \<Rightarrow> bool" where
  "transaction ok c w e w' \<longleftrightarrow>
     at_rest w' \<and>
     (e = None \<longleftrightarrow> call_allowed c (uw_users w) \<and> (ok \<or> \<not> needs_write c (uw_users w))) \<and>
     (if e = None then table w' = ab_user_call c (table w) else w' = w) \<and>
     ((\<exists>u \<in> set (uw_users w). ru_isAdmin u) \<longrightarrow> (\<exists>u \<in> set (uw_users w'). ru_isAdmin u))"

lemma transaction_refused: "at_rest w \<Longrightarrow> \<not> call_allowed c (uw_users w) \<or> \<not> ok \<and> needs_write c (uw_users w) \<Longrightarrow>
    e \<noteq> None \<Longrightarrow> transaction ok c w e w"
  by (auto simp: transaction_def)

lemma transaction_change:
  assumes rest: "at_rest w" and await: "us_await ok c w = (e, w')"
    and start: "us_start c w = us_update (change_user i f) w"
    and allowed: "call_allowed c (uw_users w) = um_isRegistered i (uw_users w)" "needs_write c (uw_users w)"
    and ab: "ab_user_call c (table w) = (table w)(i := map_option f (table w i))"
    and keeps: "\<And>u. ru_id (f u) = ru_id u" "\<And>u. ru_name (f u) = ru_name u"
      "\<And>u. ru_householdId (f u) = ru_householdId u" "\<And>u. ru_isAdmin (f u) = ru_isAdmin u"
  shows "transaction ok c w e w'"
proof (cases "um_isRegistered i (uw_users w) \<and> ok")
  case True
  let ?us = "snd (change_user i f (uw_users w))"
  have w': "e = None" "w' = w\<lparr>uw_users := ?us, uw_config := ?us\<rparr>"
    using us_update_await [OF start _ await] rest True by (simp_all add: at_rest_def)
  have "table w' = ab_user_call c (table w)"
    unfolding ab w' by (auto simp: change_user_getUser keeps(1))
  moreover have "at_rest w'"
    using rest change_user_apart [of f, OF keeps(1,2)] homes_change [where f = f, OF _ keeps(1,3)]
    by (simp add: at_rest_def w')
  ultimately show ?thesis using True allowed w' admins_change [where f = f, OF keeps(4)] by (simp add: transaction_def)
next
  case False
  then have "e \<noteq> None" "w' = w"
    using us_update_await [OF start _ await] rest by (auto simp: at_rest_def split: if_splits)
  then show ?thesis using transaction_refused [OF rest, of c ok e] False allowed by auto
qed

lemma transaction_register:
  assumes rest: "at_rest w" and await: "us_await ok (Register u) w = (e, w')"
  shows "transaction ok (Register u) w e w'"
proof -
  note spec = us_register_await [OF _ await]
  have idle: "uw_pending w = []" using rest by (simp add: at_rest_def)
  show ?thesis
  proof (cases "um_getUser (ru_id u) (uw_users w)")
    case (Some x)
    then show ?thesis using spec [OF idle] rest by (auto simp: transaction_def um_isRegistered_def)
  next
    case None
    show ?thesis
    proof (cases "name_taken (ru_name u) (uw_users w) \<or> \<not> ok")
      case True
      then show ?thesis
        using spec [OF idle] None rest by (auto simp: transaction_def um_isRegistered_def split: if_splits)
    next
      case False
      then have w': "e = None" "w' = w\<lparr>uw_users := uw_users w @ [u], uw_config := uw_users w @ [u],
          uw_household := map_option (hs_syncUser u) (uw_household w)\<rparr>"
        using spec [OF idle] None by simp_all
      have "at_rest w'"
        using rest homes_sync [of w u] apart_snoc [of "uw_users w" u] None False by (simp add: at_rest_def w')
      then show ?thesis using None False w' by (auto simp: transaction_def)
    qed
  qed
qed

lemma transaction_remove:
  assumes rest: "at_rest w" and await: "us_await ok (Remove i caller) w = (e, w')"
  shows "transaction ok (Remove i caller) w e w'"
proof (cases "call_allowed (Remove i caller) (uw_users w) \<and> ok")
  case True
  let ?us = "filter (\<lambda>u. ru_id u \<noteq> i) (uw_users w)"
  have w': "e = None" "w' = w\<lparr>uw_users := ?us, uw_config := ?us, uw_household := map_option (hs_removeUser i) (uw_household w)\<rparr>"
    using us_remove_await [OF _ await] rest True by (simp_all add: at_rest_def)
  obtain u where u: "um_getUser i (uw_users w) = Some u" "ru_isAdmin u \<longrightarrow> (\<exists>v \<in> set (uw_users w). ru_isAdmin v \<and> ru_id v \<noteq> i)"
    using True by (auto split: option.splits)
  have "\<exists>v \<in> set ?us. ru_isAdmin v" if v: "v \<in> set (uw_users w)" "ru_isAdmin v" for v
  proof (cases "ru_id v = i")
    case True
    have "u \<in> set (uw_users w)" "ru_id u = i" using um_getUser_Some [OF u(1)] by auto
    moreover have "distinct (map ru_id (uw_users w))" using rest by (simp add: at_rest_def apart_def)
    ultimately have "v = u" using v True by (metis distinct_map inj_on_contraD)
    then show ?thesis using u(2) v by auto
  qed (use v in auto)
  moreover have "at_rest w'"
    using rest homes_remove [of w i] apart_filter by (simp add: at_rest_def w')
  ultimately show ?thesis using True w' by (auto simp: transaction_def)
next
  case False
  then have "e \<noteq> None" "w' = w"
    using us_remove_await [OF _ await] rest by (auto simp: at_rest_def split: if_splits)
  then show ?thesis using transaction_refused [OF rest, of "Remove i caller" ok e] False by auto
qed

section \<open>Properties\<close>

text \<open>
  C34. Every awaited mutation of the users is a transaction: when it reports an error, whether its
  arguments were refused or \<open>pas.yaml\<close> could not be written, users, file and household directory are
  exactly as before; otherwise the table of users has changed as the call says, the file holds the
  same users as memory, and the household directory knows their homes. Ids and names stay distinct,
  and if there was an admin there still is one.
\<close>

theorem user_calls_are_transactions:
  assumes "at_rest w" and "us_await ok c w = (e, w')"
  shows "transaction ok c w e w'"
proof (cases c)
  case (Register u)
  then show ?thesis using assms transaction_register by simp
next
  case (Remove i caller)
  then show ?thesis using assms transaction_remove by simp
next
  case (SetApps i apps)
  show ?thesis
    by (rule transaction_change [OF assms, where i = i and f = "\<lambda>u. u\<lparr>ru_enabledApps := apps\<rparr>"])
       (simp_all add: SetApps um_updateUserApps_def)
next
  case (SetScopes i scopes)
  show ?thesis
    by (rule transaction_change [OF assms, where i = i and f = "\<lambda>u. u\<lparr>ru_sharedScopes := scopes\<rparr>"])
       (simp_all add: SetScopes um_updateUserSharedScopes_def)
qed

definition a_user :: "string \<Rightarrow> string \<Rightarrow> bool \<Rightarrow> reg_user" where
  "a_user i name admin = \<lparr>ru_id = i, ru_name = name, ru_isAdmin = admin, ru_enabledApps = [''*''], ru_sharedScopes = [],
     ru_householdId = Some ''h''\<rparr>"

definition world_of :: "reg_user list \<Rightarrow> user_world" where
  "world_of us = \<lparr>uw_users = us, uw_config = us, uw_household = Some (new_household_service us), uw_pending = []\<rparr>"

definition ann :: reg_user where "ann = a_user ''1'' ''Ann'' True"
definition bob :: reg_user where "bob = a_user ''2'' ''Bob'' False"
definition cleo :: reg_user where "cleo = a_user ''3'' ''Cleo'' True"

lemma sample_at_rest: "at_rest (world_of [ann])"
proof -
  have "dir_ok (new_household_service [ann])" by (rule dir_new) simp
  then have "homes_ok (world_of [ann])"
    by (auto simp: homes_ok_def world_of_def dir_ok_def hs_getHouseholdForUser_def um_getUser_def new_household_service_def)
  moreover have "apart [ann]" by (simp add: apart_def)
  ultimately show ?thesis by (simp add: at_rest_def world_of_def)
qed

lemma user_calls_are_transactions_witness:
  "transaction True (Register bob) (world_of [ann]) (fst (us_await True (Register bob) (world_of [ann])))
     (snd (us_await True (Register bob) (world_of [ann])))"
  by (rule user_calls_are_transactions [OF sample_at_rest]) simp

text \<open>
  C35. However mutations of the users overlap and whichever of their writes fail, no two users
  in memory or on disk ever share an id or, up to case and blanks, a name; and as long as no
  write fails, memory and disk agree whenever no write is waiting.
\<close>

theorem users_stay_apart:
  assumes "uw_ok w"
  shows "((us_step True)\<^sup>*\<^sup>* w w' \<longrightarrow> apart (uw_users w') \<and> apart (uw_config w')) \<and>
    ((us_step False)\<^sup>*\<^sup>* w w' \<and> uw_synced w \<and> uw_pending w' = [] \<longrightarrow> uw_config w' = uw_users w')"
  using us_steps_ok [OF _ assms, of True w'] us_steps_synced [of w w'] by (auto simp: uw_ok_def uw_synced_def)

lemma users_stay_apart_witness:
  "apart (uw_users (snd (us_start (Remove ''2'' None) (snd (us_start (Register cleo) (world_of [ann, bob]))))))"
proof -
  have apart: "apart [ann, bob]" by code_simp
  have "us_step True (world_of [ann, bob]) (snd (us_start (Register cleo) (world_of [ann, bob])))"
    by (rule us_begin) (simp add: world_of_def)
  moreover have "us_step True (snd (us_start (Register cleo) (world_of [ann, bob])))
      (snd (us_start (Remove ''2'' None) (snd (us_start (Register cleo) (world_of [ann, bob])))))"
    by (rule us_begin) simp
  ultimately have "(us_step True)\<^sup>*\<^sup>* (world_of [ann, bob])
      (snd (us_start (Remove ''2'' None) (snd (us_start (Register cleo) (world_of [ann, bob])))))" by simp
  then show ?thesis using users_stay_apart [of "world_of [ann, bob]"] apart by (simp add: uw_ok_def world_of_def)
qed

section \<open>Where overlapping mutations go wrong\<close>

text \<open>
  A removal whose write fails restores the array of the moment it began: a user whose
  registration was completed meanwhile is forgotten, though \<open>pas.yaml\<close> lists them.
\<close>

lemma failed_removal_forgets_a_registration:
  "let w0 = world_of [ann, bob];
       w1 = snd (us_start (Remove ''2'' None) w0);
       w2 = snd (us_start (Register cleo) w1);
       w3 = snd (us_settle False w2);
       (e, w4) = us_settle True w3
   in e = None \<and> um_getUser ''3'' (uw_config w4) = Some cleo \<and> um_getUser ''3'' (uw_users w4) = None"
  by code_simp

text \<open>
  The last-admin guard counts an admin whose registration is not yet on disk: when that write
  fails after the other admin has been removed, no admin is left.
\<close>

lemma failed_registration_drops_the_last_admin:
  "let w0 = world_of [ann, bob];
       w1 = snd (us_start (Register cleo) w0);
       (r, w2) = us_start (Remove ''1'' (Some ''3'')) w1;
       w3 = snd (us_settle False w2);
       (e, w4) = us_settle True w3
   in r = Awaiting \<and> e = None \<and> map ru_id (uw_users w4) = [''2''] \<and> \<not> list_ex ru_isAdmin (uw_users w4)"
  by code_simp

end
