(* ===== verification/Invites.thy ===== *)
theory Invites
  imports Users Spaces
begin

text \<open>
  How somebody new gets in: \<open>core/src/services/invite\<close> (\<open>index.ts\<close>, \<open>redeem-and-register.ts\<close>) and the
  check of unregistered senders in \<open>user-manager/user-guard.ts\<close>.
  \<open>invites.yaml\<close> is read and written anew by every operation; \<open>None\<close> is a file that is missing or
  cannot be parsed, which \<open>readYamlFile\<close> does not tell apart. Times are kept as the instants their ISO
  texts denote; the eight random hex digits, the time and whether a write succeeds are arguments. An
  operation is split into what it computes from the store it has read (\<open>*_body\<close>) and the write, so
  that operations can also be run with both reads before both writes. Codes are no property of
  \<open>Object.prototype\<close>. Messages to Telegram and the first-run wizard change none of this state.
\<close>

section \<open>Invites\<close>

datatype invite_role = RoleAdmin | RoleMember | RoleChild

record invite_code =
  ic_name :: string
  ic_createdBy :: string
  ic_createdAt :: time
  ic_expiresAt :: time
  ic_usedBy :: "string option"
  ic_usedAt :: "time option"
  ic_householdId :: string
  ic_role :: invite_role
  ic_initialSpaces :: "string list"
  ic_enabledApps :: "string list option"

type_synonym invite_store = "invite_code jsmap"

record invite_opts =
  io_householdId :: "string option"
  io_role :: "invite_role option"
  io_initialSpaces :: "string list option"
  io_enabledApps :: "string list option"

datatype invite_error =
    BlankName
  | MatchesUserId string
  | NumericName string
  | BadSpaceId string
  | HouseholdRequired
  | BadHouseholdId string
  | TakenByUser string
  | TakenByInvite string
  | InvalidCode
  | AlreadyUsed
  | CodeExpired
  | WriteFailed

definition inv_readStore :: "invite_store option \<Rightarrow> invite_store" where
  "inv_readStore f = (case f of None \<Rightarrow> [] | Some s \<Rightarrow> s)"

text \<open>The result of an operation, and what it writes if it writes.\<close>

definition inv_write :: "bool \<Rightarrow> (invite_error + 'a) \<times> invite_store option \<Rightarrow> invite_store option \<Rightarrow>
    (invite_error + 'a) \<times> invite_store option" where
  "inv_write ok rw f =
     (case snd rw of
        None \<Rightarrow> (fst rw, f)
      | Some s \<Rightarrow> if ok then (fst rw, Some s) else (Inl WriteFailed, f))"

definition DAY :: time where "DAY = 24 * 60 * 60 * 1000"

definition create_checks :: "string \<Rightarrow> invite_opts \<Rightarrow> reg_user list \<Rightarrow> invite_error option" where
  "create_checks name opts users =
     (let trimmed = trim name;
          spaces = (case io_initialSpaces opts of None \<Rightarrow> [] | Some s \<Rightarrow> s);
          household = orEmpty (io_householdId opts)
      in if trimmed = [] then Some BlankName
         else if trimmed \<in> ru_id ` set users then Some (MatchesUserId trimmed)
         else if list_all is_digit trimmed then Some (NumericName name)
         else (case find (\<lambda>s. \<not> safe_segment s) spaces of
                 Some s \<Rightarrow> Some (BadSpaceId s)
               | None \<Rightarrow>
                   if household = [] then Some HouseholdRequired
                   else if \<not> safe_segment household then Some (BadHouseholdId household)
                   else None))"

definition active :: "time \<Rightarrow> invite_code \<Rightarrow> bool" where
  "active now iv \<longleftrightarrow> ic_usedBy iv = None \<and> \<not> ic_expiresAt iv \<le> now"

definition create_body :: "time \<Rightarrow> string \<Rightarrow> string \<Rightarrow> string \<Rightarrow> invite_opts \<Rightarrow> reg_user list \<Rightarrow> invite_store \<Rightarrow>
    (invite_error + string) \<times> invite_store option" where
  "create_body now rand name createdBy opts users store =
     (let trimmed = trim name; norm = normalizeDisplayName trimmed
      in if \<exists>u \<in> set users. normalizeDisplayName (ru_name u) = norm then (Inl (TakenByUser trimmed), None)
         else if \<exists>p \<in> set store. active now (snd p) \<and> normalizeDisplayName (ic_name (snd p)) = norm
         then (Inl (TakenByInvite trimmed), None)
         else (Inr rand, Some (set_key rand
                \<lparr>ic_name = trimmed, ic_createdBy = createdBy, ic_createdAt = now, ic_expiresAt = now + DAY,
                 ic_usedBy = None, ic_usedAt = None, ic_householdId = orEmpty (io_householdId opts),
                 ic_role = (case io_role opts of None \<Rightarrow> RoleMember | Some r \<Rightarrow> r),
                 ic_initialSpaces = (case io_initialSpaces opts of None \<Rightarrow> [] | Some s \<Rightarrow> s),
                 ic_enabledApps = io_enabledApps opts\<rparr> store)))"

definition createInvite :: "bool \<Rightarrow> time \<Rightarrow> string \<Rightarrow> string \<Rightarrow> string \<Rightarrow> invite_opts \<Rightarrow> reg_user list \<Rightarrow>
    invite_store option \<Rightarrow> (invite_error + string) \<times> invite_store option" where
  "createInvite ok now rand name createdBy opts users f =
     (case create_checks name opts users of
        Some e \<Rightarrow> (Inl e, f)
      | None \<Rightarrow> inv_write ok (create_body now rand name createdBy opts users (inv_readStore f)) f)"

definition validateCode :: "time \<Rightarrow> string \<Rightarrow> invite_store option \<Rightarrow> invite_error + invite_code" where
  "validateCode now cd f =
     (case map_of (inv_readStore f) cd of
        None \<Rightarrow> Inl InvalidCode
      | Some iv \<Rightarrow>
          if ic_usedBy iv \<noteq> None then Inl AlreadyUsed
          else if ic_expiresAt iv \<le> now then Inl CodeExpired
          else Inr iv)"

definition mark_used :: "time \<Rightarrow> string \<Rightarrow> invite_code \<Rightarrow> invite_code" where
  "mark_used now u iv = iv\<lparr>ic_usedBy := Some u, ic_usedAt := Some now\<rparr>"

definition redeem_body :: "time \<Rightarrow> string \<Rightarrow> string \<Rightarrow> invite_store \<Rightarrow> (invite_error + unit) \<times> invite_store option" where
  "redeem_body now cd u store =
     (case map_of store cd of
        None \<Rightarrow> (Inl InvalidCode, None)
      | Some iv \<Rightarrow>
          if ic_usedBy iv \<noteq> None then (Inl AlreadyUsed, None)
          else if ic_expiresAt iv \<le> now then (Inl CodeExpired, None)
          else (Inr (), Some (set_key cd (mark_used now u iv) store)))"

definition redeemCode :: "bool \<Rightarrow> time \<Rightarrow> string \<Rightarrow> string \<Rightarrow> invite_store option \<Rightarrow>
    (invite_error + unit) \<times> invite_store option" where
  "redeemCode ok now cd u f = inv_write ok (redeem_body now cd u (inv_readStore f)) f"

definition claim_body :: "time \<Rightarrow> string \<Rightarrow> string \<Rightarrow> invite_store \<Rightarrow> (invite_error + invite_code) \<times> invite_store option" where
  "claim_body now cd u store =
     (case map_of store cd of
        None \<Rightarrow> (Inl InvalidCode, None)
      | Some iv \<Rightarrow>
          if ic_usedBy iv \<noteq> None then (if ic_usedBy iv = Some u then Inr iv else Inl AlreadyUsed, None)
          else if ic_expiresAt iv \<le> now then (Inl CodeExpired, None)
          else (Inr (mark_used now u iv), Some (set_key cd (mark_used now u iv) store)))"

definition claimAndRedeem :: "bool \<Rightarrow> time \<Rightarrow> string \<Rightarrow> string \<Rightarrow> invite_store option \<Rightarrow>
    (invite_error + invite_code) \<times> invite_store option" where
  "claimAndRedeem ok now cd u f = inv_write ok (claim_body now cd u (inv_readStore f)) f"

definition outdated :: "time \<Rightarrow> invite_code \<Rightarrow> bool" where
  "outdated now iv \<longleftrightarrow> ic_usedBy iv \<noteq> None \<and> ic_expiresAt iv \<le> now \<and>
     (case ic_usedAt iv of None \<Rightarrow> False | Some t \<Rightarrow> t \<le> now - 7 * DAY)"

definition cleanup_body :: "time \<Rightarrow> invite_store \<Rightarrow> (invite_error + unit) \<times> invite_store option" where
  "cleanup_body now store =
     (let kept = filter (\<lambda>p. \<not> outdated now (snd p)) store
      in (Inr (), if length kept < length store then Some kept else None))"

definition inv_cleanup :: "bool \<Rightarrow> time \<Rightarrow> invite_store option \<Rightarrow> (invite_error + unit) \<times> invite_store option" where
  "inv_cleanup ok now f = inv_write ok (cleanup_body now (inv_readStore f)) f"

section \<open>Registration with a code\<close>

record invite_world =
  iw_file :: "invite_store option"
  iw_users :: user_world
  iw_spaces :: "space_service option"

datatype outcome = Registered string | Refused invite_error | NoHousehold | Threw us_error | ClaimThrew

definition invited_user :: "string \<Rightarrow> invite_code \<Rightarrow> reg_user" where
  "invited_user u iv =
     \<lparr>ru_id = u, ru_name = ic_name iv, ru_isAdmin = (ic_role iv = RoleAdmin),
      ru_enabledApps = (case ic_enabledApps iv of None \<Rightarrow> [''*''] | Some a \<Rightarrow> a),
      ru_sharedScopes = [], ru_householdId = Some (ic_householdId iv)\<rparr>"

definition join_spaces :: "string \<Rightarrow> string list \<Rightarrow> user_world \<Rightarrow> space_service option \<Rightarrow> space_service option" where
  "join_spaces u ids uw sp =
     map_option (\<lambda>s. foldl (\<lambda>s i. sp_serve \<lparr>se_registered = map ru_id (uw_users uw), se_household = uw_household uw\<rparr> (CAdd i u) s)
       s ids) sp"

definition redeemInviteAndRegister :: "bool \<Rightarrow> bool \<Rightarrow> time \<Rightarrow> string \<Rightarrow> string \<Rightarrow> invite_world \<Rightarrow> outcome \<times> invite_world" where
  "redeemInviteAndRegister ok_claim ok_config now cd u w =
     (let (r, f) = claimAndRedeem ok_claim now cd u (iw_file w); w = w\<lparr>iw_file := f\<rparr>
      in case r of
           Inl WriteFailed \<Rightarrow> (ClaimThrew, w)
         | Inl e \<Rightarrow> (Refused e, w)
         | Inr iv \<Rightarrow>
             if ic_householdId iv = [] then (NoHousehold, w)
             else (case us_await ok_config (Register (invited_user u iv)) (iw_users w) of
                     (Some e, uw) \<Rightarrow> (Threw e, w\<lparr>iw_users := uw\<rparr>)
                   | (None, uw) \<Rightarrow>
                       (Registered (ic_name iv),
                        w\<lparr>iw_users := uw, iw_spaces := join_spaces u (ic_initialSpaces iv) uw (iw_spaces w)\<rparr>)))"

definition code_shaped :: "string \<Rightarrow> bool" where
  "code_shaped s \<longleftrightarrow> length s = 8 \<and> list_all (\<lambda>c. is_digit c \<or> (CHR ''a'' \<le> c \<and> c \<le> CHR ''f'')) s"

definition code_in :: "string \<Rightarrow> string option" where
  "code_in text =
     (let t = trim text; rest = drop 6 t
      in if code_shaped t then Some t
         else if starts_with ''/start'' t \<and> rest \<noteq> [] \<and> is_ws (hd rest) \<and> code_shaped (dropWhile is_ws rest)
         then Some (dropWhile is_ws rest)
         else None)"

text \<open>\<open>UserGuard.checkUser\<close>: may this sender go on? The guard hands no space service to the registration.\<close>

definition checkUser :: "bool \<Rightarrow> bool \<Rightarrow> time \<Rightarrow> string \<Rightarrow> string option \<Rightarrow> invite_world \<Rightarrow>
    (us_error option + bool) \<times> invite_world" where
  "checkUser ok_claim ok_config now u text w =
     (if um_isRegistered u (uw_users (iw_users w)) then (Inr True, w)
      else (case Option.bind (truthy text) code_in of
              None \<Rightarrow> (Inr False, w)
            | Some cd \<Rightarrow>
                (let (r, w') = redeemInviteAndRegister ok_claim ok_config now cd u (w\<lparr>iw_spaces := None\<rparr>);
                     w' = w'\<lparr>iw_spaces := iw_spaces w\<rparr>
                 in case r of
                      Registered _ \<Rightarrow> (Inr True, w')
                    | Threw e \<Rightarrow> (Inl (Some e), w')
                    | ClaimThrew \<Rightarrow> (Inl None, w')
                    | _ \<Rightarrow> (Inr False, w'))))"

section \<open>One code, one user\<close>

datatype invite_op =
    OpCreate string string string invite_opts "reg_user list"
  | OpClaim string string
  | OpRedeem string string
  | OpCleanup

text \<open>An operation, and the code and user it let in.\<close>

fun inv_exec :: "bool \<Rightarrow> time \<Rightarrow> invite_op \<Rightarrow> invite_store option \<Rightarrow> (string \<times> string) option \<times> invite_store option" where
  "inv_exec ok now (OpCreate rand name createdBy opts users) f =
     (None, snd (createInvite ok now rand name createdBy opts users f))"
| "inv_exec ok now (OpClaim cd u) f =
     (let (r, g) = claimAndRedeem ok now cd u f in (if is_ok r then Some (cd, u) else None, g))"
| "inv_exec ok now (OpRedeem cd u) f =
     (let (r, g) = redeemCode ok now cd u f in (if is_ok r then Some (cd, u) else None, g))"
| "inv_exec ok now OpCleanup f = (None, snd (inv_cleanup ok now f))"

fun let_in :: "(bool \<times> time \<times> invite_op) list \<Rightarrow> invite_store option \<Rightarrow> (string \<times> string) list" where
  "let_in [] f = []"
| "let_in ((ok, now, op) # ops) f =
     (let (r, g) = inv_exec ok now op f in (case r of None \<Rightarrow> [] | Some p \<Rightarrow> [p]) @ let_in ops g)"

fun mints :: "string \<Rightarrow> invite_op \<Rightarrow> bool" where
  "mints cd (OpCreate rand name createdBy opts users) = (rand = cd)"
| "mints cd _ = False"

abbreviation invite_at :: "invite_store option \<Rightarrow> string \<Rightarrow> invite_code option" where
  "invite_at f cd \<equiv> map_of (inv_readStore f) cd"

definition kept_by :: "string \<Rightarrow> string \<Rightarrow> invite_store option \<Rightarrow> bool" where
  "kept_by cd u f \<longleftrightarrow> (case invite_at f cd of None \<Rightarrow> True | Some iv \<Rightarrow> ic_usedBy iv = Some u)"

lemma inv_readStore_Some [simp]: "inv_readStore (Some s) = s"
  by (simp add: inv_readStore_def)

lemma map_of_filter_snd:
  "distinct (map fst s) \<Longrightarrow> map_of (filter (\<lambda>p. P (snd p)) s) k = (case map_of s k of None \<Rightarrow> None | Some v \<Rightarrow> if P v then Some v else None)"
  by (induction s) (auto split: option.splits simp: map_of_eq_None_iff image_iff)

lemma distinct_filter_fst: "distinct (map fst s) \<Longrightarrow> distinct (map fst (filter P s))"
  by (rule distinct_map_filter)

text \<open>What each operation does to the entry of a code it does not mint.\<close>

lemma create_frame:
  assumes "distinct (keys (inv_readStore f))" "snd (createInvite ok now rand name maker opts users f) = g"
  shows "distinct (keys (inv_readStore g)) \<and> (rand \<noteq> cd \<longrightarrow> invite_at g cd = invite_at f cd)"
  using assms
  by (auto simp: createInvite_def inv_write_def create_body_def Let_def split: option.splits if_splits)

lemma cleanup_frame:
  assumes "distinct (keys (inv_readStore f))" "snd (inv_cleanup ok now f) = g"
  shows "distinct (keys (inv_readStore g)) \<and> (invite_at g cd = invite_at f cd \<or> invite_at g cd = None)"
  using assms
  by (auto simp: inv_cleanup_def inv_write_def cleanup_body_def Let_def map_of_filter_snd distinct_filter_fst
      split: option.splits if_splits)

lemma claim_frame:
  assumes "distinct (keys (inv_readStore f))" "claimAndRedeem ok now c u f = (r, g)"
  shows "distinct (keys (inv_readStore g)) \<and> (c \<noteq> cd \<longrightarrow> invite_at g cd = invite_at f cd) \<and>
    (case r of
       Inl e \<Rightarrow> g = f
     | Inr iv \<Rightarrow> invite_at g c = Some iv \<and> ic_usedBy iv = Some u \<and>
         (\<exists>old. invite_at f c = Some old \<and> (ic_usedBy old = Some u \<and> iv = old \<or> ic_usedBy old = None \<and> now < ic_expiresAt old \<and> iv = mark_used now u old)))"
  using assms
  by (auto simp: claimAndRedeem_def inv_write_def claim_body_def mark_used_def split: option.splits if_splits)

lemma redeem_frame:
  assumes "distinct (keys (inv_readStore f))" "redeemCode ok now c u f = (r, g)"
  shows "distinct (keys (inv_readStore g)) \<and> (c \<noteq> cd \<longrightarrow> invite_at g cd = invite_at f cd) \<and>
    (case r of
       Inl e \<Rightarrow> g = f
     | Inr _ \<Rightarrow> \<exists>old. invite_at f c = Some old \<and> ic_usedBy old = None \<and> now < ic_expiresAt old \<and>
         invite_at g c = Some (mark_used now u old))"
  using assms
  by (auto simp: redeemCode_def inv_write_def redeem_body_def split: option.splits if_splits)

lemma exec_frame:
  assumes d: "distinct (keys (inv_readStore f))" and e: "inv_exec ok now op f = (r, g)" and m: "\<not> mints cd op"
  shows "distinct (keys (inv_readStore g)) \<and>
    (r = Some (cd, u) \<longrightarrow> (\<exists>old. invite_at f cd = Some old \<and>
      (ic_usedBy old = Some u \<or> ic_usedBy old = None \<and> now < ic_expiresAt old)) \<and> kept_by cd u g) \<and>
    (kept_by cd v f \<longrightarrow> kept_by cd v g) \<and>
    (\<forall>iv. invite_at f cd = Some iv \<and> ic_usedBy iv = None \<and> (\<forall>u. r \<noteq> Some (cd, u)) \<longrightarrow>
      invite_at g cd = Some iv \<or> invite_at g cd = None)"
proof (cases op)
  case (OpCreate rand name maker opts users)
  then show ?thesis using create_frame [OF d, of ok now rand name maker opts users g cd] e m by (auto simp: kept_by_def)
next
  case OpCleanup
  then show ?thesis using cleanup_frame [OF d, of ok now g cd] e by (auto simp: kept_by_def)
next
  case (OpClaim c w)
  then obtain q where q: "claimAndRedeem ok now c w f = (q, g)" "r = (if is_ok q then Some (c, w) else None)"
    using e by (auto split: prod.splits)
  show ?thesis
    using claim_frame [OF d q(1), of cd] q(2) by (cases q; cases "c = cd") (auto simp: kept_by_def mark_used_def)
next
  case (OpRedeem c w)
  then obtain q where q: "redeemCode ok now c w f = (q, g)" "r = (if is_ok q then Some (c, w) else None)"
    using e by (auto split: prod.splits)
  show ?thesis
    using redeem_frame [OF d q(1), of cd] q(2) by (cases q; cases "c = cd") (auto simp: kept_by_def mark_used_def)
qed

text \<open>Without a success of a code, its entry is as it was, or gone.\<close>

lemma entry_unchanged:
  assumes d: "distinct (keys (inv_readStore f))" and e: "inv_exec ok now op f = (r, g)" and m: "\<not> mints cd op"
    and no: "\<nexists>w. r = Some (cd, w)" and g: "invite_at g cd = Some iv"
  shows "invite_at f cd = Some iv"
proof (cases op)
  case (OpCreate rand name maker opts users)
  then show ?thesis using create_frame [OF d, of ok now rand name maker opts users g cd] e m g by auto
next
  case OpCleanup
  then show ?thesis using cleanup_frame [OF d, of ok now g cd] e g by auto
next
  case (OpClaim c w)
  then obtain q where q: "claimAndRedeem ok now c w f = (q, g)" "r = (if is_ok q then Some (c, w) else None)"
    using e by (auto split: prod.splits)
  show ?thesis using claim_frame [OF d q(1), of cd] q(2) no g by (cases q; cases "c = cd") auto
next
  case (OpRedeem c w)
  then obtain q where q: "redeemCode ok now c w f = (q, g)" "r = (if is_ok q then Some (c, w) else None)"
    using e by (auto split: prod.splits)
  show ?thesis using redeem_frame [OF d q(1), of cd] q(2) no g by (cases q; cases "c = cd") auto
qed

lemma kept_lets_in:
  assumes "kept_by cd v f" "distinct (keys (inv_readStore f))" "\<forall>(ok, now, op) \<in> set ops. \<not> mints cd op" "(cd, u) \<in> set (let_in ops f)"
  shows "u = v"
  using assms
proof (induction ops arbitrary: f)
  case (Cons x ops)
  obtain ok now op where x: "x = (ok, now, op)" by (cases x)
  obtain r g where e: "inv_exec ok now op f = (r, g)" by fastforce
  have m: "\<not> mints cd op" using Cons.prems(3) x by simp
  note frame = exec_frame [OF Cons.prems(2) e m]
  have g: "kept_by cd v g" "distinct (keys (inv_readStore g))" using frame [of u v] Cons.prems(1) by blast+
  show ?case
  proof (cases "r = Some (cd, u)")
    case True
    then show ?thesis using frame [of u v] Cons.prems(1) by (auto simp: kept_by_def)
  next
    case False
    then have "(cd, u) \<in> set (let_in ops g)" using Cons.prems(4) x e by (auto split: option.splits)
    then show ?thesis using Cons.IH [OF g] Cons.prems(3) by simp
  qed
qed simp

lemma invited_id [simp]: "ru_id (invited_user u iv) = u"
  by (simp add: invited_user_def)

lemma claim_Inr:
  assumes "claimAndRedeem ok now cd u f = (Inr iv, g)"
  shows "invite_at g cd = Some iv" "ic_usedBy iv = Some u"
  using assms by (auto simp: claimAndRedeem_def inv_write_def claim_body_def mark_used_def split: option.splits if_splits)

lemma register_invited:
  assumes rest: "at_rest uw" and new: "um_getUser u (uw_users uw) = None"
    and reg: "us_await ok (Register (invited_user u iv)) uw = (e, uw')"
  shows "at_rest uw' \<and>
    (if e = None
     then table uw' = (table uw)(u \<mapsto> invited_user u iv) \<and>
       (ic_householdId iv \<noteq> [] \<longrightarrow> (\<forall>h. uw_household uw' = Some h \<longrightarrow> hs_getHouseholdForUser u h = Some (ic_householdId iv)))
     else uw' = uw)"
proof -
  have t: "transaction ok (Register (invited_user u iv)) uw e uw'" by (rule transaction_register [OF rest reg])
  show ?thesis
  proof (cases e)
    case None
    then have tab: "table uw' = (table uw)(u \<mapsto> invited_user u iv)" using t new by (simp add: transaction_def)
    then have "um_getUser u (uw_users uw') = Some (invited_user u iv)" by (rule fun_cong [of _ _ u, THEN trans]) simp
    moreover have "homes_ok uw'" using t by (simp add: transaction_def at_rest_def)
    ultimately have "hs_getHouseholdForUser u h = Some (ic_householdId iv)"
      if "ic_householdId iv \<noteq> []" "uw_household uw' = Some h" for h
      using that by (simp add: homes_ok_def invited_user_def)
    then show ?thesis using t tab None by (simp add: transaction_def)
  qed (use t rest in \<open>auto simp: transaction_def\<close>)
qed

text \<open>After a registration that only the disk refused, the same code registers its user.\<close>

lemma retry_registers:
  assumes rest: "at_rest uw" and new: "um_getUser u (uw_users uw) = None"
    and failed: "fst (us_await ok (Register (invited_user u iv)) uw) = Some SyncFailed"
    and claimed: "invite_at f cd = Some iv" "ic_usedBy iv = Some u" and hh: "ic_householdId iv \<noteq> []"
    and w: "iw_file w = f" "iw_users w = uw"
  shows "\<exists>name. fst (redeemInviteAndRegister True True later cd u w) = Registered name"
proof -
  have idle: "uw_pending uw = []" using rest by (simp add: at_rest_def)
  let ?c = "Register (invited_user u iv)"
  have "\<not> name_taken (ru_name (invited_user u iv)) (uw_users uw)"
    using us_register_await [OF idle, of ok "invited_user u iv"] new failed
    by (cases "us_await ok ?c uw") (auto split: if_splits)
  then have "fst (us_await True ?c uw) = None"
    using us_register_await [OF idle, of True "invited_user u iv"] new by (cases "us_await True ?c uw") simp
  moreover have "claimAndRedeem True later cd u f = (Inr iv, f)"
    using claimed by (simp add: claimAndRedeem_def inv_write_def claim_body_def)
  ultimately show ?thesis using w hh by (cases "us_await True ?c uw") (simp add: redeemInviteAndRegister_def)
qed

section \<open>Properties\<close>


definition plain_opts :: invite_opts where
  "plain_opts = \<lparr>io_householdId = Some ''h'', io_role = None, io_initialSpaces = Some [''s''], io_enabledApps = None\<rparr>"

definition dora_file :: "invite_store option" where
  "dora_file = snd (createInvite True 0 ''00c0ffee'' ''Dora'' ''1'' plain_opts [] None)"

lemma dora_file_eq:
  "dora_file = Some [(''00c0ffee'', \<lparr>ic_name = ''Dora'', ic_createdBy = ''1'', ic_createdAt = 0, ic_expiresAt = DAY,
     ic_usedBy = None, ic_usedAt = None, ic_householdId = ''h'', ic_role = RoleMember, ic_initialSpaces = [''s''],
     ic_enabledApps = None\<rparr>)]"
  by code_simp

definition dora_ops :: "(bool \<times> time \<times> invite_op) list" where
  "dora_ops = [(False, 5, OpClaim ''00c0ffee'' ''6''), (True, 10, OpClaim ''00c0ffee'' ''7''), (True, 20, OpClaim ''00c0ffee'' ''8''),
     (True, 30, OpClaim ''00c0ffee'' ''7'')]"


text \<open>
  C37. Redeeming a code is all or nothing for the users: it answers that somebody is registered
  exactly when the table of users has gained them, under the name, role, apps and household
  of an invite that is now used by them, and the household directory knows it; on any other answer
  users, directory and spaces are as before. When the registration failed because the configuration
  could not be written, the code stays theirs: they succeed with it at any later time, even after it
  has expired, once the disk works again.
\<close>

theorem redemption_outcome:
  assumes rest: "at_rest (iw_users w)" and new: "um_getUser u (uw_users (iw_users w)) = None"
    and run: "redeemInviteAndRegister ok1 ok2 now cd u w = (r, w')"
  shows "at_rest (iw_users w') \<and>
    (case r of
       Registered name \<Rightarrow> \<exists>iv. invite_at (iw_file w') cd = Some iv \<and> ic_usedBy iv = Some u \<and> name = ic_name iv \<and>
         table (iw_users w') = (table (iw_users w))(u \<mapsto> invited_user u iv) \<and>
         (\<forall>h. uw_household (iw_users w') = Some h \<longrightarrow> hs_getHouseholdForUser u h = Some (ic_householdId iv))
     | _ \<Rightarrow> iw_users w' = iw_users w \<and> iw_spaces w' = iw_spaces w) \<and>
    (r = Threw SyncFailed \<longrightarrow> (\<exists>name. fst (redeemInviteAndRegister True True later cd u w') = Registered name))"
proof -
  obtain q f where q: "claimAndRedeem ok1 now cd u (iw_file w) = (q, f)" by fastforce
  show ?thesis
  proof (cases "\<exists>iv. q = Inr iv \<and> ic_householdId iv \<noteq> []")
    case False
    show ?thesis
    proof (cases q)
      case (Inl e)
      then show ?thesis using run q rest by (cases e) (auto simp: redeemInviteAndRegister_def)
    qed (use False run q rest in \<open>auto simp: redeemInviteAndRegister_def\<close>)
  next
    case True
    then obtain iv where iv: "q = Inr iv" "ic_householdId iv \<noteq> []" by blast
    obtain e uw where reg: "us_await ok2 (Register (invited_user u iv)) (iw_users w) = (e, uw)" by fastforce
    note claimed = claim_Inr [OF q [unfolded iv(1)]]
    note registered = register_invited [OF rest new reg]
    show ?thesis
    proof (cases e)
      case None
      then have w': "r = Registered (ic_name iv)" "iw_file w' = f" "iw_users w' = uw"
        using run q iv reg by (auto simp: redeemInviteAndRegister_def)
      then show ?thesis using claimed registered None iv(2) by auto
    next
      case (Some x)
      then have w': "r = Threw x" "iw_file w' = f" "iw_users w' = iw_users w" "iw_spaces w' = iw_spaces w"
        using run q iv reg registered by (auto simp: redeemInviteAndRegister_def)
      have "\<exists>name. fst (redeemInviteAndRegister True True later cd u w') = Registered name" if "x = SyncFailed"
        using retry_registers [OF rest new _ claimed(1,2) iv(2), of ok2 w' later] reg Some that w' by simp
      then show ?thesis using w' rest by auto
    qed
  qed
qed

definition start_world :: invite_world where
  "start_world = \<lparr>iw_file = dora_file, iw_users = world_of [ann], iw_spaces = None\<rparr>"

lemma redemption_outcome_witness:
  "at_rest (iw_users (snd (redeemInviteAndRegister True False 10 ''00c0ffee'' ''7'' start_world))) \<and>
   (\<exists>name. fst (redeemInviteAndRegister True True (99 * DAY) ''00c0ffee'' ''7''
     (snd (redeemInviteAndRegister True False 10 ''00c0ffee'' ''7'' start_world))) = Registered name)"
proof -
  obtain r w' where run: "redeemInviteAndRegister True False 10 ''00c0ffee'' ''7'' start_world = (r, w')" by fastforce
  have "fst (redeemInviteAndRegister True False 10 ''00c0ffee'' ''7'' start_world) = Threw SyncFailed" by code_simp
  then have r: "r = Threw SyncFailed" using run by simp
  have rest: "at_rest (iw_users start_world)" using sample_at_rest by (simp add: start_world_def)
  have new: "um_getUser ''7'' (uw_users (iw_users start_world)) = None" by code_simp
  show ?thesis using redemption_outcome [OF rest new run, of "99 * DAY"] r unfolding run snd_conv by blast
qed

section \<open>Where the code falls short\<close>

text \<open>
  \<open>createInvite\<close> locks the file, \<open>claimAndRedeem\<close> locks the code, and neither excludes the other: when both
  have read before either writes, the later write of the creation brings back the unused entry, and
  the code lets in a second user.
\<close>

lemma overlapping_creation_revives_a_used_code:
  "let read = inv_readStore dora_file;
       (r1, w1) = claim_body 10 ''00c0ffee'' ''7'' read;
       (r2, w2) = create_body 10 ''12345678'' ''Emil'' ''1'' plain_opts [] read;
       file = w2
   in is_ok r1 \<and> is_ok r2 \<and> w1 \<noteq> None \<and> is_ok (fst (claimAndRedeem True 20 ''00c0ffee'' ''8'' file))"
  by code_simp

text \<open>
  The retry that lets a user claim their own used code has no end: a user whom an admin has removed
  comes back by sending the old code, expired or not, until a restart cleans it up.
\<close>

lemma removed_user_comes_back:
  "let w1 = snd (redeemInviteAndRegister True True 10 ''00c0ffee'' ''7'' start_world);
       (e, uw) = us_await True (Remove ''7'' (Some ''1'')) (iw_users w1);
       w2 = w1\<lparr>iw_users := uw\<rparr>;
       (r, w3) = checkUser True True (30 * DAY) ''7'' (Some ''00c0ffee'') w2
   in e = None \<and> um_getUser ''7'' (uw_users uw) = None \<and> r = Inr True \<and> um_isRegistered ''7'' (uw_users (iw_users w3))"
  by code_simp

text \<open>The guard hands over no space service, so the spaces of an invite are never joined.\<close>

lemma guard_joins_no_space: "iw_spaces (snd (checkUser ok1 ok2 now u text w)) = iw_spaces w"
  by (auto simp: checkUser_def Let_def split: option.splits prod.splits outcome.splits)

end
