(* ===== verification/Locks.thy ===== *)
theory Locks
  imports Prelude
begin

text \<open>
  \<open>core/src/utils/async-lock.ts\<close> and \<open>core/src/utils/file-mutex.ts\<close>: the locks that serialize every
  read-modify-write of the program. First the promise chain of \<open>AsyncLock\<close>, one step per event of
  the event loop; then, over the queues it implements, the nested acquisition of several keys.
\<close>

section \<open>The promise chain\<close>

text \<open>
  A call of \<open>run\<close>: its key, the promise it chains on, and how far it is. \<open>Waiting\<close> ends when the
  previous promise has settled, \<open>Running\<close> is inside \<open>fn\<close>, \<open>Settled\<close> is before and \<open>Gone\<close> after the
  \<open>finally\<close> block.
\<close>

datatype run_status = Waiting | Running | Settled | Gone

record run_call =
  rc_key :: string
  rc_prev :: "nat option"
  rc_status :: run_status

record async_lock =
  al_calls :: "run_call list"
  al_chains :: "nat jsmap"

definition new_async_lock :: async_lock where
  "new_async_lock = \<lparr>al_calls = [], al_chains = []\<rparr>"

definition al_run :: "string \<Rightarrow> async_lock \<Rightarrow> async_lock" where
  "al_run key s =
     s\<lparr>al_calls := al_calls s @ [\<lparr>rc_key = key, rc_prev = map_of (al_chains s) key, rc_status = Waiting\<rparr>],
       al_chains := set_key key (length (al_calls s)) (al_chains s)\<rparr>"

fun settled :: "run_status \<Rightarrow> bool" where
  "settled Settled = True"
| "settled Gone = True"
| "settled _ = False"

abbreviation call :: "async_lock \<Rightarrow> nat \<Rightarrow> run_call" where
  "call s i \<equiv> al_calls s ! i"

definition set_status :: "nat \<Rightarrow> run_status \<Rightarrow> async_lock \<Rightarrow> async_lock" where
  "set_status i st s = s\<lparr>al_calls := (al_calls s)[i := (call s i)\<lparr>rc_status := st\<rparr>]\<rparr>"

definition may_start :: "nat \<Rightarrow> async_lock \<Rightarrow> bool" where
  "may_start i s \<longleftrightarrow>
     i < length (al_calls s) \<and> rc_status (call s i) = Waiting \<and>
     (case rc_prev (call s i) of None \<Rightarrow> True | Some p \<Rightarrow> settled (rc_status (call s p)))"

definition al_finally :: "nat \<Rightarrow> async_lock \<Rightarrow> async_lock" where
  "al_finally i s =
     (let s' = set_status i Gone s; key = rc_key (call s i)
      in if map_of (al_chains s) key = Some i then s'\<lparr>al_chains := del_key key (al_chains s)\<rparr> else s')"

text \<open>Whether \<open>fn\<close> succeeds or throws makes no difference to the lock.\<close>

inductive al_step :: "async_lock \<Rightarrow> async_lock \<Rightarrow> bool" where
  al_call: "al_step s (al_run key s)"
| al_start: "may_start i s \<Longrightarrow> al_step s (set_status i Running s)"
| al_settle: "i < length (al_calls s) \<Longrightarrow> rc_status (call s i) = Running \<Longrightarrow> al_step s (set_status i Settled s)"
| al_clean: "i < length (al_calls s) \<Longrightarrow> rc_status (call s i) = Settled \<Longrightarrow> al_step s (al_finally i s)"

text \<open>
  The tail of a chain is the latest call of its key, a key without a chain has nothing left to do,
  a call chains on the latest call before it or on nothing that is left, and a call that has
  started comes after everything earlier of its key has settled.
\<close>

abbreviation is_settled :: "async_lock \<Rightarrow> nat \<Rightarrow> bool" where
  "is_settled s i \<equiv> settled (rc_status (call s i))"

definition tails_ok :: "async_lock \<Rightarrow> bool" where
  "tails_ok s \<longleftrightarrow>
     (\<forall>k. case map_of (al_chains s) k of
        Some t \<Rightarrow> t < length (al_calls s) \<and> rc_key (call s t) = k \<and>
          (\<forall>j < length (al_calls s). rc_key (call s j) = k \<longrightarrow> j \<le> t)
      | None \<Rightarrow> (\<forall>j < length (al_calls s). rc_key (call s j) = k \<longrightarrow> is_settled s j))"

definition prevs_ok :: "async_lock \<Rightarrow> bool" where
  "prevs_ok s \<longleftrightarrow>
     (\<forall>i < length (al_calls s).
        case rc_prev (call s i) of
          Some p \<Rightarrow> p < i \<and> rc_key (call s p) = rc_key (call s i) \<and>
            (\<forall>j < i. rc_key (call s j) = rc_key (call s i) \<longrightarrow> j \<le> p)
        | None \<Rightarrow> (\<forall>j < i. rc_key (call s j) = rc_key (call s i) \<longrightarrow> is_settled s j))"

definition started_ok :: "async_lock \<Rightarrow> bool" where
  "started_ok s \<longleftrightarrow>
     (\<forall>i < length (al_calls s). rc_status (call s i) \<noteq> Waiting \<longrightarrow>
        (\<forall>j < i. rc_key (call s j) = rc_key (call s i) \<longrightarrow> is_settled s j))"

definition al_ok :: "async_lock \<Rightarrow> bool" where
  "al_ok s \<longleftrightarrow> tails_ok s \<and> prevs_ok s \<and> started_ok s"

text \<open>The queue of a key: its calls that have not settled, in the order they were made.\<close>

definition queue_of :: "string \<Rightarrow> async_lock \<Rightarrow> nat list" where
  "queue_of k s = filter (\<lambda>i. rc_key (call s i) = k \<and> \<not> is_settled s i) [0 ..< length (al_calls s)]"

lemma set_status_fields [simp]:
  "length (al_calls (set_status i st s)) = length (al_calls s)"
  "al_chains (set_status i st s) = al_chains s"
  "rc_key (call (set_status i st s) j) = rc_key (call s j)"
  "rc_prev (call (set_status i st s) j) = rc_prev (call s j)"
  "i < length (al_calls s) \<Longrightarrow> rc_status (call (set_status i st s) j) = (if j = i then st else rc_status (call s j))"
proof -
  have "call (set_status i st s) j = (if j = i \<and> i < length (al_calls s) then (call s i)\<lparr>rc_status := st\<rparr> else call s j)"
    by (cases "i < length (al_calls s)") (simp_all add: set_status_def not_less list_update_beyond)
  then show "rc_key (call (set_status i st s) j) = rc_key (call s j)"
    "rc_prev (call (set_status i st s) j) = rc_prev (call s j)"
    "i < length (al_calls s) \<Longrightarrow> rc_status (call (set_status i st s) j) = (if j = i then st else rc_status (call s j))"
    by simp_all
qed (simp_all add: set_status_def)

lemma al_run_fields:
  "al_calls (al_run k s) = al_calls s @ [\<lparr>rc_key = k, rc_prev = map_of (al_chains s) k, rc_status = Waiting\<rparr>]"
  "al_chains (al_run k s) = set_key k (length (al_calls s)) (al_chains s)"
  by (simp_all add: al_run_def)

text \<open>Statuses only move towards settled.\<close>

lemma ok_set_status:
  assumes ok: "al_ok s" and i: "i < length (al_calls s)" and up: "is_settled s i \<longrightarrow> settled st"
    and start: "st = Waiting \<or> rc_status (call s i) \<noteq> Waiting \<or>
      (\<forall>j < i. rc_key (call s j) = rc_key (call s i) \<longrightarrow> is_settled s j)"
  shows "al_ok (set_status i st s)"
proof -
  have mono: "is_settled s j \<Longrightarrow> is_settled (set_status i st s) j" for j using i up by (cases "j = i") auto
  have "tails_ok (set_status i st s)"
    unfolding tails_ok_def
  proof
    fix k
    have "case map_of (al_chains s) k of
        Some t \<Rightarrow> t < length (al_calls s) \<and> rc_key (call s t) = k \<and>
          (\<forall>j < length (al_calls s). rc_key (call s j) = k \<longrightarrow> j \<le> t)
      | None \<Rightarrow> (\<forall>j < length (al_calls s). rc_key (call s j) = k \<longrightarrow> is_settled s j)"
      using ok by (simp only: al_ok_def tails_ok_def)
    then show "case map_of (al_chains (set_status i st s)) k of
        Some t \<Rightarrow> t < length (al_calls (set_status i st s)) \<and> rc_key (call (set_status i st s) t) = k \<and>
          (\<forall>j < length (al_calls (set_status i st s)). rc_key (call (set_status i st s) j) = k \<longrightarrow> j \<le> t)
      | None \<Rightarrow> (\<forall>j < length (al_calls (set_status i st s)). rc_key (call (set_status i st s) j) = k \<longrightarrow>
          is_settled (set_status i st s) j)"
      using mono unfolding set_status_fields by (cases "map_of (al_chains s) k") auto
  qed
  moreover have "prevs_ok (set_status i st s)"
    unfolding prevs_ok_def
  proof (intro allI impI)
    fix a
    assume "a < length (al_calls (set_status i st s))"
    then have "case rc_prev (call s a) of
        Some p \<Rightarrow> p < a \<and> rc_key (call s p) = rc_key (call s a) \<and>
          (\<forall>j < a. rc_key (call s j) = rc_key (call s a) \<longrightarrow> j \<le> p)
      | None \<Rightarrow> (\<forall>j < a. rc_key (call s j) = rc_key (call s a) \<longrightarrow> is_settled s j)"
      using ok by (simp only: al_ok_def prevs_ok_def set_status_fields)
    then show "case rc_prev (call (set_status i st s) a) of
        Some p \<Rightarrow> p < a \<and> rc_key (call (set_status i st s) p) = rc_key (call (set_status i st s) a) \<and>
          (\<forall>j < a. rc_key (call (set_status i st s) j) = rc_key (call (set_status i st s) a) \<longrightarrow> j \<le> p)
      | None \<Rightarrow> (\<forall>j < a. rc_key (call (set_status i st s) j) = rc_key (call (set_status i st s) a) \<longrightarrow>
          is_settled (set_status i st s) j)"
      using mono unfolding set_status_fields by (cases "rc_prev (call s a)") auto
  qed
  moreover have "started_ok (set_status i st s)"
    unfolding started_ok_def
  proof (intro allI impI)
    fix a b
    assume a: "a < length (al_calls (set_status i st s))" and st: "rc_status (call (set_status i st s) a) \<noteq> Waiting"
      and b: "b < a" "rc_key (call (set_status i st s) b) = rc_key (call (set_status i st s) a)"
    have "is_settled s b"
    proof (cases "rc_status (call s a) = Waiting")
      case True
      then have "a = i" using st i by (auto split: if_splits)
      then show ?thesis using start st b i True by auto
    next
      case False
      then show ?thesis using ok a b by (auto simp: al_ok_def started_ok_def)
    qed
    then show "is_settled (set_status i st s) b" by (rule mono)
  qed
  ultimately show ?thesis by (simp add: al_ok_def)
qed

lemma start_in_order:
  assumes "al_ok s" "may_start i s" "j < i" "rc_key (call s j) = rc_key (call s i)"
  shows "is_settled s j"
proof (cases "rc_prev (call s i)")
  case None
  then show ?thesis using assms by (auto simp: al_ok_def prevs_ok_def may_start_def)
next
  case (Some p)
  have i: "i < length (al_calls s)" using assms(2) by (simp add: may_start_def)
  then have p: "p < i" "rc_key (call s p) = rc_key (call s i)" "j \<le> p"
    using assms Some by (auto simp: al_ok_def prevs_ok_def split: option.splits)
  have sp: "is_settled s p" using assms(2) Some by (simp add: may_start_def)
  then have started: "rc_status (call s p) \<noteq> Waiting" by auto
  show ?thesis
  proof (cases "j = p")
    case False
    have "j < p" "p < length (al_calls s)" "rc_key (call s j) = rc_key (call s p)" using False p i assms(4) by auto
    then show ?thesis using assms(1) started unfolding al_ok_def started_ok_def by blast
  qed (use sp in simp)
qed

lemma al_step_ok: "al_step s t \<Longrightarrow> al_ok s \<Longrightarrow> al_ok t"
proof (induction rule: al_step.induct)
  case (al_start i s)
  then show ?case
    using start_in_order by (intro ok_set_status) (auto simp: may_start_def)
next
  case (al_settle i s)
  then show ?case by (intro ok_set_status) auto
next
  case (al_clean i s)
  then have ok: "al_ok (set_status i Gone s)" by (intro ok_set_status) auto
  show ?case
  proof (cases "map_of (al_chains s) (rc_key (call s i)) = Some i")
    case False
    then show ?thesis using ok by (simp add: al_finally_def Let_def)
  next
    case True
    let ?k = "rc_key (call s i)" and ?s = "set_status i Gone s"
    have last: "j \<le> i" if "j < length (al_calls s)" "rc_key (call s j) = ?k" for j
      using al_clean.prems True that by (auto simp: al_ok_def tails_ok_def dest!: spec [of _ ?k])
    have old: "is_settled ?s j" if "j < length (al_calls s)" "rc_key (call s j) = ?k" for j
      using al_clean ok last [OF that] that
      by (cases "j = i") (auto simp: al_ok_def started_ok_def)
    let ?t = "al_finally i s"
    have t: "al_calls ?t = al_calls ?s" "al_chains ?t = del_key ?k (al_chains s)"
      using True by (simp_all add: al_finally_def Let_def)
    have "tails_ok ?t"
      unfolding tails_ok_def
    proof
      fix k
      have "case map_of (al_chains ?s) k of
          Some t \<Rightarrow> t < length (al_calls ?s) \<and> rc_key (call ?s t) = k \<and>
            (\<forall>j < length (al_calls ?s). rc_key (call ?s j) = k \<longrightarrow> j \<le> t)
        | None \<Rightarrow> (\<forall>j < length (al_calls ?s). rc_key (call ?s j) = k \<longrightarrow> is_settled ?s j)"
        using ok by (simp only: al_ok_def tails_ok_def)
      then show "case map_of (al_chains ?t) k of
          Some t \<Rightarrow> t < length (al_calls ?t) \<and> rc_key (call ?t t) = k \<and>
            (\<forall>j < length (al_calls ?t). rc_key (call ?t j) = k \<longrightarrow> j \<le> t)
        | None \<Rightarrow> (\<forall>j < length (al_calls ?t). rc_key (call ?t j) = k \<longrightarrow> is_settled ?t j)"
        unfolding t using old by (cases "k = ?k") (simp_all split: option.splits)
    qed
    moreover have "prevs_ok ?t" "started_ok ?t"
      using ok unfolding al_ok_def prevs_ok_def started_ok_def t by blast+
    ultimately show ?thesis by (simp add: al_ok_def)
  qed
next
  case (al_call s key)
  let ?n = "length (al_calls s)" and ?t = "al_run key s"
  have len: "length (al_calls ?t) = Suc ?n" by (simp add: al_run_fields)
  have old: "call ?t j = call s j" if "j < ?n" for j using that by (simp add: al_run_fields nth_append)
  have new: "rc_key (call ?t ?n) = key" "rc_prev (call ?t ?n) = map_of (al_chains s) key" "rc_status (call ?t ?n) = Waiting"
    by (simp_all add: al_run_fields)
  have tails: "tails_ok ?t"
    unfolding tails_ok_def
  proof
    fix k
    show "case map_of (al_chains ?t) k of
        Some t \<Rightarrow> t < length (al_calls ?t) \<and> rc_key (call ?t t) = k \<and>
          (\<forall>j < length (al_calls ?t). rc_key (call ?t j) = k \<longrightarrow> j \<le> t)
      | None \<Rightarrow> (\<forall>j < length (al_calls ?t). rc_key (call ?t j) = k \<longrightarrow> is_settled ?t j)"
    proof (cases "k = key")
      case True
      then show ?thesis using new len by (simp add: al_run_fields(2))
    next
      case False
      have chain: "map_of (al_chains ?t) k = map_of (al_chains s) k" using False by (simp add: al_run_fields)
      have "case map_of (al_chains s) k of
          Some t \<Rightarrow> t < ?n \<and> rc_key (call s t) = k \<and> (\<forall>j < ?n. rc_key (call s j) = k \<longrightarrow> j \<le> t)
        | None \<Rightarrow> (\<forall>j < ?n. rc_key (call s j) = k \<longrightarrow> is_settled s j)"
        using al_call by (simp add: al_ok_def tails_ok_def)
      then show ?thesis
        unfolding chain len using False new(1) old by (auto simp: less_Suc_eq split: option.splits)
    qed
  qed
  have prevs: "prevs_ok ?t"
    unfolding prevs_ok_def len
  proof (intro allI impI)
    fix i
    assume "i < Suc ?n"
    then consider "i < ?n" | "i = ?n" by linarith
    then show "case rc_prev (call ?t i) of
          Some p \<Rightarrow> p < i \<and> rc_key (call ?t p) = rc_key (call ?t i) \<and>
            (\<forall>j < i. rc_key (call ?t j) = rc_key (call ?t i) \<longrightarrow> j \<le> p)
        | None \<Rightarrow> (\<forall>j < i. rc_key (call ?t j) = rc_key (call ?t i) \<longrightarrow> is_settled ?t j)"
    proof cases
      case 1
      have "case rc_prev (call s i) of
          Some p \<Rightarrow> p < i \<and> rc_key (call s p) = rc_key (call s i) \<and>
            (\<forall>j < i. rc_key (call s j) = rc_key (call s i) \<longrightarrow> j \<le> p)
        | None \<Rightarrow> (\<forall>j < i. rc_key (call s j) = rc_key (call s i) \<longrightarrow> is_settled s j)"
        using al_call 1 by (simp add: al_ok_def prevs_ok_def)
      then show ?thesis using 1 old by (auto split: option.splits)
    next
      case 2
      have "case map_of (al_chains s) key of
          Some t \<Rightarrow> t < ?n \<and> rc_key (call s t) = key \<and> (\<forall>j < ?n. rc_key (call s j) = key \<longrightarrow> j \<le> t)
        | None \<Rightarrow> (\<forall>j < ?n. rc_key (call s j) = key \<longrightarrow> is_settled s j)"
        using al_call by (simp add: al_ok_def tails_ok_def)
      then show ?thesis unfolding 2 new using old by (auto split: option.splits)
    qed
  qed
  have "started_ok ?t"
    unfolding started_ok_def len
  proof (intro allI impI)
    fix i j
    assume "i < Suc ?n" "rc_status (call ?t i) \<noteq> Waiting" and j: "j < i" "rc_key (call ?t j) = rc_key (call ?t i)"
    then have "i < ?n" using new(3) by (cases "i = ?n") auto
    then show "is_settled ?t j"
      using al_call j old \<open>rc_status (call ?t i) \<noteq> Waiting\<close> by (auto simp: al_ok_def started_ok_def)
  qed
  then show ?case using tails prevs by (simp add: al_ok_def)
qed

lemma al_steps_ok: "al_step\<^sup>*\<^sup>* new_async_lock s \<Longrightarrow> al_ok s"
  by (induction rule: rtranclp_induct)
     (auto simp: al_ok_def tails_ok_def prevs_ok_def started_ok_def new_async_lock_def dest: al_step_ok [unfolded al_ok_def])

text \<open>Each event is one operation of a queue.\<close>

lemma queue_run: "queue_of k (al_run key s) = (if k = key then queue_of k s @ [length (al_calls s)] else queue_of k s)"
  by (auto simp: queue_of_def al_run_fields nth_append intro!: filter_cong)

lemma queue_head:
  assumes "al_ok s" "i < length (al_calls s)" "\<not> is_settled s i"
    and "\<And>j. j < i \<Longrightarrow> rc_key (call s j) = rc_key (call s i) \<Longrightarrow> is_settled s j"
  shows "queue_of (rc_key (call s i)) s = i # filter (\<lambda>j. rc_key (call s j) = rc_key (call s i) \<and> \<not> is_settled s j) [Suc i ..< length (al_calls s)]"
proof -
  have "[0 ..< length (al_calls s)] = [0 ..< i] @ i # [Suc i ..< length (al_calls s)]"
    using assms(2) by (metis less_imp_add_positive add_0 le0 less_imp_le upt_add_eq_append upt_conv_Cons le_add_diff_inverse)
  moreover have "filter (\<lambda>j. rc_key (call s j) = rc_key (call s i) \<and> \<not> is_settled s j) [0 ..< i] = []"
    using assms(4) by (auto simp: filter_empty_conv)
  ultimately show ?thesis using assms(3) by (simp add: queue_of_def)
qed

lemma start_is_head: "al_ok s \<Longrightarrow> may_start i s \<Longrightarrow> \<exists>q. queue_of (rc_key (call s i)) s = i # q"
  using queue_head [of s i] start_in_order [of s i] by (auto simp: may_start_def)

lemma running_is_head:
  "al_ok s \<Longrightarrow> i < length (al_calls s) \<Longrightarrow> rc_status (call s i) = Running \<Longrightarrow> \<exists>q. queue_of (rc_key (call s i)) s = i # q"
  using queue_head [of s i] by (auto simp: al_ok_def started_ok_def)

lemma queue_set_status:
  assumes "i < length (al_calls s)"
  shows "queue_of k (set_status i st s) =
    (if settled st then filter (\<lambda>j. j \<noteq> i) (queue_of k s) else filter (\<lambda>j. j \<noteq> i \<or> rc_key (call s i) = k) (filter (\<lambda>j. rc_key (call s j) = k \<and> (j = i \<or> \<not> is_settled s j)) [0 ..< length (al_calls s)]))"
  using assms by (auto simp: queue_of_def intro!: filter_cong)

text \<open>The head of a queue runs or may start: no call waits for nothing.\<close>

lemma head_progress:
  assumes "al_ok s" "queue_of k s = i # q"
  shows "rc_status (call s i) = Running \<or> may_start i s"
proof -
  have "i \<in> set (queue_of k s)" using assms(2) by simp
  then have i: "i < length (al_calls s)" "rc_key (call s i) = k" "\<not> is_settled s i" by (auto simp: queue_of_def)
  have first: "is_settled s j" if "j < i" "rc_key (call s j) = k" for j
  proof (rule ccontr)
    assume "\<not> is_settled s j"
    then have j: "j \<in> set (queue_of k s)" using that i by (simp add: queue_of_def)
    have "sorted (queue_of k s)" by (simp add: queue_of_def sorted_wrt_filter)
    then show False using assms(2) j that(1) by auto
  qed
  show ?thesis
  proof (cases "rc_status (call s i)")
    case Waiting
    have "is_settled s p" if "rc_prev (call s i) = Some p" for p
      using assms(1) i first that by (auto simp: al_ok_def prevs_ok_def split: option.splits)
    then show ?thesis using Waiting i by (auto simp: may_start_def split: option.splits)
  qed (use i in auto)
qed

section \<open>Several keys at once\<close>

text \<open>
  \<open>withMultiFileLock\<close>: the keys without duplicates, sorted, acquired one inside the other. A
  process waits in the queue of its next key, works when it has them all, and leaves the queues
  from the innermost out.
\<close>

datatype phase = Acquiring | Working | Releasing

record proc =
  pr_keys :: "string list"
  pr_held :: nat
  pr_phase :: phase

record lock_world =
  lw_procs :: "proc list"
  lw_queues :: "string \<Rightarrow> nat list"

definition sorted_keys :: "string list \<Rightarrow> string list" where
  "sorted_keys ks = sort (remdups ks)"

text \<open>Ask for the next key, or work when there is none.\<close>

definition advance :: "nat \<Rightarrow> proc \<Rightarrow> lock_world \<Rightarrow> lock_world" where
  "advance p pr w =
     (if pr_held pr < length (pr_keys pr)
      then w\<lparr>lw_procs := (lw_procs w)[p := pr\<lparr>pr_phase := Acquiring\<rparr>],
             lw_queues := (lw_queues w)(pr_keys pr ! pr_held pr := lw_queues w (pr_keys pr ! pr_held pr) @ [p])\<rparr>
      else w\<lparr>lw_procs := (lw_procs w)[p := pr\<lparr>pr_phase := Working\<rparr>]\<rparr>)"

definition lw_enter :: "string list \<Rightarrow> lock_world \<Rightarrow> lock_world" where
  "lw_enter ks w =
     (let pr = \<lparr>pr_keys = sorted_keys ks, pr_held = 0, pr_phase = Working\<rparr>
      in advance (length (lw_procs w)) pr (w\<lparr>lw_procs := lw_procs w @ [pr]\<rparr>))"

definition may_grant :: "nat \<Rightarrow> lock_world \<Rightarrow> bool" where
  "may_grant p w \<longleftrightarrow>
     p < length (lw_procs w) \<and> pr_phase (lw_procs w ! p) = Acquiring \<and>
     (let pr = lw_procs w ! p; q = lw_queues w (pr_keys pr ! pr_held pr) in q \<noteq> [] \<and> hd q = p)"

definition lw_grant :: "nat \<Rightarrow> lock_world \<Rightarrow> lock_world" where
  "lw_grant p w = (let pr = lw_procs w ! p in advance p (pr\<lparr>pr_held := Suc (pr_held pr)\<rparr>) w)"

definition lw_finish :: "nat \<Rightarrow> lock_world \<Rightarrow> lock_world" where
  "lw_finish p w = w\<lparr>lw_procs := (lw_procs w)[p := (lw_procs w ! p)\<lparr>pr_phase := Releasing\<rparr>]\<rparr>"

definition lw_release :: "nat \<Rightarrow> lock_world \<Rightarrow> lock_world" where
  "lw_release p w =
     (let pr = lw_procs w ! p; k = pr_keys pr ! (pr_held pr - 1)
      in w\<lparr>lw_procs := (lw_procs w)[p := pr\<lparr>pr_held := pr_held pr - 1\<rparr>],
           lw_queues := (lw_queues w)(k := removeAll p (lw_queues w k))\<rparr>)"

inductive lw_move :: "lock_world \<Rightarrow> lock_world \<Rightarrow> bool" where
  move_grant: "may_grant p w \<Longrightarrow> lw_move w (lw_grant p w)"
| move_finish: "p < length (lw_procs w) \<Longrightarrow> pr_phase (lw_procs w ! p) = Working \<Longrightarrow> lw_move w (lw_finish p w)"
| move_release: "p < length (lw_procs w) \<Longrightarrow> pr_phase (lw_procs w ! p) = Releasing \<Longrightarrow> 0 < pr_held (lw_procs w ! p) \<Longrightarrow>
    lw_move w (lw_release p w)"

inductive lw_step :: "lock_world \<Rightarrow> lock_world \<Rightarrow> bool" where
  step_enter: "lw_step w (lw_enter ks w)"
| step_move: "lw_move w w' \<Longrightarrow> lw_step w w'"

definition idle_world :: lock_world where
  "idle_world = \<lparr>lw_procs = [], lw_queues = (\<lambda>_. [])\<rparr>"

text \<open>The keys in whose queues a process stands, and how many moves it has left.\<close>

definition asked :: "proc \<Rightarrow> nat" where
  "asked pr = (if pr_phase pr = Acquiring then Suc (pr_held pr) else pr_held pr)"

definition proc_ok :: "proc \<Rightarrow> bool" where
  "proc_ok pr \<longleftrightarrow> sorted_wrt (<) (pr_keys pr) \<and> pr_held pr \<le> length (pr_keys pr) \<and>
     (pr_phase pr = Acquiring \<longrightarrow> pr_held pr < length (pr_keys pr)) \<and>
     (pr_phase pr = Working \<longrightarrow> pr_held pr = length (pr_keys pr))"

definition stands_in :: "string \<Rightarrow> proc \<Rightarrow> bool" where
  "stands_in k pr \<longleftrightarrow> k \<in> set (take (asked pr) (pr_keys pr))"

definition lw_ok :: "lock_world \<Rightarrow> bool" where
  "lw_ok w \<longleftrightarrow>
     (\<forall>p < length (lw_procs w). proc_ok (lw_procs w ! p)) \<and>
     (\<forall>k. distinct (lw_queues w k) \<and>
        (\<forall>p. p \<in> set (lw_queues w k) \<longleftrightarrow> p < length (lw_procs w) \<and> stands_in k (lw_procs w ! p))) \<and>
     (\<forall>p < length (lw_procs w). \<forall>k \<in> set (take (pr_held (lw_procs w ! p)) (pr_keys (lw_procs w ! p))).
        \<exists>q. lw_queues w k = p # q)"

definition moves_left :: "proc \<Rightarrow> nat" where
  "moves_left pr =
     (case pr_phase pr of
        Acquiring \<Rightarrow> Suc (length (pr_keys pr) - pr_held pr + length (pr_keys pr))
      | Working \<Rightarrow> Suc (length (pr_keys pr))
      | Releasing \<Rightarrow> pr_held pr)"

definition work_left :: "lock_world \<Rightarrow> nat" where
  "work_left w = sum_list (map moves_left (lw_procs w))"

definition served :: "proc \<Rightarrow> bool" where
  "served pr \<longleftrightarrow> pr_phase pr = Releasing \<and> pr_held pr = 0"

lemma take_mem_strict:
  fixes ks :: "string list"
  assumes "sorted_wrt (<) ks" "n < length ks" "k \<in> set (take (Suc n) ks)"
  shows "k = ks ! n \<or> (k \<in> set (take n ks) \<and> k < ks ! n)"
proof -
  have "k \<in> set (take n ks) \<or> k = ks ! n" using assms by (auto simp: take_Suc_conv_app_nth)
  moreover have "k < ks ! n" if "k \<in> set (take n ks)"
    using that assms(1,2) by (auto simp: in_set_conv_nth sorted_wrt_iff_nth_less)
  ultimately show ?thesis by blast
qed

lemma nth_notin_take:
  fixes ks :: "string list"
  shows "sorted_wrt (<) ks \<Longrightarrow> n < length ks \<Longrightarrow> ks ! n \<notin> set (take n ks)"
  by (fastforce simp: in_set_conv_nth sorted_wrt_iff_nth_less)

lemma sorted_keys_strict: "sorted_wrt (<) (sorted_keys ks)"
  by (simp add: sorted_keys_def strict_sorted_iff)

lemma sum_list_move:
  "p < length xs \<Longrightarrow> f (xs ! p) = Suc (f y) \<Longrightarrow> sum_list (map f xs) = Suc (sum_list (map f (xs[p := y])))"
  by (induction xs arbitrary: p) (auto split: nat.splits simp: nth_Cons)

lemma work_left_0: "work_left w = 0 \<longleftrightarrow> (\<forall>p < length (lw_procs w). served (lw_procs w ! p))"
proof -
  have "moves_left pr = 0 \<longleftrightarrow> served pr" for pr by (auto simp: moves_left_def served_def split: phase.splits)
  then show ?thesis by (auto simp: work_left_def sum_list_eq_0_iff all_set_conv_all_nth)
qed

lemma lw_okD:
  assumes "lw_ok w" "p < length (lw_procs w)"
  shows "proc_ok (lw_procs w ! p)" and "distinct (lw_queues w k)"
    and "p \<in> set (lw_queues w k) \<longleftrightarrow> stands_in k (lw_procs w ! p)"
    and "k \<in> set (take (pr_held (lw_procs w ! p)) (pr_keys (lw_procs w ! p))) \<Longrightarrow> \<exists>q. lw_queues w k = p # q"
  using assms by (auto simp: lw_ok_def)

text \<open>One process changes, and its place in the queues with it.\<close>

lemma lw_ok_update:
  assumes ok: "lw_ok w" and p: "p < length (lw_procs w)" and pr: "proc_ok pr"
    and dist: "\<And>k. distinct (Q k)"
    and self: "\<And>k. p \<in> set (Q k) \<longleftrightarrow> stands_in k pr"
    and others: "\<And>k q. q \<noteq> p \<Longrightarrow> q \<in> set (Q k) \<longleftrightarrow> q \<in> set (lw_queues w k)"
    and heads: "\<And>k q r. q \<noteq> p \<Longrightarrow> lw_queues w k = q # r \<Longrightarrow> \<exists>r'. Q k = q # r'"
    and held: "\<And>k. k \<in> set (take (pr_held pr) (pr_keys pr)) \<Longrightarrow> \<exists>r. Q k = p # r"
  shows "lw_ok (w\<lparr>lw_procs := (lw_procs w)[p := pr], lw_queues := Q\<rparr>)" (is "lw_ok ?w")
proof -
  have at: "lw_procs ?w ! q = (if q = p then pr else lw_procs w ! q)" for q using p by (simp add: nth_list_update)
  have len: "length (lw_procs ?w) = length (lw_procs w)" by simp
  have "proc_ok (lw_procs ?w ! q)" if "q < length (lw_procs w)" for q
    using ok pr that unfolding at by (simp add: lw_ok_def)
  moreover have "q \<in> set (Q k) \<longleftrightarrow> q < length (lw_procs w) \<and> stands_in k (lw_procs ?w ! q)" for k q
    unfolding at using ok self [of k] others [of q k] p by (cases "q = p") (auto simp: lw_ok_def)
  moreover have "\<exists>r. Q k = q # r"
    if q: "q < length (lw_procs w)" "k \<in> set (take (pr_held (lw_procs ?w ! q)) (pr_keys (lw_procs ?w ! q)))" for q k
  proof (cases "q = p")
    case True
    then show ?thesis using q held unfolding at by simp
  next
    case False
    then obtain r where "lw_queues w k = q # r" using lw_okD(4) [OF ok q(1)] q(2) unfolding at by auto
    then show ?thesis using heads False by blast
  qed
  ultimately show ?thesis using dist unfolding lw_ok_def len by simp
qed

lemma world_update_same [simp]: "w\<lparr>lw_procs := ps, lw_queues := lw_queues w\<rparr> = w\<lparr>lw_procs := ps\<rparr>"
  by simp

lemma lw_ok_phase:
  assumes ok: "lw_ok w" and p: "p < length (lw_procs w)" and pr: "proc_ok pr"
    and same: "pr_keys pr = pr_keys (lw_procs w ! p)" "asked pr = asked (lw_procs w ! p)"
    and held: "\<And>k. k \<in> set (take (pr_held pr) (pr_keys pr)) \<Longrightarrow> \<exists>r. lw_queues w k = p # r"
  shows "lw_ok (w\<lparr>lw_procs := (lw_procs w)[p := pr]\<rparr>)"
proof -
  have "lw_ok (w\<lparr>lw_procs := (lw_procs w)[p := pr], lw_queues := lw_queues w\<rparr>)"
    using lw_okD [OF ok p] same by (intro lw_ok_update ok p pr held) (auto simp: stands_in_def)
  then show ?thesis by simp
qed

lemma advance_ok:
  assumes ok: "lw_ok w" and p: "p < length (lw_procs w)"
    and rel: "pr_phase (lw_procs w ! p) = Releasing"
  shows "lw_ok (advance p (lw_procs w ! p) w)"
proof (cases "pr_held (lw_procs w ! p) < length (pr_keys (lw_procs w ! p))")
  case True
  let ?pr = "lw_procs w ! p"
  let ?k = "pr_keys ?pr ! pr_held ?pr" and ?new = "?pr\<lparr>pr_phase := Acquiring\<rparr>"
  have pr: "proc_ok ?pr" by (rule lw_okD [OF ok p])
  then have fresh: "p \<notin> set (lw_queues w ?k)"
    using nth_notin_take [OF _ True] lw_okD(3) [OF ok p] rel by (simp add: stands_in_def asked_def proc_ok_def)
  have "lw_ok (w\<lparr>lw_procs := (lw_procs w)[p := ?new], lw_queues := (lw_queues w)(?k := lw_queues w ?k @ [p])\<rparr>)"
  proof (rule lw_ok_update [OF ok p])
    show "proc_ok ?new" using pr True by (simp add: proc_ok_def)
    show "distinct (((lw_queues w)(?k := lw_queues w ?k @ [p])) k)" for k
      using lw_okD(2) [OF ok p] fresh by simp
    show "p \<in> set (((lw_queues w)(?k := lw_queues w ?k @ [p])) k) \<longleftrightarrow> stands_in k ?new" for k
      using lw_okD(3) [OF ok p, of k] True rel by (auto simp: stands_in_def asked_def take_Suc_conv_app_nth)
    show "\<exists>r. ((lw_queues w)(?k := lw_queues w ?k @ [p])) k = p # r"
      if "k \<in> set (take (pr_held ?new) (pr_keys ?new))" for k
      using lw_okD(4) [OF ok p, of k] that by auto
  qed auto
  then show ?thesis using True by (simp add: advance_def)
next
  case False
  let ?pr = "lw_procs w ! p"
  have "lw_ok (w\<lparr>lw_procs := (lw_procs w)[p := ?pr\<lparr>pr_phase := Working\<rparr>]\<rparr>)"
  proof (rule lw_ok_phase [OF ok p])
    show "proc_ok (?pr\<lparr>pr_phase := Working\<rparr>)" using lw_okD(1) [OF ok p] False by (simp add: proc_ok_def)
    show "asked (?pr\<lparr>pr_phase := Working\<rparr>) = asked ?pr" using rel by (simp add: asked_def)
    show "\<exists>r. lw_queues w k = p # r"
      if "k \<in> set (take (pr_held (?pr\<lparr>pr_phase := Working\<rparr>)) (pr_keys (?pr\<lparr>pr_phase := Working\<rparr>)))" for k
      using lw_okD(4) [OF ok p, of k] that by simp
  qed simp
  then show ?thesis using False by (simp add: advance_def)
qed

lemma advance_cong: "pr_keys pr = pr_keys pr' \<Longrightarrow> pr_held pr = pr_held pr' \<Longrightarrow> advance p pr w = advance p pr' w"
  by (cases pr; cases pr') (simp add: advance_def)

lemma advance_overwrites: "advance p pr (w\<lparr>lw_procs := (lw_procs w)[p := pr']\<rparr>) = advance p pr w"
  by (simp add: advance_def)

lemma grant_ok:
  assumes ok: "lw_ok w" and may: "may_grant p w"
  shows "lw_ok (lw_grant p w)"
proof -
  let ?pr = "lw_procs w ! p"
  let ?new = "?pr\<lparr>pr_held := Suc (pr_held ?pr), pr_phase := Releasing\<rparr>"
  have p: "p < length (lw_procs w)" and acq: "pr_phase ?pr = Acquiring"
    and front: "\<exists>r. lw_queues w (pr_keys ?pr ! pr_held ?pr) = p # r"
    using may by (auto simp: may_grant_def Let_def neq_Nil_conv)
  have pr: "proc_ok ?pr" by (rule lw_okD [OF ok p])
  have "lw_ok (w\<lparr>lw_procs := (lw_procs w)[p := ?new]\<rparr>)"
  proof (rule lw_ok_phase [OF ok p])
    show "proc_ok ?new" using pr acq by (simp add: proc_ok_def)
    show "asked ?new = asked ?pr" using acq by (simp add: asked_def)
    show "\<exists>r. lw_queues w k = p # r" if "k \<in> set (take (pr_held ?new) (pr_keys ?new))" for k
      using that front pr acq lw_okD(4) [OF ok p, of k] by (auto simp: proc_ok_def take_Suc_conv_app_nth)
  qed simp
  then have "lw_ok (advance p ?new (w\<lparr>lw_procs := (lw_procs w)[p := ?new]\<rparr>))"
    using advance_ok [of "w\<lparr>lw_procs := (lw_procs w)[p := ?new]\<rparr>" p] p by simp
  moreover have "advance p ?new w = lw_grant p w"
    unfolding lw_grant_def Let_def by (rule advance_cong) simp_all
  ultimately show ?thesis by (simp only: advance_overwrites)
qed

lemma finish_ok:
  assumes ok: "lw_ok w" and p: "p < length (lw_procs w)" and work: "pr_phase (lw_procs w ! p) = Working"
  shows "lw_ok (lw_finish p w)"
  unfolding lw_finish_def
proof (rule lw_ok_phase [OF ok p])
  let ?new = "(lw_procs w ! p)\<lparr>pr_phase := Releasing\<rparr>"
  show "proc_ok ?new" using lw_okD(1) [OF ok p] by (simp add: proc_ok_def)
  show "asked ?new = asked (lw_procs w ! p)" using work by (simp add: asked_def)
  show "\<exists>r. lw_queues w k = p # r" if "k \<in> set (take (pr_held ?new) (pr_keys ?new))" for k
    using lw_okD(4) [OF ok p, of k] that by simp
qed simp

lemma release_ok:
  assumes ok: "lw_ok w" and p: "p < length (lw_procs w)" and rel: "pr_phase (lw_procs w ! p) = Releasing"
    and some: "0 < pr_held (lw_procs w ! p)"
  shows "lw_ok (lw_release p w)"
proof -
  let ?pr = "lw_procs w ! p"
  obtain n where n: "pr_held ?pr = Suc n" using some by (auto simp: gr0_conv_Suc)
  let ?k = "pr_keys ?pr ! n" and ?new = "?pr\<lparr>pr_held := n\<rparr>"
  have pr: "proc_ok ?pr" by (rule lw_okD [OF ok p])
  then have sorted: "sorted_wrt (<) (pr_keys ?pr)" and len: "n < length (pr_keys ?pr)"
    using n by (simp_all add: proc_ok_def)
  let ?Q = "(lw_queues w)(?k := removeAll p (lw_queues w ?k))"
  have at_k: "\<exists>r. lw_queues w ?k = p # r"
    using lw_okD(4) [OF ok p, of ?k] n len by (simp add: take_Suc_conv_app_nth)
  have "lw_ok (w\<lparr>lw_procs := (lw_procs w)[p := ?new], lw_queues := ?Q\<rparr>)"
  proof (rule lw_ok_update [OF ok p])
    show "proc_ok ?new" using pr rel n by (simp add: proc_ok_def)
    show "distinct (?Q k)" for k using lw_okD(2) [OF ok p] by (simp add: distinct_removeAll)
    show "p \<in> set (?Q k) \<longleftrightarrow> stands_in k ?new" for k
      using lw_okD(3) [OF ok p, of k] nth_notin_take [OF sorted len] rel n len
      by (auto simp: stands_in_def asked_def take_Suc_conv_app_nth)
    show "\<exists>r'. ?Q k = q # r'" if "q \<noteq> p" "lw_queues w k = q # r" for k q r
      using that at_k by auto
    show "\<exists>r. ?Q k = p # r" if "k \<in> set (take (pr_held ?new) (pr_keys ?new))" for k
      using that lw_okD(4) [OF ok p, of k] nth_notin_take [OF sorted len] n len
      by (auto simp: take_Suc_conv_app_nth)
  qed auto
  then show ?thesis by (simp add: lw_release_def Let_def n)
qed

lemma enter_ok:
  assumes ok: "lw_ok w"
  shows "lw_ok (lw_enter ks w)"
proof -
  let ?pr = "\<lparr>pr_keys = sorted_keys ks, pr_held = 0, pr_phase = Releasing\<rparr>"
  let ?n = "length (lw_procs w)" and ?w = "w\<lparr>lw_procs := lw_procs w @ [?pr]\<rparr>"
  have at: "lw_procs ?w ! p = (if p = ?n then ?pr else lw_procs w ! p)" if "p < Suc ?n" for p
    using that by (auto simp: nth_append)
  have out: "\<not> stands_in k ?pr" for k by (simp add: stands_in_def asked_def)
  have "lw_ok ?w"
    unfolding lw_ok_def
  proof (intro conjI allI impI ballI)
    fix p assume "p < length (lw_procs ?w)"
    then show "proc_ok (lw_procs ?w ! p)"
      using ok at sorted_keys_strict by (auto simp: lw_ok_def proc_ok_def)
  next
    fix k show "distinct (lw_queues ?w k)" using ok by (simp add: lw_ok_def)
  next
    fix k p
    have "p \<in> set (lw_queues w k) \<longleftrightarrow> p < ?n \<and> stands_in k (lw_procs w ! p)" using ok by (simp add: lw_ok_def)
    then show "p \<in> set (lw_queues ?w k) \<longleftrightarrow> p < length (lw_procs ?w) \<and> stands_in k (lw_procs ?w ! p)"
      using out by (cases "p < ?n"; cases "p = ?n") (simp_all add: nth_append)
  next
    fix p k
    assume "p < length (lw_procs ?w)" and k: "k \<in> set (take (pr_held (lw_procs ?w ! p)) (pr_keys (lw_procs ?w ! p)))"
    then have "p < ?n \<or> p = ?n" by auto
    then show "\<exists>q. lw_queues ?w k = p # q"
      using k lw_okD(4) [OF ok] by (elim disjE) (simp_all add: nth_append)
  qed
  then have "lw_ok (advance ?n ?pr ?w)"
    using advance_ok [of ?w ?n] by simp
  moreover have "advance ?n ?pr ?w = lw_enter ks w"
    by (simp add: lw_enter_def Let_def advance_def)
  ultimately show ?thesis by simp
qed

lemma lw_move_ok: "lw_move w w' \<Longrightarrow> lw_ok w \<Longrightarrow> lw_ok w'"
  by (induction rule: lw_move.induct) (simp_all add: grant_ok finish_ok release_ok)

lemma lw_steps_ok: "lw_step\<^sup>*\<^sup>* idle_world w \<Longrightarrow> lw_ok w"
proof (induction rule: rtranclp_induct)
  case base
  show ?case by (simp add: lw_ok_def idle_world_def)
next
  case (step u v)
  from step(2,3) show ?case by (cases rule: lw_step.cases) (auto simp: enter_ok lw_move_ok)
qed

lemma advance_work:
  assumes "p < length (lw_procs w)"
    and "moves_left (lw_procs w ! p) = Suc (moves_left (pr\<lparr>pr_phase := if pr_held pr < length (pr_keys pr) then Acquiring else Working\<rparr>))"
  shows "work_left w = Suc (work_left (advance p pr w))"
  using assms by (auto simp: work_left_def advance_def intro!: sum_list_move)

lemma move_work:
  assumes "lw_move w w'" and ok: "lw_ok w"
  shows "work_left w = Suc (work_left w')"
  using assms(1)
proof cases
  case (move_grant p)
  then have "p < length (lw_procs w)" "proc_ok (lw_procs w ! p)" "pr_phase (lw_procs w ! p) = Acquiring"
    using lw_okD(1) [OF ok] by (auto simp: may_grant_def)
  then show ?thesis
    unfolding move_grant(1) lw_grant_def Let_def
    by (intro advance_work) (auto simp: moves_left_def proc_ok_def)
next
  case (move_finish p)
  then show ?thesis
    using lw_okD(1) [OF ok, of p] unfolding work_left_def
    by (simp add: lw_finish_def) (intro sum_list_move, auto simp: moves_left_def proc_ok_def)
next
  case (move_release p)
  then show ?thesis
    unfolding work_left_def
    by (simp add: lw_release_def Let_def) (intro sum_list_move, auto simp: moves_left_def)
qed

lemma lw_ok_mem:
  "lw_ok w \<Longrightarrow> p \<in> set (lw_queues w k) \<Longrightarrow> p < length (lw_procs w) \<and> stands_in k (lw_procs w ! p)"
  by (simp add: lw_ok_def)

lemma ne_of_mem: "x \<in> A \<Longrightarrow> A \<noteq> {}"
  by auto

lemma ex_max_of:
  fixes f :: "'a \<Rightarrow> string"
  assumes "A \<noteq> {}" "finite A"
  shows "\<exists>x \<in> A. \<forall>y \<in> A. f y \<le> f x"
proof -
  have "Max (f ` A) \<in> f ` A" using assms by simp
  then obtain x where "x \<in> A" "f x = Max (f ` A)" by (metis imageE)
  then show ?thesis using assms by (intro bexI [of _ x]) simp_all
qed

text \<open>
  The awaited keys order the waiting processes: the one whose awaited key is the greatest waits
  for nobody who waits.
\<close>

lemma some_move:
  assumes ok: "lw_ok w" and work: "work_left w \<noteq> 0"
  shows "\<exists>w'. lw_move w w'"
proof (rule ccontr)
  assume stuck: "\<nexists>w'. lw_move w w'"
  let ?at = "\<lambda>p. lw_procs w ! p"
  let ?wait = "{p. p < length (lw_procs w) \<and> pr_phase (?at p) = Acquiring}"
  let ?key = "\<lambda>p. pr_keys (?at p) ! pr_held (?at p)"
  have idle: "served (?at p)" if "p < length (lw_procs w)" "pr_phase (?at p) \<noteq> Acquiring" for p
  proof (cases "pr_phase (?at p)")
    case Working
    then show ?thesis using stuck move_finish that(1) by blast
  next
    case Releasing
    then have "\<not> 0 < pr_held (?at p)" using stuck move_release that(1) by blast
    then show ?thesis using Releasing by (simp add: served_def)
  qed (use that in simp)
  obtain u where "u < length (lw_procs w)" "\<not> served (?at u)" using work work_left_0 [of w] by auto
  then have "u \<in> ?wait" using idle by (metis (mono_tags, lifting) mem_Collect_eq)
  then have "?wait \<noteq> {}" by (rule ne_of_mem)
  moreover have "finite ?wait" by simp
  ultimately have "\<exists>p \<in> ?wait. \<forall>q \<in> ?wait. ?key q \<le> ?key p" by (rule ex_max_of)
  then obtain p where p: "p \<in> ?wait" and top: "\<And>q. q \<in> ?wait \<Longrightarrow> ?key q \<le> ?key p" by (metis (lifting))
  have len: "p < length (lw_procs w)" and acq: "pr_phase (?at p) = Acquiring" using p by auto
  have "stands_in (?key p) (?at p)"
    using lw_okD(1) [OF ok len] acq by (simp add: stands_in_def asked_def proc_ok_def take_Suc_conv_app_nth)
  then obtain h q where head: "lw_queues w (?key p) = h # q"
    using lw_okD(3) [OF ok len, of "?key p"] by (cases "lw_queues w (?key p)") auto
  then have h: "h < length (lw_procs w)" "stands_in (?key p) (?at h)"
    using lw_ok_mem [OF ok, of h "?key p"] by simp_all
  then have "\<not> served (?at h)" by (cases "pr_held (?at h) = 0") (auto simp: served_def stands_in_def asked_def)
  then have hacq: "pr_phase (?at h) = Acquiring" using idle h by blast
  have "?key p \<in> set (take (Suc (pr_held (?at h))) (pr_keys (?at h)))"
    using h(2) hacq by (simp add: stands_in_def asked_def)
  then have "?key p = ?key h \<or> ?key p < ?key h"
    using take_mem_strict lw_okD(1) [OF ok h(1)] hacq unfolding proc_ok_def by blast
  then have "?key p = ?key h" using top [of h] h(1) hacq by (simp add: leD)
  then have "may_grant h w" using h(1) hacq head by (simp add: may_grant_def Let_def)
  then show False using stuck move_grant by blast
qed

lemma working_exclusive:
  assumes ok: "lw_ok w" and p: "p < length (lw_procs w)" "pr_phase (lw_procs w ! p) = Working"
    and q: "q < length (lw_procs w)" "pr_phase (lw_procs w ! q) = Working"
    and k: "k \<in> set (pr_keys (lw_procs w ! p))" "k \<in> set (pr_keys (lw_procs w ! q))"
  shows "p = q"
proof -
  have "\<exists>r. lw_queues w k = p # r" "\<exists>r. lw_queues w k = q # r"
    using lw_okD(1,4) [OF ok p(1)] lw_okD(1,4) [OF ok q(1)] p(2) q(2) k by (auto simp: proc_ok_def)
  then show ?thesis by auto
qed

lemma all_served:
  assumes "lw_ok w"
  shows "\<exists>w'. (lw_move ^^ work_left w) w w' \<and> work_left w' = 0"
  using assms
proof (induction "work_left w" arbitrary: w)
  case 0
  then show ?case by (metis relpowp_0_I)
next
  case (Suc n)
  then obtain v where v: "lw_move w v" using some_move by (metis Zero_not_Suc)
  then have "work_left v = n" "lw_ok v" using move_work [OF v Suc.prems] Suc.hyps(2) lw_move_ok Suc.prems by auto
  then show ?case using Suc.hyps(1) [of v] v Suc.hyps(2) by (metis relpowp_Suc_I2)
qed

lemma moves_bounded: "(lw_move ^^ n) w w' \<Longrightarrow> lw_ok w \<Longrightarrow> work_left w = n + work_left w'"
proof (induction n arbitrary: w)
  case (Suc n)
  then obtain v where "lw_move w v" "(lw_move ^^ n) v w'" by (metis relpowp_Suc_D2)
  then show ?case using Suc.IH Suc.prems(2) move_work lw_move_ok by fastforce
qed simp

section \<open>Properties\<close>

lemma no_stale_chain:
  assumes "al_step\<^sup>*\<^sup>* new_async_lock s" and "map_of (al_chains s) k = Some t"
  shows "t < length (al_calls s) \<and> rc_key (call s t) = k \<and> rc_status (call s t) \<noteq> Gone"
  using assms
proof (induction arbitrary: k t rule: rtranclp_induct)
  case base
  then show ?case by (simp add: new_async_lock_def)
next
  case (step u v)
  from step.hyps(2) show ?case
  proof cases
    case (al_call key)
    then show ?thesis using step.IH [of k t] step.prems by (auto simp: al_run_fields nth_append split: if_splits)
  next
    case (al_start i)
    then show ?thesis using step.IH [of k t] step.prems by (auto simp: may_start_def)
  next
    case (al_settle i)
    then show ?thesis using step.IH [of k t] step.prems by auto
  next
    case (al_clean i)
    let ?key = "rc_key (call u i)"
    have calls: "al_calls v = al_calls (set_status i Gone u)" using al_clean by (simp add: al_finally_def Let_def)
    have chain: "map_of (al_chains u) k = Some t" and other: "t \<noteq> i"
      using step.prems step.IH [of ?key i] step.IH [of k t] al_clean
      by (auto simp: al_finally_def Let_def split: if_splits)
    from step.IH [OF chain] show ?thesis using other al_clean unfolding calls by simp
  qed
qed

text \<open>
  C32. \<open>AsyncLock\<close> is a fair lock per key: however calls, starts, settlements and clean-ups
  interleave, two calls of one key are never inside their functions together; a call starts only
  after every earlier call of its key has settled, whether it returned or threw; the first unsettled
  call of a key runs or may start now, so a chain never hangs on itself; calls of different keys do
  not wait for each other; and when no call is left the map of chains is empty.
\<close>

theorem async_lock_fair:
  assumes "al_step\<^sup>*\<^sup>* new_async_lock s"
  shows "(\<forall>i < length (al_calls s). \<forall>j < length (al_calls s).
        rc_status (call s i) = Running \<and> rc_status (call s j) = Running \<and> rc_key (call s i) = rc_key (call s j) \<longrightarrow> i = j) \<and>
      (\<forall>i < length (al_calls s). \<forall>j < i.
        rc_status (call s i) \<noteq> Waiting \<and> rc_key (call s j) = rc_key (call s i) \<longrightarrow> settled (rc_status (call s j))) \<and>
      (\<forall>k i q. queue_of k s = i # q \<longrightarrow> rc_status (call s i) = Running \<or> may_start i s) \<and>
      ((\<forall>c \<in> set (al_calls s). rc_status c = Gone) \<longrightarrow> al_chains s = [])"
proof (intro conjI allI impI)
  have ok: "al_ok s" by (rule al_steps_ok [OF assms])
  fix i j
  assume i: "i < length (al_calls s)"
  { assume j: "j < length (al_calls s)"
      and both: "rc_status (call s i) = Running \<and> rc_status (call s j) = Running \<and> rc_key (call s i) = rc_key (call s j)"
    obtain q r where "queue_of (rc_key (call s i)) s = i # q" "queue_of (rc_key (call s j)) s = j # r"
      using running_is_head [OF ok i] running_is_head [OF ok j] both by blast
    then show "i = j" using both by (metis list.inject) }
  { assume "j < i" "rc_status (call s i) \<noteq> Waiting \<and> rc_key (call s j) = rc_key (call s i)"
    then show "settled (rc_status (call s j))" using ok i by (simp add: al_ok_def started_ok_def) }
next
  fix k i q
  assume "queue_of k s = i # q"
  then show "rc_status (call s i) = Running \<or> may_start i s" by (rule head_progress [OF al_steps_ok [OF assms]])
next
  assume gone: "\<forall>c \<in> set (al_calls s). rc_status c = Gone"
  have "map_of (al_chains s) k = None" for k
    using no_stale_chain [OF assms, of k] gone by (cases "map_of (al_chains s) k") auto
  from this [of "fst (hd (al_chains s))"] show "al_chains s = []"
    by (cases "al_chains s") (auto split: if_splits)
qed

text \<open>Two calls of one key: the second waits for the first.\<close>

definition two_calls :: async_lock where
  "two_calls = set_status 0 Running (al_run ''k'' (al_run ''k'' new_async_lock))"

lemma two_calls_reachable: "al_step\<^sup>*\<^sup>* new_async_lock two_calls"
proof -
  have "may_start 0 (al_run ''k'' (al_run ''k'' new_async_lock))"
    by (simp add: may_start_def al_run_def new_async_lock_def)
  then have "al_step (al_run ''k'' (al_run ''k'' new_async_lock)) two_calls"
    unfolding two_calls_def by (rule al_start)
  then show ?thesis by (meson al_call rtranclp.rtrancl_refl rtranclp.rtrancl_into_rtrancl)
qed

lemma two_calls_eq:
  "two_calls = \<lparr>al_calls = [\<lparr>rc_key = ''k'', rc_prev = None, rc_status = Running\<rparr>,
     \<lparr>rc_key = ''k'', rc_prev = Some 0, rc_status = Waiting\<rparr>], al_chains = [(''k'', 1)]\<rparr>"
  by (simp add: two_calls_def set_status_def al_run_def new_async_lock_def)

lemma async_lock_fair_witness:
  "queue_of ''k'' two_calls = [0, 1] \<and> (rc_status (call two_calls 0) = Running \<or> may_start 0 two_calls) \<and> \<not> may_start 1 two_calls"
proof -
  have "queue_of ''k'' two_calls = [0, 1]" by (simp add: queue_of_def two_calls_eq upt_conv_Cons)
  moreover from this have "rc_status (call two_calls 0) = Running \<or> may_start 0 two_calls"
    using async_lock_fair [OF two_calls_reachable] by blast
  ultimately show ?thesis by (simp add: may_start_def two_calls_eq)
qed

text \<open>
  C33. \<open>withMultiFileLock\<close> never deadlocks, whatever sets of keys run at the same time: two running
  bodies never share a key; from every reachable state each move brings the total one step closer to
  the end, a move exists as long as anybody has not finished, and so after exactly \<open>work_left\<close>
  moves, in any order, everybody has been served.
\<close>

theorem multi_lock_deadlock_free:
  assumes "lw_step\<^sup>*\<^sup>* idle_world w"
  shows "(\<forall>p < length (lw_procs w). \<forall>q < length (lw_procs w).
        pr_phase (lw_procs w ! p) = Working \<and> pr_phase (lw_procs w ! q) = Working \<and>
        set (pr_keys (lw_procs w ! p)) \<inter> set (pr_keys (lw_procs w ! q)) \<noteq> {} \<longrightarrow> p = q) \<and>
      (\<forall>n w'. (lw_move ^^ n) w w' \<longrightarrow> n \<le> work_left w \<and>
        (if n = work_left w then \<forall>p < length (lw_procs w'). served (lw_procs w' ! p) else \<exists>w''. lw_move w' w''))"
proof (intro conjI allI impI)
  have ok: "lw_ok w" by (rule lw_steps_ok [OF assms])
  { fix p q
    assume p: "p < length (lw_procs w)" and q: "q < length (lw_procs w)"
      and share: "pr_phase (lw_procs w ! p) = Working \<and> pr_phase (lw_procs w ! q) = Working \<and>
        set (pr_keys (lw_procs w ! p)) \<inter> set (pr_keys (lw_procs w ! q)) \<noteq> {}"
    then obtain k where "k \<in> set (pr_keys (lw_procs w ! p))" "k \<in> set (pr_keys (lw_procs w ! q))" by auto
    then show "p = q" using working_exclusive [OF ok p _ q] share by simp }
  fix n w'
  assume run: "(lw_move ^^ n) w w'"
  have left: "work_left w = n + work_left w'" by (rule moves_bounded [OF run ok])
  have "lw_ok w'" using run ok by (induction n arbitrary: w') (auto dest: lw_move_ok)
  then show "if n = work_left w then \<forall>p < length (lw_procs w'). served (lw_procs w' ! p) else \<exists>w''. lw_move w' w''"
    using left work_left_0 [of w'] some_move [of w'] by auto
  show "n \<le> work_left w" using left by simp
qed

text \<open>Two operations over the same two stores, named in opposite orders.\<close>

definition crossed :: lock_world where
  "crossed = lw_enter [''b'', ''a''] (lw_enter [''a'', ''b''] idle_world)"

lemma multi_lock_deadlock_free_witness:
  "work_left crossed = 10 \<and> (\<exists>w'. (lw_move ^^ 10) crossed w' \<and> (\<forall>p < length (lw_procs w'). served (lw_procs w' ! p)))"
proof -
  have work: "work_left crossed = 10" by code_simp
  have reach: "lw_step\<^sup>*\<^sup>* idle_world crossed"
    unfolding crossed_def by (meson step_enter rtranclp.rtrancl_refl rtranclp.rtrancl_into_rtrancl)
  obtain w' where w': "(lw_move ^^ work_left crossed) crossed w'" using all_served lw_steps_ok [OF reach] by blast
  then have "\<forall>p < length (lw_procs w'). served (lw_procs w' ! p)"
    using conjunct2 [OF multi_lock_deadlock_free [OF reach], rule_format, OF w'] by simp
  then show ?thesis using work w' by metis
qed

end
