(* ===== verification/Text_Diff.thy ===== *)
theory Text_Diff
  imports Js_Text "HOL-Library.Sublist"
begin

text \<open>
  \<open>core/src/utils/diff.ts\<close>: the unified diff that is shown before an edit is confirmed. The table of
  the longest common subsequence, the walk back through it, the list of line operations, the
  grouping into hunks and the final text, each as its own function.
\<close>

section \<open>The longest common subsequence\<close>

text \<open>
  One row of the table from the row above: \<open>prev\<close> is that row from the cell diagonal to the next
  one on, \<open>left\<close> the cell just filled.
\<close>

fun dp_cells :: "'a \<Rightarrow> 'a list \<Rightarrow> nat list \<Rightarrow> nat \<Rightarrow> nat list" where
  "dp_cells x (y # ys) (d # u # us) left =
     (let v = (if x = y then d + 1 else max u left) in v # dp_cells x ys (u # us) v)"
| "dp_cells x _ _ left = []"

definition dp_row :: "'a \<Rightarrow> 'a list \<Rightarrow> nat list \<Rightarrow> nat list" where
  "dp_row x after prev = 0 # dp_cells x after prev 0"

fun dp_rows :: "'a list \<Rightarrow> 'a list \<Rightarrow> nat list \<Rightarrow> nat list list" where
  "dp_rows [] after prev = [prev]"
| "dp_rows (x # xs) after prev = prev # dp_rows xs after (dp_row x after prev)"

definition dp_table :: "'a list \<Rightarrow> 'a list \<Rightarrow> nat list list" where
  "dp_table before after = dp_rows before after (replicate (Suc (length after)) 0)"

function backtrack ::
    "nat list list \<Rightarrow> 'a list \<Rightarrow> 'a list \<Rightarrow> nat \<Rightarrow> nat \<Rightarrow> (nat \<times> nat) list \<Rightarrow> (nat \<times> nat) list" where
  "backtrack dp before after i j matches =
     (if i = 0 \<or> j = 0 then matches
      else if before ! (i - 1) = after ! (j - 1)
      then backtrack dp before after (i - 1) (j - 1) ((i - 1, j - 1) # matches)
      else if dp ! (i - 1) ! j > dp ! i ! (j - 1) then backtrack dp before after (i - 1) j matches
      else backtrack dp before after i (j - 1) matches)"
  by pat_completeness auto
termination
  by (relation "measure (\<lambda>(dp, before, after, i, j, ms). i + j)") auto

declare backtrack.simps [simp del]

definition computeLCS :: "'a list \<Rightarrow> 'a list \<Rightarrow> (nat \<times> nat) list" where
  "computeLCS before after =
     backtrack (dp_table before after) before after (length before) (length after) []"

section \<open>Line operations and hunks\<close>

datatype line_op = OpRemove nat | OpAdd nat | OpContext nat nat

fun is_change :: "line_op \<Rightarrow> bool" where
  "is_change (OpContext i j) = False"
| "is_change _ = True"

fun build_ops :: "nat \<Rightarrow> nat \<Rightarrow> nat \<Rightarrow> nat \<Rightarrow> (nat \<times> nat) list \<Rightarrow> line_op list" where
  "build_ops nb na b a [] = map OpRemove [b ..< nb] @ map OpAdd [a ..< na]"
| "build_ops nb na b a ((mb, ma) # ms) =
     map OpRemove [b ..< mb] @ map OpAdd [a ..< ma] @ OpContext (max b mb) (max a ma) #
     build_ops nb na (Suc (max b mb)) (Suc (max a ma)) ms"

text \<open>How many context operations follow, up to \<open>k\<close>.\<close>

fun context_run :: "nat \<Rightarrow> line_op list \<Rightarrow> nat" where
  "context_run (Suc k) (x # xs) = (if is_change x then 0 else Suc (context_run k xs))"
| "context_run _ _ = 0"

text \<open>
  \<open>changeEnd\<close>, as the number of operations from the first change that belong to the region:
  changes, and gaps of at most four context lines before a further change.
\<close>

function change_end :: "line_op list \<Rightarrow> nat" where
  "change_end xs =
     (case xs of
        [] \<Rightarrow> 0
      | x # xs' \<Rightarrow>
          if is_change x then Suc (change_end xs')
          else (let n = context_run 4 xs
                in case drop n xs of
                     [] \<Rightarrow> 0
                   | y # ys \<Rightarrow> if is_change y then n + change_end (drop n xs) else 0))"
  by pat_completeness auto
termination
proof (relation "measure length", goal_cases)
  case (3 xs x xs' n y ys)
  have "n \<noteq> 0"
    using 3 by (simp add: numeral_eq_Suc)
  moreover have "0 < length xs" using 3 by simp
  ultimately have "length (drop n xs) < length xs" by simp
  then show ?case by simp
qed auto

declare change_end.simps [simp del]

text \<open>The outer loop: the operations before \<open>i\<close> are \<open>seen\<close>, those from \<open>i\<close> on are \<open>rest\<close>.\<close>

function group_hunks :: "line_op list \<Rightarrow> line_op list \<Rightarrow> line_op list list" where
  "group_hunks seen rest =
     (case rest of
        [] \<Rightarrow> []
      | x # xs \<Rightarrow>
          if \<not> is_change x then group_hunks (seen @ [x]) xs
          else (let k = Suc (change_end xs) + 3
                in (drop (length seen - 2) seen @ take k rest) # group_hunks (seen @ take k rest) (drop k rest)))"
  by pat_completeness auto
termination
  by (relation "measure (\<lambda>(seen, rest). length rest)") auto

declare group_hunks.simps [simp del]

section \<open>The text\<close>

fun before_idx :: "line_op \<Rightarrow> nat list" where
  "before_idx (OpRemove i) = [i]"
| "before_idx (OpAdd j) = []"
| "before_idx (OpContext i j) = [i]"

fun after_idx :: "line_op \<Rightarrow> nat list" where
  "after_idx (OpRemove i) = []"
| "after_idx (OpAdd j) = [j]"
| "after_idx (OpContext i j) = [j]"

definition span_start :: "nat list \<Rightarrow> nat" where
  "span_start is = (if is = [] then 0 else Min (set is) + 1)"

definition span_count :: "nat list \<Rightarrow> nat" where
  "span_count is = (if is = [] then 0 else Max (set is) - Min (set is) + 1)"

fun format_line :: "string list \<Rightarrow> string list \<Rightarrow> line_op \<Rightarrow> string" where
  "format_line before after (OpRemove i) = ''-'' @ before ! i @ [CHR 0x0A]"
| "format_line before after (OpAdd j) = ''+'' @ after ! j @ [CHR 0x0A]"
| "format_line before after (OpContext i j) = '' '' @ before ! i @ [CHR 0x0A]"

definition formatHunk :: "string list \<Rightarrow> string list \<Rightarrow> line_op list \<Rightarrow> string" where
  "formatHunk before after ops =
     (let bs = concat (map before_idx ops); as = concat (map after_idx ops)
      in ''@@ -'' @ dec (span_start bs) @ '','' @ dec (span_count bs) @ '' +'' @ dec (span_start as) @ '','' @
         dec (span_count as) @ '' @@'' @ [CHR 0x0A] @ concat (map (format_line before after) ops))"

definition lines_of :: "string \<Rightarrow> string list" where
  "lines_of s = (if s = [] then [] else split_on (CHR 0x0A) s)"

definition diff_ops :: "string list \<Rightarrow> string list \<Rightarrow> line_op list" where
  "diff_ops before after = build_ops (length before) (length after) 0 0 (computeLCS before after)"

text \<open>The last line break at a positive position cuts the text, when there is one.\<close>

definition truncate_lines :: "string \<Rightarrow> string" where
  "truncate_lines out =
     (let r = dropWhile (\<lambda>c. c \<noteq> CHR 0x0A) (rev out)
      in if length r > 1 then rev (tl r) else out)"

definition truncation_notice :: string where
  "truncation_notice = [CHR 0x0A] @ ''... (diff truncated)'' @ [CHR 0x0A]"

definition MAX_LENGTH :: nat where
  "MAX_LENGTH = 3000"

definition diff_text :: "string list \<Rightarrow> string list \<Rightarrow> string \<Rightarrow> string" where
  "diff_text before after filePath =
     ''--- a/'' @ filePath @ [CHR 0x0A] @ ''+++ b/'' @ filePath @ [CHR 0x0A] @
     concat (map (formatHunk before after) (group_hunks [] (diff_ops before after)))"

definition generateDiff :: "string \<Rightarrow> string \<Rightarrow> string \<Rightarrow> string" where
  "generateDiff before after filePath =
     (if before = after then []
      else let bs = lines_of before; as = lines_of after; lcs = computeLCS bs as
           in if length bs = length as \<and> length lcs = length bs then []
              else if group_hunks [] (diff_ops bs as) = [] then []
              else let out = diff_text bs as filePath
                   in if length out > MAX_LENGTH then truncate_lines (take MAX_LENGTH out) @ truncation_notice else out)"

section \<open>The table holds the lengths of common subsequences\<close>

fun lcs_len :: "'a list \<Rightarrow> 'a list \<Rightarrow> nat \<Rightarrow> nat \<Rightarrow> nat" where
  "lcs_len xs ys (Suc i) (Suc j) =
     (if xs ! i = ys ! j then lcs_len xs ys i j + 1
      else max (lcs_len xs ys i (Suc j)) (lcs_len xs ys (Suc i) j))"
| "lcs_len xs ys _ _ = 0"

lemma lcs_len_0 [simp]: "lcs_len xs ys 0 j = 0" "lcs_len xs ys i 0 = 0"
  by (cases i; cases j; simp)+

lemma dp_cells_spec:
  assumes "length prev = Suc (length ys) - j" "j \<le> length ys"
    and "\<forall>k < length prev. prev ! k = lcs_len xs ys i (j + k)"
    and "left = lcs_len xs ys (Suc i) j" "x = xs ! i"
  shows "dp_cells x (drop j ys) prev left = map (lcs_len xs ys (Suc i)) [Suc j ..< Suc (length ys)]"
  using assms
proof (induction "length ys - j" arbitrary: j prev left)
  case 0
  then show ?case by simp
next
  case (Suc n)
  then have j: "j < length ys" by simp
  then obtain d u us where prev: "prev = d # u # us"
    using Suc.prems(1) by (cases prev; cases "tl prev") auto
  have d: "d = lcs_len xs ys i j" and u: "u = lcs_len xs ys i (Suc j)"
    using Suc.prems(3) [rule_format, of 0] Suc.prems(3) [rule_format, of 1] prev by simp_all
  let ?v = "lcs_len xs ys (Suc i) (Suc j)"
  have v: "(if x = ys ! j then d + 1 else max u left) = ?v"
    using d u Suc.prems(4,5) by simp
  have "dp_cells x (drop (Suc j) ys) (u # us) ?v = map (lcs_len xs ys (Suc i)) [Suc (Suc j) ..< Suc (length ys)]"
  proof (rule Suc.hyps)
    show "n = length ys - Suc j" using Suc.hyps(2) by simp
    show "length (u # us) = Suc (length ys) - Suc j" using Suc.prems(1) prev by simp
    show "\<forall>k < length (u # us). (u # us) ! k = lcs_len xs ys i (Suc j + k)"
      using Suc.prems(3) prev by (metis Suc_less_eq add_Suc_shift length_Cons nth_Cons_Suc)
  qed (use j Suc.prems(5) in simp_all)
  then show ?case
    using j v by (simp add: Cons_nth_drop_Suc [symmetric] prev Let_def upt_conv_Cons del: upt_Suc lcs_len.simps)
qed

lemma dp_row_spec:
  assumes "prev = map (lcs_len xs ys i) [0 ..< Suc (length ys)]"
  shows "dp_row (xs ! i) ys prev = map (lcs_len xs ys (Suc i)) [0 ..< Suc (length ys)]"
proof -
  have "dp_cells (xs ! i) (drop 0 ys) prev 0 = map (lcs_len xs ys (Suc i)) [Suc 0 ..< Suc (length ys)]"
    by (rule dp_cells_spec) (auto simp: assms simp del: upt_Suc lcs_len.simps)
  then show ?thesis by (simp add: dp_row_def upt_conv_Cons del: upt_Suc lcs_len.simps)
qed

lemma dp_rows_spec:
  assumes "i + k \<le> length xs" "prev = map (lcs_len xs ys i) [0 ..< Suc (length ys)]"
  shows "dp_rows (drop i xs) ys prev ! k = map (lcs_len xs ys (i + k)) [0 ..< Suc (length ys)]"
  using assms
proof (induction k arbitrary: i prev)
  case 0
  then show ?case by (cases "drop i xs") auto
next
  case (Suc k)
  then have "i < length xs" by simp
  then have "dp_rows (drop i xs) ys prev ! Suc k = dp_rows (drop (Suc i) xs) ys (dp_row (xs ! i) ys prev) ! k"
    by (simp add: Cons_nth_drop_Suc [symmetric])
  also have "\<dots> = map (lcs_len xs ys (Suc i + k)) [0 ..< Suc (length ys)]"
    using Suc.prems by (intro Suc.IH dp_row_spec) simp_all
  finally show ?case by simp
qed

lemma dp_table_spec:
  assumes "i \<le> length xs" "j \<le> length ys"
  shows "dp_table xs ys ! i ! j = lcs_len xs ys i j"
proof -
  have "replicate (Suc (length ys)) 0 = map (lcs_len xs ys 0) [0 ..< Suc (length ys)]"
    by (rule nth_equalityI) (simp_all del: upt_Suc replicate_Suc)
  from dp_rows_spec [of 0 i xs, OF _ this] show ?thesis
    using assms by (simp add: dp_table_def del: upt_Suc replicate_Suc)
qed

text \<open>The length is an upper bound.\<close>

lemma subseq_snoc:
  "subseq zs (us @ [a]) \<Longrightarrow> subseq zs us \<or> (\<exists>ws. zs = ws @ [a] \<and> subseq ws us)"
proof -
  assume "subseq zs (us @ [a])"
  then obtain z1 z2 where z: "zs = z1 @ z2" "subseq z1 us" "subseq z2 [a]" by (auto simp: subseq_append_iff)
  then have "z2 = [] \<or> z2 = [a]" by (cases z2) (auto split: if_splits dest: list_emb_Nil2)
  then show ?thesis using z by auto
qed

lemma butlast_subseq: "subseq zs (us @ [a]) \<Longrightarrow> subseq (butlast zs) us"
proof -
  have "subseq (butlast zs) zs" by (metis butlast_conv_take prefix_imp_subseq take_is_prefix)
  moreover assume "subseq zs (us @ [a])"
  ultimately show ?thesis using subseq_snoc [of zs us a] subseq_order.trans by fastforce
qed

lemma lcs_len_bound:
  "i \<le> length xs \<Longrightarrow> j \<le> length ys \<Longrightarrow> subseq zs (take i xs) \<Longrightarrow> subseq zs (take j ys) \<Longrightarrow>
   length zs \<le> lcs_len xs ys i j"
proof (induction xs ys i j arbitrary: zs rule: lcs_len.induct)
  case (1 xs ys i j)
  have ti: "take (Suc i) xs = take i xs @ [xs ! i]" and tj: "take (Suc j) ys = take j ys @ [ys ! j]"
    using "1.prems"(1,2) by (simp_all add: take_Suc_conv_app_nth)
  show ?case
  proof (cases "xs ! i = ys ! j")
    case True
    have "length (butlast zs) \<le> lcs_len xs ys i j"
      using "1.prems" True ti tj butlast_subseq by (intro "1.IH"(1)) auto
    then show ?thesis using True by simp
  next
    case False
    then consider "subseq zs (take i xs)" | "subseq zs (take j ys)"
      using "1.prems"(3,4) subseq_snoc [of zs "take i xs" "xs ! i"] subseq_snoc [of zs "take j ys" "ys ! j"] ti tj by auto
    then show ?thesis
    proof cases
      case 1
      then have "length zs \<le> lcs_len xs ys i (Suc j)" using "1.prems" False by (intro "1.IH"(2)) auto
      then show ?thesis using False by simp
    next
      case 2
      then have "length zs \<le> lcs_len xs ys (Suc i) j" using "1.prems" False by (intro "1.IH"(3)) auto
      then show ?thesis using False by simp
    qed
  qed
qed auto

text \<open>The walk back collects that many matching pairs, in increasing order.\<close>

definition matching :: "'a list \<Rightarrow> 'a list \<Rightarrow> nat \<Rightarrow> nat \<Rightarrow> (nat \<times> nat) list \<Rightarrow> bool" where
  "matching xs ys b a ms \<longleftrightarrow>
     sorted_wrt (\<lambda>p q. fst p < fst q \<and> snd p < snd q) ms \<and>
     list_all (\<lambda>p. b \<le> fst p \<and> a \<le> snd p \<and> fst p < length xs \<and> snd p < length ys \<and> xs ! fst p = ys ! snd p) ms"

lemma matching_Cons:
  "matching xs ys b a ((i, j) # ms) \<longleftrightarrow>
     b \<le> i \<and> a \<le> j \<and> i < length xs \<and> j < length ys \<and> xs ! i = ys ! j \<and> matching xs ys (Suc i) (Suc j) ms"
  by (fastforce simp: matching_def list_all_iff)

lemma matching_weaken: "matching xs ys b a ms \<Longrightarrow> b' \<le> b \<Longrightarrow> a' \<le> a \<Longrightarrow> matching xs ys b' a' ms"
  by (auto simp: matching_def list_all_iff)

lemma backtrack_spec:
  assumes "i \<le> length xs" "j \<le> length ys" "matching xs ys i j ms"
  shows "matching xs ys 0 0 (backtrack (dp_table xs ys) xs ys i j ms) \<and>
    length (backtrack (dp_table xs ys) xs ys i j ms) = lcs_len xs ys i j + length ms"
  using assms
proof (induction "i + j" arbitrary: i j ms rule: less_induct)
  case less
  show ?case
  proof (cases "i = 0 \<or> j = 0")
    case True
    then show ?thesis
      using less.prems matching_weaken [of xs ys i j ms 0 0] by (subst (1 2) backtrack.simps) auto
  next
    case False
    then obtain i' j' where ij: "i = Suc i'" "j = Suc j'" by (metis not0_implies_Suc)
    have tab: "dp_table xs ys ! i' ! j = lcs_len xs ys i' j" "dp_table xs ys ! i ! j' = lcs_len xs ys i j'"
      using less.prems ij by (simp_all add: dp_table_spec del: lcs_len.simps)
    show ?thesis
    proof (cases "xs ! i' = ys ! j'")
      case True
      have "matching xs ys i' j' ((i', j') # ms)"
        using less.prems ij True by (simp add: matching_Cons)
      with less.hyps [of i' j' "(i', j') # ms"] show ?thesis
        using less.prems ij True by (subst (1 2) backtrack.simps) simp
    next
      case False
      have down: "matching xs ys i' j ms" and right: "matching xs ys i j' ms"
        using less.prems ij by (auto elim!: matching_weaken)
      show ?thesis
      proof (cases "lcs_len xs ys i' j > lcs_len xs ys i j'")
        case True
        then show ?thesis
          using less.hyps [of i' j ms] less.prems ij False down tab by (subst (1 2) backtrack.simps) simp
      next
        case ge: False
        then show ?thesis
          using less.hyps [of i j' ms] less.prems ij False right tab by (subst (1 2) backtrack.simps) simp
      qed
    qed
  qed
qed

lemma computeLCS_spec:
  "matching xs ys 0 0 (computeLCS xs ys)" "length (computeLCS xs ys) = lcs_len xs ys (length xs) (length ys)"
  using backtrack_spec [of "length xs" xs "length ys" ys "[]"] by (simp_all add: computeLCS_def matching_def)

section \<open>The operations rebuild both sides\<close>

lemma upt_split: "b \<le> m \<Longrightarrow> m < n \<Longrightarrow> [b ..< n] = [b ..< m] @ m # [Suc m ..< n]"
  using upt_add_eq_append [of b m "n - m"] by (simp add: upt_conv_Cons)

lemma concat_idx [simp]:
  "concat (map before_idx (map OpRemove is)) = is" "concat (map before_idx (map OpAdd is)) = []"
  "concat (map after_idx (map OpRemove is)) = []" "concat (map after_idx (map OpAdd is)) = is"
  by (induction "is") auto

lemma build_ops_idx:
  "matching xs ys b a ms \<Longrightarrow> b \<le> length xs \<Longrightarrow> a \<le> length ys \<Longrightarrow>
   concat (map before_idx (build_ops (length xs) (length ys) b a ms)) = [b ..< length xs] \<and>
   concat (map after_idx (build_ops (length xs) (length ys) b a ms)) = [a ..< length ys] \<and>
   (\<forall>i j. OpContext i j \<in> set (build_ops (length xs) (length ys) b a ms) \<longrightarrow> xs ! i = ys ! j)"
proof (induction ms arbitrary: b a)
  case Nil
  then show ?case by (auto simp: concat_idx simp del: map_map)
next
  case (Cons m ms)
  obtain mb ma where m: "m = (mb, ma)" by (cases m)
  have le: "b \<le> mb" "mb < length xs" "a \<le> ma" "ma < length ys" "xs ! mb = ys ! ma" "matching xs ys (Suc mb) (Suc ma) ms"
    using Cons.prems m by (auto simp: matching_Cons)
  from Cons.IH [OF le(6)] show ?case
    using le upt_split [of b mb "length xs"] upt_split [of a ma "length ys"]
    by (auto simp: m max_absorb2 simp del: map_map upt_Suc)
qed

lemma diff_ops_idx:
  "concat (map before_idx (diff_ops xs ys)) = [0 ..< length xs]"
  "concat (map after_idx (diff_ops xs ys)) = [0 ..< length ys]"
  "OpContext i j \<in> set (diff_ops xs ys) \<Longrightarrow> xs ! i = ys ! j"
  using build_ops_idx [OF computeLCS_spec(1) [of xs ys]] by (simp_all add: diff_ops_def)

text \<open>Reading off one side of a list of operations.\<close>

definition old_side :: "string list \<Rightarrow> line_op list \<Rightarrow> string list" where
  "old_side before ops = concat (map (\<lambda>p. map (nth before) (before_idx p)) ops)"

fun shown_new :: "string list \<Rightarrow> string list \<Rightarrow> line_op \<Rightarrow> string list" where
  "shown_new before after (OpRemove i) = []"
| "shown_new before after (OpAdd j) = [after ! j]"
| "shown_new before after (OpContext i j) = [before ! i]"

definition new_side :: "string list \<Rightarrow> string list \<Rightarrow> line_op list \<Rightarrow> string list" where
  "new_side before after ops = concat (map (shown_new before after) ops)"

lemma old_side_diff: "old_side xs (diff_ops xs ys) = xs"
proof -
  have "old_side xs ops = map (nth xs) (concat (map before_idx ops))" for ops
    by (induction ops) (auto simp: old_side_def)
  then show ?thesis by (simp add: diff_ops_idx map_nth)
qed

lemma new_side_diff: "new_side xs ys (diff_ops xs ys) = ys"
proof -
  have "new_side xs ys ops = map (nth ys) (concat (map after_idx ops))"
    if "\<forall>i j. OpContext i j \<in> set ops \<longrightarrow> xs ! i = ys ! j" for ops
    using that
  proof (induction ops)
    case (Cons p ops)
    then show ?case by (cases p) (auto simp: new_side_def)
  qed (simp add: new_side_def)
  then show ?thesis using diff_ops_idx by (simp add: map_nth)
qed

section \<open>Grouping loses no change\<close>

lemma context_run_all: "list_all (\<lambda>x. \<not> is_change x) (take (context_run k xs) xs)"
  by (induction k xs rule: context_run.induct) auto

lemma context_run_stop:
  "context_run k xs < k \<Longrightarrow> drop (context_run k xs) xs = [] \<or> is_change (hd (drop (context_run k xs) xs))"
  by (induction k xs rule: context_run.induct) auto

text \<open>After the last change of a region there is no change among the next three operations.\<close>

lemma change_end_gap:
  "list_all (\<lambda>x. \<not> is_change x) (take 3 (drop (change_end xs) xs))"
proof (induction xs rule: change_end.induct)
  case (1 xs)
  show ?case
  proof (cases xs)
    case (Cons x xs')
    show ?thesis
    proof (cases "is_change x")
      case True
      then have "change_end xs = Suc (change_end xs')" using Cons by (subst change_end.simps) simp
      then show ?thesis using 1(1) [OF Cons True] Cons by simp
    next
      case False
      define n where "n = context_run 4 xs"
      show ?thesis
      proof (cases "\<exists>y ys. drop n xs = y # ys \<and> is_change y")
        case True
        then obtain y ys where y: "drop n xs = y # ys" "is_change y" by blast
        then have "change_end xs = n + change_end (drop n xs)"
          using Cons False n_def by (subst change_end.simps) (simp add: Let_def)
        then show ?thesis
          using 1(2) [OF Cons False n_def y] by (simp add: add.commute)
      next
        case no: False
        then have "change_end xs = 0"
          using Cons False n_def by (subst change_end.simps) (auto simp: Let_def split: list.split)
        moreover have "set (take 3 xs) \<subseteq> set (take n xs)"
        proof (cases "n < 4")
          case True
          then have "drop n xs = []"
            using context_run_stop [of 4 xs] no unfolding n_def by (cases "drop n xs") (auto simp: n_def)
          then show ?thesis by (auto dest: in_set_takeD)
        next
          case False
          then show ?thesis by (intro set_take_subset_set_take) simp
        qed
        ultimately show ?thesis
          using context_run_all [of 4 xs] by (auto simp: list_all_iff n_def)
      qed
    qed
  qed simp
qed

lemma group_hunks_changes:
  "list_all (\<lambda>x. \<not> is_change x) (drop (length seen - 2) seen) \<Longrightarrow>
   filter is_change (concat (group_hunks seen rest)) = filter is_change rest"
proof (induction "length rest" arbitrary: seen rest rule: less_induct)
  case less
  show ?case
  proof (cases rest)
    case Nil
    then show ?thesis by (subst group_hunks.simps) simp
  next
    case (Cons x xs)
    show ?thesis
    proof (cases "is_change x")
      case False
      then have "group_hunks seen rest = group_hunks (seen @ [x]) xs"
        using Cons by (subst group_hunks.simps) simp
      moreover have "list_all (\<lambda>x. \<not> is_change x) (drop (length (seen @ [x]) - 2) (seen @ [x]))"
      proof -
        have "set (drop (length seen - 1) seen) \<subseteq> set (drop (length seen - 2) seen)"
          by (rule set_drop_subset_set_drop) simp
        then show ?thesis using less.prems False by (auto simp: list_all_iff)
      qed
      ultimately show ?thesis
        using less.hyps [of xs "seen @ [x]"] Cons False by simp
    next
      case True
      define k where "k = Suc (change_end xs) + 3"
      then have k: "k = Suc (change_end xs + 3)" by simp
      have g: "group_hunks seen rest =
          (drop (length seen - 2) seen @ take k rest) # group_hunks (seen @ take k rest) (drop k rest)"
        using Cons True by (subst group_hunks.simps) (simp add: k_def Let_def)
      have "filter is_change (drop (length seen - 2) seen) = []"
        using less.prems by (simp add: filter_empty_conv list_all_iff)
      moreover have "filter is_change (concat (group_hunks (seen @ take k rest) (drop k rest))) = filter is_change (drop k rest)"
      proof (cases "drop k rest = []")
        case True
        then show ?thesis by (subst group_hunks.simps) simp
      next
        case False
        show ?thesis
        proof (rule less.hyps)
          show "length (drop k rest) < length rest" using Cons by (simp add: k_def)
          have "take k rest = x # take (change_end xs) xs @ take 3 (drop (change_end xs) xs)"
            unfolding Cons k take_Suc_Cons take_add by (rule refl)
          moreover have "length (take 3 (drop (change_end xs) xs)) = 3"
            using False Cons by (simp add: k_def)
          ultimately have "set (drop (length (seen @ take k rest) - 2) (seen @ take k rest)) \<subseteq>
              set (take 3 (drop (change_end xs) xs))"
            by (auto dest: in_set_dropD)
          then show "list_all (\<lambda>x. \<not> is_change x) (drop (length (seen @ take k rest) - 2) (seen @ take k rest))"
            using change_end_gap [of xs] by (auto simp: list_all_iff)
        qed
      qed
      moreover have "filter is_change rest = filter is_change (take k rest) @ filter is_change (drop k rest)"
        by (metis append_take_drop_id filter_append)
      ultimately show ?thesis by (simp add: g)
    qed
  qed
qed

lemma group_hunks_Nil: "filter is_change ops \<noteq> [] \<Longrightarrow> group_hunks [] ops \<noteq> []"
  using group_hunks_changes [of "[]" ops] by auto

section \<open>When there is something to show\<close>

lemma lines_of_inj: "lines_of a = lines_of b \<longleftrightarrow> a = b"
  unfolding lines_of_def by (metis join_split split_on_neq_Nil)

lemma no_changes_same:
  assumes "filter is_change (diff_ops xs ys) = []"
  shows "xs = ys"
proof -
  have ctx: "\<forall>p \<in> set (diff_ops xs ys). \<exists>i j. p = OpContext i j \<and> xs ! i = ys ! j"
  proof
    fix p assume p: "p \<in> set (diff_ops xs ys)"
    then have "\<not> is_change p" using assms by (auto simp: filter_empty_conv)
    then obtain i j where "p = OpContext i j" by (cases p) auto
    then show "\<exists>i j. p = OpContext i j \<and> xs ! i = ys ! j" using p diff_ops_idx(3) by blast
  qed
  have "old_side xs ops = new_side xs ys ops"
    if "\<forall>p \<in> set ops. \<exists>i j. p = OpContext i j \<and> xs ! i = ys ! j" for ops
    using that by (induction ops) (auto simp: old_side_def new_side_def)
  then show ?thesis using ctx old_side_diff new_side_diff by metis
qed

lemma full_lcs_same:
  assumes "length xs = length ys" "length (computeLCS xs ys) = length xs"
  shows "xs = ys"
proof -
  let ?ms = "computeLCS xs ys"
  have m: "matching xs ys 0 0 ?ms" by (rule computeLCS_spec)
  have "length zs \<le> min (length xs - b) (length ys - a) \<and>
      (length zs = length xs - b \<and> length xs = length ys \<and> a = b \<longrightarrow> drop b xs = drop b ys)"
    if "matching xs ys b a zs" for b a zs
    using that
  proof (induction zs arbitrary: b a)
    case (Cons z zs)
    obtain i j where z: "z = (i, j)" by (cases z)
    have ij: "b \<le> i" "a \<le> j" "i < length xs" "j < length ys" "xs ! i = ys ! j" "matching xs ys (Suc i) (Suc j) zs"
      using Cons.prems z by (auto simp: matching_Cons)
    note ih = Cons.IH [OF ij(6)]
    show ?case
    proof (intro conjI impI)
      show "length (z # zs) \<le> min (length xs - b) (length ys - a)" using ih ij by auto
      assume e: "length (z # zs) = length xs - b \<and> length xs = length ys \<and> a = b"
      then have "i = b" "j = b" using ih ij by auto
      then show "drop b xs = drop b ys"
        using ih ij e by (metis Cons_nth_drop_Suc Suc_diff_Suc length_Cons nat.inject)
    qed
  qed auto
  from this [OF m] assms show ?thesis by simp
qed

lemma generateDiff_Nil: "generateDiff a b f = [] \<longleftrightarrow> a = b"
proof
  assume e: "generateDiff a b f = []"
  show "a = b"
  proof (rule ccontr)
    assume ne: "a \<noteq> b"
    then have l: "lines_of a \<noteq> lines_of b" by (simp add: lines_of_inj)
    then have "\<not> (length (lines_of a) = length (lines_of b) \<and> length (computeLCS (lines_of a) (lines_of b)) = length (lines_of a))"
      using full_lcs_same by blast
    moreover have "group_hunks [] (diff_ops (lines_of a) (lines_of b)) \<noteq> []"
      using l no_changes_same group_hunks_Nil by blast
    ultimately have "generateDiff a b f = (let out = diff_text (lines_of a) (lines_of b) f
        in if length out > MAX_LENGTH then truncate_lines (take MAX_LENGTH out) @ truncation_notice else out)"
      using ne by (auto simp: generateDiff_def Let_def)
    with e show False by (auto simp: Let_def truncation_notice_def diff_text_def split: if_splits)
  qed
qed (simp add: generateDiff_def)

lemma length_truncate: "length (truncate_lines s) \<le> length s"
proof -
  have "length (dropWhile P (rev s)) \<le> length s" for P
    using length_dropWhile_le [of P "rev s"] by simp
  then show ?thesis unfolding truncate_lines_def Let_def by (auto intro: le_trans [OF diff_le_self])
qed

section \<open>Properties\<close>

text \<open>
  C28. The matching the diff is built on is a longest one: its pairs match equal lines, strictly
  increase on both sides, and no common subsequence of the two files is longer.
\<close>

theorem computeLCS_optimal:
  "sorted_wrt (\<lambda>p q. fst p < fst q \<and> snd p < snd q) (computeLCS xs ys) \<and>
   list_all (\<lambda>(i, j). i < length xs \<and> j < length ys \<and> xs ! i = ys ! j) (computeLCS xs ys) \<and>
   \<not> (\<exists>zs. subseq zs xs \<and> subseq zs ys \<and> length zs > length (computeLCS xs ys))"
  using computeLCS_spec [of xs ys] lcs_len_bound [of "length xs" xs "length ys" ys]
  by (auto simp: matching_def list_all_iff linorder_not_less)

text \<open>
  C29. The diff tells the truth: the lines it keeps or removes are the old file, the lines it keeps
  or adds are the new one, grouping into hunks drops and repeats no change, the text is empty only
  for equal files, and it is never longer than 3000 characters and the notice.
\<close>

theorem diff_is_faithful:
  "old_side xs (diff_ops xs ys) = xs \<and> new_side xs ys (diff_ops xs ys) = ys \<and>
   filter is_change (concat (group_hunks [] (diff_ops xs ys))) = filter is_change (diff_ops xs ys) \<and>
   (generateDiff a b f = [] \<longleftrightarrow> a = b) \<and> length (generateDiff a b f) \<le> 3000 + length truncation_notice"
proof -
  have "length (generateDiff a b f) \<le> 3000 + length truncation_notice"
    using length_truncate [of "take MAX_LENGTH (diff_text (lines_of a) (lines_of b) f)"]
    by (auto simp: generateDiff_def Let_def MAX_LENGTH_def)
  then show ?thesis
    using old_side_diff new_side_diff group_hunks_changes [of "[]"] generateDiff_Nil by simp
qed

text \<open>A hunk shows three lines of context after a change, one more than the header says.\<close>

lemma three_context_lines_after:
  "map length (group_hunks [] (OpRemove 0 # map (\<lambda>i. OpContext (Suc i) i) [0 ..< 9])) = [4]"
  by code_simp

end
