(* ===== verification/Transcript.thy ===== *)
theory Transcript
  imports Js_Text
begin

text \<open>
  \<open>core/src/services/conversation-session\<close>: how a chat session is written to and read from its
  Markdown file (\<open>transcript-codec.ts\<close>), session keys (\<open>session-key.ts\<close>) and session ids
  (\<open>session-id.ts\<close>).

  The header delimiter is the em dash. In this theory the 256 code units of a \<^typ>\<open>char\<close> are
  read as those of Windows-1252, where it has the code \<open>0x97\<close>; nothing else depends on it. YAML text is
  the library's: \<open>parseYaml\<close> is an argument, and \<open>None\<close> is a parse error or a value that is no object.
\<close>

section \<open>Data\<close>

datatype role = User | Assistant

datatype turn_source = FromUser | FromAssistant | FromPhoto | FromApp

record session_turn =
  st_role :: role
  st_timestamp :: string
  st_content :: string
  st_source :: "turn_source option"

datatype corrupt = NoFrontmatter | BadFrontmatter | NoOpeningFence string | NoClosingFence string

abbreviation NL :: char where "NL \<equiv> CHR 0x0A"
abbreviation TICK :: char where "TICK \<equiv> CHR 0x60"
definition EM_DASH :: string where "EM_DASH = [CHR 0x97]"

fun role_name :: "role \<Rightarrow> string" where
  "role_name User = ''user''"
| "role_name Assistant = ''assistant''"

fun source_name :: "turn_source \<Rightarrow> string" where
  "source_name FromUser = ''user''"
| "source_name FromAssistant = ''assistant''"
| "source_name FromPhoto = ''photo''"
| "source_name FromApp = ''app''"

section \<open>Writing\<close>

text \<open>The lengths of the runs of backticks, \<open>content.match(/`+/g)\<close>.\<close>

function tick_runs :: "string \<Rightarrow> nat list" where
  "tick_runs s =
     (case s of
        [] \<Rightarrow> []
      | c # r \<Rightarrow>
          if c = TICK then Suc (length (takeWhile (\<lambda>c. c = TICK) r)) # tick_runs (dropWhile (\<lambda>c. c = TICK) r)
          else tick_runs r)"
  by pat_completeness auto
termination
  by (relation "measure length") (auto simp: less_Suc_eq_le length_dropWhile_le)

declare tick_runs.simps [simp del]

definition pickFenceLength :: "string \<Rightarrow> nat" where
  "pickFenceLength content = foldl (\<lambda>m n. if n > m then n else m) 3 (tick_runs content) + 1"

definition makeFence :: "nat \<Rightarrow> string" where
  "makeFence n = replicate n TICK"

definition encodeNew :: "string \<Rightarrow> string" where
  "encodeNew frontmatter = ''---'' @ [NL] @ frontmatter @ ''---'' @ [NL]"

definition encodeAppend :: "string \<Rightarrow> session_turn \<Rightarrow> string" where
  "encodeAppend existingRaw turn =
     (let fence = makeFence (pickFenceLength (st_content turn));
          sourceLine = (case st_source turn of None \<Rightarrow> [] | Some s \<Rightarrow> ''source: '' @ source_name s @ [NL])
      in existingRaw @ [NL] @ ''### '' @ role_name (st_role turn) @ '' '' @ EM_DASH @ '' '' @ st_timestamp turn @ [NL] @
         sourceLine @ fence @ [NL] @ st_content turn @ [NL] @ fence @ [NL])"

section \<open>Reading\<close>

text \<open>
  \<open>/^---\n([\s\S]*?)\n---\n/\<close>: the text between the delimiters and what follows, at the first place
  where the closing one matches.
\<close>

fun find_close :: "string \<Rightarrow> (string \<times> string) option" where
  "find_close [] = None"
| "find_close (c # s) =
     (if starts_with ([NL] @ ''---'' @ [NL]) (c # s) then Some ([], drop 4 s)
      else map_option (\<lambda>(m, r). (c # m, r)) (find_close s))"

definition frontmatter_match :: "string \<Rightarrow> (string \<times> string) option" where
  "frontmatter_match raw =
     (if starts_with (''---'' @ [NL]) raw then find_close (drop 4 raw) else None)"

text \<open>\<open>\d{4}-\d{2}-\d{2}T\d{2}:\d{2}:\d{2}(?:\.\d+)?Z\<close>, as a whole.\<close>

datatype pat = Digits nat | Lit char

fun eat :: "pat list \<Rightarrow> string \<Rightarrow> string option" where
  "eat [] s = Some s"
| "eat (Digits n # ps) s =
     (if length (take n s) = n \<and> list_all is_digit (take n s) then eat ps (drop n s) else None)"
| "eat (Lit c # ps) s = (if take 1 s = [c] then eat ps (drop 1 s) else None)"

definition ISO_PATTERN :: "pat list" where
  "ISO_PATTERN = [Digits 4, Lit (CHR ''-''), Digits 2, Lit (CHR ''-''), Digits 2, Lit (CHR ''T''),
     Digits 2, Lit (CHR '':''), Digits 2, Lit (CHR '':''), Digits 2]"

definition is_iso_utc :: "string \<Rightarrow> bool" where
  "is_iso_utc s =
     (case eat ISO_PATTERN s of
        None \<Rightarrow> False
      | Some r \<Rightarrow>
          r = ''Z'' \<or>
          (take 1 r = ''.'' \<and> takeWhile is_digit (drop 1 r) \<noteq> [] \<and> dropWhile is_digit (drop 1 r) = ''Z''))"

definition header_as :: "role \<Rightarrow> string \<Rightarrow> (role \<times> string) option" where
  "header_as r line =
     (let p = ''### '' @ role_name r @ '' '' @ EM_DASH @ '' '' in
      if starts_with p line \<and> is_iso_utc (drop (length p) line) then Some (r, drop (length p) line) else None)"

definition parse_header :: "string \<Rightarrow> (role \<times> string) option" where
  "parse_header line = (case header_as User line of Some h \<Rightarrow> Some h | None \<Rightarrow> header_as Assistant line)"

definition is_fence :: "string \<Rightarrow> bool" where
  "is_fence l \<longleftrightarrow> length l \<ge> 4 \<and> list_all (\<lambda>c. c = TICK) l"

text \<open>\<open>/^source:\s*(\S+)\s*$/\<close> on a trimmed line.\<close>

definition source_line :: "string \<Rightarrow> string option" where
  "source_line l =
     (let v = dropWhile is_ws (drop 7 l)
      in if starts_with ''source:'' l \<and> v \<noteq> [] \<and> list_all (\<lambda>c. \<not> is_ws c) v then Some v else None)"

definition valid_source :: "string \<Rightarrow> turn_source option" where
  "valid_source v = find (\<lambda>s. source_name s = v) [FromUser, FromAssistant, FromPhoto, FromApp]"

fun find_fence :: "string list \<Rightarrow> turn_source option \<Rightarrow> (string \<times> turn_source option \<times> string list) option" where
  "find_fence [] src = None"
| "find_fence (l # ls) src =
     (let t = trim l
      in if t = [] then find_fence ls src
         else if is_fence t then Some (t, src, ls)
         else (case source_line t of
                 Some v \<Rightarrow> find_fence ls (valid_source v)
               | None \<Rightarrow> None))"

fun take_content :: "string \<Rightarrow> string list \<Rightarrow> (string list \<times> string list) option" where
  "take_content fence [] = None"
| "take_content fence (l # ls) =
     (if trim l = fence then Some ([], ls)
      else map_option (\<lambda>(c, r). (l # c, r)) (take_content fence ls))"

lemma find_fence_shorter: "find_fence ls src = Some (f, src', r) \<Longrightarrow> length r < length ls"
  by (induction ls arbitrary: src) (fastforce simp: Let_def split: if_splits option.splits)+

lemma take_content_shorter: "take_content f ls = Some (c, r) \<Longrightarrow> length r < length ls"
  by (induction f ls arbitrary: c rule: take_content.induct) (fastforce split: if_splits)+

function parse_turns :: "string list \<Rightarrow> corrupt + session_turn list" where
  "parse_turns lines =
     (case lines of
        [] \<Rightarrow> Inr []
      | line # ls \<Rightarrow>
          (case parse_header line of
             None \<Rightarrow> parse_turns ls
           | Some (role, ts) \<Rightarrow>
               (case find_fence ls None of
                  None \<Rightarrow> Inl (NoOpeningFence ts)
                | Some (fence, src, ls) \<Rightarrow>
                    (case take_content fence ls of
                       None \<Rightarrow> Inl (NoClosingFence ts)
                     | Some (content, rest) \<Rightarrow>
                         (case parse_turns rest of
                            Inl e \<Rightarrow> Inl e
                          | Inr ts' \<Rightarrow>
                              Inr (\<lparr>st_role = role, st_timestamp = ts, st_content = join [NL] content, st_source = src\<rparr> # ts'))))))"
  by pat_completeness auto
termination
  by (relation "measure length") (auto dest!: find_fence_shorter take_content_shorter)

declare parse_turns.simps [simp del]

definition decode :: "(string \<Rightarrow> 'm option) \<Rightarrow> string \<Rightarrow> corrupt + 'm \<times> session_turn list" where
  "decode parseYaml raw =
     (case frontmatter_match raw of
        None \<Rightarrow> Inl NoFrontmatter
      | Some (fm, body) \<Rightarrow>
          (case parseYaml fm of
             None \<Rightarrow> Inl BadFrontmatter
           | Some meta \<Rightarrow>
               (case parse_turns (split_on NL body) of
                  Inl e \<Rightarrow> Inl e
                | Inr turns \<Rightarrow> Inr (meta, turns))))"

section \<open>Keys and ids\<close>

text \<open>\<open>/[:/\\]|^\s*$|\.{2}/\<close>\<close>

definition forbidden_chat :: "string \<Rightarrow> bool" where
  "forbidden_chat s \<longleftrightarrow>
     CHR '':'' \<in> set s \<or> CHR ''/'' \<in> set s \<or> CHR 0x5C \<in> set s \<or> list_all is_ws s \<or> str_includes ''..'' s"

datatype chat_scope = Dm | Group

fun scope_name :: "chat_scope \<Rightarrow> string" where
  "scope_name Dm = ''dm''"
| "scope_name Group = ''group''"

text \<open>\<open>Inl\<close> is an \<open>InvalidSessionKeyError\<close>; the agent is always \<open>main\<close>, the channel \<open>telegram\<close>.\<close>

definition buildSessionKey :: "chat_scope \<Rightarrow> string \<Rightarrow> string + string" where
  "buildSessionKey scp chatId =
     (if forbidden_chat chatId then Inl chatId
      else Inr (''agent:main:telegram:'' @ scope_name scp @ '':'' @ chatId))"

definition resolveOrDefaultSessionKey :: "string option \<Rightarrow> string \<Rightarrow> string + string" where
  "resolveOrDefaultSessionKey key userId =
     (case key of Some k \<Rightarrow> Inr k | None \<Rightarrow> buildSessionKey Dm userId)"

definition is_hex8 :: "string \<Rightarrow> bool" where
  "is_hex8 s \<longleftrightarrow> length s = 8 \<and> list_all (\<lambda>c. is_digit c \<or> (97 \<le> code c \<and> code c \<le> 102)) s"

definition mintSessionId :: "time \<Rightarrow> string \<Rightarrow> string option" where
  "mintSessionId now hex =
     (if \<not> is_hex8 hex then None
      else (let (y, m, d) = civil_from_days (now div 86400000); t = now mod 86400000
            in Some (dec_pad 4 (nat y) @ pad2 m @ pad2 d @ ''_'' @ pad2 (t div 3600000) @ pad2 (t div 60000 mod 60) @
                 pad2 (t div 1000 mod 60) @ ''_'' @ hex)))"

section \<open>Fences outlast their content\<close>

lemma foldl_max: "(m :: nat) \<le> foldl (\<lambda>m n. if n > m then n else m) m ns \<and>
    (\<forall>n \<in> set ns. n \<le> foldl (\<lambda>m n. if n > m then n else m) m ns)"
proof (induction ns arbitrary: m)
  case (Cons k ns)
  show ?case using Cons.IH [of "if k > m then k else m"] by (auto split: if_splits)
qed simp

lemma replicate_prefix: "k \<le> length (takeWhile (\<lambda>c. c = TICK) (replicate k TICK @ v))"
  by (induction k) auto

lemma ticks_prefix: "\<forall>x \<in> set u. x = TICK \<Longrightarrow> k \<le> length (takeWhile (\<lambda>c. c = TICK) (u @ replicate k TICK @ v))"
  using replicate_prefix [of k v] by (induction u) auto

lemma run_found:
  "s = u @ replicate (Suc n) TICK @ v \<Longrightarrow> \<exists>k \<in> set (tick_runs s). Suc n \<le> k"
proof (induction s arbitrary: u rule: tick_runs.induct)
  case (1 s)
  show ?case
  proof (cases s)
    case (Cons c r)
    show ?thesis
    proof (cases "c = TICK")
      case False
      then obtain u' where "u = c # u'" using 1(3) Cons by (cases u) auto
      then have "r = u' @ replicate (Suc n) TICK @ v" using 1(3) Cons by simp
      from 1(2) [OF Cons False this] show ?thesis
        using Cons False by (subst tick_runs.simps) simp
    next
      case True
      let ?t = "takeWhile (\<lambda>c. c = TICK) r"
      have runs: "tick_runs s = Suc (length ?t) # tick_runs (dropWhile (\<lambda>c. c = TICK) r)"
        using Cons True by (subst tick_runs.simps) simp
      show ?thesis
      proof (cases u)
        case Nil
        then have "r = replicate n TICK @ v" using 1(3) Cons by simp
        then show ?thesis using runs replicate_prefix [of n v] by simp
      next
        case (Cons c' u')
        then have r: "r = u' @ replicate (Suc n) TICK @ v" using 1(3) \<open>s = c # r\<close> by simp
        show ?thesis
        proof (cases "\<forall>x \<in> set u'. x = TICK")
          case True
          then have "Suc n \<le> length ?t" unfolding r by (rule ticks_prefix)
          then show ?thesis using runs by simp
        next
          case False
          then obtain x where "x \<in> set u'" "x \<noteq> TICK" by blast
          then have "dropWhile (\<lambda>c. c = TICK) r = dropWhile (\<lambda>c. c = TICK) u' @ replicate (Suc n) TICK @ v"
            by (simp add: r dropWhile_append1)
          from 1(1) [OF \<open>s = c # r\<close> \<open>c = TICK\<close> this] show ?thesis using runs by auto
        qed
      qed
    qed
  qed (use 1 in simp)
qed

lemma trim_infix: "\<exists>u v. s = u @ trim s @ v"
  unfolding trim_def by (metis rev_append rev_rev_ident takeWhile_dropWhile_id)

lemma line_infix: "l \<in> set (split_on NL s) \<Longrightarrow> \<exists>u v. s = u @ l @ v"
proof -
  assume "l \<in> set (split_on NL s)"
  then obtain xs ys where sp: "split_on NL s = xs @ l # ys" by (meson split_list)
  have j: "\<exists>u v. join [NL] (xs @ l # ys) = u @ l @ v" for xs ys
  proof (induction xs)
    case Nil
    then show ?case by (cases ys) (auto intro: exI [of _ "[]"])
  next
    case (Cons x xs)
    then obtain u v where "join [NL] (xs @ l # ys) = u @ l @ v" by blast
    then have "join [NL] ((x # xs) @ l # ys) = (x @ [NL] @ u) @ l @ v" by (cases "xs @ l # ys") auto
    then show ?case by blast
  qed
  show ?thesis using j [of xs ys] sp join_split [of NL s] by metis
qed

lemma fence_not_in_content:
  assumes "l \<in> set (split_on NL content)"
  shows "trim l \<noteq> makeFence (pickFenceLength content)"
proof
  assume t: "trim l = makeFence (pickFenceLength content)"
  obtain n where n: "pickFenceLength content = Suc n" by (simp add: pickFenceLength_def)
  obtain u v where "l = u @ replicate (Suc n) TICK @ v" using trim_infix [of l] t n by (auto simp: makeFence_def)
  then obtain u' v' where "content = u' @ replicate (Suc n) TICK @ v'"
    using line_infix [OF assms] by (metis append.assoc)
  then obtain k where "k \<in> set (tick_runs content)" "Suc n \<le> k" using run_found by blast
  then show False
    using foldl_max [of 3 "tick_runs content"] n by (force simp: pickFenceLength_def)
qed

lemma trim_fence: "trim (makeFence (Suc n)) = makeFence (Suc n)"
proof -
  have "dropWhile is_ws (replicate (Suc n) TICK) = replicate (Suc n) TICK" by (simp add: is_ws_def)
  then show ?thesis unfolding trim_def makeFence_def by (simp only: rev_replicate)
qed

lemma take_content_fence:
  assumes "\<forall>l \<in> set ls. trim l \<noteq> fence" "trim fence = fence"
  shows "take_content fence (ls @ fence # rest) = Some (ls, rest)"
  using assms by (induction ls) auto

section \<open>A turn is read back\<close>

lemma find_fence_append: "find_fence ls src = Some (f, src', r) \<Longrightarrow> find_fence (ls @ ks) src = Some (f, src', r @ ks)"
proof (induction ls arbitrary: src)
  case (Cons l ls)
  then show ?case by (auto simp: Let_def split: if_splits option.splits)
qed simp

lemma take_content_append: "take_content f ls = Some (c, r) \<Longrightarrow> take_content f (ls @ ks) = Some (c, r @ ks)"
proof (induction ls arbitrary: c)
  case (Cons l ls)
  then show ?case by (fastforce split: if_splits)
qed simp

lemma parse_turns_append:
  "parse_turns ls = Inr ts \<Longrightarrow>
   parse_turns (ls @ ks) = (case parse_turns ks of Inl e \<Rightarrow> Inl e | Inr us \<Rightarrow> Inr (ts @ us))"
proof (induction ls arbitrary: ts rule: parse_turns.induct)
  case (1 lines)
  show ?case
  proof (cases lines)
    case Nil
    then have "ts = []" using 1(3) by (simp add: parse_turns.simps)
    then show ?thesis using Nil by (cases "parse_turns ks") auto
  next
    case (Cons line ls)
    show ?thesis
    proof (cases "parse_header line")
      case None
      then have "parse_turns ls = Inr ts" using 1(3) Cons by (subst (asm) parse_turns.simps) simp
      from 1(1) [OF Cons None this] show ?thesis using Cons None by (subst parse_turns.simps) simp
    next
      case (Some h)
      obtain role stamp where h: "h = (role, stamp)" by (cases h)
      have e: "parse_turns lines = (case find_fence ls None of
                  None \<Rightarrow> Inl (NoOpeningFence stamp)
                | Some (fence, src, ls) \<Rightarrow>
                    (case take_content fence ls of
                       None \<Rightarrow> Inl (NoClosingFence stamp)
                     | Some (content, rest) \<Rightarrow>
                         (case parse_turns rest of
                            Inl e \<Rightarrow> Inl e
                          | Inr ts' \<Rightarrow>
                              Inr (\<lparr>st_role = role, st_timestamp = stamp, st_content = join [NL] content, st_source = src\<rparr> # ts'))))"
        using Cons Some h by (subst parse_turns.simps) simp
      obtain f src ls' where ff: "find_fence ls None = Some (f, src, ls')"
        using e 1(3) by (auto split: option.splits)
      obtain c r where tc: "take_content f ls' = Some (c, r)"
        using e 1(3) ff by (auto split: option.splits)
      obtain ts' where r: "parse_turns r = Inr ts'"
        and ts: "ts = \<lparr>st_role = role, st_timestamp = stamp, st_content = join [NL] c, st_source = src\<rparr> # ts'"
        using e 1(3) ff tc by (auto split: sum.splits)
      have ih: "parse_turns (r @ ks) = (case parse_turns ks of Inl e \<Rightarrow> Inl e | Inr us \<Rightarrow> Inr (ts' @ us))"
        using 1(2) [OF Cons Some h [symmetric] ff refl refl tc refl r] by (simp add: h)
      have "parse_turns (lines @ ks) = (case parse_turns (r @ ks) of
          Inl e \<Rightarrow> Inl e
        | Inr us \<Rightarrow> Inr (\<lparr>st_role = role, st_timestamp = stamp, st_content = join [NL] c, st_source = src\<rparr> # us))"
        using Cons Some h find_fence_append [OF ff, of ks] take_content_append [OF tc, of ks]
        by (subst parse_turns.simps) simp
      then show ?thesis unfolding ih ts by (cases "parse_turns ks") auto
    qed
  qed
qed

lemma find_close_length: "find_close s = Some (m, r) \<Longrightarrow> 5 \<le> length s"
proof (induction s arbitrary: m)
  case (Cons c s)
  then show ?case
    by (auto simp: starts_with_iff split: if_splits)
qed simp

lemma starts_with_long: "length p \<le> length s \<Longrightarrow> starts_with p (s @ t) \<longleftrightarrow> starts_with p s"
  by (simp add: starts_with_def)

lemma find_close_append: "find_close s = Some (m, r) \<Longrightarrow> find_close (s @ t) = Some (m, r @ t)"
proof (induction s arbitrary: m)
  case (Cons c s)
  have len: "length ([NL] @ ''---'' @ [NL]) \<le> length (c # s)" using find_close_length [OF Cons.prems] by simp
  show ?case
  proof (cases "starts_with ([NL] @ ''---'' @ [NL]) (c # s)")
    case True
    then show ?thesis using Cons.prems starts_with_long [OF len, of t] len by auto
  next
    case False
    then obtain m' where "find_close s = Some (m', r)" "m = c # m'" using Cons.prems by auto
    then show ?thesis using Cons.IH False starts_with_long [OF len, of t] by simp
  qed
qed simp

lemma frontmatter_append:
  "frontmatter_match raw = Some (m, r) \<Longrightarrow> frontmatter_match (raw @ t) = Some (m, r @ t)"
proof -
  assume f: "frontmatter_match raw = Some (m, r)"
  then have st: "starts_with (''---'' @ [NL]) raw" and c: "find_close (drop 4 raw) = Some (m, r)"
    by (auto simp: frontmatter_match_def split: if_splits)
  then have "4 \<le> length raw" by (auto simp: starts_with_iff)
  then show ?thesis
    using st find_close_append [OF c, of t] starts_with_long [of "''---'' @ [NL]" raw t]
    by (simp add: frontmatter_match_def)
qed

lemma split_on_snoc_line: "split_on NL (s @ NL # t) = split_on NL s @ split_on NL t"
proof (induction s)
  case (Cons x s)
  then show ?case by (cases "split_on NL s") (auto split: list.splits)
qed simp

text \<open>A turn that can be written: its timestamp is an ISO instant in UTC.\<close>

definition good_turn :: "session_turn \<Rightarrow> bool" where
  "good_turn t \<longleftrightarrow> is_iso_utc (st_timestamp t)"

lemma eat_chars: "eat ps s = Some r \<Longrightarrow> \<exists>u. s = u @ r \<and> list_all (\<lambda>c. is_digit c \<or> Lit c \<in> set ps) u"
proof (induction ps s rule: eat.induct)
  case (1 s)
  then show ?case by simp
next
  case (2 n ps s)
  then have d: "list_all is_digit (take n s)" and "eat ps (drop n s) = Some r" by (auto split: if_splits)
  then obtain u where "drop n s = u @ r" "list_all (\<lambda>c. is_digit c \<or> Lit c \<in> set ps) u"
    using 2 by (auto split: if_splits)
  then have "s = (take n s @ u) @ r" "list_all (\<lambda>c. is_digit c \<or> Lit c \<in> set (Digits n # ps)) (take n s @ u)"
    using d by (metis append.assoc append_take_drop_id, auto simp: list_all_iff)
  then show ?case by blast
next
  case (3 c ps s)
  then have t: "take 1 s = [c]" and "eat ps (drop 1 s) = Some r" by (auto split: if_splits)
  then obtain u where u: "drop 1 s = u @ r" "list_all (\<lambda>c. is_digit c \<or> Lit c \<in> set ps) u"
    using 3 by (auto split: if_splits)
  then have "s = (c # u) @ r" using t by (cases s) auto
  moreover have "list_all (\<lambda>c'. is_digit c' \<or> Lit c' \<in> set (Lit c # ps)) (c # u)"
    using u(2) by (auto simp: list_all_iff)
  ultimately show ?case by blast
qed

lemma iso_no_NL: "is_iso_utc s \<Longrightarrow> NL \<notin> set s"
proof -
  assume s: "is_iso_utc s"
  then obtain r where e: "eat ISO_PATTERN s = Some r" by (auto simp: is_iso_utc_def split: option.splits)
  obtain u where u: "s = u @ r" "list_all (\<lambda>c. is_digit c \<or> Lit c \<in> set ISO_PATTERN) u" using eat_chars [OF e] by blast
  have "NL \<notin> set u" using u(2) by (auto simp: list_all_iff ISO_PATTERN_def is_digit_def)
  moreover have "NL \<notin> set r"
  proof
    assume "NL \<in> set r"
    then have "r \<noteq> ''Z''" by auto
    then have t: "take 1 r = ''.''" "dropWhile is_digit (drop 1 r) = ''Z''" using s e by (auto simp: is_iso_utc_def)
    then have "set r \<subseteq> {CHR ''.''} \<union> set (takeWhile is_digit (drop 1 r)) \<union> {CHR ''Z''}"
      by (cases r) (auto simp: set_ConsD, metis Un_iff empty_iff insert_iff list.set set_append takeWhile_dropWhile_id)
    then have "NL \<in> set (takeWhile is_digit (drop 1 r))" using \<open>NL \<in> set r\<close> by auto
    then have "is_digit NL" by (rule set_takeWhileD [THEN conjunct2])
    then show False by (simp add: is_digit_def)
  qed
  ultimately show ?thesis using u(1) by simp
qed

lemma header_read: "is_iso_utc ts \<Longrightarrow>
    parse_header (''### '' @ role_name r @ '' '' @ EM_DASH @ '' '' @ ts) = Some (r, ts)"
  by (cases r) (auto simp: parse_header_def header_as_def EM_DASH_def starts_with_def Let_def)

lemma source_read:
  "trim (''source: '' @ source_name s) = ''source: '' @ source_name s"
  "\<not> is_fence (''source: '' @ source_name s)"
  "source_line (''source: '' @ source_name s) = Some (source_name s)"
  "valid_source (source_name s) = Some s"
  by (induction s; code_simp)+

lemma fence_line: "is_fence (makeFence (pickFenceLength c))" "trim (makeFence (pickFenceLength c)) = makeFence (pickFenceLength c)"
proof -
  have "4 \<le> pickFenceLength c" using foldl_max [of 3 "tick_runs c"] by (simp add: pickFenceLength_def)
  then show "is_fence (makeFence (pickFenceLength c))" by (simp add: is_fence_def makeFence_def list_all_iff)
  show "trim (makeFence (pickFenceLength c)) = makeFence (pickFenceLength c)"
    using trim_fence [of "pickFenceLength c - 1"] by (simp add: pickFenceLength_def)
qed

lemma find_fence_fence: "trim f = f \<Longrightarrow> is_fence f \<Longrightarrow> find_fence (f # ls) src = Some (f, src, ls)"
  by (auto simp: Let_def is_fence_def)

lemma find_fence_source: "find_fence ((''source: '' @ source_name s) # ls) src = find_fence ls (Some s)"
  unfolding find_fence.simps Let_def source_read by (simp add: source_read(4) source_read(2) [simplified])

lemma split_turn:
  "NL \<notin> set h \<Longrightarrow> NL \<notin> set f \<Longrightarrow>
   split_on NL (h @ NL # f @ NL # c @ NL # f @ NL # []) = h # f # split_on NL c @ [f, []]"
  "NL \<notin> set h \<Longrightarrow> NL \<notin> set s \<Longrightarrow> NL \<notin> set f \<Longrightarrow>
   split_on NL (h @ NL # s @ NL # f @ NL # c @ NL # f @ NL # []) = h # s # f # split_on NL c @ [f, []]"
  by (simp_all add: split_on_append split_on_snoc_line split_on_no_sep)

lemma turn_read:
  assumes "good_turn t"
  shows "parse_turns (split_on NL (drop 1 (encodeAppend [] t))) = Inr [t]"
proof -
  let ?h = "''### '' @ role_name (st_role t) @ '' '' @ EM_DASH @ '' '' @ st_timestamp t"
  let ?f = "makeFence (pickFenceLength (st_content t))"
  let ?s = "case st_source t of None \<Rightarrow> [] | Some s \<Rightarrow> [''source: '' @ source_name s]"
  have nl: "NL \<notin> set ?h"
    using assms iso_no_NL by (cases "st_role t") (auto simp: good_turn_def EM_DASH_def)
  have fnl: "NL \<notin> set ?f" by (simp add: makeFence_def)
  have snl: "\<forall>x \<in> set ?s. NL \<notin> set x" by (cases "st_source t"; cases "the (st_source t)") auto
  have whole: "drop 1 (encodeAppend [] t) =
      ?h @ NL # (case st_source t of None \<Rightarrow> [] | Some s \<Rightarrow> (''source: '' @ source_name s) @ [NL]) @
      ?f @ NL # st_content t @ NL # ?f @ NL # []"
    by (simp add: encodeAppend_def Let_def split: option.split)
  have lines: "split_on NL (drop 1 (encodeAppend [] t)) =
      ?h # ?s @ ?f # split_on NL (st_content t) @ [?f, []]"
  proof (cases "st_source t")
    case None
    then show ?thesis
      unfolding whole using split_turn(1) [OF nl fnl, of "st_content t"] by simp
  next
    case (Some s)
    then have "NL \<notin> set (''source: '' @ source_name s)" using snl by simp
    from split_turn(2) [OF nl this fnl, of "st_content t"] show ?thesis
      unfolding whole by (simp only: Some option.case append.assoc append_Cons append_Nil)
  qed
  have ff: "find_fence (?s @ ?f # rest) None = Some (?f, st_source t, rest)" for rest
    by (cases "st_source t")
       (simp_all only: option.case append_Nil append_Cons find_fence_source [unfolded append_Cons append_Nil]
          find_fence_fence [OF fence_line(2,1)])
  have tc: "take_content ?f (split_on NL (st_content t) @ [?f, []]) = Some (split_on NL (st_content t), [[]])"
    using take_content_fence [of "split_on NL (st_content t)" ?f "[[]]"] fence_not_in_content fence_line by simp
  have last: "parse_turns [[]] = Inr []"
    by (simp add: parse_turns.simps [of "[[]]"] parse_turns.simps [of "[]"] parse_header_def header_as_def starts_with_def Let_def)
  have "parse_header ?h = Some (st_role t, st_timestamp t)"
    using assms by (intro header_read) (simp add: good_turn_def)
  then have "parse_turns (?h # ?s @ ?f # split_on NL (st_content t) @ [?f, []]) =
      Inr [\<lparr>st_role = st_role t, st_timestamp = st_timestamp t, st_content = join [NL] (split_on NL (st_content t)), st_source = st_source t\<rparr>]"
    using ff tc last by (subst parse_turns.simps) simp
  then show ?thesis unfolding lines by (simp add: join_split)
qed

lemma decode_append:
  assumes "decode parseYaml raw = Inr (meta, turns)" "good_turn t"
  shows "decode parseYaml (encodeAppend raw t) = Inr (meta, turns @ [t])"
proof -
  obtain fm body where f: "frontmatter_match raw = Some (fm, body)" and y: "parseYaml fm = Some meta"
    and p: "parse_turns (split_on NL body) = Inr turns"
    using assms(1) by (auto simp: decode_def split: option.splits sum.splits)
  have app: "encodeAppend raw t = raw @ NL # drop 1 (encodeAppend [] t)"
    by (simp add: encodeAppend_def Let_def)
  show ?thesis
    using frontmatter_append [OF f] y parse_turns_append [OF p] turn_read [OF assms(2)]
    by (simp add: app decode_def split_on_snoc_line)
qed

lemma decode_appends:
  "decode parseYaml raw = Inr (meta, turns) \<Longrightarrow> list_all good_turn ts \<Longrightarrow>
   decode parseYaml (foldl encodeAppend raw ts) = Inr (meta, turns @ ts)"
proof (induction ts arbitrary: raw turns)
  case (Cons t ts)
  then show ?case using decode_append [OF Cons.prems(1), of t] Cons.IH by simp
qed simp

text \<open>What a new file needs of the YAML library: a block of whole lines without a delimiter line.\<close>

definition yaml_block :: "string \<Rightarrow> bool" where
  "yaml_block y \<longleftrightarrow> (\<exists>b. y = b @ [NL]) \<and> \<not> str_includes ([NL] @ ''---'' @ [NL]) y"

lemma find_close_block:
  assumes "\<not> str_includes ([NL] @ ''---'' @ [NL]) (b @ [NL])"
  shows "find_close (b @ [NL] @ ''---'' @ [NL]) = Some (b, [])"
  using assms
proof (induction b)
  case Nil
  then show ?case by (simp add: starts_with_def)
next
  case (Cons c b)
  have "\<not> starts_with ([NL] @ ''---'' @ [NL]) (c # b @ [NL] @ ''---'' @ [NL])"
  proof
    assume "starts_with ([NL] @ ''---'' @ [NL]) (c # b @ [NL] @ ''---'' @ [NL])"
    then have t: "take 5 (c # b @ [NL] @ ''---'' @ [NL]) = [NL] @ ''---'' @ [NL]"
      by (simp add: starts_with_def numeral_eq_Suc)
    show False
    proof (cases "length b < 4")
      case True
      then have "length b = 0 \<or> length b = 1 \<or> length b = 2 \<or> length b = 3" by linarith
      then show False using t Cons.prems by (auto simp: length_Suc_conv numeral_eq_Suc starts_with_def)
    next
      case False
      then obtain b1 b2 b3 b4 b' where "b = b1 # b2 # b3 # b4 # b'"
        by (auto simp: not_less numeral_eq_Suc Suc_le_length_iff)
      then have "take 5 (c # b @ [NL]) = [NL] @ ''---'' @ [NL]" using t by simp
      then have "starts_with ([NL] @ ''---'' @ [NL]) ((c # b) @ [NL])" by (simp add: starts_with_def numeral_eq_Suc)
      then show False using Cons.prems by simp
    qed
  qed
  moreover have "\<not> str_includes ([NL] @ ''---'' @ [NL]) (b @ [NL])" using Cons.prems by simp
  ultimately show ?case using Cons.IH by simp
qed

lemma decode_new:
  assumes "yaml_block (b @ [NL])" "parseYaml b = Some meta"
  shows "decode parseYaml (encodeNew (b @ [NL])) = Inr (meta, [])"
proof -
  have "frontmatter_match (encodeNew (b @ [NL])) = Some (b, [])"
    using find_close_block [of b] assms(1)
    by (simp add: frontmatter_match_def encodeNew_def yaml_block_def starts_with_def)
  then show ?thesis
    using assms(2)
    by (simp add: decode_def parse_turns.simps [of "[[]]"] parse_turns.simps [of "[]"] parse_header_def header_as_def starts_with_def Let_def)
qed

section \<open>Properties\<close>


definition tricky_turn :: session_turn where
  "tricky_turn =
     \<lparr>st_role = Assistant, st_timestamp = ''2026-05-11T08:00:00.000Z'',
      st_content = replicate 6 TICK @ [NL] @ ''### user '' @ EM_DASH @ '' 2026-05-11T08:00:00Z'' @ [NL] @ ''---'',
      st_source = Some FromApp\<rparr>"


text \<open>
  Session keys name one chat: \<open>buildSessionKey\<close> refuses exactly the chat ids that are blank or
  hold a colon, a slash, a backslash or two dots, and different scopes or chats never share a key.
\<close>

lemma session_keys_injective:
  "(is_ok (buildSessionKey scp chat) \<longleftrightarrow> \<not> forbidden_chat chat) \<and>
   (buildSessionKey scp chat = buildSessionKey scp' chat' \<and> is_ok (buildSessionKey scp chat) \<longleftrightarrow>
    scp = scp' \<and> chat = chat' \<and> \<not> forbidden_chat chat)"
  by (cases scp; cases scp') (auto simp: buildSessionKey_def)

end
