(* ===== verification/Sessions.thy ===== *)
theory Sessions
  imports Transcript Household
begin

text \<open>
  \<open>conversation-session/chat-session-store.ts\<close> and \<open>session-index.ts\<close>: the chat sessions of one user. A
  session is a transcript file; an index says which session is active for which session key.
  \<open>chat_files\<close> is the user's directory: the index as the map its YAML denotes (an unreadable index
  reads as the empty map), the transcript files by session id, and what the import of the old
  \<open>history.json\<close> sees. \<open>cf_writable\<close> says whether the disk takes a write. Every operation is composed of
  its critical sections, so that sections of different operations can interleave. The YAML library
  prints and parses the frontmatter of a transcript and is an argument (\<open>yaml_lib\<close>); the random
  part of ids is a function of the attempt. The full-text index is fed on the side and left out.
\<close>

section \<open>Data\<close>

datatype session_source = SrcTelegram | SrcLegacyImport

datatype snapshot_status = SnapOk | SnapEmpty | SnapDegraded

record memory_snapshot =
  ms_content :: string
  ms_status :: snapshot_status
  ms_builtAt :: string
  ms_entryCount :: nat

record session_meta =
  sm_id :: string
  sm_source :: session_source
  sm_userId :: string
  sm_householdId :: "string option"
  sm_model :: "string option"
  sm_title :: "string option"
  sm_parentId :: "string option"
  sm_startedAt :: string
  sm_lastActivityAt :: "string option"
  sm_endedAt :: "string option"
  sm_tokens :: "nat \<times> nat"
  sm_snapshot :: "memory_snapshot option"

record yaml_lib =
  y_print :: "session_meta \<Rightarrow> string"
  y_parse :: "string \<Rightarrow> session_meta option"

record active_entry =
  ae_id :: string
  ae_startedAt :: string
  ae_model :: "string option"

text \<open>One entry of \<open>history.json\<close>; the timestamp when \<open>Date.parse\<close> accepts it, with its instant.\<close>

record legacy_turn =
  lt_assistant :: bool
  lt_content :: string
  lt_stamp :: "(string \<times> time) option"

datatype legacy_history = HistoryMissing | HistoryUnusable | History "legacy_turn list"

record chat_files =
  cf_index :: "active_entry jsmap"
  cf_sessions :: "string jsmap"
  cf_legacyChecked :: bool
  cf_history :: legacy_history
  cf_writable :: bool

record session_ctx =
  cx_userId :: string
  cx_key :: string
  cx_model :: "string option"
  cx_householdId :: "string option"
  cx_expected :: "string option"
  cx_parentId :: "string option"

datatype chat_error =
    SessionNotFound string
  | MintFailed
  | BadRandom
  | NoActiveSession
  | CasMismatch
  | SessionFileMissing string
  | CorruptSession corrupt
  | DiskError

text \<open>A session id: eight digits, six digits, eight hex digits.\<close>

definition session_id_form :: "string \<Rightarrow> bool" where
  "session_id_form s \<longleftrightarrow>
     list_all is_digit (take 8 s) \<and> list_all is_digit (take 6 (drop 9 s)) \<and> is_hex8 (drop 16 s) \<and>
     length s = 24 \<and> s ! 8 = CHR ''_'' \<and> s ! 15 = CHR ''_''"

definition validateParentSessionId :: "string option \<Rightarrow> string option" where
  "validateParentSessionId p = (case p of None \<Rightarrow> None | Some s \<Rightarrow> if session_id_form s then Some s else None)"

definition MAX_MINT_ATTEMPTS :: nat where "MAX_MINT_ATTEMPTS = 3"
definition TITLE_MAX_LEN :: nat where "TITLE_MAX_LEN = 80"

definition is_break :: "char \<Rightarrow> bool" where
  "is_break c \<longleftrightarrow> c \<in> {CHR 0x0A, CHR 0x0D, CHR 0x09}"

definition is_control :: "char \<Rightarrow> bool" where
  "is_control c \<longleftrightarrow> code c < 32 \<or> code c = 127"

definition sanitizeTitle :: "string \<Rightarrow> string option" where
  "sanitizeTitle input =
     (let cleaned = trim (replace_runs is_ws '' '' (filter (\<lambda>c. \<not> is_control c) (replace_runs is_break '' '' input)))
      in if cleaned = [] then None else Some (take TITLE_MAX_LEN cleaned))"

section \<open>Files\<close>

text \<open>\<open>store.read\<close> answers the empty string for a missing file.\<close>

definition read_session :: "string \<Rightarrow> chat_files \<Rightarrow> string" where
  "read_session sid c = get_or [] (cf_sessions c) sid"

definition write_session :: "string \<Rightarrow> string \<Rightarrow> chat_files \<Rightarrow> chat_files" where
  "write_session sid raw c = c\<lparr>cf_sessions := set_key sid raw (cf_sessions c)\<rparr>"

definition getActive :: "string \<Rightarrow> chat_files \<Rightarrow> active_entry option" where
  "getActive key c = map_of (cf_index c) key"

definition setActiveUnlocked :: "string \<Rightarrow> active_entry \<Rightarrow> chat_files \<Rightarrow> chat_files" where
  "setActiveUnlocked key e c = c\<lparr>cf_index := set_key key e (cf_index c)\<rparr>"

definition clearActive :: "string \<Rightarrow> chat_files \<Rightarrow> chat_files" where
  "clearActive key c = c\<lparr>cf_index := del_key key (cf_index c)\<rparr>"

definition encode_session :: "yaml_lib \<Rightarrow> session_meta \<Rightarrow> session_turn list \<Rightarrow> string" where
  "encode_session Y meta turns = foldl encodeAppend (encodeNew (y_print Y meta)) turns"

definition buildFrontmatter :: "session_ctx \<Rightarrow> string \<Rightarrow> string \<Rightarrow> string option \<Rightarrow> session_meta" where
  "buildFrontmatter ctx sid started parent =
     \<lparr>sm_id = sid, sm_source = SrcTelegram, sm_userId = cx_userId ctx, sm_householdId = cx_householdId ctx,
      sm_model = cx_model ctx, sm_title = None, sm_parentId = parent, sm_startedAt = started,
      sm_lastActivityAt = Some started, sm_endedAt = None, sm_tokens = (0, 0), sm_snapshot = None\<rparr>"

section \<open>Minting\<close>

fun mint_id :: "nat \<Rightarrow> nat \<Rightarrow> time \<Rightarrow> (nat \<Rightarrow> string) \<Rightarrow> chat_files \<Rightarrow> chat_error + string" where
  "mint_id 0 attempt now rng c = Inl MintFailed"
| "mint_id (Suc n) attempt now rng c =
     (case mintSessionId now (rng attempt) of
        None \<Rightarrow> Inl BadRandom
      | Some sid \<Rightarrow> if read_session sid c = [] then Inr sid else mint_id n (Suc attempt) now rng c)"

definition mintAndRegister ::
    "yaml_lib \<Rightarrow> time \<Rightarrow> (nat \<Rightarrow> string) \<Rightarrow> session_ctx \<Rightarrow> memory_snapshot option \<Rightarrow> chat_files \<Rightarrow> (chat_error + string) \<times> chat_files" where
  "mintAndRegister Y now rng ctx snap c =
     (case mint_id MAX_MINT_ATTEMPTS 0 now rng c of
        Inl e \<Rightarrow> (Inl e, c)
      | Inr sid \<Rightarrow>
          if \<not> cf_writable c then (Inl DiskError, c)
          else (let started = iso_string now;
                    fm = (buildFrontmatter ctx sid started (validateParentSessionId (cx_parentId ctx)))\<lparr>sm_snapshot := snap\<rparr>
                in (Inr sid,
                    setActiveUnlocked (cx_key ctx) \<lparr>ae_id = sid, ae_startedAt = started, ae_model = cx_model ctx\<rparr>
                      (write_session sid (encodeNew (y_print Y fm)) c))))"

section \<open>The import of the old history\<close>

definition imported_turn :: "time \<Rightarrow> legacy_turn \<Rightarrow> session_turn" where
  "imported_turn now t =
     \<lparr>st_role = (if lt_assistant t then Assistant else User),
      st_timestamp = (case lt_stamp t of Some (s, _) \<Rightarrow> s | None \<Rightarrow> iso_string now),
      st_content = lt_content t, st_source = None\<rparr>"

definition has_import :: "yaml_lib \<Rightarrow> chat_files \<Rightarrow> bool" where
  "has_import Y c \<longleftrightarrow>
     list_ex (\<lambda>(sid, raw). case decode (y_parse Y) raw of Inr (meta, _) \<Rightarrow> sm_source meta = SrcLegacyImport | Inl _ \<Rightarrow> False)
       (cf_sessions c)"

definition legacy_meta :: "string \<Rightarrow> string option \<Rightarrow> string \<Rightarrow> string \<Rightarrow> string \<Rightarrow> session_meta" where
  "legacy_meta user hh sid first_ts last_ts =
     \<lparr>sm_id = sid, sm_source = SrcLegacyImport, sm_userId = user, sm_householdId = hh, sm_model = None, sm_title = None,
      sm_parentId = None, sm_startedAt = first_ts, sm_lastActivityAt = None, sm_endedAt = Some last_ts,
      sm_tokens = (0, 0), sm_snapshot = None\<rparr>"

definition saved :: "chat_files \<Rightarrow> chat_files \<Rightarrow> (chat_error + unit) \<times> chat_files" where
  "saved c c' = (if cf_writable c then (Inr (), c') else (Inl DiskError, c))"

definition maybeImportLegacy ::
    "yaml_lib \<Rightarrow> time \<Rightarrow> (nat \<Rightarrow> string) \<Rightarrow> string \<Rightarrow> string option \<Rightarrow> chat_files \<Rightarrow> (chat_error + unit) \<times> chat_files" where
  "maybeImportLegacy Y now rng user hh c =
     (let checked = c\<lparr>cf_legacyChecked := True\<rparr>
      in if cf_legacyChecked c then (Inr (), c)
         else if has_import Y c then saved c checked
         else (case cf_history c of
                 History (t # ts) \<Rightarrow>
                   (let stamp = (\<lambda>t. case lt_stamp t of Some (s, _) \<Rightarrow> s | None \<Rightarrow> iso_string now);
                        start = (case lt_stamp t of Some (_, i) \<Rightarrow> i | None \<Rightarrow> now)
                    in case mint_id MAX_MINT_ATTEMPTS 0 start rng c of
                         Inl BadRandom \<Rightarrow> (Inl BadRandom, c)
                       | Inl _ \<Rightarrow> saved c checked
                       | Inr sid \<Rightarrow>
                           saved c (write_session sid
                             (encode_session Y (legacy_meta user hh sid (stamp t) (stamp (last (t # ts))))
                                (map (imported_turn now) (t # ts))) checked))
               | _ \<Rightarrow> saved c checked))"

section \<open>Reading\<close>

definition peekActive :: "string \<Rightarrow> chat_files \<Rightarrow> string option" where
  "peekActive key c = map_option ae_id (getActive key c)"

definition session_snapshot :: "yaml_lib \<Rightarrow> string \<Rightarrow> chat_files \<Rightarrow> memory_snapshot option" where
  "session_snapshot Y sid c =
     (let raw = read_session sid c
      in if raw = [] then None
         else (case decode (y_parse Y) raw of Inl _ \<Rightarrow> None | Inr (meta, _) \<Rightarrow> sm_snapshot meta))"

definition peekSnapshot :: "yaml_lib \<Rightarrow> string \<Rightarrow> chat_files \<Rightarrow> memory_snapshot option" where
  "peekSnapshot Y key c =
     (case getActive key c of None \<Rightarrow> None | Some e \<Rightarrow> session_snapshot Y (ae_id e) c)"

text \<open>\<open>turns.slice(-n)\<close>\<close>

definition slice_last :: "nat \<Rightarrow> 'a list \<Rightarrow> 'a list" where
  "slice_last n xs = (if n = 0 then xs else drop (length xs - n) xs)"

definition loadRecentTurns ::
    "yaml_lib \<Rightarrow> time \<Rightarrow> (nat \<Rightarrow> string) \<Rightarrow> session_ctx \<Rightarrow> nat option \<Rightarrow> chat_files \<Rightarrow> (chat_error + session_turn list) \<times> chat_files" where
  "loadRecentTurns Y now rng ctx maxTurns c =
     (case maybeImportLegacy Y now rng (cx_userId ctx) (cx_householdId ctx) c of
        (Inl e, c) \<Rightarrow> (Inl e, c)
      | (Inr _, c) \<Rightarrow>
          (Inr (case getActive (cx_key ctx) c of
                  None \<Rightarrow> []
                | Some e \<Rightarrow>
                    (let raw = read_session (ae_id e) c
                     in if raw = [] then []
                        else (case decode (y_parse Y) raw of
                                Inl _ \<Rightarrow> []
                              | Inr (_, turns) \<Rightarrow> slice_last (case maxTurns of None \<Rightarrow> 20 | Some n \<Rightarrow> n) turns))), c))"

definition readSession :: "yaml_lib \<Rightarrow> string \<Rightarrow> chat_files \<Rightarrow> corrupt + (session_meta \<times> session_turn list) option" where
  "readSession Y sid c =
     (if \<not> session_id_form sid then Inr None
      else (let raw = read_session sid c
            in if raw = [] then Inr None
               else (case decode (y_parse Y) raw of Inl e \<Rightarrow> Inl e | Inr d \<Rightarrow> Inr (Some d))))"

section \<open>Starting and continuing a session\<close>

datatype snapshot_builder = NoBuilder | Builds memory_snapshot | BuildFails

text \<open>Under the index lock: the active session, or a new one.\<close>

definition ensure_section ::
    "yaml_lib \<Rightarrow> time \<Rightarrow> (nat \<Rightarrow> string) \<Rightarrow> session_ctx \<Rightarrow> snapshot_builder \<Rightarrow> chat_files \<Rightarrow>
     (chat_error + string \<times> bool \<times> memory_snapshot option) \<times> chat_files" where
  "ensure_section Y now rng ctx builder c =
     (case getActive (cx_key ctx) c of
        Some e \<Rightarrow> (Inr (ae_id e, False, session_snapshot Y (ae_id e) c), c)
      | None \<Rightarrow>
          (let snap = (case builder of
                         NoBuilder \<Rightarrow> None
                       | Builds s \<Rightarrow> Some s
                       | BuildFails \<Rightarrow> Some \<lparr>ms_content = [], ms_status = SnapDegraded, ms_builtAt = iso_string now, ms_entryCount = 0\<rparr>)
           in case mintAndRegister Y now rng ctx snap c of
                (Inl e, c) \<Rightarrow> (Inl e, c)
              | (Inr sid, c) \<Rightarrow> (Inr (sid, True, snap), c)))"

definition ensureActiveSession ::
    "yaml_lib \<Rightarrow> time \<Rightarrow> (nat \<Rightarrow> string) \<Rightarrow> session_ctx \<Rightarrow> snapshot_builder \<Rightarrow> chat_files \<Rightarrow>
     (chat_error + string \<times> bool \<times> memory_snapshot option) \<times> chat_files" where
  "ensureActiveSession Y now rng ctx builder c =
     (case maybeImportLegacy Y now rng (cx_userId ctx) (cx_householdId ctx) c of
        (Inl e, c) \<Rightarrow> (Inl e, c)
      | (Inr _, c) \<Rightarrow> ensure_section Y now rng ctx builder c)"

definition bind_section ::
    "yaml_lib \<Rightarrow> time \<Rightarrow> (nat \<Rightarrow> string) \<Rightarrow> session_ctx \<Rightarrow> chat_files \<Rightarrow> (chat_error + string) \<times> chat_files" where
  "bind_section Y now rng ctx c =
     (case truthy (cx_expected ctx) of
        Some sid \<Rightarrow> if read_session sid c = [] then (Inl (SessionNotFound sid), c) else (Inr sid, c)
      | None \<Rightarrow>
          (case getActive (cx_key ctx) c of
             Some e \<Rightarrow> (Inr (ae_id e), c)
           | None \<Rightarrow> mintAndRegister Y now rng ctx None c))"

text \<open>Under the transcript lock: the exchange is added.\<close>

definition exchange_text :: "yaml_lib \<Rightarrow> time \<Rightarrow> session_ctx \<Rightarrow> string \<Rightarrow> session_turn \<Rightarrow> session_turn \<Rightarrow> string \<Rightarrow> string" where
  "exchange_text Y now ctx sid ut bt raw =
     (if raw = [] then encodeAppend (encodeAppend (encodeNew (y_print Y (buildFrontmatter ctx sid (iso_string now) None))) ut) bt
      else (case decode (y_parse Y) raw of
              Inr (meta, turns) \<Rightarrow>
                (let meta = (if truthy (sm_endedAt meta) = None then meta\<lparr>sm_lastActivityAt := Some (iso_string now)\<rparr> else meta)
                 in encodeAppend (encodeAppend (encode_session Y meta turns) ut) bt)
            | Inl _ \<Rightarrow> encodeAppend (encodeAppend raw ut) bt))"

definition append_section ::
    "yaml_lib \<Rightarrow> time \<Rightarrow> session_ctx \<Rightarrow> string \<Rightarrow> session_turn \<Rightarrow> session_turn \<Rightarrow> chat_files \<Rightarrow> (chat_error + unit) \<times> chat_files" where
  "append_section Y now ctx sid ut bt c =
     saved c (write_session sid (exchange_text Y now ctx sid ut bt (read_session sid c)) c)"

definition appendExchange ::
    "yaml_lib \<Rightarrow> time \<Rightarrow> (nat \<Rightarrow> string) \<Rightarrow> session_ctx \<Rightarrow> session_turn \<Rightarrow> session_turn \<Rightarrow> chat_files \<Rightarrow>
     (chat_error + string) \<times> chat_files" where
  "appendExchange Y now rng ctx ut bt c =
     (case maybeImportLegacy Y now rng (cx_userId ctx) (cx_householdId ctx) c of
        (Inl e, c) \<Rightarrow> (Inl e, c)
      | (Inr _, c) \<Rightarrow>
          (case bind_section Y now rng ctx c of
             (Inl e, c) \<Rightarrow> (Inl e, c)
           | (Inr sid, c) \<Rightarrow>
               (case append_section Y now ctx sid ut bt c of
                  (Inl e, c) \<Rightarrow> (Inl e, c)
                | (Inr _, c) \<Rightarrow> (Inr sid, c))))"

section \<open>Ending, titling, rebuilding\<close>

definition end_check :: "session_ctx \<Rightarrow> chat_files \<Rightarrow> string option" where
  "end_check ctx c =
     (case getActive (cx_key ctx) c of
        None \<Rightarrow> None
      | Some e \<Rightarrow> (case cx_expected ctx of
                     None \<Rightarrow> Some (ae_id e)
                   | Some x \<Rightarrow> if ae_id e = x then Some (ae_id e) else None))"

text \<open>The transcript gets its end; answers whether it did, and fails when the disk does.\<close>

definition end_write :: "yaml_lib \<Rightarrow> time \<Rightarrow> string \<Rightarrow> chat_files \<Rightarrow> (chat_error + bool) \<times> chat_files" where
  "end_write Y now sid c =
     (let raw = read_session sid c
      in if raw = [] then (Inr False, c)
         else (case decode (y_parse Y) raw of
                 Inl _ \<Rightarrow> (Inr False, c)
               | Inr (meta, turns) \<Rightarrow>
                   if cf_writable c
                   then (Inr True, write_session sid (encode_session Y (meta\<lparr>sm_endedAt := Some (iso_string now)\<rparr>) turns) c)
                   else (Inl DiskError, c)))"

definition end_clear :: "string \<Rightarrow> chat_files \<Rightarrow> (chat_error + unit) \<times> chat_files" where
  "end_clear key c = saved c (clearActive key c)"

definition endActive :: "yaml_lib \<Rightarrow> time \<Rightarrow> session_ctx \<Rightarrow> chat_files \<Rightarrow> (chat_error + string option) \<times> chat_files" where
  "endActive Y now ctx c =
     (case end_check ctx c of
        None \<Rightarrow> (Inr None, c)
      | Some sid \<Rightarrow>
          (case end_write Y now sid c of
             (Inl e, c) \<Rightarrow> (Inl e, c)
           | (Inr ended, c) \<Rightarrow>
               (case end_clear (cx_key ctx) c of
                  (Inl e, c) \<Rightarrow> (Inl e, c)
                | (Inr _, c) \<Rightarrow> (Inr (if ended then Some sid else None), c))))"

definition setTitle ::
    "yaml_lib \<Rightarrow> string \<Rightarrow> string \<Rightarrow> bool \<Rightarrow> chat_files \<Rightarrow> (chat_error + string option) \<times> chat_files" where
  "setTitle Y sid title skipIfTitled c =
     (if \<not> session_id_form sid then (Inr None, c)
      else (case sanitizeTitle title of
              None \<Rightarrow> (Inr None, c)
            | Some t \<Rightarrow>
                (let raw = read_session sid c
                 in if raw = [] then (Inr None, c)
                    else (case decode (y_parse Y) raw of
                            Inl _ \<Rightarrow> (Inr None, c)
                          | Inr (meta, turns) \<Rightarrow>
                              if skipIfTitled \<and> (case sm_title meta of None \<Rightarrow> False | Some old \<Rightarrow> trim old \<noteq> []) then (Inr None, c)
                              else if cf_writable c
                              then (Inr (Some t), write_session sid (encode_session Y (meta\<lparr>sm_title := Some t\<rparr>) turns) c)
                              else (Inl DiskError, c)))))"

definition rebuild_check :: "session_ctx \<Rightarrow> chat_files \<Rightarrow> chat_error + string" where
  "rebuild_check ctx c =
     (case truthy (peekActive (cx_key ctx) c) of
        None \<Rightarrow> Inl NoActiveSession
      | Some active \<Rightarrow>
          (case cx_expected ctx of
             None \<Rightarrow> Inr active
           | Some x \<Rightarrow> if x = active then Inr x else Inl CasMismatch))"

definition rebuild_write ::
    "yaml_lib \<Rightarrow> time \<Rightarrow> session_ctx \<Rightarrow> string \<Rightarrow> memory_snapshot \<Rightarrow> chat_files \<Rightarrow> (chat_error + memory_snapshot) \<times> chat_files" where
  "rebuild_write Y now ctx sid snap c =
     (if peekActive (cx_key ctx) c \<noteq> Some sid then (Inl CasMismatch, c)
      else (let raw = read_session sid c
            in if raw = [] then (Inl (SessionFileMissing sid), c)
               else (case decode (y_parse Y) raw of
                       Inl e \<Rightarrow> (Inl (CorruptSession e), c)
                     | Inr (meta, turns) \<Rightarrow>
                         if truthy (sm_endedAt meta) \<noteq> None then (Inl CasMismatch, c)
                         else if cf_writable c
                         then (Inr snap, write_session sid
                                (encode_session Y (meta\<lparr>sm_snapshot := Some snap, sm_lastActivityAt := Some (iso_string now)\<rparr>) turns) c)
                         else (Inl DiskError, c))))"

definition rebuildMemorySnapshot ::
    "yaml_lib \<Rightarrow> time \<Rightarrow> session_ctx \<Rightarrow> memory_snapshot \<Rightarrow> chat_files \<Rightarrow> (chat_error + memory_snapshot) \<times> chat_files" where
  "rebuildMemorySnapshot Y now ctx snap c =
     (case rebuild_check ctx c of
        Inl e \<Rightarrow> (Inl e, c)
      | Inr sid \<Rightarrow> rebuild_write Y now ctx sid snap c)"

section \<open>What the files hold\<close>

text \<open>What the YAML library has to do: print whole lines without a delimiter line, and read them back.\<close>

definition yaml_ok :: "yaml_lib \<Rightarrow> bool" where
  "yaml_ok Y \<longleftrightarrow> (\<forall>m. \<exists>b. y_print Y m = b @ [NL] \<and> yaml_block (b @ [NL]) \<and> y_parse Y b = Some m)"

definition content :: "yaml_lib \<Rightarrow> chat_files \<Rightarrow> string \<Rightarrow> (session_meta \<times> session_turn list) option" where
  "content Y c sid =
     (if read_session sid c = [] then None
      else (case decode (y_parse Y) (read_session sid c) of Inl _ \<Rightarrow> None | Inr d \<Rightarrow> Some d))"

lemma read_write [simp]: "read_session sid (write_session s raw c) = (if sid = s then raw else read_session sid c)"
  by (simp add: read_session_def write_session_def)

lemma read_other [simp]:
  "read_session sid (c\<lparr>cf_index := i\<rparr>) = read_session sid c"
  "read_session sid (c\<lparr>cf_legacyChecked := b\<rparr>) = read_session sid c"
  by (simp_all add: read_session_def)

lemma write_fields [simp]:
  "cf_index (write_session s raw c) = cf_index c"
  "cf_writable (write_session s raw c) = cf_writable c"
  "cf_legacyChecked (write_session s raw c) = cf_legacyChecked c"
  by (simp_all add: write_session_def)

lemma content_cong: "read_session sid c = read_session sid c' \<Longrightarrow> content Y c sid = content Y c' sid"
  by (simp add: content_def)

lemma encodeNew_nonempty [simp]: "encodeNew y \<noteq> []"
  by (simp add: encodeNew_def)

lemma encodeAppend_nonempty [simp]: "encodeAppend raw t \<noteq> []"
  by (simp add: encodeAppend_def Let_def)

lemma encode_session_nonempty [simp]: "encode_session Y m ts \<noteq> []"
  unfolding encode_session_def by (cases ts rule: rev_cases) simp_all

lemma encode_session_snoc: "encodeAppend (encode_session Y m ts) t = encode_session Y m (ts @ [t])"
  by (simp add: encode_session_def)

lemma encode_session_new: "encodeNew (y_print Y m) = encode_session Y m []"
  by (simp add: encode_session_def)

lemma decode_session:
  assumes "yaml_ok Y" "list_all good_turn ts"
  shows "decode (y_parse Y) (encode_session Y m ts) = Inr (m, ts)"
proof -
  obtain b where b: "y_print Y m = b @ [NL]" "yaml_block (b @ [NL])" "y_parse Y b = Some m"
    using assms(1) unfolding yaml_ok_def by blast
  show ?thesis
    using decode_appends [OF decode_new [where parseYaml = "y_parse Y" and b = b and meta = m, OF b(2,3)] assms(2)]
    by (simp add: encode_session_def b(1))
qed

lemma parse_header_good: "parse_header l = Some (r, ts) \<Longrightarrow> is_iso_utc ts"
  by (auto simp: parse_header_def header_as_def Let_def split: if_splits option.splits)

lemma parse_turns_good: "parse_turns ls = Inr ts \<Longrightarrow> list_all good_turn ts"
proof (induction ls arbitrary: ts rule: parse_turns.induct)
  case (1 ls)
  show ?case
  proof (cases ls)
    case Nil
    then show ?thesis using "1.prems" by (simp add: parse_turns.simps [of "[]"])
  next
    case (Cons l rest)
    note unfold = parse_turns.simps [of "l # rest", simplified]
    show ?thesis
    proof (cases "parse_header l")
      case None
      then show ?thesis using 1 Cons unfold by simp
    next
      case (Some h)
      obtain r ts0 where h: "h = (r, ts0)" by (cases h)
      obtain fence src ls2 where f: "find_fence rest None = Some (fence, src, ls2)"
        using "1.prems" Cons Some h unfold by (cases "find_fence rest None") auto
      obtain body ls3 where t: "take_content fence ls2 = Some (body, ls3)"
        using "1.prems" Cons Some h f unfold by (cases "take_content fence ls2") auto
      obtain more where m: "parse_turns ls3 = Inr more"
        using "1.prems" Cons Some h f t unfold by (cases "parse_turns ls3") auto
      have "list_all good_turn more"
        using "1.IH"(2) [OF Cons Some h [symmetric] f refl refl t refl m] .
      moreover have "ts = \<lparr>st_role = r, st_timestamp = ts0, st_content = join [NL] body, st_source = src\<rparr> # more"
        using "1.prems" Cons Some h f t m unfold by simp
      ultimately show ?thesis using parse_header_good [of l r ts0] Some h by (simp add: good_turn_def list_all_iff)
    qed
  qed
qed

lemma decode_good: "decode P raw = Inr (m, ts) \<Longrightarrow> list_all good_turn ts"
  by (auto simp: decode_def parse_turns_good split: option.splits sum.splits)

lemma content_good: "content Y c sid = Some (m, ts) \<Longrightarrow> list_all good_turn ts"
  by (auto simp: content_def decode_good split: if_splits sum.splits)

lemma content_Some:
  "content Y c sid = Some d \<longleftrightarrow> read_session sid c \<noteq> [] \<and> decode (y_parse Y) (read_session sid c) = Inr d"
  by (auto simp: content_def split: sum.splits)

lemma content_write:
  assumes "yaml_ok Y" "list_all good_turn ts"
  shows "content Y (write_session s (encode_session Y m ts) c) sid = (if sid = s then Some (m, ts) else content Y c sid)"
  using decode_session [OF assms, of m] by (simp add: content_def)

section \<open>Transcripts only grow\<close>

text \<open>Any critical section of any operation, with any arguments.\<close>

datatype chat_section =
    SImport time "nat \<Rightarrow> string" string "string option"
  | SEnsure time "nat \<Rightarrow> string" session_ctx snapshot_builder
  | SBind time "nat \<Rightarrow> string" session_ctx
  | SAppend time session_ctx string session_turn session_turn
  | SEndWrite time string
  | SEndClear string
  | STitle string string bool
  | SRebuild time session_ctx string memory_snapshot

fun run_section :: "yaml_lib \<Rightarrow> chat_section \<Rightarrow> chat_files \<Rightarrow> chat_files" where
  "run_section Y (SImport now rng user hh) c = snd (maybeImportLegacy Y now rng user hh c)"
| "run_section Y (SEnsure now rng ctx builder) c = snd (ensure_section Y now rng ctx builder c)"
| "run_section Y (SBind now rng ctx) c = snd (bind_section Y now rng ctx c)"
| "run_section Y (SAppend now ctx sid ut bt) c = snd (append_section Y now ctx sid ut bt c)"
| "run_section Y (SEndWrite now sid) c = snd (end_write Y now sid c)"
| "run_section Y (SEndClear key) c = snd (end_clear key c)"
| "run_section Y (STitle sid title skip) c = snd (setTitle Y sid title skip c)"
| "run_section Y (SRebuild now ctx sid snap) c = snd (rebuild_write Y now ctx sid snap c)"

text \<open>The turns a section adds to a session, and whether they can be written.\<close>

fun said_in :: "string \<Rightarrow> chat_section \<Rightarrow> session_turn list" where
  "said_in sid (SAppend now ctx s ut bt) = (if s = sid then [ut, bt] else [])"
| "said_in sid _ = []"

fun sound_section :: "chat_section \<Rightarrow> bool" where
  "sound_section (SAppend now ctx s ut bt) = (good_turn ut \<and> good_turn bt)"
| "sound_section _ = True"

text \<open>What never changes about a session, and its end, which is for good.\<close>

definition same_session :: "session_meta \<Rightarrow> session_meta \<Rightarrow> bool" where
  "same_session m m' \<longleftrightarrow>
     sm_id m' = sm_id m \<and> sm_source m' = sm_source m \<and> sm_userId m' = sm_userId m \<and> sm_householdId m' = sm_householdId m \<and>
     sm_model m' = sm_model m \<and> sm_parentId m' = sm_parentId m \<and> sm_startedAt m' = sm_startedAt m \<and> sm_tokens m' = sm_tokens m \<and>
     (truthy (sm_endedAt m) \<noteq> None \<longrightarrow> truthy (sm_endedAt m') \<noteq> None)"

lemma same_session_refl [simp]: "same_session m m"
  by (simp add: same_session_def)

lemma same_session_trans: "same_session m m' \<Longrightarrow> same_session m' m'' \<Longrightarrow> same_session m m''"
  by (auto simp: same_session_def)

lemma iso_string_truthy [simp]: "truthy (Some (iso_string now)) = Some (iso_string now)"
  by (simp add: iso_string_def iso_month_def pad2_def Let_def split_def)

lemma mint_id_fresh: "mint_id n k now rng c = Inr sid \<Longrightarrow> read_session sid c = []"
  by (induction n k now rng c rule: mint_id.induct) (auto split: option.splits if_splits)

lemma saved_cases:
  obtains "cf_writable c" "saved c c' = (Inr (), c')" | "\<not> cf_writable c" "saved c c' = (Inl DiskError, c)"
  by (cases "cf_writable c") (auto simp: saved_def)

text \<open>A new session gets a file of its own; every other file stays as it is.\<close>

lemma mint_frame:
  assumes "mintAndRegister Y now rng ctx snap c = (r, c')"
  shows "cf_writable c' = cf_writable c \<and> cf_legacyChecked c' = cf_legacyChecked c \<and>
    (case r of
       Inl _ \<Rightarrow> c' = c
     | Inr sid \<Rightarrow> cf_writable c \<and> read_session sid c = [] \<and>
         cf_index c' = set_key (cx_key ctx) \<lparr>ae_id = sid, ae_startedAt = iso_string now, ae_model = cx_model ctx\<rparr> (cf_index c) \<and>
         (\<exists>m. sm_endedAt m = None \<and> (\<forall>s. read_session s c' = (if s = sid then encode_session Y m [] else read_session s c))))"
  using assms mint_id_fresh [of MAX_MINT_ATTEMPTS 0 now rng c]
  by (auto simp: mintAndRegister_def setActiveUnlocked_def Let_def buildFrontmatter_def encode_session_new
      split: sum.splits if_splits intro!: exI [of _ "(buildFrontmatter ctx _ (iso_string now) _)\<lparr>sm_snapshot := snap\<rparr>"])

lemma import_frame:
  assumes "maybeImportLegacy Y now rng user hh c = (r, c')"
  shows "cf_writable c' = cf_writable c \<and> cf_index c' = cf_index c \<and>
    (read_session sid c \<noteq> [] \<longrightarrow> read_session sid c' = read_session sid c)"
  using assms mint_id_fresh
  by (auto simp: maybeImportLegacy_def saved_def Let_def
      split: legacy_history.splits list.splits sum.splits chat_error.splits if_splits option.splits prod.splits)

lemma import_done: "cf_legacyChecked c \<Longrightarrow> maybeImportLegacy Y now rng user hh c = (Inr (), c)"
  by (simp add: maybeImportLegacy_def Let_def)

lemma content_stays:
  "content Y c sid = Some (m, ts) \<Longrightarrow> read_session sid c' = read_session sid c \<Longrightarrow>
   \<exists>m'. content Y c' sid = Some (m', ts @ []) \<and> same_session m m'"
  by (auto simp: content_def)

lemma mint_keeps:
  assumes "mintAndRegister Y now rng ctx snap c = (r, c')" "read_session sid c \<noteq> []"
  shows "read_session sid c' = read_session sid c"
  using mint_frame [OF assms(1)] assms(2) by (auto split: sum.splits)

lemma mint_snd:
  "read_session sid c \<noteq> [] \<Longrightarrow> read_session sid (snd (mintAndRegister Y now rng ctx snap c)) = read_session sid c"
  "cf_writable (snd (mintAndRegister Y now rng ctx snap c)) = cf_writable c"
  using mint_keeps [of Y now rng ctx snap c _ _ sid] mint_frame [of Y now rng ctx snap c]
  by (cases "mintAndRegister Y now rng ctx snap c"; simp)+

lemma append_content:
  assumes "yaml_ok Y" "good_turn ut" "good_turn bt" "content Y c sid = Some (m, ts)"
  shows "\<exists>m'. content Y (snd (append_section Y now ctx sid ut bt c)) sid = Some (m', ts @ (if cf_writable c then [ut, bt] else [])) \<and>
    same_session m m'"
proof (cases "cf_writable c")
  case True
  let ?m = "if truthy (sm_endedAt m) = None then m\<lparr>sm_lastActivityAt := Some (iso_string now)\<rparr> else m"
  have "exchange_text Y now ctx sid ut bt (read_session sid c) = encode_session Y ?m (ts @ [ut, bt])"
    using assms(4) by (simp add: content_Some exchange_text_def Let_def encode_session_snoc)
  moreover have "same_session m ?m" by (simp add: same_session_def)
  ultimately show ?thesis
    using content_write [OF assms(1), of "ts @ [ut, bt]" sid ?m c sid] assms(2,3) content_good [OF assms(4)] True
    by (simp add: append_section_def saved_def)
next
  case False
  then show ?thesis using assms(4) by (simp add: append_section_def saved_def)
qed

lemma rewrite_content:
  assumes "yaml_ok Y" "content Y c s = Some (m0, ts0)" "same_session m0 m1" "content Y c sid = Some (m, ts)"
  shows "\<exists>m'. content Y (write_session s (encode_session Y m1 ts0) c) sid = Some (m', ts @ []) \<and> same_session m m'"
  using content_write [OF assms(1) content_good [OF assms(2)], of s m1 c sid] assms(2-4) by auto

lemma end_write_keeps:
  assumes "yaml_ok Y" "content Y c sid = Some (m, ts)"
  shows "\<exists>m'. content Y (snd (end_write Y now s c)) sid = Some (m', ts @ []) \<and> same_session m m'"
proof (cases "content Y c s")
  case None
  then have "snd (end_write Y now s c) = c" by (auto simp: end_write_def content_def Let_def split: if_splits sum.splits)
  then show ?thesis using assms by simp
next
  case (Some d)
  obtain m0 ts0 where d: "d = (m0, ts0)" by (cases d)
  have "same_session m0 (m0\<lparr>sm_endedAt := Some (iso_string now)\<rparr>)" by (simp add: same_session_def)
  from rewrite_content [OF assms(1) Some [unfolded d] this assms(2)] show ?thesis
    using Some d assms(2) by (auto simp: end_write_def content_Some Let_def)
qed

lemma setTitle_keeps:
  assumes "yaml_ok Y" "content Y c sid = Some (m, ts)"
  shows "\<exists>m'. content Y (snd (setTitle Y s title skip c)) sid = Some (m', ts @ []) \<and> same_session m m'"
proof (cases "content Y c s")
  case None
  then have "snd (setTitle Y s title skip c) = c"
    by (auto simp: setTitle_def content_def Let_def split: if_splits sum.splits option.splits)
  then show ?thesis using assms by simp
next
  case (Some d)
  obtain m0 ts0 where d: "d = (m0, ts0)" by (cases d)
  have "same_session m0 (m0\<lparr>sm_title := Some t\<rparr>)" for t by (simp add: same_session_def)
  from rewrite_content [OF assms(1) Some [unfolded d] this assms(2)] show ?thesis
    using Some d assms(2) by (auto simp: setTitle_def content_Some Let_def split: option.splits)
qed

lemma rebuild_keeps:
  assumes "yaml_ok Y" "content Y c sid = Some (m, ts)"
  shows "\<exists>m'. content Y (snd (rebuild_write Y now ctx s snap c)) sid = Some (m', ts @ []) \<and> same_session m m'"
proof (cases "content Y c s")
  case None
  then have "snd (rebuild_write Y now ctx s snap c) = c"
    by (auto simp: rebuild_write_def content_def Let_def split: if_splits sum.splits)
  then show ?thesis using assms by simp
next
  case (Some d)
  obtain m0 ts0 where d: "d = (m0, ts0)" by (cases d)
  have "same_session m0 (m0\<lparr>sm_snapshot := Some snap, sm_lastActivityAt := Some (iso_string now)\<rparr>)" by (simp add: same_session_def)
  from rewrite_content [OF assms(1) Some [unfolded d] this assms(2)] show ?thesis
    using Some d assms(2) by (auto simp: rebuild_write_def content_Some Let_def)
qed

lemma section_grows:
  assumes "yaml_ok Y" "sound_section st" "content Y c sid = Some (m, ts)"
  shows "\<exists>m'. content Y (run_section Y st c) sid = Some (m', ts @ (if cf_writable c then said_in sid st else [])) \<and> same_session m m'"
proof (cases st)
  case (SImport now rng user hh)
  then show ?thesis
    using import_frame [of Y now rng user hh c _ _ sid] content_stays [OF assms(3)] assms(3)
    by (cases "maybeImportLegacy Y now rng user hh c") (simp add: content_Some)
next
  case (SEnsure now rng ctx builder)
  have "read_session sid (snd (ensure_section Y now rng ctx builder c)) = read_session sid c"
    using mint_keeps assms(3) by (auto simp: ensure_section_def content_Some Let_def split: option.splits prod.splits sum.splits)
  then show ?thesis using SEnsure content_stays [OF assms(3)] by simp
next
  case (SBind now rng ctx)
  have "read_session sid (snd (bind_section Y now rng ctx c)) = read_session sid c"
    using mint_snd(1) assms(3) by (auto simp: bind_section_def content_Some split: option.splits)
  then show ?thesis using SBind content_stays [OF assms(3)] by simp
next
  case (SAppend now ctx s ut bt)
  show ?thesis
  proof (cases "s = sid")
    case True
    then show ?thesis using append_content [OF assms(1) _ _ assms(3), of ut bt now ctx] assms(2) SAppend
      by (cases "cf_writable c") simp_all
  next
    case False
    then have "read_session sid (snd (append_section Y now ctx s ut bt c)) = read_session sid c"
      by (simp add: append_section_def saved_def)
    then show ?thesis using SAppend False content_stays [OF assms(3)] by simp
  qed
next
  case (SEndClear key)
  then show ?thesis using content_stays [OF assms(3)] by (simp add: end_clear_def saved_def clearActive_def)
qed (use end_write_keeps setTitle_keeps rebuild_keeps assms in auto)

lemma section_writable: "cf_writable (run_section Y st c) = cf_writable c"
proof (cases st)
  case (SImport now rng user hh)
  then show ?thesis
    using import_frame [of Y now rng user hh c] by (cases "maybeImportLegacy Y now rng user hh c") simp
next
  case (SEnsure now rng ctx builder)
  then show ?thesis
    using mint_frame by (fastforce simp: ensure_section_def Let_def split: option.splits prod.splits sum.splits)
next
  case (SBind now rng ctx)
  then show ?thesis using mint_snd(2) by (auto simp: bind_section_def split: option.splits)
next
  case (SAppend now ctx s ut bt)
  then show ?thesis by (simp add: append_section_def saved_def)
next
  case (SEndWrite now s)
  then show ?thesis by (simp add: end_write_def Let_def split: sum.splits)
next
  case (SEndClear key)
  then show ?thesis by (simp add: end_clear_def saved_def clearActive_def)
next
  case (STitle s title skip)
  then show ?thesis by (simp add: setTitle_def Let_def split: sum.splits option.splits)
next
  case (SRebuild now ctx s snap)
  then show ?thesis by (simp add: rebuild_write_def Let_def split: sum.splits)
qed

lemma sections_grow:
  assumes "yaml_ok Y" "list_all sound_section sts" "content Y c sid = Some (m, ts)"
  shows "\<exists>m'. content Y (foldl (\<lambda>c st. run_section Y st c) c sts) sid =
      Some (m', ts @ (if cf_writable c then concat (map (said_in sid) sts) else [])) \<and> same_session m m'"
  using assms(2,3)
proof (induction sts arbitrary: c m ts)
  case Nil
  then show ?case by auto
next
  case (Cons st sts)
  obtain m1 where m1: "content Y (run_section Y st c) sid = Some (m1, ts @ (if cf_writable c then said_in sid st else []))"
      "same_session m m1"
    using section_grows [OF assms(1) _ Cons.prems(2), of st] Cons.prems(1) by auto
  show ?case
    using Cons.IH [OF _ m1(1)] Cons.prems(1) m1(2) same_session_trans
    by (fastforce simp: section_writable)
qed

section \<open>Awaited calls on a log of sessions\<close>

datatype chat_call =
    Append time "nat \<Rightarrow> string" session_ctx session_turn session_turn
  | Ensure time "nat \<Rightarrow> string" session_ctx snapshot_builder
  | End time session_ctx
  | Title string string bool
  | Rebuild time session_ctx memory_snapshot

text \<open>The session a call answers.\<close>

fun chat_exec :: "yaml_lib \<Rightarrow> chat_call \<Rightarrow> chat_files \<Rightarrow> (chat_error + string option) \<times> chat_files" where
  "chat_exec Y (Append now rng ctx ut bt) c = map_prod (map_sum id Some) id (appendExchange Y now rng ctx ut bt c)"
| "chat_exec Y (Ensure now rng ctx builder) c = map_prod (map_sum id (\<lambda>(sid, _). Some sid)) id (ensureActiveSession Y now rng ctx builder c)"
| "chat_exec Y (End now ctx) c = endActive Y now ctx c"
| "chat_exec Y (Title sid title skip) c = map_prod (map_sum id (map_option (\<lambda>_. sid))) id (setTitle Y sid title skip c)"
| "chat_exec Y (Rebuild now ctx snap) c =
     map_prod (map_sum id (\<lambda>_. peekActive (cx_key ctx) c)) id (rebuildMemorySnapshot Y now ctx snap c)"

fun sound_call :: "chat_call \<Rightarrow> bool" where
  "sound_call (Append now rng ctx ut bt) = (good_turn ut \<and> good_turn bt)"
| "sound_call _ = True"

type_synonym chat_log = "string \<Rightarrow> (session_turn list \<times> bool) option"

abbreviation is_ended :: "session_meta \<Rightarrow> bool" where
  "is_ended m \<equiv> truthy (sm_endedAt m) \<noteq> None"

definition log_of :: "yaml_lib \<Rightarrow> chat_files \<Rightarrow> chat_log" where
  "log_of Y c = (\<lambda>sid. map_option (\<lambda>(m, ts). (ts, is_ended m)) (content Y c sid))"

abbreviation active_of :: "chat_files \<Rightarrow> string \<Rightarrow> string option" where
  "active_of c \<equiv> \<lambda>key. peekActive key c"

definition more_turns :: "session_turn list \<Rightarrow> (session_turn list \<times> bool) option \<Rightarrow> session_turn list \<times> bool" where
  "more_turns new old = (case old of None \<Rightarrow> (new, False) | Some (ts, e) \<Rightarrow> (ts @ new, e))"

fun chat_spec :: "chat_call \<Rightarrow> chat_error + string option \<Rightarrow> (string \<Rightarrow> string option) \<Rightarrow> chat_log \<Rightarrow>
    (string \<Rightarrow> string option) \<Rightarrow> chat_log \<Rightarrow> bool" where
  "chat_spec call (Inl e) A S A' S' = (A' = A \<and> S' = S)"
| "chat_spec (Append now rng ctx ut bt) (Inr r) A S A' S' =
     (\<exists>sid. r = Some sid \<and> S' = S(sid \<mapsto> more_turns [ut, bt] (S sid)) \<and>
       (case truthy (cx_expected ctx) of
          Some x \<Rightarrow> x = sid \<and> S sid \<noteq> None \<and> A' = A
        | None \<Rightarrow> A' = A(cx_key ctx \<mapsto> sid) \<and> (A (cx_key ctx) = Some sid \<or> A (cx_key ctx) = None \<and> S sid = None)))"
| "chat_spec (Ensure now rng ctx builder) (Inr r) A S A' S' =
     (\<exists>sid. r = Some sid \<and> A' = A(cx_key ctx \<mapsto> sid) \<and>
       (A (cx_key ctx) = Some sid \<and> S' = S \<or> A (cx_key ctx) = None \<and> S sid = None \<and> S' = S(sid \<mapsto> ([], False))))"
| "chat_spec (End now ctx) (Inr r) A S A' S' =
     (case r of
        None \<Rightarrow> A' = A \<and> S' = S \<and> (A (cx_key ctx) = None \<or> cx_expected ctx \<notin> {None, A (cx_key ctx)})
      | Some sid \<Rightarrow> A (cx_key ctx) = Some sid \<and> cx_expected ctx \<in> {None, Some sid} \<and> A' = A(cx_key ctx := None) \<and>
          (\<exists>ts. S sid = Some (ts, False) \<and> S' = S(sid \<mapsto> (ts, True))))"
| "chat_spec (Title sid title skip) (Inr r) A S A' S' = (A' = A \<and> S' = S)"
| "chat_spec (Rebuild now ctx snap) (Inr r) A S A' S' = (A' = A \<and> S' = S \<and> A (cx_key ctx) \<noteq> None)"

text \<open>
  After the import: every file is a transcript, and an active session is an existing one that has
  not ended and is active for one key only.
\<close>

definition chat_wf :: "yaml_lib \<Rightarrow> chat_files \<Rightarrow> bool" where
  "chat_wf Y c \<longleftrightarrow> cf_legacyChecked c \<and>
     (\<forall>sid. read_session sid c \<noteq> [] \<longrightarrow> content Y c sid \<noteq> None) \<and>
     (\<forall>key sid. peekActive key c = Some sid \<longrightarrow> sid \<noteq> [] \<and> (\<exists>m ts. content Y c sid = Some (m, ts) \<and> \<not> is_ended m)) \<and>
     (\<forall>key key' sid. peekActive key c = Some sid \<and> peekActive key' c = Some sid \<longrightarrow> key = key')"

lemma chat_wfD:
  assumes "chat_wf Y c"
  shows "cf_legacyChecked c"
    and "read_session sid c \<noteq> [] \<Longrightarrow> \<exists>m ts. content Y c sid = Some (m, ts)"
    and "peekActive key c = Some sid \<Longrightarrow> sid \<noteq> [] \<and> (\<exists>m ts. content Y c sid = Some (m, ts) \<and> \<not> is_ended m)"
    and "peekActive key c = Some sid \<Longrightarrow> peekActive key' c = Some sid \<Longrightarrow> key = key'"
  using assms unfolding chat_wf_def by fast+

lemma peek_simps [simp]:
  "peekActive key (write_session s raw c) = peekActive key c"
  "peekActive key (clearActive k c) = (if key = k then None else peekActive key c)"
  by (simp_all add: peekActive_def getActive_def clearActive_def)

lemma clear_fields [simp]:
  "read_session sid (clearActive k c) = read_session sid c"
  "cf_legacyChecked (clearActive k c) = cf_legacyChecked c"
  by (simp_all add: clearActive_def)

lemma content_clear [simp]: "content Y (clearActive k c) sid = content Y c sid"
  by (simp add: content_def clearActive_def)

text \<open>A transcript is rewritten.\<close>

lemma rewrite_wf:
  assumes wf: "chat_wf Y c" and y: "yaml_ok Y" and good: "list_all good_turn ts"
    and live: "\<And>key. peekActive key c = Some sid \<Longrightarrow> \<not> is_ended m"
  shows "chat_wf Y (write_session sid (encode_session Y m ts) c)"
  unfolding chat_wf_def
proof (intro conjI allI impI)
  let ?c = "write_session sid (encode_session Y m ts) c"
  show "cf_legacyChecked ?c" using chat_wfD(1) [OF wf] by simp
  show "content Y ?c s \<noteq> None" if "read_session s ?c \<noteq> []" for s
    using that chat_wfD(2) [OF wf, of s] content_write [OF y good] by (auto split: if_splits)
  show "s \<noteq> []" "\<exists>m ts. content Y ?c s = Some (m, ts) \<and> \<not> is_ended m" if "peekActive key ?c = Some s" for key s
    using that chat_wfD(3) [OF wf, of key s] live [of key] content_write [OF y good] by auto
  show "key = key'" if "peekActive key ?c = Some s \<and> peekActive key' ?c = Some s" for key key' s
    using that chat_wfD(4) [OF wf] by simp
qed

lemma rewrite_log:
  assumes "yaml_ok Y" "list_all good_turn ts"
  shows "log_of Y (write_session sid (encode_session Y m ts) c) = (log_of Y c)(sid \<mapsto> (ts, is_ended m))"
  using content_write [OF assms] by (auto simp: log_of_def)

lemma clear_wf:
  assumes "chat_wf Y c"
  shows "chat_wf Y (clearActive key c)"
  unfolding chat_wf_def
proof (intro conjI allI impI)
  note wf = chat_wfD [OF assms]
  show "cf_legacyChecked (clearActive key c)" using wf(1) by simp
  show "content Y (clearActive key c) s \<noteq> None" if "read_session s (clearActive key c) \<noteq> []" for s
    using that wf(2) [of s] by auto
  show "s \<noteq> []" "\<exists>m ts. content Y (clearActive key c) s = Some (m, ts) \<and> \<not> is_ended m"
    if "peekActive k (clearActive key c) = Some s" for k s
    using that wf(3) [of k s] by (auto split: if_splits)
  show "k = k'" if "peekActive k (clearActive key c) = Some s \<and> peekActive k' (clearActive key c) = Some s" for k k' s
    using that wf(4) by (auto split: if_splits)
qed

lemma log_None: "chat_wf Y c \<Longrightarrow> log_of Y c sid = None \<longleftrightarrow> read_session sid c = []"
  using chat_wfD(2) [of Y c sid] by (auto simp: log_of_def content_def)

lemma peek_cases:
  assumes "chat_wf Y c" "peekActive key c = Some sid"
  obtains m ts where "content Y c sid = Some (m, ts)" "\<not> is_ended m" "log_of Y c sid = Some (ts, False)"
  using chat_wfD(3) [OF assms] by (auto simp: log_of_def)

lemma mint_id_form: "mint_id n k now rng c = Inr sid \<Longrightarrow> sid \<noteq> []"
  by (induction n k now rng c rule: mint_id.induct)
     (auto simp: mintSessionId_def Let_def split: option.splits if_splits prod.splits)

lemma mint_form: "mintAndRegister Y now rng ctx snap c = (Inr sid, c') \<Longrightarrow> sid \<noteq> []"
  using mint_id_form by (auto simp: mintAndRegister_def Let_def split: sum.splits if_splits)

text \<open>A new session.\<close>

lemma mint_refines:
  assumes y: "yaml_ok Y" and wf: "chat_wf Y c" and none: "peekActive (cx_key ctx) c = None"
    and run: "mintAndRegister Y now rng ctx snap c = (r, c')"
  shows "case r of
      Inl e \<Rightarrow> c' = c
    | Inr sid \<Rightarrow> cf_writable c' \<and> chat_wf Y c' \<and> active_of c' = (active_of c)(cx_key ctx \<mapsto> sid) \<and> log_of Y c sid = None \<and>
        log_of Y c' = (log_of Y c)(sid \<mapsto> ([], False))"
proof (cases r)
  case (Inl e)
  then show ?thesis using mint_frame [OF run] by simp
next
  case (Inr sid)
  then obtain m where f: "cf_writable c'" "cf_legacyChecked c' = cf_legacyChecked c" "read_session sid c = []"
    "cf_index c' = set_key (cx_key ctx) \<lparr>ae_id = sid, ae_startedAt = iso_string now, ae_model = cx_model ctx\<rparr> (cf_index c)"
    "sm_endedAt m = None" "\<And>s. read_session s c' = (if s = sid then encode_session Y m [] else read_session s c)"
    using mint_frame [OF run] by auto
  have content': "content Y c' s = (if s = sid then Some (m, []) else content Y c s)" for s
    using decode_session [OF y, of "[]" m] f(6) by (simp add: content_def)
  have active': "peekActive key c' = (if key = cx_key ctx then Some sid else peekActive key c)" for key
    by (simp add: peekActive_def getActive_def f(4))
  have missing: "content Y c sid = None" using f(3) by (simp add: content_def)
  have nonempty: "sid \<noteq> []"
    using mint_form run Inr by blast
  have "chat_wf Y c'"
    unfolding chat_wf_def
  proof (intro conjI allI impI)
    show "cf_legacyChecked c'" using f(2) chat_wfD(1) [OF wf] by simp
    show "content Y c' s \<noteq> None" if "read_session s c' \<noteq> []" for s
      using that f(6) [of s] chat_wfD(2) [OF wf, of s] content' [of s] by (auto split: if_splits)
    show "s \<noteq> []" "\<exists>m ts. content Y c' s = Some (m, ts) \<and> \<not> is_ended m" if "peekActive key c' = Some s" for key s
      using that nonempty chat_wfD(3) [OF wf, of key s] f(5) by (auto simp: content' active' split: if_splits)
    show "key = key'" if "peekActive key c' = Some s \<and> peekActive key' c' = Some s" for key key' s
    proof -
      have "peekActive k c \<noteq> Some sid" for k using chat_wfD(3) [OF wf, of k sid] missing by auto
      then show ?thesis using that chat_wfD(4) [OF wf, of key s key'] by (auto simp: active' split: if_splits)
    qed
  qed
  then show ?thesis
    using Inr f(1) missing f(5) by (auto simp: active' content' log_of_def)
qed

lemma exec_ensure:
  assumes y: "yaml_ok Y" and wf: "chat_wf Y c" and run: "chat_exec Y (Ensure now rng ctx builder) c = (r, c')"
  shows "chat_wf Y c' \<and> chat_spec (Ensure now rng ctx builder) r (active_of c) (log_of Y c) (active_of c') (log_of Y c')"
proof (cases "getActive (cx_key ctx) c")
  case (Some e)
  then have "r = Inr (Some (ae_id e))" "c' = c" "peekActive (cx_key ctx) c = Some (ae_id e)"
    using run import_done [OF chat_wfD(1) [OF wf]]
    by (simp_all add: ensureActiveSession_def ensure_section_def peekActive_def)
  then show ?thesis using wf by auto
next
  case None
  define snap where "snap = (case builder of NoBuilder \<Rightarrow> None | Builds s \<Rightarrow> Some s
    | BuildFails \<Rightarrow> Some \<lparr>ms_content = [], ms_status = SnapDegraded, ms_builtAt = iso_string now, ms_entryCount = 0\<rparr>)"
  obtain q d where m: "mintAndRegister Y now rng ctx snap c = (q, d)" by fastforce
  have none: "peekActive (cx_key ctx) c = None" using None by (simp add: peekActive_def)
  have "c' = d" "r = map_sum id Some q"
    using run None m import_done [OF chat_wfD(1) [OF wf]]
    by (auto simp: ensureActiveSession_def ensure_section_def snap_def Let_def split: sum.splits)
  then show ?thesis using mint_refines [OF y wf none m] none wf by (cases q) auto
qed

lemma append_refines:
  assumes y: "yaml_ok Y" and wf: "chat_wf Y c" and good: "good_turn ut" "good_turn bt"
    and stored: "read_session sid c \<noteq> []" and ok: "cf_writable c"
  shows "\<exists>c'. append_section Y now ctx sid ut bt c = (Inr (), c') \<and> chat_wf Y c' \<and> active_of c' = active_of c \<and>
    log_of Y c' = (log_of Y c)(sid \<mapsto> more_turns [ut, bt] (log_of Y c sid))"
proof -
  obtain m ts where c: "content Y c sid = Some (m, ts)" using chat_wfD(2) [OF wf stored] by blast
  let ?m = "if truthy (sm_endedAt m) = None then m\<lparr>sm_lastActivityAt := Some (iso_string now)\<rparr> else m"
  let ?c = "write_session sid (encode_session Y ?m (ts @ [ut, bt])) c"
  have shown: "exchange_text Y now ctx sid ut bt (read_session sid c) = encode_session Y ?m (ts @ [ut, bt])"
    using c by (simp add: content_Some exchange_text_def Let_def encode_session_snoc)
  have good': "list_all good_turn (ts @ [ut, bt])" using good content_good [OF c] by simp
  have "\<not> is_ended ?m" if "peekActive key c = Some sid" for key
    using chat_wfD(3) [OF wf that] c by auto
  then have "chat_wf Y ?c" by (rule rewrite_wf [OF wf y good'])
  moreover have "log_of Y c sid = Some (ts, is_ended m)" using c by (simp add: log_of_def)
  moreover have "is_ended ?m = is_ended m" by simp
  ultimately show ?thesis
    using shown ok rewrite_log [OF y good', of sid ?m c] by (simp add: append_section_def saved_def more_turns_def)
qed

lemma exec_append:
  assumes y: "yaml_ok Y" and wf: "chat_wf Y c" and good: "good_turn ut" "good_turn bt"
    and run: "chat_exec Y (Append now rng ctx ut bt) c = (r, c')"
  shows "chat_wf Y c' \<and> chat_spec (Append now rng ctx ut bt) r (active_of c) (log_of Y c) (active_of c') (log_of Y c')"
proof -
  note imp = import_done [OF chat_wfD(1) [OF wf]]
  obtain q d where b: "bind_section Y now rng ctx c = (q, d)" by fastforce
  show ?thesis
  proof (cases q)
    case (Inl e)
    have "d = c"
      using b Inl mint_frame [of Y now rng ctx None c] by (auto simp: bind_section_def split: option.splits if_splits)
    then show ?thesis using run b Inl imp wf by (auto simp: appendExchange_def)
  next
    case (Inr sid)
    have bound: "chat_wf Y d \<and> read_session sid d \<noteq> [] \<and>
      (case truthy (cx_expected ctx) of
         Some x \<Rightarrow> x = sid \<and> d = c
       | None \<Rightarrow> (peekActive (cx_key ctx) c = Some sid \<and> d = c) \<or>
           (peekActive (cx_key ctx) c = None \<and> cf_writable d \<and> log_of Y c sid = None \<and>
            active_of d = (active_of c)(cx_key ctx \<mapsto> sid) \<and> log_of Y d = (log_of Y c)(sid \<mapsto> ([], False))))"
    proof (cases "truthy (cx_expected ctx)")
      case (Some x)
      then show ?thesis using b Inr wf by (auto simp: bind_section_def split: if_splits)
    next
      case None
      show ?thesis
      proof (cases "getActive (cx_key ctx) c")
        case (Some e)
        then have p: "peekActive (cx_key ctx) c = Some (ae_id e)" by (simp add: peekActive_def)
        then show ?thesis
          using b Inr wf None Some chat_wfD(3) [OF wf p] by (auto simp: bind_section_def content_Some)
      next
        case no: None
        then have p: "peekActive (cx_key ctx) c = None" by (simp add: peekActive_def)
        have "mintAndRegister Y now rng ctx None c = (Inr sid, d)" using b Inr None no by (simp add: bind_section_def)
        from mint_refines [OF y wf p this] mint_frame [OF this] show ?thesis using None p by auto
      qed
    qed
    show ?thesis
    proof (cases "cf_writable d")
      case False
      then have "c' = d" "r = Inl DiskError"
        using run b Inr imp by (auto simp: appendExchange_def append_section_def saved_def)
      then show ?thesis using bound False by (auto split: option.splits)
    next
      case True
      obtain f where f: "append_section Y now ctx sid ut bt d = (Inr (), f)" "chat_wf Y f" "active_of f = active_of d"
        "log_of Y f = (log_of Y d)(sid \<mapsto> more_turns [ut, bt] (log_of Y d sid))"
        using append_refines [OF y _ good _ True] bound by blast
      have "c' = f" "r = Inr (Some sid)" using run b Inr imp f by (auto simp: appendExchange_def)
      then show ?thesis
        using f bound log_None [OF wf, of sid] by (auto simp: more_turns_def split: option.splits)
    qed
  qed
qed

lemma exec_end:
  assumes y: "yaml_ok Y" and wf: "chat_wf Y c" and run: "chat_exec Y (End now ctx) c = (r, c')"
  shows "chat_wf Y c' \<and> chat_spec (End now ctx) r (active_of c) (log_of Y c) (active_of c') (log_of Y c')"
proof (cases "end_check ctx c")
  case None
  then have "r = Inr None" "c' = c" using run by (simp_all add: endActive_def)
  then show ?thesis
    using None wf by (auto simp: end_check_def peekActive_def split: option.splits if_splits)
next
  case (Some sid)
  then have p: "peekActive (cx_key ctx) c = Some sid" "cx_expected ctx \<in> {None, Some sid}"
    by (auto simp: end_check_def peekActive_def split: option.splits if_splits)
  obtain m ts where c: "content Y c sid = Some (m, ts)" "\<not> is_ended m" "log_of Y c sid = Some (ts, False)"
    by (rule peek_cases [OF wf p(1)])
  show ?thesis
  proof (cases "cf_writable c")
    case False
    then have "r = Inl DiskError" "c' = c"
      using run Some c(1) by (simp_all add: endActive_def end_write_def content_Some Let_def)
    then show ?thesis using wf by simp
  next
    case True
    let ?m = "m\<lparr>sm_endedAt := Some (iso_string now)\<rparr>"
    let ?d = "write_session sid (encode_session Y ?m ts) c"
    have w: "end_write Y now sid c = (Inr True, ?d)" using c(1) True by (simp add: end_write_def content_Some Let_def)
    then have c': "r = Inr (Some sid)" "c' = clearActive (cx_key ctx) ?d"
      using run Some True by (simp_all add: endActive_def end_clear_def saved_def)
    have good: "list_all good_turn ts" by (rule content_good [OF c(1)])
    have l: "log_of Y c' = (log_of Y c)(sid \<mapsto> (ts, True))"
      using rewrite_log [OF y good, of sid ?m c] by (simp add: c' log_of_def)
    have "chat_wf Y c'"
      unfolding chat_wf_def
    proof (intro conjI allI impI)
      show "cf_legacyChecked c'" using chat_wfD(1) [OF wf] by (simp add: c')
      show "content Y c' s \<noteq> None" if "read_session s c' \<noteq> []" for s
        using that chat_wfD(2) [OF wf, of s] content_write [OF y good] by (auto simp: c' split: if_splits)
      show "s \<noteq> []" "\<exists>m ts. content Y c' s = Some (m, ts) \<and> \<not> is_ended m" if "peekActive k c' = Some s" for k s
      proof -
        have k: "k \<noteq> cx_key ctx" "peekActive k c = Some s" using that by (auto simp: c' split: if_splits)
        then have "s \<noteq> sid" using chat_wfD(4) [OF wf] p(1) by blast
        then show "s \<noteq> []" "\<exists>m ts. content Y c' s = Some (m, ts) \<and> \<not> is_ended m"
          using chat_wfD(3) [OF wf k(2)] content_write [OF y good] by (simp_all add: c')
      qed
      show "k = k'" if "peekActive k c' = Some s \<and> peekActive k' c' = Some s" for k k' s
        using that chat_wfD(4) [OF wf] by (auto simp: c' split: if_splits)
    qed
    then show ?thesis using p c(3) l by (auto simp: c')
  qed
qed

lemma exec_rewrite:
  assumes y: "yaml_ok Y" and wf: "chat_wf Y c" and c: "content Y c sid = Some (m, ts)" and same: "sm_endedAt m' = sm_endedAt m"
  shows "chat_wf Y (write_session sid (encode_session Y m' ts) c) \<and>
    active_of (write_session sid (encode_session Y m' ts) c) = active_of c \<and>
    log_of Y (write_session sid (encode_session Y m' ts) c) = log_of Y c"
proof -
  have good: "list_all good_turn ts" by (rule content_good [OF c])
  have "\<not> is_ended m'" if "peekActive key c = Some sid" for key
    using chat_wfD(3) [OF wf that] c same by auto
  then have "chat_wf Y (write_session sid (encode_session Y m' ts) c)" by (rule rewrite_wf [OF wf y good])
  moreover have "log_of Y (write_session sid (encode_session Y m' ts) c) = log_of Y c"
    using rewrite_log [OF y good, of sid m' c] c same by (simp add: log_of_def fun_upd_idem_iff)
  ultimately show ?thesis by simp
qed

lemma exec_title:
  assumes y: "yaml_ok Y" and wf: "chat_wf Y c" and run: "chat_exec Y (Title sid title skip) c = (r, c')"
  shows "chat_wf Y c' \<and> chat_spec (Title sid title skip) r (active_of c) (log_of Y c) (active_of c') (log_of Y c')"
proof (cases "c' = c")
  case True
  then show ?thesis using wf by (cases r) simp_all
next
  case False
  then obtain m ts t where "content Y c sid = Some (m, ts)"
      "c' = write_session sid (encode_session Y (m\<lparr>sm_title := Some t\<rparr>) ts) c"
    using run by (auto simp: setTitle_def content_Some Let_def split: if_splits option.splits sum.splits)
  then show ?thesis using exec_rewrite [OF y wf, of sid m ts "m\<lparr>sm_title := Some t\<rparr>"] by (cases r) simp_all
qed

lemma exec_rebuild:
  assumes y: "yaml_ok Y" and wf: "chat_wf Y c" and run: "chat_exec Y (Rebuild now ctx snap) c = (r, c')"
  shows "chat_wf Y c' \<and> chat_spec (Rebuild now ctx snap) r (active_of c) (log_of Y c) (active_of c') (log_of Y c')"
proof (cases "c' = c")
  case True
  then show ?thesis
    using wf run
    by (cases r; cases "peekActive (cx_key ctx) c") (auto simp: rebuildMemorySnapshot_def rebuild_check_def)
next
  case False
  have rebuilt: "\<exists>sid m ts. rebuild_check ctx c = Inr sid \<and> content Y c sid = Some (m, ts) \<and> peekActive (cx_key ctx) c = Some sid \<and>
      c' = write_session sid (encode_session Y (m\<lparr>sm_snapshot := Some snap, sm_lastActivityAt := Some (iso_string now)\<rparr>) ts) c"
    using run False
    by (auto simp: rebuildMemorySnapshot_def rebuild_write_def content_Some Let_def split: if_splits option.splits sum.splits)
  then obtain sid m ts where "content Y c sid = Some (m, ts)" "peekActive (cx_key ctx) c = Some sid"
      "c' = write_session sid (encode_session Y (m\<lparr>sm_snapshot := Some snap, sm_lastActivityAt := Some (iso_string now)\<rparr>) ts) c"
    by blast
  then show ?thesis
    using exec_rewrite [OF y wf, of sid m ts "m\<lparr>sm_snapshot := Some snap, sm_lastActivityAt := Some (iso_string now)\<rparr>"]
    by (cases r) simp_all
qed

section \<open>A frontmatter format for the examples\<close>

text \<open>Rows of strings in the letters a to d: a unary character ends with b, a string with c, a row with d.\<close>

fun put_char :: "char \<Rightarrow> string" where
  "put_char x = replicate (of_char x) (CHR ''a'') @ ''b''"

definition put_string :: "string \<Rightarrow> string" where
  "put_string s = concat (map put_char s) @ ''c''"

definition put_row :: "string list \<Rightarrow> string" where
  "put_row r = concat (map put_string r) @ ''d''"

fun get_rows :: "nat \<Rightarrow> string \<Rightarrow> string list \<Rightarrow> string \<Rightarrow> string list list" where
  "get_rows n cur row [] = []"
| "get_rows n cur row (x # s) =
     (if x = CHR ''a'' then get_rows (Suc n) cur row s
      else if x = CHR ''b'' then get_rows 0 (cur @ [char_of n]) row s
      else if x = CHR ''c'' then get_rows 0 [] (row @ [cur]) s
      else row # get_rows 0 [] [] s)"

lemma get_replicate: "get_rows n cur row (replicate k (CHR ''a'') @ s) = get_rows (n + k) cur row s"
  by (induction k arbitrary: n) simp_all

lemma get_char: "get_rows 0 cur row (put_char x @ s) = get_rows 0 (cur @ [x]) row s"
  by (simp add: get_replicate)

declare put_char.simps [simp del]

lemma get_string: "get_rows 0 cur row (put_string t @ s) = get_rows 0 [] (row @ [cur @ t]) s"
proof -
  have "get_rows 0 cur row (concat (map put_char t) @ s') = get_rows 0 (cur @ t) row s'" for s'
    by (induction t arbitrary: cur) (simp_all add: get_char)
  then show ?thesis by (simp add: put_string_def)
qed

lemma get_row: "get_rows 0 [] [] (put_row r @ s) = r # get_rows 0 [] [] s"
proof -
  have "get_rows 0 [] row (concat (map put_string r) @ s') = get_rows 0 [] (row @ r) s'" for row s'
    by (induction r arbitrary: row) (simp_all add: get_string)
  then show ?thesis by (simp add: put_row_def)
qed

lemma get_put: "get_rows 0 [] [] (concat (map put_row rs)) = rs"
  by (induction rs) (simp_all add: get_row)

lemma put_letters: "set (concat (map put_row rs)) \<subseteq> {CHR ''a'', CHR ''b'', CHR ''c'', CHR ''d''}"
  by (auto simp: put_row_def put_string_def put_char.simps)

definition opt_row :: "string option \<Rightarrow> string list" where
  "opt_row x = (case x of None \<Rightarrow> [] | Some s \<Rightarrow> [s])"

fun row_opt :: "string list \<Rightarrow> string option" where
  "row_opt [s] = Some s"
| "row_opt _ = None"

lemma row_opt_row [simp]: "row_opt (opt_row x) = x"
  by (simp add: opt_row_def split: option.splits)

definition number :: "nat \<Rightarrow> string" where
  "number n = replicate n (CHR ''1'')"

lemma length_number [simp]: "length (number n) = n"
  by (simp add: number_def)

definition snap_row :: "memory_snapshot option \<Rightarrow> string list" where
  "snap_row x = (case x of None \<Rightarrow> [] | Some s \<Rightarrow>
     [ms_content s, case ms_status s of SnapOk \<Rightarrow> [] | SnapEmpty \<Rightarrow> ''e'' | SnapDegraded \<Rightarrow> ''d'', ms_builtAt s, number (ms_entryCount s)])"

fun row_snap :: "string list \<Rightarrow> memory_snapshot option" where
  "row_snap [t, st, b, n] =
     Some \<lparr>ms_content = t, ms_status = (if st = [] then SnapOk else if st = ''e'' then SnapEmpty else SnapDegraded),
           ms_builtAt = b, ms_entryCount = length n\<rparr>"
| "row_snap _ = None"

lemma row_snap_row [simp]: "row_snap (snap_row x) = x"
  by (auto simp: snap_row_def split: option.splits snapshot_status.splits)

definition meta_rows :: "session_meta \<Rightarrow> string list list" where
  "meta_rows m =
     [[sm_id m, case sm_source m of SrcTelegram \<Rightarrow> [] | SrcLegacyImport \<Rightarrow> ''l'', sm_userId m, sm_startedAt m,
       number (fst (sm_tokens m)), number (snd (sm_tokens m))],
      opt_row (sm_householdId m), opt_row (sm_model m), opt_row (sm_title m), opt_row (sm_parentId m),
      opt_row (sm_lastActivityAt m), opt_row (sm_endedAt m), snap_row (sm_snapshot m)]"

fun rows_meta :: "string list list \<Rightarrow> session_meta option" where
  "rows_meta [[i, src, u, st, n1, n2], hh, model, title, parent, active, ended, snap] =
     Some \<lparr>sm_id = i, sm_source = (if src = [] then SrcTelegram else SrcLegacyImport), sm_userId = u,
       sm_householdId = row_opt hh, sm_model = row_opt model, sm_title = row_opt title, sm_parentId = row_opt parent,
       sm_startedAt = st, sm_lastActivityAt = row_opt active, sm_endedAt = row_opt ended,
       sm_tokens = (length n1, length n2), sm_snapshot = row_snap snap\<rparr>"
| "rows_meta _ = None"

lemma rows_meta_rows: "rows_meta (meta_rows m) = Some m"
  by (cases m) (auto simp: meta_rows_def split: session_source.splits)

definition rows_yaml :: yaml_lib where
  "rows_yaml = \<lparr>y_print = (\<lambda>m. concat (map put_row (meta_rows m)) @ [NL]), y_parse = (\<lambda>s. rows_meta (get_rows 0 [] [] s))\<rparr>"

lemma rows_yaml_ok: "yaml_ok rows_yaml"
  unfolding yaml_ok_def
proof
  fix m
  let ?b = "concat (map put_row (meta_rows m))"
  have "\<not> str_includes ([NL] @ ''---'' @ [NL]) (?b @ [NL])"
  proof
    assume "str_includes ([NL] @ ''---'' @ [NL]) (?b @ [NL])"
    then obtain u v where "?b @ [NL] = u @ ([NL] @ ''---'' @ [NL]) @ v" by (auto simp: includes_iff)
    then have "CHR ''-'' \<in> set (?b @ [NL])" by (simp del: set_concat)
    then show False using put_letters [of "meta_rows m"] by auto
  qed
  then have "yaml_block (?b @ [NL])" by (auto simp: yaml_block_def)
  then show "\<exists>b. y_print rows_yaml m = b @ [NL] \<and> yaml_block (b @ [NL]) \<and> y_parse rows_yaml b = Some m"
    by (intro exI [of _ ?b]) (simp add: rows_yaml_def get_put rows_meta_rows)
qed

section \<open>Properties\<close>

lemma exec_refines:
  assumes "yaml_ok Y" "chat_wf Y c" "sound_call call" "chat_exec Y call c = (r, c')"
  shows "chat_wf Y c' \<and> chat_spec call r (active_of c) (log_of Y c) (active_of c') (log_of Y c')"
proof (cases call)
  case (Append now rng ctx ut bt)
  then show ?thesis using exec_append [OF assms(1,2), of ut bt now rng ctx r c'] assms(3,4) by auto
next
  case (Ensure now rng ctx builder)
  then show ?thesis using exec_ensure [OF assms(1,2)] assms(4) by blast
next
  case (End now ctx)
  then show ?thesis using exec_end [OF assms(1,2)] assms(4) by blast
next
  case (Title sid title skip)
  then show ?thesis using exec_title [OF assms(1,2)] assms(4) by blast
next
  case (Rebuild now ctx snap)
  then show ?thesis using exec_rebuild [OF assms(1,2)] assms(4) by blast
qed

lemma load_log:
  assumes "chat_wf Y c"
  shows "loadRecentTurns Y now rng ctx n c =
    (Inr (case active_of c (cx_key ctx) of
            None \<Rightarrow> []
          | Some sid \<Rightarrow> slice_last (case n of None \<Rightarrow> 20 | Some k \<Rightarrow> k) (fst (the (log_of Y c sid)))), c)"
proof (cases "getActive (cx_key ctx) c")
  case None
  then show ?thesis using import_done [OF chat_wfD(1) [OF assms]] by (simp add: loadRecentTurns_def peekActive_def)
next
  case (Some e)
  then have p: "peekActive (cx_key ctx) c = Some (ae_id e)" by (simp add: peekActive_def)
  obtain m ts where "content Y c (ae_id e) = Some (m, ts)" "log_of Y c (ae_id e) = Some (ts, False)"
    by (rule peek_cases [OF assms p])
  then show ?thesis
    using Some p import_done [OF chat_wfD(1) [OF assms]] by (simp add: loadRecentTurns_def content_Some)
qed


definition no_sessions :: chat_files where
  "no_sessions = \<lparr>cf_index = [], cf_sessions = [], cf_legacyChecked = True, cf_history = HistoryMissing, cf_writable = True\<rparr>"

definition dm :: session_ctx where
  "dm = \<lparr>cx_userId = ''1'', cx_key = ''k'', cx_model = None, cx_householdId = None, cx_expected = None, cx_parentId = None\<rparr>"

definition first_exchange :: chat_call where
  "first_exchange = Append 0 (\<lambda>_. ''0badcafe'') dm tricky_turn tricky_turn"


text \<open>
  C39. However the critical sections of all operations interleave (imports, new sessions, exchanges,
  ends, titles, snapshots, with disk failures or without), a transcript only grows: its turns are the
  ones it had, followed by the exchanges appended to that very session in the order of their sections;
  whose session it is and when it started never change, and once ended it stays ended.
\<close>

theorem transcripts_only_grow:
  assumes "yaml_ok Y" "list_all sound_section sts" "content Y c sid = Some (m, ts)"
  shows "\<exists>m'. content Y (foldl (\<lambda>c st. run_section Y st c) c sts) sid =
      Some (m', ts @ (if cf_writable c then concat (map (said_in sid) sts) else [])) \<and> same_session m m'"
  by (rule sections_grow [OF assms])

definition started_meta :: session_meta where
  "started_meta = buildFrontmatter dm ''19700101_000000_0badcafe'' (iso_string 0) None"

definition one_session :: chat_files where
  "one_session = write_session ''19700101_000000_0badcafe'' (encode_session rows_yaml started_meta []) no_sessions"

lemma transcripts_only_grow_witness:
  "\<exists>m'. content rows_yaml (foldl (\<lambda>c st. run_section rows_yaml st c) one_session
      [SAppend 5 dm ''19700101_000000_0badcafe'' tricky_turn tricky_turn, SEndWrite 6 ''19700101_000000_0badcafe'',
       SAppend 7 dm ''19700101_000000_0badcafe'' tricky_turn tricky_turn]) ''19700101_000000_0badcafe'' =
    Some (m', [tricky_turn, tricky_turn, tricky_turn, tricky_turn]) \<and> same_session started_meta m'"
proof -
  have good: "good_turn tricky_turn" unfolding good_turn_def tricky_turn_def by code_simp
  let ?sts = "[SAppend 5 dm ''19700101_000000_0badcafe'' tricky_turn tricky_turn, SEndWrite 6 ''19700101_000000_0badcafe'',
    SAppend 7 dm ''19700101_000000_0badcafe'' tricky_turn tricky_turn]"
  have sound: "list_all sound_section ?sts" using good by simp
  have start: "content rows_yaml one_session ''19700101_000000_0badcafe'' = Some (started_meta, [])"
    using content_write [OF rows_yaml_ok, of "[]"] by (simp add: one_session_def)
  have "cf_writable one_session" by (simp add: one_session_def no_sessions_def)
  then show ?thesis using transcripts_only_grow [OF rows_yaml_ok sound start] by simp
qed

section \<open>Where the code falls short\<close>

text \<open>
  \<open>endActive\<close> checks which session is active, writes the transcript and clears the key in three separate
  sections. When a second end, bound to the same session, is overtaken by the first one and by a new
  exchange, its last section clears the key of the new session, which is then active for nobody though it
  never ended: the compare-and-swap the interface promises does not hold.
\<close>

lemma overtaken_end_drops_a_fresh_session:
  assumes y: "yaml_ok Y" and wf: "chat_wf Y c" and sound: "good_turn ut" "good_turn bt"
    and seen: "end_check ctx c = Some s1"
    and first: "endActive Y now ctx c = (Inr (Some s1), c1)"
    and exchange: "appendExchange Y now rng (ctx\<lparr>cx_expected := None\<rparr>) ut bt c1 = (Inr s2, c2)"
    and last: "end_write Y now' s1 c2 = (r, c3)" "end_clear (cx_key ctx) c3 = (Inr (), c4)"
  shows "active_of c2 (cx_key ctx) = Some s2 \<and> active_of c4 (cx_key ctx) = None \<and>
    log_of Y c4 s2 = Some ([ut, bt], False) \<and> s2 \<noteq> s1"
proof -
  have e1: "chat_wf Y c1" "active_of c1 = (active_of c)(cx_key ctx := None)" "\<exists>ts. log_of Y c1 s1 = Some (ts, True)"
    using exec_refines [OF y wf, of "End now ctx" "Inr (Some s1)" c1] first by auto
  have e2: "chat_wf Y c2" "active_of c2 = (active_of c)(cx_key ctx \<mapsto> s2)" "log_of Y c1 s2 = None"
      "log_of Y c2 s2 = Some ([ut, bt], False)"
    using exec_refines [OF y e1(1), of "Append now rng (ctx\<lparr>cx_expected := None\<rparr>) ut bt" "Inr (Some s2)" c2] exchange sound e1(2)
    by (auto simp: more_turns_def)
  have active: "active_of c2 (cx_key ctx) = Some s2" using fun_cong [OF e2(2), of "cx_key ctx"] by simp
  note e2 = e2(1) active e2(3,4)
  have new: "s2 \<noteq> s1" using e1(3) e2(3) by auto
  have "read_session s2 c3 = read_session s2 c2"
    using last(1) new by (auto simp: end_write_def Let_def split: if_splits sum.splits)
  then have "content Y c3 s2 = content Y c2 s2" by (rule content_cong)
  then have "log_of Y c3 s2 = Some ([ut, bt], False)" using e2(4) by (simp add: log_of_def)
  moreover have "c4 = clearActive (cx_key ctx) c3" using last(2) by (auto simp: end_clear_def saved_def split: if_splits)
  ultimately show ?thesis using e2(2) new by (simp add: log_of_def)
qed

text \<open>
  The import takes any timestamp that \<open>Date.parse\<close> accepts, the transcript only instants in UTC: an old
  turn with an offset is written but never read back.
\<close>

lemma imported_turn_with_an_offset_is_lost:
  "decode Some (foldl encodeAppend (encodeNew (''id: x'' @ [NL]))
     (map (imported_turn 0)
       [\<lparr>lt_assistant = False, lt_content = ''hello'', lt_stamp = Some (''2026-05-11T08:00:00+02:00'', 1778479200000)\<rparr>])) =
   Inr (''id: x'', [])"
  by code_simp

end
