(* ===== verification/Job_Notifier.thy ===== *)
theory Job_Notifier
  imports Prelude
begin

text \<open>
  The failure notices of scheduled jobs: \<open>services/scheduler/job-failure-notifier.ts\<close> and the
  interface \<open>services/scheduler/notifier.ts\<close> that the two managers use.
  The in-memory map of counters is \<open>nt_state\<close>, the set of disabled jobs a list in insertion order, and
  \<open>nt_stored\<close> the list in the file of disabled jobs. \<open>sender.send\<close> is recorded in \<open>nt_notices\<close> as
  the attempt it is: whether it arrives changes nothing. The flag of a failure or a re-enabling says
  whether the disk takes the write.
  The locale \<open>failure_registry\<close> is what the managers rely on; \<open>tripped\<close> is the reference
  definition of a job that has to be off, in terms of the calls alone.
\<close>

section \<open>The notifier\<close>

record job_failure_state =
  jf_lastNotifiedAt :: time
  jf_consecutiveFailures :: nat

text \<open>The two texts the admin may get: the job, the last error and the number of failures.\<close>

datatype notice =
    FailedNotice time string string string nat
  | DisabledNotice time string string string nat

record notifier_config =
  nc_cooldownMs :: int
  nc_autoDisableAfter :: nat
  nc_persists :: bool

record notifier =
  nt_state :: "job_failure_state jsmap"
  nt_disabledJobs :: "string list"
  nt_stored :: "string list option"
  nt_notices :: "notice list"

definition default_config :: notifier_config where
  "default_config = \<lparr>nc_cooldownMs = 60 * 60 * 1000, nc_autoDisableAfter = 5, nc_persists = True\<rparr>"

definition job_key :: "string \<Rightarrow> string \<Rightarrow> string" where
  "job_key app job = app @ '':'' @ job"

definition set_add :: "'a \<Rightarrow> 'a list \<Rightarrow> 'a list" where
  "set_add x xs = (if x \<in> set xs then xs else xs @ [x])"

text \<open>A file that is missing or holds no list of jobs is \<open>None\<close>.\<close>

definition jn_loadDisabledJobs :: "notifier_config \<Rightarrow> string list option \<Rightarrow> string list" where
  "jn_loadDisabledJobs cfg f =
     (if \<not> nc_persists cfg then [] else case f of None \<Rightarrow> [] | Some js \<Rightarrow> fold set_add js [])"

text \<open>The constructor throws when the threshold is below one.\<close>

definition jn_new :: "notifier_config \<Rightarrow> string list option \<Rightarrow> notifier option" where
  "jn_new cfg f =
     (if nc_autoDisableAfter cfg < 1 then None
      else Some \<lparr>nt_state = [], nt_disabledJobs = jn_loadDisabledJobs cfg f, nt_stored = f, nt_notices = []\<rparr>)"

definition jn_persistDisabledJobs :: "notifier_config \<Rightarrow> bool \<Rightarrow> notifier \<Rightarrow> notifier" where
  "jn_persistDisabledJobs cfg ok n =
     (if nc_persists cfg \<and> ok then n\<lparr>nt_stored := Some (sort (nt_disabledJobs n))\<rparr> else n)"

definition jn_onFailure ::
  "notifier_config \<Rightarrow> bool \<Rightarrow> time \<Rightarrow> string \<Rightarrow> string \<Rightarrow> string \<Rightarrow> notifier \<Rightarrow> bool \<times> notifier" where
  "jn_onFailure cfg ok now app job err n =
     (let key = job_key app job;
          s = get_or \<lparr>jf_lastNotifiedAt = 0, jf_consecutiveFailures = 0\<rparr> (nt_state n) key;
          s = s\<lparr>jf_consecutiveFailures := jf_consecutiveFailures s + 1\<rparr>;
          n = n\<lparr>nt_state := set_key key s (nt_state n)\<rparr>
      in if nc_autoDisableAfter cfg \<le> jf_consecutiveFailures s then
           (let n = jn_persistDisabledJobs cfg ok (n\<lparr>nt_disabledJobs := set_add key (nt_disabledJobs n)\<rparr>)
            in (True, n\<lparr>nt_notices := nt_notices n @ [DisabledNotice now app job err (jf_consecutiveFailures s)]\<rparr>))
         else if nc_cooldownMs cfg \<le> now - jf_lastNotifiedAt s then
           (False, n\<lparr>nt_state := set_key key (s\<lparr>jf_lastNotifiedAt := now\<rparr>) (nt_state n),
                     nt_notices := nt_notices n @ [FailedNotice now app job err (jf_consecutiveFailures s)]\<rparr>)
         else (False, n))"

definition reset_failures :: "string \<Rightarrow> notifier \<Rightarrow> notifier" where
  "reset_failures key n =
     (case map_of (nt_state n) key of None \<Rightarrow> n
      | Some s \<Rightarrow> n\<lparr>nt_state := set_key key (s\<lparr>jf_consecutiveFailures := 0\<rparr>) (nt_state n)\<rparr>)"

definition jn_onSuccess :: "string \<Rightarrow> string \<Rightarrow> notifier \<Rightarrow> notifier" where
  "jn_onSuccess app job n = reset_failures (job_key app job) n"

definition jn_isDisabled :: "string \<Rightarrow> string \<Rightarrow> notifier \<Rightarrow> bool" where
  "jn_isDisabled app job n \<longleftrightarrow> job_key app job \<in> set (nt_disabledJobs n)"

definition jn_reEnable :: "notifier_config \<Rightarrow> bool \<Rightarrow> string \<Rightarrow> string \<Rightarrow> notifier \<Rightarrow> notifier" where
  "jn_reEnable cfg ok app job n =
     (let key = job_key app job;
          m = reset_failures key (n\<lparr>nt_disabledJobs := removeAll key (nt_disabledJobs n)\<rparr>)
      in if key \<in> set (nt_disabledJobs n) then jn_persistDisabledJobs cfg ok m else m)"

definition jn_getDisabledJobs :: "notifier \<Rightarrow> string list" where
  "jn_getDisabledJobs n = nt_disabledJobs n"

definition jn_getFailureCount :: "string \<Rightarrow> string \<Rightarrow> notifier \<Rightarrow> nat" where
  "jn_getFailureCount app job n =
     (case map_of (nt_state n) (job_key app job) of None \<Rightarrow> 0 | Some s \<Rightarrow> jf_consecutiveFailures s)"

text \<open>The calls that change a notifier, and what a sequence of them leaves.\<close>

datatype report =
    Failure bool time string string string
  | Success string string
  | ReEnable bool string string

fun jn_report :: "notifier_config \<Rightarrow> report \<Rightarrow> notifier \<Rightarrow> notifier" where
  "jn_report cfg (Failure ok now app job err) n = snd (jn_onFailure cfg ok now app job err n)"
| "jn_report cfg (Success app job) n = jn_onSuccess app job n"
| "jn_report cfg (ReEnable ok app job) n = jn_reEnable cfg ok app job n"

fun subject :: "report \<Rightarrow> string" where
  "subject (Failure ok now app job err) = job_key app job"
| "subject (Success app job) = job_key app job"
| "subject (ReEnable ok app job) = job_key app job"

definition jn_run :: "notifier_config \<Rightarrow> report list \<Rightarrow> notifier \<Rightarrow> notifier" where
  "jn_run cfg rs n = fold (jn_report cfg) rs n"

section \<open>One call\<close>

lemma set_set_add [simp]: "set (set_add x xs) = insert x (set xs)"
  by (auto simp: set_add_def)

lemma set_fold_set_add [simp]: "set (fold set_add js xs) = set js \<union> set xs"
  by (induction js arbitrary: xs) auto

definition failures_of :: "string \<Rightarrow> notifier \<Rightarrow> nat" where
  "failures_of k n = (case map_of (nt_state n) k of None \<Rightarrow> 0 | Some s \<Rightarrow> jf_consecutiveFailures s)"

fun fails :: "string \<Rightarrow> report \<Rightarrow> bool" where
  "fails k (Failure ok now app job err) = (job_key app job = k)"
| "fails k _ = False"

fun re_enables :: "string \<Rightarrow> report \<Rightarrow> bool" where
  "re_enables k (ReEnable ok app job) = (job_key app job = k)"
| "re_enables k _ = False"

fun succeeds :: "string \<Rightarrow> report \<Rightarrow> bool" where
  "succeeds k (Success app job) = (job_key app job = k)"
| "succeeds k _ = False"

lemmas jn_defs = jn_onFailure_def jn_onSuccess_def jn_reEnable_def reset_failures_def
  jn_persistDisabledJobs_def Let_def

lemma failures_report:
  "failures_of k (jn_report cfg r n) =
     (if fails k r then failures_of k n + 1 else if succeeds k r \<or> re_enables k r then 0 else failures_of k n)"
  by (cases r) (auto simp: jn_defs failures_of_def get_or_def split: option.splits)

lemma disabled_report:
  "k \<in> set (nt_disabledJobs (jn_report cfg r n)) \<longleftrightarrow>
     fails k r \<and> nc_autoDisableAfter cfg \<le> failures_of k n + 1 \<or> \<not> re_enables k r \<and> k \<in> set (nt_disabledJobs n)"
  by (cases r) (auto simp: jn_defs failures_of_def get_or_def split: option.splits)

section \<open>Sequences of calls\<close>

lemma jn_run_simps [simp]: "jn_run cfg [] n = n" "jn_run cfg (rs @ [r]) n = jn_report cfg r (jn_run cfg rs n)"
  by (simp_all add: jn_run_def)

lemma jn_run_append: "jn_run cfg (rs @ ss) n = jn_run cfg ss (jn_run cfg rs n)"
  by (simp add: jn_run_def)

text \<open>The failures of a job since its last success or re-enabling, and whether they ever were too many.\<close>

definition streak :: "string \<Rightarrow> report list \<Rightarrow> nat" where
  "streak k rs = length (filter (fails k) (takeWhile (\<lambda>r. \<not> succeeds k r \<and> \<not> re_enables k r) (rev rs)))"

definition tripped :: "nat \<Rightarrow> string \<Rightarrow> report list \<Rightarrow> bool" where
  "tripped N k rs \<longleftrightarrow> (\<exists>i \<in> {..length rs}. N \<le> streak k (take i rs) \<and> list_all (\<lambda>r. \<not> re_enables k r) (drop i rs))"

lemma streak_Nil [simp]: "streak k [] = 0"
  by (simp add: streak_def)

lemma streak_snoc [simp]:
  "streak k (rs @ [r]) =
     (if fails k r then streak k rs + 1 else if succeeds k r \<or> re_enables k r then 0 else streak k rs)"
  by (cases r) (auto simp: streak_def)

lemma tripped_snoc:
  "tripped N k (rs @ [r]) \<longleftrightarrow> N \<le> streak k (rs @ [r]) \<or> tripped N k rs \<and> \<not> re_enables k r"
proof -
  have "{..length (rs @ [r])} = insert (length (rs @ [r])) {..length rs}" by auto
  then show ?thesis unfolding tripped_def by (auto simp del: streak_snoc)
qed

lemma tripped_streak: "N \<le> streak k rs \<Longrightarrow> tripped N k rs"
  unfolding tripped_def by (rule bexI [of _ "length rs"]) auto

lemma failures_run: "nt_state n = [] \<Longrightarrow> failures_of k (jn_run cfg rs n) = streak k rs"
proof (induction rs rule: rev_induct)
  case Nil
  then show ?case by (simp add: failures_of_def)
qed (simp add: failures_report)

lemma disabled_run:
  assumes "nt_state n = []" "0 < nc_autoDisableAfter cfg"
  shows "k \<in> set (nt_disabledJobs (jn_run cfg rs n)) \<longleftrightarrow>
    k \<in> set (nt_disabledJobs n) \<and> list_all (\<lambda>r. \<not> re_enables k r) rs \<or> tripped (nc_autoDisableAfter cfg) k rs"
proof (induction rs rule: rev_induct)
  case Nil
  then show ?case using assms(2) by (simp add: tripped_def)
next
  case (snoc r rs)
  have "fails k r \<Longrightarrow> \<not> re_enables k r" by (cases r) auto
  then show ?case
    using snoc.IH assms tripped_streak [of "nc_autoDisableAfter cfg" k rs]
    by (auto simp: disabled_report tripped_snoc failures_run [OF assms(1)])
qed

text \<open>The times of the notices about one job, of either text.\<close>

fun failed_time :: "string \<Rightarrow> notice \<Rightarrow> time option" where
  "failed_time k (FailedNotice t app job err c) = (if job_key app job = k then Some t else None)"
| "failed_time k (DisabledNotice t app job err c) = None"

fun announces :: "string \<Rightarrow> notice \<Rightarrow> bool" where
  "announces k (DisabledNotice t app job err c) = (job_key app job = k)"
| "announces k (FailedNotice t app job err c) = False"

definition failed_times :: "string \<Rightarrow> notifier \<Rightarrow> time list" where
  "failed_times k n = List.map_filter (failed_time k) (nt_notices n)"

definition spaced :: "int \<Rightarrow> time list \<Rightarrow> bool" where
  "spaced c ts \<longleftrightarrow> successively (\<lambda>a b. a + c \<le> b) ts"

definition last_notified :: "string \<Rightarrow> notifier \<Rightarrow> time" where
  "last_notified k n = (case map_of (nt_state n) k of None \<Rightarrow> 0 | Some s \<Rightarrow> jf_lastNotifiedAt s)"

lemma failed_times_report:
  "failed_times k (jn_report cfg r n) = failed_times k n \<and> last_notified k (jn_report cfg r n) = last_notified k n \<or>
   (\<exists>now \<ge> last_notified k n + nc_cooldownMs cfg.
      failed_times k (jn_report cfg r n) = failed_times k n @ [now] \<and> last_notified k (jn_report cfg r n) = now)"
  by (cases r)
     (auto simp: jn_defs failed_times_def last_notified_def get_or_def map_filter_simps List.map_filter_def split: option.splits)

lemma spaced_run:
  assumes "nt_state n = []" "nt_notices n = []"
  shows "spaced (nc_cooldownMs cfg) (failed_times k (jn_run cfg rs n)) \<and>
    (failed_times k (jn_run cfg rs n) \<noteq> [] \<longrightarrow>
       last_notified k (jn_run cfg rs n) = last (failed_times k (jn_run cfg rs n)))"
proof (induction rs rule: rev_induct)
  case Nil
  then show ?case using assms by (simp add: failed_times_def spaced_def List.map_filter_def)
next
  case (snoc r rs)
  then show ?case
    using failed_times_report [of k cfg r "jn_run cfg rs n"]
    by (auto simp: spaced_def successively_append_iff)
qed

lemma announced_report:
  "Bex (set (nt_notices n)) (announces k) \<Longrightarrow> Bex (set (nt_notices (jn_report cfg r n))) (announces k)"
  by (cases r) (auto simp: jn_defs split: option.splits)

lemma newly_disabled_announced:
  "k \<in> set (nt_disabledJobs (jn_report cfg r n)) \<Longrightarrow> k \<notin> set (nt_disabledJobs n) \<Longrightarrow>
   Bex (set (nt_notices (jn_report cfg r n))) (announces k)"
  by (cases r) (auto simp: jn_defs split: option.splits if_splits)

lemma announced_run:
  "k \<in> set (nt_disabledJobs (jn_run cfg rs n)) \<Longrightarrow> k \<notin> set (nt_disabledJobs n) \<Longrightarrow>
   Bex (set (nt_notices (jn_run cfg rs n))) (announces k)"
proof (induction rs rule: rev_induct)
  case (snoc r rs)
  then show ?case
    using announced_report [of "jn_run cfg rs n" k cfg r] newly_disabled_announced [of k cfg r "jn_run cfg rs n"]
    by (cases "k \<in> set (nt_disabledJobs (jn_run cfg rs n))") auto
qed simp

text \<open>What a restart would load is what is disabled now, when the disk took every write.\<close>

fun taken :: "report \<Rightarrow> bool" where
  "taken (Failure ok now app job err) = ok"
| "taken (Success app job) = True"
| "taken (ReEnable ok app job) = ok"

definition stored_agrees :: "notifier_config \<Rightarrow> notifier \<Rightarrow> bool" where
  "stored_agrees cfg n \<longleftrightarrow> set (jn_loadDisabledJobs cfg (nt_stored n)) = set (nt_disabledJobs n)"

lemma set_load: "nc_persists cfg \<Longrightarrow> set (jn_loadDisabledJobs cfg f) = (case f of None \<Rightarrow> {} | Some js \<Rightarrow> set js)"
  by (auto simp: jn_loadDisabledJobs_def split: option.splits)

lemma stored_agrees_report: "nc_persists cfg \<Longrightarrow> taken r \<Longrightarrow> stored_agrees cfg n \<Longrightarrow> stored_agrees cfg (jn_report cfg r n)"
  by (cases r) (auto simp: stored_agrees_def jn_defs set_load split: option.splits)

lemma stored_agrees_run:
  "nc_persists cfg \<Longrightarrow> list_all taken rs \<Longrightarrow> stored_agrees cfg n \<Longrightarrow> stored_agrees cfg (jn_run cfg rs n)"
  by (induction rs rule: rev_induct) (auto simp: stored_agrees_report)

section \<open>The interface\<close>

text \<open>
  What the managers rely on when several jobs report to one registry: a report about one job leaves
  the other jobs as they were.
\<close>

locale failure_registry =
  fixes disabled :: "string \<Rightarrow> 's \<Rightarrow> bool" and tell :: "report \<Rightarrow> 's \<Rightarrow> 's"
  assumes other_jobs: "subject r \<noteq> k \<Longrightarrow> disabled k (tell r s) = disabled k s"
begin

lemma others_told: "k \<notin> subject ` set rs \<Longrightarrow> disabled k (fold tell rs s) = disabled k s"
  by (induction rs arbitrary: s) (auto simp: other_jobs)

end

lemma disabled_other: "subject r \<noteq> k \<Longrightarrow> k \<in> set (nt_disabledJobs (jn_report cfg r n)) \<longleftrightarrow> k \<in> set (nt_disabledJobs n)"
  by (cases r) (auto simp: jn_defs split: option.splits)

interpretation jn: failure_registry "\<lambda>k n. k \<in> set (nt_disabledJobs n)" "jn_report cfg" for cfg
  by unfold_locales (rule disabled_other)

section \<open>Property\<close>

text \<open>
  C10. From any start, after any calls about any jobs: a job is off exactly when it was off in the file
  and not re-enabled since, or when it once failed the configured number of times with no success or
  re-enabling in between and has not been re-enabled since; its counter is the number of those
  failures; ordinary notices about it are at least the cooldown apart; a job that was switched off has
  been announced; and when the disk took every write, a restart finds the same jobs off.
\<close>

theorem failing_jobs_are_disabled:
  assumes new: "jn_new cfg f = Some n0" and run: "n = jn_run cfg rs n0" and k: "k = job_key app job"
  shows "(jn_isDisabled app job n \<longleftrightarrow>
       k \<in> set (jn_loadDisabledJobs cfg f) \<and> list_all (\<lambda>r. \<not> re_enables k r) rs \<or>
       tripped (nc_autoDisableAfter cfg) k rs) \<and>
    jn_getFailureCount app job n = streak k rs \<and>
    spaced (nc_cooldownMs cfg) (failed_times k n) \<and>
    (jn_isDisabled app job n \<and> k \<notin> set (jn_loadDisabledJobs cfg f) \<longrightarrow> Bex (set (nt_notices n)) (announces k)) \<and>
    (nc_persists cfg \<and> list_all taken rs \<longrightarrow>
       set (jn_loadDisabledJobs cfg (nt_stored n)) = set (jn_getDisabledJobs n))"
proof -
  have N: "0 < nc_autoDisableAfter cfg" and n0: "nt_state n0 = []" "nt_notices n0 = []" "nt_stored n0 = f"
    "nt_disabledJobs n0 = jn_loadDisabledJobs cfg f"
    using new by (auto simp: jn_new_def split: if_splits)
  have "stored_agrees cfg n" if "nc_persists cfg" "list_all taken rs"
    using stored_agrees_run [OF that] n0 by (simp add: run stored_agrees_def)
  moreover have "jn_getFailureCount app job n = failures_of k n"
    by (simp add: jn_getFailureCount_def failures_of_def k)
  ultimately show ?thesis
    using disabled_run [OF n0(1) N, of k rs] failures_run [OF n0(1), of k cfg rs] spaced_run [OF n0(1,2), of cfg k rs]
      announced_run [of k cfg rs n0]
    by (auto simp: run k n0(4) jn_isDisabled_def stored_agrees_def jn_getDisabledJobs_def)
qed

definition flaky_config :: notifier_config where
  "flaky_config = \<lparr>nc_cooldownMs = 1000, nc_autoDisableAfter = 3, nc_persists = True\<rparr>"

definition flaky_reports :: "report list" where
  "flaky_reports =
     [Failure True 5000 ''food'' ''prices'' ''offline'', Failure True 5500 ''food'' ''prices'' ''offline'',
      Success ''food'' ''prices'', Failure True 6000 ''food'' ''prices'' ''offline'', Failure True 6100 ''notes'' ''sync'' ''x'',
      Failure True 6500 ''food'' ''prices'' ''offline'', Failure True 6600 ''food'' ''prices'' ''offline'',
      ReEnable True ''notes'' ''sync'']"

lemma failing_jobs_are_disabled_witness:
  "(case jn_new flaky_config None of None \<Rightarrow> False
    | Some n0 \<Rightarrow> (let n = jn_run flaky_config flaky_reports n0
        in jn_isDisabled ''food'' ''prices'' n \<and> jn_getFailureCount ''food'' ''prices'' n = 3 \<and>
           failed_times ''food:prices'' n = [5000, 6000] \<and> spaced 1000 (failed_times ''food:prices'' n)))"
proof -
  obtain n0 where n0: "jn_new flaky_config None = Some n0" by (simp add: jn_new_def flaky_config_def)
  have k: "''food:prices'' = job_key ''food'' ''prices''" by code_simp
  have "tripped (nc_autoDisableAfter flaky_config) ''food:prices'' flaky_reports" by code_simp
  moreover have "streak ''food:prices'' flaky_reports = 3" by code_simp
  moreover have "failed_times ''food:prices'' (jn_run flaky_config flaky_reports (the (jn_new flaky_config None))) = [5000, 6000]"
    by code_simp
  moreover have "nc_cooldownMs flaky_config = 1000" by (simp add: flaky_config_def)
  ultimately show ?thesis
    using failing_jobs_are_disabled [OF n0 refl k, of flaky_reports] n0 by simp
qed

end
