(* ===== verification/Scheduler.thy ===== *)
theory Scheduler
  imports Job_Notifier Household
begin

text \<open>
  Scheduled jobs: \<open>services/scheduler\<close> (\<open>oneoff-manager.ts\<close>, \<open>cron-manager.ts\<close>, \<open>task-runner.ts\<close>,
  \<open>per-user-dispatch.ts\<close>). The one-off manager runs its operations one after the other through a
  promise chain, so an operation is a function of the file; while a handler runs, others may
  call the notifier (cron jobs, the GUI), which \<open>at_meanwhile\<close> lists. What an app's handler does is the
  parameter \<open>env\<close>; the check of a cron expression (node-cron) is the parameter \<open>valid_cron\<close>.
  A date is \<open>None\<close> when it is an invalid \<open>Date\<close>: it compares false with everything, and
  \<open>toISOString\<close> throws on it. The chain itself, with handlers that wait for it, is the step
  relation \<open>queue_step\<close> at the end.
\<close>

section \<open>Running a handler\<close>

text \<open>\<open>JobExecutionResult\<close>, without the two dates that only go to the log.\<close>

record job_result =
  jr_jobId :: string
  jr_appId :: string
  jr_success :: bool
  jr_error :: "string option"

text \<open>A handler returns, or throws the given message.\<close>

fun runTask :: "string \<Rightarrow> string \<Rightarrow> string option \<Rightarrow> job_result" where
  "runTask app job None = \<lparr>jr_jobId = job, jr_appId = app, jr_success = True, jr_error = None\<rparr>"
| "runTask app job (Some err) = \<lparr>jr_jobId = job, jr_appId = app, jr_success = False, jr_error = Some err\<rparr>"

text \<open>The call of the notifier that follows a run, in both managers.\<close>

definition report_of :: "bool \<Rightarrow> time \<Rightarrow> job_result \<Rightarrow> report" where
  "report_of ok now r =
     (if jr_success r then Success (jr_appId r) (jr_jobId r)
      else Failure ok now (jr_appId r) (jr_jobId r) (case jr_error r of None \<Rightarrow> ''Unknown error'' | Some e \<Rightarrow> e))"

section \<open>One-off tasks\<close>

record oneoff_task =
  ot_id :: string
  ot_appId :: string
  ot_jobId :: string
  ot_runAt :: "time option"
  ot_handler :: string
  ot_createdAt :: "time option"

text \<open>
  What a run of a handler brings: the error it throws, if any, the calls of the notifier by others
  until it ends, when its own result is reported, and whether the disk then takes a write.
\<close>

record attempt =
  at_error :: "string option"
  at_meanwhile :: "report list"
  at_time :: time
  at_ok :: bool

datatype oneoff_error = InvalidDate | WriteFailed

text \<open>
  The file of the tasks (\<open>None\<close> when it is missing or holds no list), the notifier, if one is wired,
  and the stop flag.
\<close>

record oneoff_world =
  ow_file :: "oneoff_task list option"
  ow_notifier :: "notifier option"
  ow_stopping :: bool

definition om_loadTasks :: "oneoff_task list option \<Rightarrow> oneoff_task list" where
  "om_loadTasks f = (case f of None \<Rightarrow> [] | Some ts \<Rightarrow> ts)"

definition valid_dates :: "oneoff_task \<Rightarrow> bool" where
  "valid_dates t \<longleftrightarrow> ot_runAt t \<noteq> None \<and> ot_createdAt t \<noteq> None"

definition om_saveTasks ::
  "bool \<Rightarrow> oneoff_task list \<Rightarrow> oneoff_task list option \<Rightarrow> (oneoff_error + unit) \<times> oneoff_task list option" where
  "om_saveTasks ok ts f =
     (if \<not> list_all valid_dates ts then (Inl InvalidDate, f)
      else if ok then (Inr (), Some ts) else (Inl WriteFailed, f))"

definition om_doSchedule ::
  "bool \<Rightarrow> time \<Rightarrow> string \<Rightarrow> string \<Rightarrow> time option \<Rightarrow> string \<Rightarrow> oneoff_task list option \<Rightarrow>
   (oneoff_error + unit) \<times> oneoff_task list option" where
  "om_doSchedule ok now app job runAt handler f =
     (let i = job_key app job
      in om_saveTasks ok (filter (\<lambda>t. ot_id t \<noteq> i) (om_loadTasks f) @
           [\<lparr>ot_id = i, ot_appId = app, ot_jobId = job, ot_runAt = runAt, ot_handler = handler,
             ot_createdAt = Some now\<rparr>]) f)"

definition om_doCancel ::
  "bool \<Rightarrow> string \<Rightarrow> string \<Rightarrow> oneoff_task list option \<Rightarrow> (oneoff_error + unit) \<times> oneoff_task list option" where
  "om_doCancel ok app job f =
     (let tasks = om_loadTasks f; kept = filter (\<lambda>t. ot_id t \<noteq> job_key app job) tasks
      in if length kept < length tasks then om_saveTasks ok kept f else (Inr (), f))"

text \<open>The notifier behind the optional chaining of the manager.\<close>

definition om_isDisabled :: "string \<Rightarrow> string \<Rightarrow> notifier option \<Rightarrow> bool" where
  "om_isDisabled app job n = (case n of None \<Rightarrow> False | Some n \<Rightarrow> jn_isDisabled app job n)"

definition om_getFailureCount :: "string \<Rightarrow> string \<Rightarrow> notifier option \<Rightarrow> nat" where
  "om_getFailureCount app job n = (case n of None \<Rightarrow> 0 | Some n \<Rightarrow> jn_getFailureCount app job n)"

definition om_report :: "notifier_config \<Rightarrow> report \<Rightarrow> notifier option \<Rightarrow> notifier option" where
  "om_report cfg r n = map_option (jn_report cfg r) n"

text \<open>
  The resolver is absent, or answers whether there is a handler for an app, a handler path and a job; it
  throws when there is none. What is due has a date that is not in the future.
\<close>

type_synonym resolver = "(string \<Rightarrow> string \<Rightarrow> string \<Rightarrow> bool) option"

definition not_yet :: "time \<Rightarrow> oneoff_task \<Rightarrow> bool" where
  "not_yet now t = (case ot_runAt t of None \<Rightarrow> False | Some d \<Rightarrow> now < d)"

definition resolves :: "resolver \<Rightarrow> oneoff_task \<Rightarrow> bool" where
  "resolves res t = (case res of None \<Rightarrow> False | Some f \<Rightarrow> f (ot_appId t) (ot_handler t) (ot_jobId t))"

definition reports_of :: "(oneoff_task \<Rightarrow> attempt) \<Rightarrow> oneoff_task \<Rightarrow> report list" where
  "reports_of env t =
     (let a = env t
      in at_meanwhile a @ [report_of (at_ok a) (at_time a) (runTask (ot_appId t) (ot_jobId t) (at_error a))])"

text \<open>The loop: what remains, what was attempted, and the notifier afterwards.\<close>

fun check_loop ::
  "notifier_config \<Rightarrow> resolver \<Rightarrow> (oneoff_task \<Rightarrow> attempt) \<Rightarrow> time \<Rightarrow> oneoff_task list \<Rightarrow> notifier option \<Rightarrow>
   oneoff_task list \<times> oneoff_task list \<times> notifier option" where
  "check_loop cfg res env now [] n = ([], [], n)"
| "check_loop cfg res env now (t # ts) n =
     (if not_yet now t \<or> \<not> resolves res t \<or> om_isDisabled (ot_appId t) (ot_jobId t) n then
        (let (rem, att, m) = check_loop cfg res env now ts n in (t # rem, att, m))
      else
        (let (rem, att, m) = check_loop cfg res env now ts (fold (om_report cfg) (reports_of env t) n)
         in (rem, t # att, m)))"

text \<open>A check answers which tasks it attempted, and whether it then failed to write the file.\<close>

definition om_doCheckAndExecute ::
  "notifier_config \<Rightarrow> resolver \<Rightarrow> (oneoff_task \<Rightarrow> attempt) \<Rightarrow> bool \<Rightarrow> time \<Rightarrow> oneoff_world \<Rightarrow>
   oneoff_task list \<times> (oneoff_error + unit) \<times> oneoff_world" where
  "om_doCheckAndExecute cfg res env ok now w =
     (if ow_stopping w then ([], Inr (), w)
      else (let tasks = om_loadTasks (ow_file w);
                (rem, att, n) = check_loop cfg res env now tasks (ow_notifier w);
                (e, f) = (if length rem \<noteq> length tasks then om_saveTasks ok rem (ow_file w) else (Inr (), ow_file w))
            in (att, e, w\<lparr>ow_file := f, ow_notifier := n\<rparr>)))"

definition om_getPendingTasks :: "oneoff_world \<Rightarrow> oneoff_task list" where
  "om_getPendingTasks w = om_loadTasks (ow_file w)"

text \<open>The operations that go through the chain, one at a time, and the calls that do not.\<close>

datatype oneoff_op =
    OSchedule time string string "time option" string
  | OCancel string string
  | OCheck resolver "oneoff_task \<Rightarrow> attempt" time
  | OStop
  | OReport report

fun om_exec ::
  "notifier_config \<Rightarrow> bool \<Rightarrow> oneoff_op \<Rightarrow> oneoff_world \<Rightarrow> oneoff_task list \<times> (oneoff_error + unit) \<times> oneoff_world" where
  "om_exec cfg ok (OSchedule now app job runAt handler) w =
     (let (e, f) = om_doSchedule ok now app job runAt handler (ow_file w) in ([], e, w\<lparr>ow_file := f\<rparr>))"
| "om_exec cfg ok (OCancel app job) w =
     (let (e, f) = om_doCancel ok app job (ow_file w) in ([], e, w\<lparr>ow_file := f\<rparr>))"
| "om_exec cfg ok (OCheck res env now) w = om_doCheckAndExecute cfg res env ok now w"
| "om_exec cfg ok OStop w = ([], Inr (), w\<lparr>ow_stopping := True\<rparr>)"
| "om_exec cfg ok (OReport r) w = ([], Inr (), w\<lparr>ow_notifier := om_report cfg r (ow_notifier w)\<rparr>)"

section \<open>The loop\<close>

definition off :: "string \<Rightarrow> notifier option \<Rightarrow> bool" where
  "off k n \<longleftrightarrow> (case n of None \<Rightarrow> False | Some n \<Rightarrow> k \<in> set (nt_disabledJobs n))"

lemma om_isDisabled_off: "om_isDisabled app job n = off (job_key app job) n"
  by (auto simp: om_isDisabled_def off_def jn_isDisabled_def split: option.splits)

lemma off_other: "subject r \<noteq> k \<Longrightarrow> off k (om_report cfg r n) = off k n"
  by (cases n) (auto simp: off_def om_report_def disabled_other)

interpretation om: failure_registry off "om_report cfg" for cfg
  by unfold_locales (rule off_other)

definition own_key :: "oneoff_task \<Rightarrow> bool" where
  "own_key t \<longleftrightarrow> ot_id t = job_key (ot_appId t) (ot_jobId t)"

definition tasks_ok :: "oneoff_task list \<Rightarrow> bool" where
  "tasks_ok ts \<longleftrightarrow> distinct (map ot_id ts) \<and> list_all valid_dates ts \<and> list_all own_key ts"

text \<open>The jobs that others report about while a task runs.\<close>

definition bystanders :: "(oneoff_task \<Rightarrow> attempt) \<Rightarrow> oneoff_task list \<Rightarrow> string set" where
  "bystanders env ts = (\<Union>t \<in> set ts. subject ` set (at_meanwhile (env t)))"

lemma subject_reports: "subject ` set (reports_of env t) = insert (job_key (ot_appId t) (ot_jobId t)) (subject ` set (at_meanwhile (env t)))"
  by (cases "at_error (env t)") (auto simp: reports_of_def report_of_def Let_def)

definition left_alone :: "resolver \<Rightarrow> time \<Rightarrow> oneoff_task \<Rightarrow> notifier option \<Rightarrow> bool" where
  "left_alone res now t n \<longleftrightarrow> not_yet now t \<or> \<not> resolves res t \<or> om_isDisabled (ot_appId t) (ot_jobId t) n"

lemma loop_Cons [consumes 1, case_names kept tried]:
  assumes "check_loop cfg res env now (t # ts) n = (rem, att, m)"
  obtains (kept) rem' where "check_loop cfg res env now ts n = (rem', att, m)" "rem = t # rem'" "left_alone res now t n"
  | (tried) att' where "check_loop cfg res env now ts (fold (om_report cfg) (reports_of env t) n) = (rem, att', m)"
      "att = t # att'" "\<not> left_alone res now t n"
  using assms by (auto simp: left_alone_def split: if_splits prod.splits)

lemma loop_parts:
  "check_loop cfg res env now ts n = (rem, att, m) \<Longrightarrow>
   set rem \<union> set att = set ts \<and> length rem + length att = length ts \<and>
   (\<forall>t \<in> set att. \<not> not_yet now t \<and> resolves res t) \<and>
   m = fold (om_report cfg) (concat (map (reports_of env) att)) n"
proof (induction ts arbitrary: n rem att m)
  case (Cons t ts)
  from Cons.prems show ?case
  proof (cases rule: loop_Cons)
    case (kept rem')
    then show ?thesis using Cons.IH [OF kept(1)] by auto
  next
    case (tried att')
    then show ?thesis using Cons.IH [OF tried(1)] by (auto simp: left_alone_def)
  qed
qed simp

lemma loop_remains:
  "check_loop cfg res env now ts n = (rem, att, m) \<Longrightarrow> distinct ts \<Longrightarrow>
   rem = filter (\<lambda>t. t \<notin> set att) ts \<and> att = filter (\<lambda>t. t \<in> set att) ts"
proof (induction ts arbitrary: n rem att m)
  case (Cons t ts)
  obtain n' rem' att' m' where rec: "check_loop cfg res env now ts n' = (rem', att', m')"
    and new: "rem = t # rem' \<and> att = att' \<or> rem = rem' \<and> att = t # att'"
    using Cons.prems(1) by (auto split: if_splits prod.splits)
  have "set rem' \<union> set att' = set ts" using loop_parts [OF rec] by blast
  then have "t \<notin> set att'" "t \<notin> set rem'" using Cons.prems(2) by auto
  moreover have "filter (\<lambda>u. u = t \<or> u \<in> set att') ts = filter (\<lambda>u. u \<in> set att') ts"
    "filter (\<lambda>u. u \<noteq> t \<and> u \<notin> set att') ts = filter (\<lambda>u. u \<notin> set att') ts"
    using Cons.prems(2) by (auto intro: filter_cong)
  ultimately show ?case using Cons.IH [OF rec] Cons.prems(2) new by auto
qed simp

lemma loop_decides:
  assumes "check_loop cfg res env now ts n = (rem, att, m)" "distinct (map ot_id ts)" "list_all own_key ts"
    "t \<in> set ts" "\<not> not_yet now t" "resolves res t" "ot_id t \<notin> bystanders env att"
  shows "t \<in> set att \<longleftrightarrow> \<not> off (ot_id t) n"
  using assms
proof (induction ts arbitrary: n rem att m)
  case (Cons x ts)
  have own: "om_isDisabled (ot_appId x) (ot_jobId x) n = off (ot_id x) n"
    using Cons.prems(3) by (simp add: om_isDisabled_off own_key_def)
  from Cons.prems(1) show ?case
  proof (cases rule: loop_Cons)
    case (kept rem')
    show ?thesis
    proof (cases "t = x")
      case True
      have "set att \<subseteq> set ts" using loop_parts [OF kept(1)] by blast
      then have "x \<notin> set att" using Cons.prems(2) by auto
      then show ?thesis using True kept(3) own Cons.prems(5,6) by (simp add: left_alone_def)
    next
      case False
      then show ?thesis using Cons.IH [OF kept(1)] Cons.prems by simp
    qed
  next
    case (tried att')
    show ?thesis
    proof (cases "t = x")
      case True
      then show ?thesis using tried own by (simp add: left_alone_def)
    next
      case False
      then have t: "t \<in> set ts" using Cons.prems(4) by simp
      then have "ot_id t \<noteq> ot_id x" using Cons.prems(2) by (metis distinct.simps(2) image_eqI list.set_map list.simps(9))
      then have "ot_id t \<notin> subject ` set (reports_of env x)"
        using Cons.prems(3,7) tried(2) by (auto simp: subject_reports bystanders_def own_key_def)
      then have "off (ot_id t) (fold (om_report cfg) (reports_of env x) n) = off (ot_id t) n" by (rule om.others_told)
      moreover have "t \<in> set att' \<longleftrightarrow> \<not> off (ot_id t) (fold (om_report cfg) (reports_of env x) n)"
        using Cons.IH [OF tried(1)] Cons.prems t tried(2) by (simp add: bystanders_def)
      ultimately show ?thesis using tried(2) False by simp
    qed
  qed
qed simp

section \<open>What is pending\<close>

definition pending :: "oneoff_world \<Rightarrow> string \<Rightarrow> oneoff_task option" where
  "pending w k = find (\<lambda>t. ot_id t = k) (om_getPendingTasks w)"

type_synonym entry = "oneoff_op \<times> oneoff_task list \<times> (oneoff_error + unit)"

text \<open>
  The reference: what a history of operations and their outcomes leaves of the job \<open>k\<close>. An operation that
  failed left no trace; a task is gone once it was cancelled, replaced, or attempted.
\<close>

fun heard :: "string \<Rightarrow> entry \<Rightarrow> oneoff_task option \<Rightarrow> oneoff_task option" where
  "heard k (op, att, Inl e) p = p"
| "heard k (OSchedule now app job runAt handler, att, Inr u) p =
     (if job_key app job = k then
        Some \<lparr>ot_id = k, ot_appId = app, ot_jobId = job, ot_runAt = runAt, ot_handler = handler, ot_createdAt = Some now\<rparr>
      else p)"
| "heard k (OCancel app job, att, Inr u) p = (if job_key app job = k then None else p)"
| "heard k (OCheck res env now, att, Inr u) p = (if k \<in> ot_id ` set att then None else p)"
| "heard k (OStop, att, Inr u) p = p"
| "heard k (OReport r, att, Inr u) p = p"

definition last_word :: "entry list \<Rightarrow> string \<Rightarrow> oneoff_task option" where
  "last_word h k = fold (heard k) h None"

fun om_run :: "notifier_config \<Rightarrow> (bool \<times> oneoff_op) list \<Rightarrow> oneoff_world \<Rightarrow> entry list \<times> oneoff_world" where
  "om_run cfg [] w = ([], w)"
| "om_run cfg ((ok, op) # ops) w =
     (let (att, e, w1) = om_exec cfg ok op w; (h, w2) = om_run cfg ops w1 in ((op, att, e) # h, w2))"

definition world_ok :: "oneoff_world \<Rightarrow> bool" where
  "world_ok w \<longleftrightarrow> tasks_ok (om_getPendingTasks w)"

lemma find_filter: "find P (filter Q xs) = find (\<lambda>x. Q x \<and> P x) xs"
  by (induction xs) auto

lemma find_append: "find P (xs @ ys) = (case find P xs of None \<Rightarrow> find P ys | Some x \<Rightarrow> Some x)"
  by (induction xs) auto

lemma find_False: "(\<And>x. x \<in> set xs \<Longrightarrow> \<not> P x) \<Longrightarrow> find P xs = None"
  by (auto simp: find_None_iff)

lemma find_removed: "find (\<lambda>t. ot_id t = k) (filter (\<lambda>t. ot_id t \<noteq> i) ts) = (if i = k then None else find (\<lambda>t. ot_id t = k) ts)"
  by (induction ts) auto

lemma find_replaced:
  "ot_id t = i \<Longrightarrow> find (\<lambda>t. ot_id t = k) (filter (\<lambda>t. ot_id t \<noteq> i) ts @ [t]) =
     (if i = k then Some t else find (\<lambda>t. ot_id t = k) ts)"
  by (auto simp: find_append find_removed split: option.splits)

lemma tasks_ok_filter: "tasks_ok ts \<Longrightarrow> tasks_ok (filter P ts)"
  by (auto simp: tasks_ok_def list_all_iff distinct_map_filter)

lemma find_id: "distinct (map ot_id ts) \<Longrightarrow> find (\<lambda>t. ot_id t = k) ts = Some t \<longleftrightarrow> t \<in> set ts \<and> ot_id t = k"
  by (induction ts) force+

lemma pending_Some: "world_ok w \<Longrightarrow> pending w k = Some t \<longleftrightarrow> t \<in> set (om_getPendingTasks w) \<and> ot_id t = k"
  unfolding pending_def world_ok_def tasks_ok_def by (simp add: find_id)

lemma pending_file: "pending w k = find (\<lambda>t. ot_id t = k) (om_loadTasks (ow_file w))"
  by (simp add: pending_def om_getPendingTasks_def)

lemma tasks_schedule:
  assumes "tasks_ok ts"
  shows "runAt \<noteq> None \<Longrightarrow> tasks_ok (filter (\<lambda>t. ot_id t \<noteq> job_key app job) ts @
     [\<lparr>ot_id = job_key app job, ot_appId = app, ot_jobId = job, ot_runAt = runAt, ot_handler = handler,
       ot_createdAt = Some now\<rparr>])"
  using tasks_ok_filter [OF assms, of "\<lambda>t. ot_id t \<noteq> job_key app job"]
  by (auto simp: tasks_ok_def valid_dates_def own_key_def)

text \<open>What a write leaves: the new tasks, or the old file with the error.\<close>

lemma save_cases [consumes 1, case_names saved failed]:
  assumes "om_saveTasks ok ts f = (e, g)"
  obtains (saved) "e = Inr ()" "g = Some ts" "list_all valid_dates ts" | (failed) x where "e = Inl x" "g = f"
  using assms by (auto simp: om_saveTasks_def split: if_splits)

lemma check_pending:
  assumes w: "world_ok w" and run: "om_doCheckAndExecute cfg res env ok now w = (att, e, w')"
  shows "world_ok w' \<and> pending w' k = heard k (OCheck res env now, att, e) (pending w k)"
proof (cases "ow_stopping w")
  case True
  then show ?thesis using assms by (auto simp: om_doCheckAndExecute_def)
next
  case False
  define ts where "ts = om_loadTasks (ow_file w)"
  obtain rem n where loop: "check_loop cfg res env now ts (ow_notifier w) = (rem, att, n)"
    and save: "(if length rem \<noteq> length ts then om_saveTasks ok rem (ow_file w) else (Inr (), ow_file w)) = (e, ow_file w')"
    using run False by (auto simp: om_doCheckAndExecute_def ts_def Let_def split: prod.splits)
  have ok: "tasks_ok ts" using w by (simp add: world_ok_def om_getPendingTasks_def ts_def)
  then have "distinct ts" by (auto simp: tasks_ok_def distinct_map)
  note parts = loop_parts [OF loop] and rem = loop_remains [OF loop this]
  have gone: "find (\<lambda>t. ot_id t = k) rem = (if k \<in> ot_id ` set att then None else find (\<lambda>t. ot_id t = k) ts)"
  proof (cases "k \<in> ot_id ` set att")
    case True
    then have "t \<in> set att" if "t \<in> set ts" "ot_id t = k" for t
      using that ok parts by (auto simp: tasks_ok_def distinct_map inj_on_def)
    then show ?thesis using True rem by (auto simp: find_None_iff)
  next
    case False
    then have "find (\<lambda>t. t \<notin> set att \<and> ot_id t = k) ts = find (\<lambda>t. ot_id t = k) ts"
      by (intro find_cong) auto
    then show ?thesis using False rem by (metis find_filter)
  qed
  have rem_ok: "tasks_ok rem" using tasks_ok_filter [OF ok] rem by metis
  show ?thesis
  proof (cases "length rem \<noteq> length ts")
    case True
    with save have "om_saveTasks ok rem (ow_file w) = (e, ow_file w')" by simp
    then show ?thesis
      by (cases rule: save_cases)
         (use gone rem_ok w in \<open>auto simp: pending_file world_ok_def om_getPendingTasks_def om_loadTasks_def ts_def\<close>)
  next
    case False
    then have "att = []" using parts by simp
    then show ?thesis using save False w by (auto simp: pending_file world_ok_def om_getPendingTasks_def)
  qed
qed

lemma exec_pending:
  assumes w: "world_ok w" and run: "om_exec cfg ok op w = (att, e, w')"
  shows "world_ok w' \<and> pending w' k = heard k (op, att, e) (pending w k)"
proof (cases op)
  case (OSchedule now app job runAt handler)
  define ts where "ts = om_loadTasks (ow_file w)"
  have ok: "tasks_ok ts" using w by (simp add: world_ok_def om_getPendingTasks_def ts_def)
  define t where "t = \<lparr>ot_id = job_key app job, ot_appId = app, ot_jobId = job, ot_runAt = runAt, ot_handler = handler,
       ot_createdAt = Some now\<rparr>"
  have "om_saveTasks ok (filter (\<lambda>t. ot_id t \<noteq> job_key app job) ts @ [t]) (ow_file w) = (e, ow_file w')"
    using run by (auto simp: OSchedule om_doSchedule_def ts_def t_def Let_def split: prod.splits)
  then show ?thesis
  proof (cases rule: save_cases)
    case saved
    have "runAt \<noteq> None" using saved(3) by (simp add: t_def valid_dates_def)
    then have "tasks_ok (filter (\<lambda>t. ot_id t \<noteq> job_key app job) ts @ [t])" unfolding t_def by (rule tasks_schedule [OF ok])
    moreover have "ot_id t = job_key app job" by (simp add: t_def)
    ultimately show ?thesis
      using saved find_replaced [of t "job_key app job" k ts]
      by (auto simp: OSchedule pending_file world_ok_def om_getPendingTasks_def om_loadTasks_def ts_def t_def)
  qed (use w in \<open>auto simp: pending_file world_ok_def om_getPendingTasks_def\<close>)
next
  case (OCancel app job)
  define ts where "ts = om_loadTasks (ow_file w)"
  define kept where "kept = filter (\<lambda>t. ot_id t \<noteq> job_key app job) ts"
  have ok: "tasks_ok kept" using w tasks_ok_filter by (simp add: world_ok_def om_getPendingTasks_def ts_def kept_def)
  have run: "(if length kept < length ts then om_saveTasks ok kept (ow_file w) else (Inr (), ow_file w)) = (e, ow_file w')"
    using run by (auto simp: OCancel om_doCancel_def ts_def kept_def Let_def split: prod.splits)
  have removed: "find (\<lambda>t. ot_id t = k) kept = (if job_key app job = k then None else find (\<lambda>t. ot_id t = k) ts)"
    unfolding kept_def by (rule find_removed)
  show ?thesis
  proof (cases "length kept < length ts")
    case True
    with run have "om_saveTasks ok kept (ow_file w) = (e, ow_file w')" by simp
    then show ?thesis
      by (cases rule: save_cases)
         (use w removed ok in \<open>auto simp: OCancel pending_file world_ok_def om_getPendingTasks_def om_loadTasks_def ts_def\<close>)
  next
    case False
    then have "ot_id t \<noteq> job_key app job" if "t \<in> set ts" for t
      using that length_filter_less [of t ts "\<lambda>t. ot_id t \<noteq> job_key app job"] by (auto simp: kept_def)
    then have "kept = ts" by (simp add: kept_def filter_id_conv)
    with removed have "find (\<lambda>t. ot_id t = k) ts = (if job_key app job = k then None else find (\<lambda>t. ot_id t = k) ts)"
      by (simp only:)
    moreover have "e = Inr ()" "ow_file w' = ow_file w" using run False by (simp_all only: if_False prod.inject)
    ultimately show ?thesis using w by (simp only: OCancel pending_file world_ok_def om_getPendingTasks_def heard.simps ts_def)
  qed
next
  case (OCheck res env now)
  then show ?thesis using check_pending [OF w] run by simp
qed (use assms in \<open>auto simp: pending_file world_ok_def om_getPendingTasks_def\<close>)

lemma run_pending:
  "om_run cfg ops w = (h, w') \<Longrightarrow> world_ok w \<Longrightarrow>
   world_ok w' \<and> pending w' k = fold (heard k) h (pending w k)"
proof (induction ops arbitrary: w h)
  case (Cons x ops)
  obtain ok op where x: "x = (ok, op)" by (cases x)
  obtain att e w1 where e: "om_exec cfg ok op w = (att, e, w1)" by (metis prod_cases3)
  obtain h1 where h: "om_run cfg ops w1 = (h1, w')" "h = (op, att, e) # h1"
    using Cons.prems(1) x e by (auto split: prod.splits)
  then show ?case using Cons.IH exec_pending [OF Cons.prems(2) e, of k] by simp
qed simp

lemma last_word_snoc: "last_word (h @ [x]) k = heard k x (last_word h k)"
  by (simp add: last_word_def)

section \<open>The chain of operations\<close>

record chain =
  ch_jobs :: "nat list"
  ch_awaits :: "nat \<Rightarrow> nat option"

text \<open>
  \<open>enqueue\<close> puts an operation at the end. The first operation runs; the handler of a check may wait for
  another operation of the chain, and the operation ends when it waits for none or for one that has ended.
\<close>

inductive chain_step :: "chain \<Rightarrow> chain \<Rightarrow> bool" where
  om_enqueue: "j \<notin> set (ch_jobs c) \<Longrightarrow> chain_step c (c\<lparr>ch_jobs := ch_jobs c @ [j]\<rparr>)"
| om_await: "ch_jobs c = i # js \<Longrightarrow> ch_awaits c i = None \<Longrightarrow> chain_step c (c\<lparr>ch_awaits := (ch_awaits c)(i := Some k)\<rparr>)"
| om_resume: "ch_jobs c = i # js \<Longrightarrow> ch_awaits c i = Some k \<Longrightarrow> k \<notin> set (ch_jobs c) \<Longrightarrow>
     chain_step c (c\<lparr>ch_awaits := (ch_awaits c)(i := None)\<rparr>)"
| om_settle: "ch_jobs c = i # js \<Longrightarrow> ch_awaits c i = None \<Longrightarrow> chain_step c (c\<lparr>ch_jobs := js\<rparr>)"

inductive_cases chain_stepE: "chain_step c d"

section \<open>Cron jobs\<close>

datatype user_scope = ScopeAll | ScopeShared | ScopeSystem

record cron_job =
  cj_id :: string
  cj_appId :: string
  cj_cron :: string
  cj_handler :: string
  cj_description :: string
  cj_userScope :: user_scope

text \<open>
  \<open>cw_stored\<close> is \<open>cron-last-run.json\<close>, \<open>cw_inFlight\<close> the number of runs that have begun and not
  ended, \<open>cw_waiting\<close> the number of resolvers that a stop has left to be called when it falls to zero.
\<close>

record cron_world =
  cw_jobs :: "cron_job jsmap"
  cw_lastRunAt :: "time jsmap"
  cw_stored :: "time option jsmap option"
  cw_notifier :: "notifier option"
  cw_inFlight :: nat
  cw_waiting :: nat
  cw_started :: bool

definition cj_key :: "cron_job \<Rightarrow> string" where
  "cj_key j = job_key (cj_appId j) (cj_id j)"

text \<open>Entries whose date is not a date are skipped.\<close>

definition cm_loadLastRunData :: "time option jsmap option \<Rightarrow> time jsmap" where
  "cm_loadLastRunData f =
     (case f of None \<Rightarrow> []
      | Some es \<Rightarrow> fold (\<lambda>(k, d) m. case d of None \<Rightarrow> m | Some t \<Rightarrow> set_key k t m) es [])"

definition cm_persistLastRunData :: "bool \<Rightarrow> cron_world \<Rightarrow> cron_world" where
  "cm_persistLastRunData ok w =
     (if ok then w\<lparr>cw_stored := Some (map (\<lambda>(k, t). (k, Some t)) (cw_lastRunAt w))\<rparr> else w)"

definition cm_register :: "(string \<Rightarrow> bool) \<Rightarrow> cron_job \<Rightarrow> cron_world \<Rightarrow> cron_world" where
  "cm_register valid_cron j w =
     (if has_key (cj_key j) (cw_jobs w) then w
      else if \<not> valid_cron (cj_cron j) then w
      else w\<lparr>cw_jobs := set_key (cj_key j) j (cw_jobs w)\<rparr>)"

text \<open>
  The callback of a job: a disabled job is skipped, otherwise a run begins; then the handler
  is resolved and run; then its result is recorded; and in any case the run ends.
\<close>

definition cm_begin :: "cron_job \<Rightarrow> cron_world \<Rightarrow> bool \<times> cron_world" where
  "cm_begin j w =
     (if om_isDisabled (cj_appId j) (cj_id j) (cw_notifier w) then (False, w)
      else (True, w\<lparr>cw_inFlight := cw_inFlight w + 1\<rparr>))"

definition cm_record ::
  "notifier_config \<Rightarrow> bool \<Rightarrow> bool \<Rightarrow> time \<Rightarrow> cron_job \<Rightarrow> string option \<Rightarrow> cron_world \<Rightarrow> cron_world" where
  "cm_record cfg ok1 ok2 now j err w =
     (let w = cm_persistLastRunData ok1 (w\<lparr>cw_lastRunAt := set_key (cj_key j) now (cw_lastRunAt w)\<rparr>)
      in w\<lparr>cw_notifier := om_report cfg (report_of ok2 now (runTask (cj_appId j) (cj_id j) err)) (cw_notifier w)\<rparr>)"

text \<open>The answer is the number of resolvers called.\<close>

definition cm_end :: "cron_world \<Rightarrow> nat \<times> cron_world" where
  "cm_end w =
     (let w = w\<lparr>cw_inFlight := cw_inFlight w - 1\<rparr>
      in if cw_inFlight w = 0 then (cw_waiting w, w\<lparr>cw_waiting := 0\<rparr>) else (0, w))"

definition cm_start :: "cron_world \<Rightarrow> cron_world" where
  "cm_start w = w\<lparr>cw_started := True\<rparr>"

text \<open>Whether the stop has to wait for a resolver (or its thirty seconds).\<close>

definition cm_stop :: "cron_world \<Rightarrow> bool \<times> cron_world" where
  "cm_stop w =
     (let w = w\<lparr>cw_started := False\<rparr>
      in if 0 < cw_inFlight w then (True, w\<lparr>cw_waiting := cw_waiting w + 1\<rparr>) else (False, w))"

definition cm_unregister :: "bool \<Rightarrow> string \<Rightarrow> cron_world \<Rightarrow> bool \<times> cron_world" where
  "cm_unregister ok k w =
     (if has_key k (cw_jobs w) then
        (True, cm_persistLastRunData ok (w\<lparr>cw_jobs := del_key k (cw_jobs w), cw_lastRunAt := del_key k (cw_lastRunAt w)\<rparr>))
      else (False, w))"

definition cm_reEnable :: "notifier_config \<Rightarrow> bool \<Rightarrow> string \<Rightarrow> string \<Rightarrow> cron_world \<Rightarrow> bool \<times> cron_world" where
  "cm_reEnable cfg ok app job w =
     (case cw_notifier w of None \<Rightarrow> (False, w)
      | Some n \<Rightarrow> (jn_isDisabled app job n, w\<lparr>cw_notifier := Some (jn_reEnable cfg ok app job n)\<rparr>))"

definition cm_getRegisteredJobs :: "cron_world \<Rightarrow> string list" where
  "cm_getRegisteredJobs w = keys (cw_jobs w)"

definition cm_hasJob :: "string \<Rightarrow> cron_world \<Rightarrow> bool" where
  "cm_hasJob k w = has_key k (cw_jobs w)"

definition cm_getJobDetails :: "cron_world \<Rightarrow> (cron_job \<times> string \<times> time option \<times> bool \<times> nat) list" where
  "cm_getJobDetails w =
     map (\<lambda>(k, j). (j, k, map_of (cw_lastRunAt w) k, om_isDisabled (cj_appId j) (cj_id j) (cw_notifier w),
           om_getFailureCount (cj_appId j) (cj_id j) (cw_notifier w))) (cw_jobs w)"

section \<open>Whom a job is run for\<close>

text \<open>
  One call of the app's \<open>handleScheduledJob\<close>, with the user and the household of its request
  context. \<open>env\<close> says what a call throws; \<open>None\<close> for the household service is an installation without
  one, and \<open>listed\<close> is what \<open>listHouseholds\<close> answers (it sorts by locale).
\<close>

type_synonym invocation = "string option \<times> string option"

definition dispatch ::
  "bool \<Rightarrow> user_scope \<Rightarrow> string list \<Rightarrow> household_service option \<Rightarrow> household list \<Rightarrow> (invocation \<Rightarrow> string option) \<Rightarrow>
   invocation list \<times> string option" where
  "dispatch has_handler scope users hs listed env =
     (if \<not> has_handler then ([], None)
      else case (scope, hs) of
        (ScopeAll, _) \<Rightarrow>
          (map (\<lambda>u. (Some u, case hs of None \<Rightarrow> None | Some h \<Rightarrow> hs_getHouseholdForUser u h)) users, None)
      | (ScopeShared, Some _) \<Rightarrow> (map (\<lambda>hh. (None, Some (hh_id hh))) listed, None)
      | _ \<Rightarrow> ([(None, None)], env (None, None)))"

section \<open>Facts about the managers\<close>

text \<open>The runs of the callbacks, in any order: \<open>Some j\<close> when a run of \<open>j\<close> begins, \<open>None\<close> when one ends.\<close>

datatype cron_event = CBegin cron_job | CEnd | CStop

fun cm_event :: "cron_event \<Rightarrow> cron_world \<Rightarrow> cron_world" where
  "cm_event (CBegin j) w = snd (cm_begin j w)"
| "cm_event CEnd w = snd (cm_end w)"
| "cm_event CStop w = snd (cm_stop w)"

text \<open>A stop never waits for a run that is over: a resolver is left only while something runs.\<close>

lemma waiting_means_running:
  assumes "0 < cw_waiting w \<longrightarrow> 0 < cw_inFlight w"
  shows "0 < cw_waiting (fold cm_event es w) \<longrightarrow> 0 < cw_inFlight (fold cm_event es w)"
  using assms
proof (induction es arbitrary: w)
  case (Cons e es)
  have "0 < cw_waiting (cm_event e w) \<longrightarrow> 0 < cw_inFlight (cm_event e w)"
    using Cons.prems by (cases e) (auto simp: cm_begin_def cm_end_def cm_stop_def Let_def)
  then show ?case using Cons.IH by simp
qed simp

text \<open>A restart restores the times of the last runs.\<close>

lemma set_key_snoc: "distinct (keys (m @ [(k, v)])) \<Longrightarrow> set_key k v m = m @ [(k, v)]"
  by (rule set_key_new) simp

lemma fold_set_key: "distinct (keys (m @ es)) \<Longrightarrow> fold (\<lambda>(k, v). set_key k v) es m = m @ es"
proof (induction es arbitrary: m)
  case (Cons x es)
  then show ?case by (cases x) (auto simp: set_key_new)
qed simp

lemma last_runs_survive:
  assumes "distinct (keys (cw_lastRunAt w))"
  shows "cm_loadLastRunData (cw_stored (cm_persistLastRunData True w)) = cw_lastRunAt w"
  using fold_set_key [of "[]" "cw_lastRunAt w"] assms
  by (simp add: cm_loadLastRunData_def cm_persistLastRunData_def fold_map comp_def case_prod_unfold)

text \<open>A job that is off does not begin.\<close>

lemma cron_respects_off: "fst (cm_begin j w) \<longleftrightarrow> \<not> off (cj_key j) (cw_notifier w)"
  by (simp add: cm_begin_def om_isDisabled_off cj_key_def)

text \<open>
  A job that runs per user or per household reaches every one of them, and never fails as a whole: its
  failures never reach the notifier, so it is neither announced nor switched off.
\<close>

lemma per_user_jobs_never_fail:
  "snd (dispatch True ScopeAll users hs listed env) = None"
  "map fst (fst (dispatch True ScopeAll users hs listed env)) = map Some users"
  "snd (dispatch True ScopeShared users (Some h) listed env) = None"
  "map snd (fst (dispatch True ScopeShared users (Some h) listed env)) = map (\<lambda>hh. Some (hh_id hh)) listed"
  by (simp_all add: dispatch_def comp_def)

text \<open>A handler that waits for an operation behind it holds up the chain for good.\<close>

lemma chain_stuck:
  assumes "chain_step\<^sup>*\<^sup>* c d" "ch_jobs c = i # js" "ch_awaits c i = Some k" "k \<in> set js"
  shows "(\<exists>ks. ch_jobs d = i # js @ ks) \<and> ch_awaits d i = Some k"
  using assms(1)
proof (induction rule: rtranclp_induct)
  case base
  then show ?case using assms by simp
next
  case (step d e)
  then obtain ks where "ch_jobs d = i # js @ ks" "ch_awaits d i = Some k" by blast
  with step.hyps(2) assms(4) show ?case by (auto elim!: chain_stepE)
qed

lemma awaited_schedule_deadlocks:
  assumes "ch_jobs c = i # js" "ch_awaits c i = None" "j \<notin> set (i # js)"
    and "d = c\<lparr>ch_jobs := ch_jobs c @ [j], ch_awaits := (ch_awaits c)(i := Some j)\<rparr>"
  shows "chain_step\<^sup>*\<^sup>* c d \<and> (\<forall>e. chain_step\<^sup>*\<^sup>* d e \<longrightarrow> i = hd (ch_jobs e) \<and> j \<in> set (ch_jobs e))"
proof -
  have "chain_step c (c\<lparr>ch_jobs := ch_jobs c @ [j]\<rparr>)" using assms by (intro om_enqueue) auto
  moreover have "chain_step (c\<lparr>ch_jobs := ch_jobs c @ [j]\<rparr>) d"
    using om_await [of "c\<lparr>ch_jobs := ch_jobs c @ [j]\<rparr>" i "js @ [j]" j] assms by simp
  ultimately have "chain_step\<^sup>*\<^sup>* c d" by (meson converse_rtranclp_into_rtranclp rtranclp.rtrancl_refl)
  moreover have "i = hd (ch_jobs e) \<and> j \<in> set (ch_jobs e)" if "chain_step\<^sup>*\<^sup>* d e" for e
    using chain_stuck [OF that, of i "js @ [j]" j] assms by auto
  ultimately show ?thesis by blast
qed

section \<open>Property\<close>

text \<open>
  C40. What is pending is what the history says: a task is there from the operation that scheduled it until it
  is replaced, cancelled or attempted, whatever fails in between. A check attempts only tasks that are
  pending, due and resolvable, each once; and of those whose job nobody else reports about meanwhile,
  exactly those whose job is not off, unless the manager is stopping. Each attempt is reported to the
  notifier, in the order of the attempts.
\<close>

theorem one_off_tasks_follow_history:
  assumes start: "ow_file start = None" and h: "om_run cfg ops start = (h, w)"
    and check: "om_exec cfg ok (OCheck res env now) w = (att, e, w')"
  shows "pending w = last_word h \<and> pending w' = last_word (h @ [(OCheck res env now, att, e)]) \<and>
    distinct (map ot_id att) \<and>
    (\<forall>t \<in> set att. last_word h (ot_id t) = Some t \<and> \<not> not_yet now t \<and> resolves res t) \<and>
    (\<forall>t. last_word h (ot_id t) = Some t \<and> \<not> not_yet now t \<and> resolves res t \<and> ot_id t \<notin> bystanders env att \<longrightarrow>
       (t \<in> set att \<longleftrightarrow> \<not> ow_stopping w \<and> \<not> om_isDisabled (ot_appId t) (ot_jobId t) (ow_notifier w))) \<and>
    ow_notifier w' = fold (om_report cfg) (concat (map (reports_of env) att)) (ow_notifier w)"
proof -
  have s: "world_ok start" "pending start k = None" for k
    using start by (simp_all add: world_ok_def tasks_ok_def pending_def om_getPendingTasks_def om_loadTasks_def)
  have w: "world_ok w" "pending w = last_word h"
    using run_pending [OF h s(1)] s(2) by (auto simp: last_word_def)
  have w': "pending w' = last_word (h @ [(OCheck res env now, att, e)])"
    using exec_pending [OF w(1) check] w(2) by (auto simp: last_word_snoc)
  show ?thesis
  proof (cases "ow_stopping w")
    case True
    then show ?thesis using check w w' by (auto simp: om_doCheckAndExecute_def)
  next
    case False
    define ts where "ts = om_getPendingTasks w"
    obtain rem n where loop: "check_loop cfg res env now ts (ow_notifier w) = (rem, att, n)" and n: "ow_notifier w' = n"
      using check False by (auto simp: om_doCheckAndExecute_def ts_def om_getPendingTasks_def Let_def split: prod.splits)
    have ok: "distinct (map ot_id ts)" "list_all own_key ts" using w(1) by (auto simp: world_ok_def tasks_ok_def ts_def)
    have att: "att = filter (\<lambda>t. t \<in> set att) ts" using loop_remains [OF loop] ok(1) by (auto simp: distinct_map)
    have there: "last_word h (ot_id t) = Some t \<longleftrightarrow> t \<in> set ts" for t
      using pending_Some [OF w(1)] by (simp add: w(2) [symmetric] ts_def)
    have "distinct (map ot_id att)" by (subst att) (simp add: distinct_map_filter ok(1))
    moreover have "t \<in> set att \<longleftrightarrow> \<not> om_isDisabled (ot_appId t) (ot_jobId t) (ow_notifier w)"
      if "t \<in> set ts" "\<not> not_yet now t" "resolves res t" "ot_id t \<notin> bystanders env att" for t
      using loop_decides [OF loop ok that] ok(2) that(1) by (auto simp: om_isDisabled_off own_key_def list_all_iff)
    ultimately show ?thesis using w(2) w' n False loop_parts [OF loop] by (auto simp: there)
  qed
qed

definition demo_ops :: "(bool \<times> oneoff_op) list" where
  "demo_ops =
     [(True, OSchedule 0 ''food'' ''a'' (Some 10) ''h''), (True, OSchedule 1 ''food'' ''b'' (Some 99) ''h''),
      (False, OCancel ''food'' ''a''), (True, OSchedule 2 ''food'' ''c'' None ''h'')]"

definition demo_env :: "oneoff_task \<Rightarrow> attempt" where
  "demo_env t = \<lparr>at_error = Some ''offline'', at_meanwhile = [Success ''food'' ''b''], at_time = 55, at_ok = True\<rparr>"

definition demo_start :: oneoff_world where
  "demo_start = \<lparr>ow_file = None, ow_notifier = jn_new default_config None, ow_stopping = False\<rparr>"

definition demo_check :: "oneoff_task list \<times> (oneoff_error + unit) \<times> oneoff_world" where
  "demo_check = om_exec default_config True (OCheck (Some (\<lambda>app handler job. app = ''food'')) demo_env 50)
     (snd (om_run default_config demo_ops demo_start))"

lemma one_off_tasks_follow_history_witness:
  "map ot_jobId (fst demo_check) = [''a''] \<and> pending (snd (snd demo_check)) ''food:a'' = None \<and>
   map_option (jn_getFailureCount ''food'' ''a'') (ow_notifier (snd (snd demo_check))) = Some 1"
proof -
  define res :: resolver where "res = Some (\<lambda>app handler job. app = ''food'')"
  obtain h w where h: "om_run default_config demo_ops demo_start = (h, w)" by fastforce
  obtain att e w' where check: "om_exec default_config True (OCheck res demo_env 50) w = (att, e, w')" by (metis prod_cases3)
  have d: "demo_check = (att, e, w')" using h check by (simp add: demo_check_def res_def)
  have att: "att = [\<lparr>ot_id = ''food:a'', ot_appId = ''food'', ot_jobId = ''a'', ot_runAt = Some 10, ot_handler = ''h'',
      ot_createdAt = Some 0\<rparr>]"
  proof -
    have "fst demo_check = [\<lparr>ot_id = ''food:a'', ot_appId = ''food'', ot_jobId = ''a'', ot_runAt = Some 10,
      ot_handler = ''h'', ot_createdAt = Some 0\<rparr>]" by code_simp
    then show ?thesis by (simp add: d)
  qed
  have "map_option (jn_getFailureCount ''food'' ''a'') (ow_notifier (snd (snd demo_check))) = Some 1" by code_simp
  moreover have "fst (snd demo_check) = Inr ()" by code_simp
  then have "e = Inr ()" by (simp add: d)
  ultimately show ?thesis
    using one_off_tasks_follow_history [OF _ h check] att unfolding d by (simp add: demo_start_def last_word_snoc fun_eq_iff)
qed

section \<open>Where the code falls short\<close>

text \<open>
  When the file cannot be written after a check, the tasks it ran are still in it and run again.
\<close>

lemma failed_write_repeats:
  "let cfg = default_config; check = OCheck (Some (\<lambda>app handler job. True)) demo_env 50;
       w = snd (om_run cfg [(True, OSchedule 0 ''food'' ''a'' (Some 10) ''h'')] demo_start);
       (att1, e1, w1) = om_exec cfg False check w; (att2, e2, w2) = om_exec cfg True check w1
   in map ot_jobId att1 = [''a''] \<and> \<not> is_ok e1 \<and> map ot_jobId att2 = [''a'']"
  by code_simp

end
