(* ===== verification/Routing_Tables.thy ===== *)
theory Routing_Tables
  imports Prelude
begin

text \<open>
  What the message router is built from: commands (\<open>router/command-parser.ts\<close>), the tables made from
  the app manifests (\<open>app-registry/manifest-cache.ts\<close>), the catalog of commands per user
  (\<open>router/command-catalog.ts\<close>), the two classifiers (\<open>intent-classifier.ts\<close>, \<open>photo-classifier.ts\<close>), the
  checks on a split message (\<open>message-segmenter.ts\<close>) and the collected reply (\<open>reply-buffer.ts\<close>). What a
  model answers is an argument; \<open>None\<close> is a call that threw or an answer that could not be read.
\<close>

section \<open>Words and commands\<close>

text \<open>\<open>s.split(P)\<close> for separators of one character, and the non-empty pieces.\<close>

fun split_where :: "(char \<Rightarrow> bool) \<Rightarrow> string \<Rightarrow> string list" where
  "split_where P [] = [[]]"
| "split_where P (c # s) =
     (if P c then [] # split_where P s
      else (case split_where P s of [] \<Rightarrow> [[c]] | w # ws \<Rightarrow> (c # w) # ws))"

definition pieces :: "(char \<Rightarrow> bool) \<Rightarrow> string \<Rightarrow> string list" where
  "pieces P s = filter (\<lambda>w. w \<noteq> []) (split_where P s)"

record parsed_command =
  pc_command :: string
  pc_args :: "string list"
  pc_rawArgs :: string

definition parseCommand :: "string \<Rightarrow> parsed_command option" where
  "parseCommand text' =
     (let t = trim text' in
      if \<not> starts_with ''/'' t then None
      else (let command = takeWhile (\<lambda>c. c \<noteq> CHR ''@'') (takeWhile (\<lambda>c. c \<noteq> CHR '' '') t);
                raw = drop 1 (dropWhile (\<lambda>c. c \<noteq> CHR '' '') t)
            in if length command < 2 then None
               else Some \<lparr>pc_command = command, pc_args = pieces is_ws raw, pc_rawArgs = raw\<rparr>))"

section \<open>Manifests\<close>

record manifest_command =
  md_name :: string
  md_description :: "string option"
  md_args :: "string list"

record app_manifest =
  mf_id :: string
  mf_name :: string
  mf_commands :: "manifest_command list"
  mf_intents :: "string list"
  mf_accepts_photos :: bool
  mf_photo_intents :: "string list"

text \<open>The cache is a map from app ids to manifests; a table of intents pairs category and app.\<close>

type_synonym manifest_cache = "app_manifest jsmap"
type_synonym intent_table = "(string \<times> string) list"
type_synonym command_map = "(string \<times> manifest_command) jsmap"

definition mc_add :: "app_manifest \<Rightarrow> manifest_cache \<Rightarrow> manifest_cache" where
  "mc_add m cache = set_key (mf_id m) m cache"

definition add_command :: "string \<Rightarrow> manifest_command \<Rightarrow> command_map \<Rightarrow> command_map" where
  "add_command app c m = (if has_key (md_name c) m then m else set_key (md_name c) (app, c) m)"

definition buildCommandMap :: "manifest_cache \<Rightarrow> command_map" where
  "buildCommandMap cache = fold (\<lambda>(_, m). fold (add_command (mf_id m)) (mf_commands m)) cache []"

definition buildIntentTable :: "manifest_cache \<Rightarrow> intent_table" where
  "buildIntentTable cache = concat (map (\<lambda>(_, m). map (\<lambda>i. (i, mf_id m)) (mf_intents m)) cache)"

definition buildPhotoIntentTable :: "manifest_cache \<Rightarrow> intent_table" where
  "buildPhotoIntentTable cache =
     concat (map (\<lambda>(_, m). if mf_accepts_photos m then map (\<lambda>i. (i, mf_id m)) (mf_photo_intents m) else []) cache)"

definition getPhotoAppIds :: "manifest_cache \<Rightarrow> string list" where
  "getPhotoAppIds cache = map (\<lambda>(_, m). mf_id m) (filter (\<lambda>(_, m). mf_accepts_photos m) cache)"

definition lookupCommand :: "parsed_command \<Rightarrow> command_map \<Rightarrow> (string \<times> manifest_command) option" where
  "lookupCommand p m = map_of m (pc_command p)"

text \<open>A loaded app: its manifest, and which of the optional handlers its module has.\<close>

record registered_app =
  ra_manifest :: app_manifest
  ra_handleCommand :: bool
  ra_handlePhoto :: bool

abbreviation ra_id :: "registered_app \<Rightarrow> string" where
  "ra_id a \<equiv> mf_id (ra_manifest a)"

definition getApp :: "string \<Rightarrow> registered_app list \<Rightarrow> registered_app option" where
  "getApp i apps = find (\<lambda>a. ra_id a = i) apps"

section \<open>The catalog of commands\<close>

datatype command_source = SrcBuiltin | SrcDirect | SrcApp

record catalog_entry =
  ce_canonical :: string
  ce_aliases :: "string list"
  ce_description :: string
  ce_adminOnly :: bool
  ce_source :: command_source
  ce_appId :: "string option"
  ce_argSignature :: "string option"

definition BUILTIN_COMMAND_NAMES :: "string list" where
  "BUILTIN_COMMAND_NAMES =
     [''/ask'', ''/edit'', ''/notes'', ''/newchat'', ''/reset'', ''/title'', ''/recall'', ''/refreshmemory'',
      ''/refresh-memory'', ''/flushmemory'', ''/flush-memory'', ''/settings'']"

definition ALIAS_GROUPS :: "string list jsmap" where
  "ALIAS_GROUPS =
     [(''/newchat'', [''/reset'']), (''/refreshmemory'', [''/refresh-memory'']), (''/flushmemory'', [''/flush-memory''])]"

definition ALIAS_TO_CANONICAL :: "string jsmap" where
  "ALIAS_TO_CANONICAL = concat (map (\<lambda>(c, as). map (\<lambda>a. (a, c)) as) ALIAS_GROUPS)"

definition canonicalize :: "string \<Rightarrow> string" where
  "canonicalize n = get_or n ALIAS_TO_CANONICAL n"

datatype service_gate = GateAlways | GateConversation | GateSpace | GateInvite

record direct_command =
  dc_canonical :: string
  dc_description :: string
  dc_adminOnly :: bool
  dc_argSignature :: "string option"
  dc_requires :: service_gate

definition DIRECT_HANDLED :: "direct_command list" where
  "DIRECT_HANDLED =
     [\<lparr>dc_canonical = ''/help'', dc_description = ''List available commands'', dc_adminOnly = False,
       dc_argSignature = None, dc_requires = GateAlways\<rparr>,
      \<lparr>dc_canonical = ''/start'', dc_description = ''Onboarding entry (also redeems invite codes)'', dc_adminOnly = False,
       dc_argSignature = Some ''[invite-code]'', dc_requires = GateAlways\<rparr>,
      \<lparr>dc_canonical = ''/space'',
       dc_description = ''Manage shared data spaces; subcommands: /space, /space <id>, /space off, /space create <id> <name>'',
       dc_adminOnly = False, dc_argSignature = None, dc_requires = GateSpace\<rparr>,
      \<lparr>dc_canonical = ''/invite'', dc_description = ''Generate an invite code for a new user'', dc_adminOnly = True,
       dc_argSignature = Some ''<name>'', dc_requires = GateInvite\<rparr>]"

record wired =
  wd_conversation :: bool
  wd_space :: bool
  wd_invite :: bool

fun serviceAvailable :: "service_gate \<Rightarrow> wired \<Rightarrow> bool" where
  "serviceAvailable GateAlways w = True"
| "serviceAvailable GateConversation w = wd_conversation w"
| "serviceAvailable GateSpace w = wd_space w"
| "serviceAvailable GateInvite w = wd_invite w"

definition BUILTIN_DESCRIPTIONS :: "string jsmap" where
  "BUILTIN_DESCRIPTIONS =
     [(''/ask'', ''Ask PAS a question (forces app-aware mode)''), (''/edit'', ''LLM-assisted file edit''),
      (''/notes'', ''Toggle daily-notes logging''), (''/newchat'', ''Start a new conversation''),
      (''/title'', ''Show or set the current session title''), (''/recall'', ''Search past conversations''),
      (''/refreshmemory'', ''Rebuild memory snapshot from current state''),
      (''/flushmemory'', ''Save a summary of this session to long-term memory''),
      (''/settings'', ''View or change settings inline'')]"

definition direct_entry :: "direct_command \<Rightarrow> catalog_entry" where
  "direct_entry d =
     \<lparr>ce_canonical = dc_canonical d, ce_aliases = [], ce_description = dc_description d, ce_adminOnly = dc_adminOnly d,
      ce_source = SrcDirect, ce_appId = None, ce_argSignature = dc_argSignature d\<rparr>"

definition builtin_entry :: "string \<Rightarrow> catalog_entry" where
  "builtin_entry c =
     \<lparr>ce_canonical = c, ce_aliases = get_or [] ALIAS_GROUPS c, ce_description = get_or c BUILTIN_DESCRIPTIONS c,
      ce_adminOnly = False, ce_source = SrcBuiltin, ce_appId = None, ce_argSignature = None\<rparr>"

definition app_entry :: "string \<Rightarrow> manifest_command \<Rightarrow> catalog_entry" where
  "app_entry app c =
     \<lparr>ce_canonical = md_name c, ce_aliases = [],
      ce_description = (case md_description c of None \<Rightarrow> md_name c | Some d \<Rightarrow> if trim d = [] then md_name c else d),
      ce_adminOnly = False, ce_source = SrcApp, ce_appId = Some app,
      ce_argSignature = (if md_args c = [] then None
        else Some (join '' '' (map (\<lambda>a. ''<'' @ a @ ''>'') (md_args c))))\<rparr>"

definition getEffectiveCommandCatalog ::
  "bool \<Rightarrow> (string \<Rightarrow> bool) \<Rightarrow> wired \<Rightarrow> registered_app list \<Rightarrow> catalog_entry list" where
  "getEffectiveCommandCatalog admin enabled w apps =
     map direct_entry (filter (\<lambda>d. (dc_adminOnly d \<longrightarrow> admin) \<and> serviceAvailable (dc_requires d) w) DIRECT_HANDLED) @
     (if wd_conversation w then map builtin_entry (rev (remdups (rev (map canonicalize BUILTIN_COMMAND_NAMES)))) else []) @
     concat (map (\<lambda>a. if enabled (ra_id a) then map (app_entry (ra_id a)) (mf_commands (ra_manifest a)) else []) apps)"

text \<open>
  Collisions between declarations of one name: with a command of the router (\<open>None\<close>) or
  with the first app that declares it.
\<close>

definition shadow_step ::
  "string \<Rightarrow> string \<Rightarrow> (string \<times> string option \<times> string) list \<times> string jsmap \<Rightarrow>
   (string \<times> string option \<times> string) list \<times> string jsmap" where
  "shadow_step app name st =
     (let (cs, seen) = st in
      if name \<in> set BUILTIN_COMMAND_NAMES \<or> name \<in> dc_canonical ` set DIRECT_HANDLED then (cs @ [(name, None, app)], seen)
      else (case map_of seen name of
              Some first \<Rightarrow> (cs @ [(name, Some first, app)], seen)
            | None \<Rightarrow> (cs, set_key name app seen)))"

definition detectCommandShadowing :: "(string \<times> string list) list \<Rightarrow> (string \<times> string option \<times> string) list" where
  "detectCommandShadowing ms = fst (fold (\<lambda>(app, names). fold (shadow_step app) names) ms ([], []))"

text \<open>The groups of the help text: spaces, admin, conversation, and the apps.\<close>

record help_groups =
  hg_spaces :: "catalog_entry list"
  hg_admin :: "catalog_entry list"
  hg_conversation :: "catalog_entry list"
  hg_app :: "catalog_entry list jsmap"

definition help_step :: "catalog_entry \<Rightarrow> help_groups \<times> string list \<Rightarrow> help_groups \<times> string list" where
  "help_step e st =
     (let (g, seen) = st in
      case ce_source e of
        SrcDirect \<Rightarrow>
          if ce_canonical e = ''/help'' \<or> ce_canonical e = ''/start'' then (g, seen)
          else if ce_canonical e = ''/space'' then (g\<lparr>hg_spaces := hg_spaces g @ [e]\<rparr>, seen)
          else if ce_adminOnly e then (g\<lparr>hg_admin := hg_admin g @ [e]\<rparr>, seen)
          else (g\<lparr>hg_conversation := hg_conversation g @ [e]\<rparr>, ce_canonical e # seen)
      | SrcBuiltin \<Rightarrow> (g\<lparr>hg_conversation := hg_conversation g @ [e]\<rparr>, ce_canonical e # ce_aliases e @ seen)
      | SrcApp \<Rightarrow>
          if ce_canonical e \<in> set seen \<or> ce_canonical e \<in> set BUILTIN_COMMAND_NAMES then (g, seen)
          else (let app = (case ce_appId e of None \<Rightarrow> ''__unknown'' | Some a \<Rightarrow> a)
                in (g\<lparr>hg_app := set_key app (get_or [] (hg_app g) app @ [e]) (hg_app g)\<rparr>, seen)))"

definition groupCatalogForHelp :: "catalog_entry list \<Rightarrow> help_groups" where
  "groupCatalogForHelp es =
     fst (fold help_step es (\<lparr>hg_spaces = [], hg_admin = [], hg_conversation = [], hg_app = []\<rparr>, []))"

section \<open>The classifiers\<close>

text \<open>The app and the intent (or the kind of photo) with the confidence of the model.\<close>

record classified =
  cl_appId :: string
  cl_intent :: string
  cl_confidence :: rat

definition entry_of :: "intent_table \<Rightarrow> string \<Rightarrow> rat \<Rightarrow> classified option" where
  "entry_of table c conf =
     (case find (\<lambda>(i, _). i = c) table of None \<Rightarrow> None
      | Some (i, app) \<Rightarrow> Some \<lparr>cl_appId = app, cl_intent = c, cl_confidence = conf\<rparr>)"

definition ic_classify :: "intent_table \<Rightarrow> rat \<Rightarrow> (string \<times> rat) option \<Rightarrow> classified option" where
  "ic_classify table threshold answer =
     (if table = [] then None
      else case answer of None \<Rightarrow> None
           | Some (c, conf) \<Rightarrow> if \<not> threshold \<le> conf then None else entry_of table c conf)"

definition ic_classifyWithLowConfidence :: "intent_table \<Rightarrow> (string \<times> rat) option \<Rightarrow> classified option" where
  "ic_classifyWithLowConfidence table answer =
     (if table = [] then None else case answer of None \<Rightarrow> None | Some (c, conf) \<Rightarrow> entry_of table c conf)"

definition ph_classify :: "string option \<Rightarrow> intent_table \<Rightarrow> rat \<Rightarrow> (string \<times> rat) option \<Rightarrow> classified option" where
  "ph_classify caption table threshold answer =
     (case table of [] \<Rightarrow> None
      | (c0, app0) # _ \<Rightarrow>
          if length (remdups (map snd table)) = 1 then
            (if app0 = [] then None else Some \<lparr>cl_appId = app0, cl_intent = c0, cl_confidence = 1\<rparr>)
          else if truthy caption = None then None
          else (case answer of None \<Rightarrow> None
                | Some (c, conf) \<Rightarrow> if conf < threshold then None else entry_of table c conf))"

section \<open>Splitting a message\<close>

definition MAX_SEGMENTS :: nat where "MAX_SEGMENTS = 3"
definition MIN_MULTI_INTENT_LENGTH :: nat where "MIN_MULTI_INTENT_LENGTH = 25"

definition COVERAGE_STOPWORDS :: "string list" where
  "COVERAGE_STOPWORDS =
     [''am'', ''an'', ''and'', ''are'', ''as'', ''at'', ''be'', ''by'', ''can'', ''do'', ''does'', ''for'', ''from'',
      ''has'', ''have'', ''how'', ''if'', ''in'', ''is'', ''it'', ''me'', ''my'', ''of'', ''on'', ''or'', ''so'',
      ''that'', ''the'', ''then'', ''there'', ''these'', ''this'', ''those'', ''to'', ''up'', ''was'', ''were'',
      ''what'', ''when'', ''where'', ''who'', ''why'', ''will'', ''with'', ''would'', ''you'', ''your'']"

definition normalizeTokens :: "string \<Rightarrow> string list" where
  "normalizeTokens s =
     filter (\<lambda>t. 1 < length t) (split_where (\<lambda>c. \<not> (is_lower_az c \<or> is_digit c)) (lower s))"

text \<open>
  The markers, as words that white space may separate, and \<open>/\b(?:also|as\s+well|...)\b/i\<close>:
  a marker that begins and ends at the border of a word.
\<close>

definition CONTINUATION_MARKERS :: "string list list" where
  "CONTINUATION_MARKERS =
     [[''also''], [''additionally''], [''as'', ''well''], [''one'', ''more'', ''thing''], [''plus''], [''then'']]"

definition word_char :: "char \<Rightarrow> bool" where
  "word_char c \<longleftrightarrow> is_lower_az c \<or> is_upper_az c \<or> is_digit c \<or> c = CHR ''_''"

fun after_marker :: "string list \<Rightarrow> string \<Rightarrow> string option" where
  "after_marker [] s = Some s"
| "after_marker [w] s = (if starts_with w s then Some (drop (length w) s) else None)"
| "after_marker (w # v # ws) s =
     (if starts_with w s then
        (let r = drop (length w) s
         in if r \<noteq> [] \<and> is_ws (hd r) then after_marker (v # ws) (dropWhile is_ws r) else None)
      else None)"

definition marker_here :: "string \<Rightarrow> bool" where
  "marker_here s \<longleftrightarrow>
     list_ex (\<lambda>m. case after_marker m s of None \<Rightarrow> False | Some r \<Rightarrow> r = [] \<or> \<not> word_char (hd r)) CONTINUATION_MARKERS"

fun has_marker :: "bool \<Rightarrow> string \<Rightarrow> bool" where
  "has_marker border [] = False"
| "has_marker border (c # s) = (border \<and> marker_here (c # s) \<or> has_marker (\<not> word_char c) s)"

text \<open>\<open>/\?\s+\S/\<close>\<close>

fun question_then_text :: "string \<Rightarrow> bool" where
  "question_then_text [] = False"
| "question_then_text (c # s) =
     (c = CHR ''?'' \<and> s \<noteq> [] \<and> is_ws (hd s) \<and> dropWhile is_ws s \<noteq> [] \<or> question_then_text s)"

definition preFilterMultiIntent :: "string \<Rightarrow> bool" where
  "preFilterMultiIntent t \<longleftrightarrow>
     MIN_MULTI_INTENT_LENGTH \<le> length t \<and> (question_then_text t \<or> has_marker True (lower t))"

definition covered :: "string \<Rightarrow> string \<Rightarrow> bool" where
  "covered t segment =
     (let content = filter (\<lambda>w. w \<notin> set COVERAGE_STOPWORDS) (normalizeTokens segment);
          matching = filter (\<lambda>w. w \<in> set (normalizeTokens t)) content
      in content = [] \<or> length content \<le> 2 * length matching)"

text \<open>
  The checks on an answer whose \<open>segments\<close> are strings; \<open>None\<close> is a call that failed, was cut off,
  or gave anything else.
\<close>

definition segmentMessage :: "string \<Rightarrow> string list option \<Rightarrow> string list" where
  "segmentMessage t answer =
     (case answer of None \<Rightarrow> [t]
      | Some raw \<Rightarrow>
          (let cleaned = filter (\<lambda>s. s \<noteq> []) (map trim raw)
           in if cleaned = [] then [t]
              else if 3 * length t < 2 * sum_list (map length cleaned) then [t]
              else if \<not> list_all (covered t) cleaned then [t]
              else if length cleaned \<le> MAX_SEGMENTS then cleaned
              else take (MAX_SEGMENTS - 1) cleaned @ [join '' '' (drop (MAX_SEGMENTS - 1) cleaned)]))"

section \<open>The collected reply\<close>

definition DEFAULT_MAX_LENGTH :: nat where "DEFAULT_MAX_LENGTH = 4000"

definition SEGMENT_SEPARATOR :: string where "SEGMENT_SEPARATOR = [CHR 0x0A, CHR 0x0A]"

function hard_split :: "nat \<Rightarrow> string \<Rightarrow> string list" where
  "hard_split m s = (if s = [] \<or> m = 0 then [] else take m s # hard_split m (drop m s))"
  by auto

termination by (relation "measure (length \<circ> snd)") auto

declare hard_split.simps [simp del]

fun pack_loop :: "nat \<Rightarrow> string \<Rightarrow> string list \<Rightarrow> string list" where
  "pack_loop m current [] = (if current \<noteq> [] then [current] else [])"
| "pack_loop m current (seg # segs) =
     (if m < length seg then
        (if current \<noteq> [] then [current] else []) @ hard_split m seg @ pack_loop m [] segs
      else (let candidate = (if current \<noteq> [] then current @ SEGMENT_SEPARATOR @ seg else seg)
            in if length candidate \<le> m then pack_loop m candidate segs else current # pack_loop m seg segs))"

definition packSegments :: "string list \<Rightarrow> nat \<Rightarrow> string list" where
  "packSegments segs m = pack_loop m [] segs"

text \<open>
  What goes out to a user: a text, or a message with buttons, options or a photo. The proxy
  keeps the pending texts per user. \<open>accepted\<close> is how many messages the transport takes before one is
  rejected (\<open>None\<close>: all of them).
\<close>

datatype sent = SentText string string | SentRich string string

record reply_buffer =
  rb_buffers :: "string list jsmap"
  rb_maxLength :: nat

definition rb_send :: "string \<Rightarrow> string \<Rightarrow> reply_buffer \<Rightarrow> reply_buffer" where
  "rb_send u t b = b\<lparr>rb_buffers := set_key u (get_or [] (rb_buffers b) u @ [t]) (rb_buffers b)\<rparr>"

definition rb_flushPending :: "nat option \<Rightarrow> string \<Rightarrow> reply_buffer \<Rightarrow> sent list \<times> reply_buffer" where
  "rb_flushPending accepted u b =
     (let chunks = packSegments (get_or [] (rb_buffers b) u) (rb_maxLength b)
      in (map (SentText u) (case accepted of None \<Rightarrow> chunks | Some n \<Rightarrow> take n chunks),
          b\<lparr>rb_buffers := del_key u (rb_buffers b)\<rparr>))"

definition rb_rich :: "string \<Rightarrow> string \<Rightarrow> reply_buffer \<Rightarrow> sent list \<times> reply_buffer" where
  "rb_rich u what b = (let (out, b) = rb_flushPending None u b in (out @ [SentRich u what], b))"

section \<open>Facts\<close>

lemma split_where_neq_Nil [simp]: "split_where P s \<noteq> []"
  by (induction s) (auto split: list.splits)

lemma add_command_has: "map_of (add_command app c m) k =
  (case map_of m k of Some x \<Rightarrow> Some x | None \<Rightarrow> if k = md_name c then Some (app, c) else None)"
  by (auto simp: add_command_def split: option.splits)

lemma hard_split_eq: "0 < m \<Longrightarrow> concat (hard_split m s) = s \<and> list_all (\<lambda>c. c \<noteq> [] \<and> length c \<le> m) (hard_split m s)"
proof (induction m s rule: hard_split.induct)
  case (1 m s)
  then show ?case by (subst (1 2) hard_split.simps) auto
qed

text \<open>The text without its line feeds: what a change of separators leaves alone.\<close>

definition unlined :: "string \<Rightarrow> string" where
  "unlined s = filter (\<lambda>c. c \<noteq> CHR 0x0A) s"

lemma unlined_simps [simp]: "unlined [] = []" "unlined (a @ b) = unlined a @ unlined b" "unlined SEGMENT_SEPARATOR = []"
  by (simp_all add: unlined_def SEGMENT_SEPARATOR_def)

lemma pack_loop_text:
  "0 < m \<Longrightarrow> length current \<le> m \<Longrightarrow>
   unlined (concat (pack_loop m current segs)) = unlined current @ unlined (concat segs) \<and>
   list_all (\<lambda>c. c \<noteq> [] \<and> length c \<le> m) (pack_loop m current segs)"
proof (induction m current segs rule: pack_loop.induct)
  case (2 m current seg segs)
  then show ?case using hard_split_eq [of m seg] by (auto simp: Let_def)
qed simp

lemma pack_one: "concat segs \<noteq> [] \<Longrightarrow> length (join SEGMENT_SEPARATOR segs) \<le> m \<Longrightarrow>
  list_all (\<lambda>s. s \<noteq> []) segs \<Longrightarrow> packSegments segs m = [join SEGMENT_SEPARATOR segs]"
proof -
  have "pack_loop m cur ss = [join SEGMENT_SEPARATOR (cur # ss)]"
    if "cur \<noteq> []" "length (join SEGMENT_SEPARATOR (cur # ss)) \<le> m" "list_all (\<lambda>s. s \<noteq> []) ss" for cur ss
    using that
  proof (induction ss arbitrary: cur)
    case (Cons s ss)
    have eq: "join SEGMENT_SEPARATOR (cur # s # ss) = join SEGMENT_SEPARATOR ((cur @ SEGMENT_SEPARATOR @ s) # ss)"
      by (cases ss) simp_all
    have "length (cur @ SEGMENT_SEPARATOR @ s) \<le> length (join SEGMENT_SEPARATOR ((cur @ SEGMENT_SEPARATOR @ s) # ss))"
      by (cases ss) simp_all
    moreover have le: "length (join SEGMENT_SEPARATOR ((cur @ SEGMENT_SEPARATOR @ s) # ss)) \<le> m"
      using Cons.prems(2) by (simp only: eq)
    ultimately have "length (cur @ SEGMENT_SEPARATOR @ s) \<le> m" by simp
    moreover have "pack_loop m (cur @ SEGMENT_SEPARATOR @ s) ss = [join SEGMENT_SEPARATOR ((cur @ SEGMENT_SEPARATOR @ s) # ss)]"
      using Cons.IH [OF _ le] Cons.prems by simp
    ultimately show ?case using Cons.prems(1) unfolding eq by simp
  qed simp
  note go = this
  assume a: "concat segs \<noteq> []" "length (join SEGMENT_SEPARATOR segs) \<le> m" "list_all (\<lambda>s. s \<noteq> []) segs"
  then obtain s ss where "segs = s # ss" by (cases segs) auto
  moreover have "length s \<le> length (join SEGMENT_SEPARATOR (s # ss))" by (cases ss) simp_all
  ultimately show ?thesis using a go [of s ss] by (simp add: packSegments_def)
qed

section \<open>The order of replies\<close>

text \<open>The calls of the proxy, and what one user is sent: a stream of characters and rich messages.\<close>

datatype buffer_call = BSend string string | BRich string string | BFlush string

fun rb_call :: "buffer_call \<Rightarrow> reply_buffer \<Rightarrow> sent list \<times> reply_buffer" where
  "rb_call (BSend u t) b = ([], rb_send u t b)"
| "rb_call (BRich u w) b = rb_rich u w b"
| "rb_call (BFlush u) b = rb_flushPending None u b"

fun rb_run :: "buffer_call list \<Rightarrow> reply_buffer \<Rightarrow> sent list \<times> reply_buffer" where
  "rb_run [] b = ([], b)"
| "rb_run (c # cs) b = (let (o1, b1) = rb_call c b; (o2, b2) = rb_run cs b1 in (o1 @ o2, b2))"

definition as_stream :: "string \<Rightarrow> (char + string) list" where
  "as_stream t = map Inl (unlined t)"

fun received :: "string \<Rightarrow> sent \<Rightarrow> (char + string) list" where
  "received u (SentText v t) = (if v = u then as_stream t else [])"
| "received u (SentRich v w) = (if v = u then [Inr w] else [])"

fun intended :: "string \<Rightarrow> buffer_call \<Rightarrow> (char + string) list" where
  "intended u (BSend v t) = (if v = u then as_stream t else [])"
| "intended u (BRich v w) = (if v = u then [Inr w] else [])"
| "intended u (BFlush v) = []"

fun well_sized :: "nat \<Rightarrow> sent \<Rightarrow> bool" where
  "well_sized m (SentText u t) = (t \<noteq> [] \<and> length t \<le> m)"
| "well_sized m (SentRich u w) = True"

definition buffered :: "string \<Rightarrow> reply_buffer \<Rightarrow> (char + string) list" where
  "buffered u b = as_stream (concat (get_or [] (rb_buffers b) u))"

lemma as_stream_append: "as_stream (a @ b) = as_stream a @ as_stream b"
  by (simp add: as_stream_def)

lemma received_chunks: "concat (map (received u) (map (SentText v) cs)) = (if v = u then as_stream (concat cs) else [])"
  by (induction cs) (auto simp: as_stream_def)

lemma flush_stream:
  assumes "0 < rb_maxLength b" "rb_flushPending None v b = (out, b')"
  shows "concat (map (received u) out) @ buffered u b' = buffered u b \<and> rb_maxLength b' = rb_maxLength b \<and>
    list_all (well_sized (rb_maxLength b)) out"
proof -
  define cs where "cs = packSegments (get_or [] (rb_buffers b) v) (rb_maxLength b)"
  have out: "out = map (SentText v) cs" "b' = b\<lparr>rb_buffers := del_key v (rb_buffers b)\<rparr>"
    using assms(2) by (simp_all add: rb_flushPending_def cs_def Let_def)
  have cs: "unlined (concat cs) = unlined (concat (get_or [] (rb_buffers b) v))"
    "list_all (\<lambda>c. c \<noteq> [] \<and> length c \<le> rb_maxLength b) cs"
    using pack_loop_text [OF assms(1), of "[]" "get_or [] (rb_buffers b) v"] by (simp_all add: cs_def packSegments_def)
  have "buffered u b' = (if v = u then [] else buffered u b)"
    by (simp add: out(2) buffered_def get_or_def as_stream_def)
  moreover have "concat (map (received u) out) = (if v = u then as_stream (concat cs) else [])"
    unfolding out(1) by (rule received_chunks)
  ultimately show ?thesis using cs by (auto simp: as_stream_def buffered_def out list_all_iff)
qed

lemma call_stream:
  assumes "0 < rb_maxLength b" "rb_call c b = (out, b')"
  shows "concat (map (received u) out) @ buffered u b' = buffered u b @ intended u c \<and> rb_maxLength b' = rb_maxLength b \<and>
    list_all (well_sized (rb_maxLength b)) out"
proof (cases c)
  case (BSend v t)
  then show ?thesis using assms(2) by (auto simp: rb_send_def buffered_def as_stream_def)
next
  case (BRich v w)
  obtain o1 b1 where f: "rb_flushPending None v b = (o1, b1)" by fastforce
  have "buffered v b1 = []" using f by (auto simp: rb_flushPending_def buffered_def get_or_def as_stream_def Let_def)
  then show ?thesis using flush_stream [OF assms(1) f, of u] assms(2) f BRich by (auto simp: rb_rich_def)
next
  case (BFlush v)
  then show ?thesis using flush_stream [OF assms(1)] assms(2) by simp
qed

section \<open>Property\<close>

text \<open>
  C31. Collecting replies loses nothing and reorders nothing: what a user has received, followed by
  what is still buffered, is what was sent to them, in order, rich messages included (texts up to the
  line feeds between them); nothing empty and nothing longer than the limit goes out, and a
  flush leaves nothing buffered.
\<close>

theorem collected_replies_in_order:
  assumes "0 < rb_maxLength b" "rb_run cs b = (out, b')"
  shows "concat (map (received u) out) @ buffered u b' = buffered u b @ concat (map (intended u) cs) \<and>
    list_all (well_sized (rb_maxLength b)) out \<and>
    buffered u (snd (rb_flushPending None u b')) = []"
proof -
  have "concat (map (received u) out) @ buffered u b' = buffered u b @ concat (map (intended u) cs) \<and>
    list_all (well_sized (rb_maxLength b)) out"
    using assms
  proof (induction cs arbitrary: b out)
    case (Cons c cs)
    obtain o1 b1 where c: "rb_call c b = (o1, b1)" by fastforce
    obtain o2 where cs: "rb_run cs b1 = (o2, b')" "out = o1 @ o2" using Cons.prems(2) c by (auto split: prod.splits)
    note one = call_stream [OF Cons.prems(1) c, of u]
    then have "0 < rb_maxLength b1" using Cons.prems(1) by simp
    from Cons.IH [OF this cs(1)] one cs(2) show ?case by auto
  qed simp
  then show ?thesis by (simp add: buffered_def rb_flushPending_def get_or_def as_stream_def Let_def)
qed

definition chatty_calls :: "buffer_call list" where
  "chatty_calls = [BSend ''7'' ''abc'', BSend ''7'' ''de'', BSend ''8'' ''x'', BRich ''7'' ''photo'', BSend ''7'' ''0123456789'']"

lemma collected_replies_in_order_witness:
  "rb_run chatty_calls \<lparr>rb_buffers = [], rb_maxLength = 6\<rparr> =
     ([SentText ''7'' ''abc'', SentText ''7'' ''de'', SentRich ''7'' ''photo''],
      \<lparr>rb_buffers = [(''8'', [''x'']), (''7'', [''0123456789''])], rb_maxLength = 6\<rparr>) \<and>
   buffered ''7'' \<lparr>rb_buffers = [(''8'', [''x'']), (''7'', [''0123456789''])], rb_maxLength = 6\<rparr> = as_stream ''0123456789''"
proof -
  have run: "rb_run chatty_calls \<lparr>rb_buffers = [], rb_maxLength = 6\<rparr> =
     ([SentText ''7'' ''abc'', SentText ''7'' ''de'', SentRich ''7'' ''photo''],
      \<lparr>rb_buffers = [(''8'', [''x'']), (''7'', [''0123456789''])], rb_maxLength = 6\<rparr>)"
    by code_simp
  from collected_replies_in_order [OF _ this, of "''7''"] show ?thesis
    using run by (simp add: chatty_calls_def buffered_def as_stream_def unlined_def)
qed

end
