(* ===== verification/Route_Verifier.thy ===== *)
theory Route_Verifier
  imports Routing_Tables
begin

text \<open>
  The second opinion on a doubtful route: \<open>router/route-verifier.ts\<close> and
  \<open>pending-verification-store.ts\<close>. A message the verifier and the classifier disagree on is held in the
  store until its sender picks an app. The answer of the model and whether the buttons could be sent
  are arguments, as is the random id; \<open>'m\<close> is the held message.
\<close>

section \<open>Routes\<close>

datatype route_source = SourceCommand | SourceIntent | SourcePhotoIntent | SourceContextPromotion | SourceUserOverride | SourceFallback

datatype verifier_status = NotRun | Skipped | Agreed | Degraded | UserOverride

record route_info =
  ri_appId :: string
  ri_intent :: string
  ri_confidence :: rat
  ri_source :: route_source
  ri_status :: verifier_status

definition routeForCommand :: "string \<Rightarrow> string \<Rightarrow> route_info" where
  "routeForCommand app name =
     \<lparr>ri_appId = app, ri_intent = name, ri_confidence = 1, ri_source = SourceCommand, ri_status = NotRun\<rparr>"

definition routeForFallback :: route_info where
  "routeForFallback =
     \<lparr>ri_appId = ''chatbot'', ri_intent = ''chatbot'', ri_confidence = 0, ri_source = SourceFallback, ri_status = NotRun\<rparr>"

definition routeFromClassifier :: "classified \<Rightarrow> route_source \<Rightarrow> verifier_status \<Rightarrow> route_info" where
  "routeFromClassifier c src st =
     \<lparr>ri_appId = cl_appId c, ri_intent = cl_intent c, ri_confidence = cl_confidence c, ri_source = src, ri_status = st\<rparr>"

definition buildUserOverrideRouteInfo :: "classified \<Rightarrow> string \<Rightarrow> string option \<Rightarrow> route_info" where
  "buildUserOverrideRouteInfo c chosen suggested =
     \<lparr>ri_appId = chosen,
      ri_intent = (if chosen = cl_appId c then cl_intent c else case suggested of None \<Rightarrow> chosen | Some i \<Rightarrow> i),
      ri_confidence = 1, ri_source = SourceUserOverride, ri_status = UserOverride\<rparr>"

section \<open>The verifier\<close>

datatype verify_action = ActRoute classified verifier_status | ActHeld | ActFallback

text \<open>The fields of \<open>ActRoute\<close> are the app, intent and confidence of the route and \<open>verifierStatus\<close>.\<close>

fun routeFromVerifyAction :: "verify_action \<Rightarrow> route_source \<Rightarrow> route_info option" where
  "routeFromVerifyAction (ActRoute c st) src = Some (routeFromClassifier c src st)"
| "routeFromVerifyAction _ src = None"

text \<open>The call failed, its answer had no boolean \<open>agrees\<close>, or the answer.\<close>

datatype verifier_reply =
    VerifierThrew
  | VerifierUnusable
  | VerifierAnswer bool "string option" "string option"

record 'm pending_entry =
  pe_ctx :: 'm
  pe_isPhoto :: bool
  pe_classifier :: classified
  pe_suggestedAppId :: string
  pe_suggestedIntent :: "string option"

type_synonym 'm pending_store = "'m pending_entry jsmap"

definition pv_add :: "string \<Rightarrow> 'm pending_entry \<Rightarrow> 'm pending_store \<Rightarrow> 'm pending_store" where
  "pv_add i e st = set_key i e st"

definition pv_get :: "string \<Rightarrow> 'm pending_store \<Rightarrow> 'm pending_entry option" where
  "pv_get i st = map_of st i"

definition pv_resolve :: "string \<Rightarrow> 'm pending_store \<Rightarrow> 'm pending_entry option \<times> 'm pending_store" where
  "pv_resolve i st = (case map_of st i of None \<Rightarrow> (None, st) | Some e \<Rightarrow> (Some e, del_key i st))"

definition agreedRoute :: "classified \<Rightarrow> verify_action" where
  "agreedRoute c = ActRoute c Agreed"

definition degradedRoute :: "classified \<Rightarrow> verify_action" where
  "degradedRoute c = ActRoute c Degraded"

definition app_name :: "string \<Rightarrow> registered_app list \<Rightarrow> string" where
  "app_name i apps = (case getApp i apps of None \<Rightarrow> i | Some a \<Rightarrow> mf_name (ra_manifest a))"

definition accessible :: "registered_app list \<Rightarrow> string list option \<Rightarrow> registered_app list" where
  "accessible apps enabled =
     (case enabled of None \<Rightarrow> apps
      | Some en \<Rightarrow> filter (\<lambda>a. ''*'' \<in> set en \<or> ra_id a \<in> set en) apps)"

text \<open>
  The buttons, as pairs of an app id and its name, carry the id of the pending entry and the app. The answer
  is the action, the buttons that were sent, if any, and the store.
\<close>

definition verify ::
  "registered_app list \<Rightarrow> string list option \<Rightarrow> verifier_reply \<Rightarrow> bool \<Rightarrow> string \<Rightarrow> bool \<Rightarrow> bool \<Rightarrow> 'm \<Rightarrow> classified \<Rightarrow>
   'm pending_store \<Rightarrow> verify_action \<times> (string \<times> string) list option \<times> 'm pending_store" where
  "verify apps enabled reply buttons_ok pid strict photo ctx c st =
     (let accs = accessible apps enabled in
      if length accs \<le> 1 then
        (agreedRoute (c\<lparr>cl_appId := (if length accs = 1 then ra_id (hd accs) else cl_appId c)\<rparr>), None, st)
      else case reply of
        VerifierThrew \<Rightarrow> (if strict then ActFallback else degradedRoute c, None, st)
      | VerifierUnusable \<Rightarrow> (if strict then ActFallback else degradedRoute c, None, st)
      | VerifierAnswer True _ _ \<Rightarrow> (agreedRoute c, None, st)
      | VerifierAnswer False suggested intent \<Rightarrow>
          (let raw = (case suggested of None \<Rightarrow> ''chatbot'' | Some a \<Rightarrow> a) in
           if getApp raw accs = None \<and> raw \<noteq> ''chatbot'' then (degradedRoute c, None, st)
           else (let st1 = pv_add pid \<lparr>pe_ctx = ctx, pe_isPhoto = photo, pe_classifier = c, pe_suggestedAppId = raw,
                              pe_suggestedIntent = intent\<rparr> st;
                     buttons = (cl_appId c, app_name (cl_appId c) accs) #
                       (if raw \<noteq> cl_appId c \<and> raw \<noteq> ''chatbot'' then [(raw, app_name raw accs)] else [])
                 in if buttons_ok then (ActHeld, Some buttons, st1)
                    else (degradedRoute c, None, snd (pv_resolve pid st1)))))"

text \<open>After a click: the held entry, which is then gone, and the app it was sent to.\<close>

definition resolveCallback :: "string \<Rightarrow> string \<Rightarrow> 'm pending_store \<Rightarrow> ('m pending_entry \<times> string) option \<times> 'm pending_store" where
  "resolveCallback pid chosen st =
     (let (e, st1) = pv_resolve pid st in (map_option (\<lambda>e. (e, chosen)) e, st1))"

section \<open>Facts\<close>

lemma getApp_Some: "getApp i apps = Some a \<Longrightarrow> a \<in> set apps \<and> ra_id a = i"
  by (auto simp: getApp_def find_Some_iff)

text \<open>Outside the strict mode there is always a route or a held message.\<close>

lemma verify_not_fallback:
  "verify apps enabled reply bok pid False photo ctx c st = (act, bs, st') \<Longrightarrow> act \<noteq> ActFallback"
  by (auto simp: verify_def agreedRoute_def degradedRoute_def Let_def
      split: verifier_reply.splits bool.splits if_splits option.splits prod.splits)

lemma verify_held:
  "verify apps enabled reply bok pid strict photo ctx c st = (ActHeld, bs, st') \<Longrightarrow>
   (\<exists>b. bs = Some b \<and> b \<noteq> []) \<and> (\<exists>e. pv_get pid st' = Some e \<and> pe_ctx e = ctx \<and> pe_classifier e = c)"
  by (auto simp: verify_def agreedRoute_def degradedRoute_def pv_get_def pv_add_def Let_def
      split: verifier_reply.splits bool.splits if_splits option.splits prod.splits)

text \<open>
  A route keeps intent and confidence, and the app too, unless a single other app is accessible; a store
  is only changed by holding the message.
\<close>

lemma verify_route:
  "verify apps enabled reply bok pid strict photo ctx c st = (ActRoute d s, bs, st') \<Longrightarrow>
   cl_intent d = cl_intent c \<and> cl_confidence d = cl_confidence c \<and> bs = None \<and> s \<in> {Agreed, Degraded} \<and>
   (cl_appId d = cl_appId c \<or> (\<exists>a. accessible apps enabled = [a] \<and> cl_appId d = ra_id a))"
  by (auto simp: verify_def agreedRoute_def degradedRoute_def Let_def length_Suc_conv le_Suc_eq
      split: verifier_reply.splits bool.splits if_splits option.splits prod.splits)

section \<open>Where the code falls short\<close>

text \<open>
  Strict mode is there so that a message below the threshold is never routed without the verifier's
  consent. It is routed all the same when the verifier disagrees and names an app that does
  not exist, when it disagrees and the buttons cannot be sent, and, without asking the verifier at
  all, when only one app is accessible.
\<close>

lemma strict_routes_without_consent:
  assumes "c = \<lparr>cl_appId = ''food'', cl_intent = ''i'', cl_confidence = 1 / 10\<rparr>"
    and "food = \<lparr>ra_manifest = \<lparr>mf_id = ''food'', mf_name = ''Food'', mf_commands = [], mf_intents = [''i''],
        mf_accepts_photos = False, mf_photo_intents = []\<rparr>, ra_handleCommand = False, ra_handlePhoto = False\<rparr>"
    and "notes = food\<lparr>ra_manifest := (ra_manifest food)\<lparr>mf_id := ''notes''\<rparr>\<rparr>"
  shows "fst (verify [food, notes] None (VerifierAnswer False (Some ''nosuch'') None) True pid True False ctx c st) = ActRoute c Degraded"
    and "fst (verify [food, notes] None (VerifierAnswer False (Some ''notes'') None) False pid True False ctx c st) = ActRoute c Degraded"
    and "fst (verify [food] None (VerifierAnswer False None None) True pid True False ctx c st) = ActRoute c Agreed"
  by (simp_all add: assms verify_def accessible_def getApp_def degradedRoute_def agreedRoute_def app_name_def split_def Let_def)

end
