(* ===== verification/Space_Commands.thy ===== *)
theory Space_Commands
  imports Spaces Routing_Tables
begin

text \<open>
  The \<open>/space\<close> command of the router (\<open>router/index.ts\<close>, \<open>handleSpaceCommand\<close> and its subcommands) on top of
  the space service. Each awaited call of the service runs to its end before the reply; replies
  are the constructors of \<open>space_reply\<close> instead of their texts, and the order by locale in which
  spaces are listed is left out.
\<close>

section \<open>Awaiting the service\<close>

text \<open>The errors of the call, or \<open>None\<close> when it threw because the disk took no write.\<close>

fun call_errors :: "space_env \<Rightarrow> space_call \<Rightarrow> space_service \<Rightarrow> space_error list \<times> space_service" where
  "call_errors env (CSave d) s = sp_saveSpace env d s"
| "call_errors env (CDelete i) s = (let (b, t) = sp_deleteSpace i s in (if b then [] else [SpaceNotFound], t))"
| "call_errors env (CAdd i u) s = sp_addMember env i u s"
| "call_errors env (CRemove i u) s = sp_removeMember i u s"
| "call_errors env (CActivate u i) s = sp_setActiveSpace u i s"

definition sp_await :: "space_env \<Rightarrow> space_call \<Rightarrow> space_service \<Rightarrow> space_error list option \<times> space_service" where
  "sp_await env c s =
     (let (es, t) = call_errors env c s
      in if es \<noteq> [] then (Some es, t)
         else (case sp_run_job t of
                 (Done, r) \<Rightarrow> (Some [], r)
               | (LimitReached, r) \<Rightarrow> (Some [SpaceLimit], r)
               | (DiskFailed, r) \<Rightarrow> (None, r)))"

lemma call_errors_call: "sp_call env c s = (b, t) \<Longrightarrow> \<exists>es. call_errors env c s = (es, t) \<and> b = (es = [])"
  by (cases c) (auto simp: Let_def split: prod.splits)

lemma sp_await_serve: "sp_queue s = [] \<Longrightarrow> snd (sp_await env c s) = sp_serve env c s"
proof -
  assume q: "sp_queue s = []"
  obtain b t where bt: "sp_call env c s = (b, t)" by fastforce
  then obtain es where es: "call_errors env c s = (es, t)" "b = (es = [])" using call_errors_call by blast
  show ?thesis
  proof (cases b)
    case True
    then show ?thesis using bt es by (auto simp: sp_await_def sp_serve_def split: space_done.splits prod.splits)
  next
    case False
    then have "t = s" using bt refused_unchanged [of env c s t] by simp
    then show ?thesis using False bt es q by (simp add: sp_await_def sp_serve_def sp_run_job_def)
  qed
qed

section \<open>The command\<close>

datatype space_reply =
    SpacesNotConfigured
  | SpaceStatus "string option" "(string \<times> string \<times> bool) list"
  | EnteredSpace string
  | PersonalMode
  | UsageCreate | UsageDelete | UsageInvite | UsageKick | UsageMembers
  | SpaceErrors "space_error list"
  | SpaceCreated string string
  | NoSuchSpace
  | OnlyTheCreator
  | SpaceDeleted string
  | SpaceNotDeleted
  | MembersOnly
  | NoSuchUser string
  | MemberAdded string string
  | MemberRemoved string string
  | SpaceMembers string "(string \<times> bool) list"

definition sp_getSpacesForUser :: "string \<Rightarrow> space_service \<Rightarrow> space list" where
  "sp_getSpacesForUser u s = filter (\<lambda>d. u \<in> set (sd_members d)) (map (\<lambda>(k, a). obj s a) (sp_spaces s))"

definition handleSpaceStatus :: "string \<Rightarrow> space_service \<Rightarrow> space_reply \<times> space_service" where
  "handleSpaceStatus u s =
     (let (act, s) = sp_getActiveSpace u s
      in (SpaceStatus
            (map_option (\<lambda>i. case sp_getSpace i s of None \<Rightarrow> i | Some d \<Rightarrow> sd_name d) act)
            (map (\<lambda>d. (sd_id d, sd_name d, Some (sd_id d) = act)) (sp_getSpacesForUser u s)), s))"

text \<open>A reply, or \<open>None\<close> when the command threw.\<close>

definition space_answer :: "space_error list option \<Rightarrow> space_reply \<Rightarrow> space_reply option" where
  "space_answer r good = (case r of None \<Rightarrow> None | Some [] \<Rightarrow> Some good | Some es \<Rightarrow> Some (SpaceErrors es))"

definition handleSpaceEnter :: "space_env \<Rightarrow> string \<Rightarrow> string \<Rightarrow> space_service \<Rightarrow> space_reply option \<times> space_service" where
  "handleSpaceEnter env i u s =
     (let (r, s) = sp_await env (CActivate u (if i = [] then None else Some i)) s
      in (space_answer r (EnteredSpace (case sp_getSpace i s of None \<Rightarrow> i | Some d \<Rightarrow> sd_name d)), s))"

definition handleSpaceOff :: "space_env \<Rightarrow> string \<Rightarrow> space_service \<Rightarrow> space_reply option \<times> space_service" where
  "handleSpaceOff env u s =
     (let (r, s) = sp_await env (CActivate u None) s in (if r = None then None else Some PersonalMode, s))"

definition new_space :: "string \<Rightarrow> string \<Rightarrow> string \<Rightarrow> string \<Rightarrow> space" where
  "new_space i name u created =
     \<lparr>sd_id = i, sd_name = name, sd_description = [], sd_members = [u], sd_createdBy = u, sd_createdAt = created,
      sd_kind = Some KHousehold, sd_householdId = None\<rparr>"

definition handleSpaceCreate ::
  "space_env \<Rightarrow> string \<Rightarrow> string list \<Rightarrow> string \<Rightarrow> space_service \<Rightarrow> space_reply option \<times> space_service" where
  "handleSpaceCreate env created parts u s =
     (case parts of
        i # w # ws \<Rightarrow>
          (let name = join '' '' (w # ws); (r, s) = sp_await env (CSave (new_space i name u created)) s
           in (space_answer r (SpaceCreated name i), s))
      | _ \<Rightarrow> (Some UsageCreate, s))"

definition handleSpaceDelete :: "space_env \<Rightarrow> string option \<Rightarrow> string \<Rightarrow> space_service \<Rightarrow> space_reply option \<times> space_service" where
  "handleSpaceDelete env i u s =
     (case truthy i of None \<Rightarrow> (Some UsageDelete, s)
      | Some i \<Rightarrow>
          (case sp_getSpace i s of None \<Rightarrow> (Some NoSuchSpace, s)
           | Some d \<Rightarrow>
               if sd_createdBy d \<noteq> u then (Some OnlyTheCreator, s)
               else (let (r, s) = sp_await env (CDelete i) s
                     in (case r of None \<Rightarrow> None
                         | Some es \<Rightarrow> Some (if es = [] then SpaceDeleted (sd_name d) else SpaceNotDeleted), s))))"

definition user_called :: "string \<Rightarrow> reg_user list \<Rightarrow> reg_user option" where
  "user_called name users = find (\<lambda>u. lower (ru_name u) = lower name) users"

text \<open>\<open>/space invite\<close> and \<open>/space kick\<close> have the same shape.\<close>

definition change_member ::
  "space_env \<Rightarrow> reg_user list \<Rightarrow> (string \<Rightarrow> string \<Rightarrow> space_call) \<Rightarrow> space_reply \<Rightarrow> (string \<Rightarrow> string \<Rightarrow> space_reply) \<Rightarrow>
   string option \<Rightarrow> string option \<Rightarrow> string \<Rightarrow> space_service \<Rightarrow> space_reply option \<times> space_service" where
  "change_member env users call usage good i name u s =
     (case (truthy i, truthy name) of
        (Some i, Some name) \<Rightarrow>
          (case sp_getSpace i s of None \<Rightarrow> (Some NoSuchSpace, s)
           | Some d \<Rightarrow>
               if u \<notin> set (sd_members d) then (Some MembersOnly, s)
               else (case user_called name users of None \<Rightarrow> (Some (NoSuchUser name), s)
                     | Some v \<Rightarrow>
                         (let (r, s) = sp_await env (call i (ru_id v)) s
                          in (space_answer r (good (ru_name v) (sd_name d)), s))))
      | _ \<Rightarrow> (Some usage, s))"

definition handleSpaceInvite ::
  "space_env \<Rightarrow> reg_user list \<Rightarrow> string option \<Rightarrow> string option \<Rightarrow> string \<Rightarrow> space_service \<Rightarrow>
   space_reply option \<times> space_service" where
  "handleSpaceInvite env users = change_member env users CAdd UsageInvite MemberAdded"

definition handleSpaceKick ::
  "space_env \<Rightarrow> reg_user list \<Rightarrow> string option \<Rightarrow> string option \<Rightarrow> string \<Rightarrow> space_service \<Rightarrow>
   space_reply option \<times> space_service" where
  "handleSpaceKick env users = change_member env users CRemove UsageKick MemberRemoved"

definition handleSpaceMembers :: "reg_user list \<Rightarrow> string option \<Rightarrow> space_service \<Rightarrow> space_reply" where
  "handleSpaceMembers users i s =
     (case truthy i of None \<Rightarrow> UsageMembers
      | Some i \<Rightarrow>
          (case sp_getSpace i s of None \<Rightarrow> NoSuchSpace
           | Some d \<Rightarrow>
               SpaceMembers (sd_name d)
                 (map (\<lambda>m. (case find (\<lambda>u. ru_id u = m) (rev users) of None \<Rightarrow> m | Some u \<Rightarrow> ru_name u, m = sd_createdBy d))
                   (sd_members d))))"

fun arg :: "nat \<Rightarrow> string list \<Rightarrow> string option" where
  "arg n [] = None"
| "arg 0 (w # ws) = Some w"
| "arg (Suc n) (w # ws) = arg n ws"

text \<open>\<open>created\<close> is the present time as text.\<close>

definition handleSpaceCommand ::
  "space_env \<Rightarrow> reg_user list \<Rightarrow> string \<Rightarrow> string \<Rightarrow> string \<Rightarrow> space_service \<Rightarrow> space_reply option \<times> space_service" where
  "handleSpaceCommand env users created args u s =
     (let parts = pieces is_ws args; sub = lower (case parts of [] \<Rightarrow> [] | w # _ \<Rightarrow> w)
      in if sub = [] then (let (r, s) = handleSpaceStatus u s in (Some r, s))
         else if sub = ''off'' then handleSpaceOff env u s
         else if sub = ''create'' then handleSpaceCreate env created (tl parts) u s
         else if sub = ''delete'' then handleSpaceDelete env (arg 1 parts) u s
         else if sub = ''invite'' then handleSpaceInvite env users (arg 1 parts) (arg 2 parts) u s
         else if sub = ''kick'' then handleSpaceKick env users (arg 1 parts) (arg 2 parts) u s
         else if sub = ''members'' then (Some (handleSpaceMembers users (arg 1 parts) s), s)
         else handleSpaceEnter env sub u s)"

section \<open>Where the code falls short\<close>

text \<open>
  A space of kind \<open>household\<close> needs the id of its household, and \<open>/space create\<close> never gives one:
  it is refused whatever its arguments are.
\<close>

lemma create_is_always_refused:
  "HouseholdIdRequired \<in> set (validateSpace env (new_space i name u created))"
  by (simp add: validateSpace_def new_space_def)

lemma create_never_succeeds: "fst (handleSpaceCreate env created parts u s) \<noteq> Some (SpaceCreated name i)"
proof -
  have "\<exists>e es. sp_await env (CSave (new_space j n u created)) s = (Some (e # es), s)" for j n
    using create_is_always_refused [of env j n u created]
    by (cases "validateSpace env (new_space j n u created)") (auto simp: sp_await_def sp_saveSpace_def)
  note refused = this
  show ?thesis
  proof (cases "\<exists>j w ws. parts = j # w # ws")
    case True
    then obtain j w ws where parts: "parts = j # w # ws" by blast
    obtain e es where "sp_await env (CSave (new_space j (join '' '' (w # ws)) u created)) s = (Some (e # es), s)"
      using refused by blast
    then show ?thesis by (simp add: parts handleSpaceCreate_def space_answer_def Let_def)
  qed (auto simp: handleSpaceCreate_def split: list.splits)
qed

section \<open>Who may change what\<close>

text \<open>What the sender \<open>u\<close> may do to a space with the given creator and members.\<close>

definition may_become :: "space_env \<Rightarrow> string \<Rightarrow> space option \<Rightarrow> string set option \<Rightarrow> bool" where
  "may_become env u before after \<longleftrightarrow>
     (case before of
        None \<Rightarrow> after = None
      | Some d \<Rightarrow>
          (case after of
             None \<Rightarrow> sd_createdBy d = u
           | Some ms \<Rightarrow>
               u \<in> set (sd_members d) \<and>
               ((\<exists>v. is_registered env v \<and> v \<notin> set (sd_members d) \<and> ms = insert v (set (sd_members d))) \<or>
                (\<exists>v. v \<in> set (sd_members d) \<and> v \<noteq> sd_createdBy d \<and> ms = set (sd_members d) - {v}))))"

text \<open>The step of one command on the members of all spaces.\<close>

definition permitted :: "space_env \<Rightarrow> string \<Rightarrow> space_service \<Rightarrow> space_service \<Rightarrow> bool" where
  "permitted env u s s' \<longleftrightarrow>
     members_of s' = members_of s \<or>
     (\<exists>i after. members_of s' = (members_of s)(i := after) \<and> may_become env u (sp_getSpace i s) after)"

lemma permitted_refl: "members_of s' = members_of s \<Longrightarrow> permitted env u s s'"
  by (simp add: permitted_def)

lemma permittedI:
  "members_of s' = (members_of s)(i := after) \<Longrightarrow> sp_getSpace i s = Some d \<Longrightarrow> may_become env u (Some d) after \<Longrightarrow>
   permitted env u s s'"
  unfolding permitted_def by (intro disjI2 exI [of _ i] exI [of _ after]) simp

lemma members_getSpace: "sp_getSpace i s = Some d \<Longrightarrow> members_of s i = Some (set (sd_members d))"
  by (simp add: members_of_def)

lemma await_refines:
  assumes "sp_valid env s" "sp_await env c s = (r, s')"
  shows "members_of s' = (if fst (sp_call env c s) then ab_call c (members_of s) else members_of s) \<and> sp_valid env s'"
  using sp_serve_refines [OF assms(1), of c] sp_await_serve [of s env c] assms by (simp add: sp_valid_def)

lemma getActive_frame:
  "sp_getActiveSpace u s = (a, s') \<Longrightarrow> members_of s' = members_of s \<and> (sp_valid env s \<longrightarrow> sp_valid env s')"
  by (auto simp: sp_getActiveSpace_def sp_persistActive_def members_of_in sp_valid_def split: option.splits if_splits)

lemma await_activate:
  "sp_valid env s \<Longrightarrow> sp_await env (CActivate v i) s = (r, s') \<Longrightarrow> members_of s' = members_of s \<and> sp_valid env s'"
  using await_refines [of env s "CActivate v i" r s'] by simp

lemma await_create:
  "sp_valid env s \<Longrightarrow> sp_await env (CSave (new_space j n u created)) s = (r, s') \<Longrightarrow> members_of s' = members_of s \<and> sp_valid env s'"
  using create_is_always_refused [of env j n u created]
  by (cases "validateSpace env (new_space j n u created)") (auto simp: sp_await_def sp_saveSpace_def)

lemma await_delete:
  assumes "sp_valid env s" "sp_getSpace i s = Some d" "sd_createdBy d = u" "sp_await env (CDelete i) s = (r, s')"
  shows "permitted env u s s' \<and> sp_valid env s'"
  using await_refines [OF assms(1,4)] permittedI [OF _ assms(2), of s' None env u] assms(3) permitted_refl [of s' s env u]
  by (auto simp: may_become_def split: if_splits)

lemma await_add:
  assumes "sp_valid env s" "sp_getSpace i s = Some d" "u \<in> set (sd_members d)" "sp_await env (CAdd i v) s = (r, s')"
  shows "permitted env u s s' \<and> sp_valid env s'"
proof -
  have "is_registered env v \<and> v \<notin> set (sd_members d)" if "fst (sp_call env (CAdd i v) s)"
    using that assms(2) by (auto simp: sp_addMember_def sp_getSpace_def Let_def split: option.splits if_splits prod.splits)
  then have "members_of s' = members_of s \<or>
      members_of s' = (members_of s)(i := Some (insert v (set (sd_members d)))) \<and> is_registered env v \<and> v \<notin> set (sd_members d)"
    using await_refines [OF assms(1,4)] members_getSpace [OF assms(2)] by auto
  then have "permitted env u s s'"
    using permittedI [OF _ assms(2), of s' "Some (insert v (set (sd_members d)))" env u] permitted_refl assms(3)
    by (auto simp: may_become_def)
  then show ?thesis using await_refines [OF assms(1,4)] by simp
qed

lemma await_remove:
  assumes "sp_valid env s" "sp_getSpace i s = Some d" "u \<in> set (sd_members d)" "sp_await env (CRemove i v) s = (r, s')"
  shows "permitted env u s s' \<and> sp_valid env s'"
proof -
  have "v \<in> set (sd_members d) \<and> v \<noteq> sd_createdBy d" if "fst (sp_call env (CRemove i v) s)"
    using that assms(2) index_of_None [of v "sd_members d"]
    by (auto simp: sp_removeMember_def sp_getSpace_def Let_def split: option.splits if_splits prod.splits)
  then have "members_of s' = members_of s \<or>
      members_of s' = (members_of s)(i := Some (set (sd_members d) - {v})) \<and> v \<in> set (sd_members d) \<and> v \<noteq> sd_createdBy d"
    using await_refines [OF assms(1,4)] members_getSpace [OF assms(2)] by auto
  then have "permitted env u s s'"
    using permittedI [OF _ assms(2), of s' "Some (set (sd_members d) - {v})" env u] permitted_refl assms(3)
    by (auto simp: may_become_def)
  then show ?thesis using await_refines [OF assms(1,4)] by simp
qed

lemma change_member_permitted:
  assumes "sp_valid env s" "change_member env users call usage good i name u s = (r, s')" "call = CAdd \<or> call = CRemove"
  shows "permitted env u s s' \<and> sp_valid env s'"
proof (cases "\<exists>j n d v. truthy i = Some j \<and> truthy name = Some n \<and> sp_getSpace j s = Some d \<and>
    u \<in> set (sd_members d) \<and> user_called n users = Some v")
  case True
  then obtain j n d v where at: "truthy i = Some j" "truthy name = Some n" "sp_getSpace j s = Some d"
    "u \<in> set (sd_members d)" "user_called n users = Some v" by blast
  obtain q t where aw: "sp_await env (call j (ru_id v)) s = (q, t)" by fastforce
  then have "s' = t" using assms(2) at by (simp add: change_member_def)
  moreover have "permitted env u s t \<and> sp_valid env t"
    using assms(3) aw await_add [OF assms(1) at(3,4), of "ru_id v" q t] await_remove [OF assms(1) at(3,4), of "ru_id v" q t]
    by (cases "call = CAdd") auto
  ultimately show ?thesis by simp
next
  case False
  then have "s' = s" using assms(2) by (auto simp: change_member_def split: option.splits if_splits)
  then show ?thesis using assms(1) by (simp add: permitted_refl)
qed


definition small_env :: space_env where
  "small_env = \<lparr>se_registered = [''owner'', ''b'', ''c'', ''d''], se_household = None\<rparr>"

definition bob :: reg_user where
  "bob = \<lparr>ru_id = ''b'', ru_name = ''Bob'', ru_isAdmin = False, ru_enabledApps = [], ru_sharedScopes = [], ru_householdId = None\<rparr>"

lemma three_members_valid: "sp_valid small_env three_members"
proof -
  have "valid_space small_env (sp_objs three_members ! 0)"
    by (simp add: valid_space_def three_members_def small_env_def is_lower_az_def trim_def is_ws_def)
  then have "all_valid small_env (sp_objs three_members) (sp_spaces three_members)"
    by (auto simp: all_valid_def named_def three_members_def split: if_splits)
  then show ?thesis by (simp add: sp_valid_def three_members_def MAX_SPACES_def)
qed


end
