(* ===== verification/Router.thy ===== *)
theory Router
  imports Route_Verifier Space_Commands Invites
begin

text \<open>
  The message router, \<open>router/index.ts\<close>, and the callback of its buttons in \<open>compose-runtime.ts\<close>. Handling
  one message is a function from the state to the list of what the router then does, in order, and the
  new state. What models, apps and the disk answer while the message is handled is the record
  \<open>router_env\<close>; the toggles are read as they are while the message is handled. Texts of replies are constructors of \<open>reply\<close>. An
  exception that leaves the router is the last effect \<open>Thrown\<close>.
\<close>

section \<open>Pending confirmations of a new chat\<close>

record sc_entry =
  sc_messageText :: string
  sc_expiresAt :: time
  sc_id :: string
  sc_createdAtMs :: time

type_synonym sc_store = "sc_entry jsmap"

definition SC_TTL_MS :: time where "SC_TTL_MS = 5 * 60 * 1000"

definition createPendingEntry :: "time \<Rightarrow> string \<Rightarrow> string \<Rightarrow> sc_entry" where
  "createPendingEntry now i text' =
     \<lparr>sc_messageText = text', sc_expiresAt = now + SC_TTL_MS, sc_id = i, sc_createdAtMs = now\<rparr>"

definition sc_attach :: "string \<Rightarrow> sc_entry \<Rightarrow> sc_store \<Rightarrow> sc_store" where
  "sc_attach u e st = set_key u e st"

definition sc_peek :: "time \<Rightarrow> string \<Rightarrow> sc_store \<Rightarrow> sc_entry option \<times> sc_store" where
  "sc_peek now u st =
     (case map_of st u of None \<Rightarrow> (None, st)
      | Some e \<Rightarrow> if sc_expiresAt e \<le> now then (None, del_key u st) else (Some e, st))"

definition sc_get :: "time \<Rightarrow> string \<Rightarrow> sc_store \<Rightarrow> sc_entry option \<times> sc_store" where
  "sc_get now u st =
     (case map_of st u of None \<Rightarrow> (None, st)
      | Some e \<Rightarrow> (if sc_expiresAt e \<le> now then None else Some e, del_key u st))"

definition sc_has :: "time \<Rightarrow> string \<Rightarrow> sc_store \<Rightarrow> bool" where
  "sc_has now u st = (case map_of st u of None \<Rightarrow> False | Some e \<Rightarrow> now < sc_expiresAt e)"

definition sc_remove :: "string \<Rightarrow> sc_store \<Rightarrow> sc_store" where
  "sc_remove u st = del_key u st"

section \<open>Messages, effects, state\<close>

datatype idle_status = IdleNone | IdleProtected | IdleReset

record msg =
  mx_userId :: string
  mx_text :: string
  mx_space :: "(string \<times> string) option"
  mx_idle :: "idle_status option"

record photo_msg =
  px_userId :: string
  px_caption :: "string option"
  px_space :: "(string \<times> string) option"

datatype held = HeldText msg | HeldPhoto photo_msg

datatype reply =
    NotAuthorized
  | NoAccess string
  | UnknownCommand string
  | SomethingWrong | CommandFailed | PhotoFailed
  | AlreadyRegisteredReply | WelcomeReply
  | HelpReply help_groups
  | SpaceReply space_reply
  | InvitesNotConfigured | AdminsOnly | UsageInviteCode
  | InviteCreated string string
  | RedeemRefused outcome
  | NoPhotoApps | PhotoUnclear
  | Preamble | SegmentApology
  | NoLongerAccess

text \<open>
  The household is that of the request context the handler runs in. A photo handler may answer with a
  summary that is appended to the transcript under the session bound before, with the parent session.
\<close>

datatype effect =
    Say string reply
  | ToApp string msg route_info "string option"
  | ToAppCommand string string "string list" msg route_info
  | ToPhotoApp string photo_msg route_info "string option"
  | AppendSummary string "string option"
  | ToConversation msg route_info "string option"
  | ToConversationCommand string "string list" msg bool
  | ToNotes msg
  | Buttons string "(string \<times> string) list"
  | AskNewChat string string
  | RunWizard string string
  | Welcomed string string
  | Thrown

record router_state =
  rs_world :: invite_world
  rs_pending :: "held pending_store"
  rs_newchat :: sc_store

text \<open>The options: what is wired, the bounds, the apps with their manifests, the users of the configuration.\<close>

record router =
  rt_apps :: "registered_app list"
  rt_cache :: manifest_cache
  rt_users :: "reg_user list"
  rt_toggles :: "toggles option"
  rt_threshold :: rat
  rt_upper :: rat
  rt_always :: "string list"
  rt_conversation :: bool
  rt_verifier :: bool
  rt_interaction :: bool
  rt_splitting :: bool
  rt_newchat :: bool
  rt_invites :: bool
  rt_mutation :: bool

datatype handled = HandlerThrew | HandlerDone | HandlerYielded

record router_env =
  ev_now :: time
  ev_iso :: string
  ev_random :: string
  ev_claim_ok :: bool
  ev_config_ok :: bool
  ev_idle :: "idle_status option"
  ev_parent :: "string option"
  ev_wizard :: bool
  ev_session_ok :: bool
  ev_classify :: "string \<Rightarrow> (string \<times> rat) option"
  ev_classifyLow :: "string \<Rightarrow> (string \<times> rat) option"
  ev_verdict :: "string \<Rightarrow> verifier_reply"
  ev_pendingId :: "string \<Rightarrow> string"
  ev_buttons_ok :: bool
  ev_app :: "string \<Rightarrow> msg \<Rightarrow> handled"
  ev_command_ok :: bool
  ev_photo :: "bool option"
  ev_conversation_ok :: "msg \<Rightarrow> bool"
  ev_recent :: "string list"
  ev_segments :: "string list option"
  ev_newchat :: "(bool \<times> rat \<times> bool) option"

section \<open>Who may use what\<close>

definition findUser :: "router \<Rightarrow> string \<Rightarrow> router_state \<Rightarrow> reg_user option" where
  "findUser rt u s =
     (case find (\<lambda>x. ru_id x = u) (rt_users rt) of Some x \<Rightarrow> Some x
      | None \<Rightarrow> um_getUser u (uw_users (iw_users (rs_world s))))"

definition rt_isAppEnabled :: "router \<Rightarrow> string \<Rightarrow> string \<Rightarrow> string list \<Rightarrow> bool" where
  "rt_isAppEnabled rt u app enabled =
     (case rt_toggles rt of Some data \<Rightarrow> at_isEnabled u app enabled data
      | None \<Rightarrow> ''*'' \<in> set enabled \<or> app \<in> set enabled)"

definition resolveEnabledApps :: "router \<Rightarrow> string \<Rightarrow> string list \<Rightarrow> string list" where
  "resolveEnabledApps rt u enabled =
     (case rt_toggles rt of None \<Rightarrow> enabled
      | Some data \<Rightarrow>
          (let overrides = get_or [] data u
           in if overrides = [] then enabled
              else if ''*'' \<in> set enabled then filter (\<lambda>i. map_of overrides i \<noteq> Some False) (map ra_id (rt_apps rt))
              else filter (\<lambda>i. map_of overrides i \<noteq> Some False) enabled))"

definition shouldVerifyIntent :: "router \<Rightarrow> string \<Rightarrow> rat \<Rightarrow> bool" where
  "shouldVerifyIntent rt name conf =
     (if conf < rt_threshold rt then False else if conf < rt_upper rt then True else name \<in> set (rt_always rt))"

definition household_of :: "string \<Rightarrow> router_state \<Rightarrow> string option" where
  "household_of u s = Option.bind (uw_household (iw_users (rs_world s))) (hs_getHouseholdForUser u)"

section \<open>Dispatch\<close>

definition dispatchConversation :: "router \<Rightarrow> router_env \<Rightarrow> msg \<Rightarrow> route_info \<Rightarrow> router_state \<Rightarrow> effect list" where
  "dispatchConversation rt ev ctx route s =
     (if \<not> rt_conversation rt \<or> \<not> ev_session_ok ev then [Thrown]
      else ToConversation ctx route (household_of (mx_userId ctx) s) #
        (if ev_conversation_ok ev ctx then [] else [Say (mx_userId ctx) SomethingWrong]))"

definition dispatchConversationCommand :: "router \<Rightarrow> router_env \<Rightarrow> string \<Rightarrow> string list \<Rightarrow> msg \<Rightarrow> bool \<Rightarrow> effect list" where
  "dispatchConversationCommand rt ev name args ctx admin =
     (if \<not> rt_conversation rt then []
      else if \<not> ev_session_ok ev then [Thrown]
      else ToConversationCommand name args ctx admin #
        (if ev_conversation_ok ev ctx then [] else [Say (mx_userId ctx) SomethingWrong]))"

definition sendToFallback :: "router \<Rightarrow> router_env \<Rightarrow> msg \<Rightarrow> string list \<Rightarrow> router_state \<Rightarrow> effect list" where
  "sendToFallback rt ev ctx enabled s =
     (if \<not> rt_conversation rt then [ToNotes ctx]
      else if \<not> rt_isAppEnabled rt (mx_userId ctx) ''chatbot'' enabled then [ToNotes ctx]
      else dispatchConversation rt ev ctx routeForFallback s)"

definition dispatchMessage :: "router \<Rightarrow> router_env \<Rightarrow> registered_app \<Rightarrow> msg \<Rightarrow> route_info \<Rightarrow> router_state \<Rightarrow> effect list" where
  "dispatchMessage rt ev app ctx route s =
     ToApp (ra_id app) ctx route (household_of (mx_userId ctx) s) #
       (case ev_app ev (ra_id app) ctx of
          HandlerThrew \<Rightarrow> [Say (mx_userId ctx) SomethingWrong]
        | HandlerDone \<Rightarrow> []
        | HandlerYielded \<Rightarrow>
            sendToFallback rt ev ctx
              (case findUser rt (mx_userId ctx) s of None \<Rightarrow> [] | Some u \<Rightarrow> ru_enabledApps u) s)"

definition dispatchPhoto ::
  "router \<Rightarrow> router_env \<Rightarrow> registered_app \<Rightarrow> photo_msg \<Rightarrow> route_info \<Rightarrow> string option \<Rightarrow> router_state \<Rightarrow> effect list" where
  "dispatchPhoto rt ev app ctx route parent s =
     ToPhotoApp (ra_id app) ctx route (household_of (px_userId ctx) s) #
       (case ev_photo ev of
          None \<Rightarrow> [Say (px_userId ctx) PhotoFailed]
        | Some summary \<Rightarrow> if summary \<and> ev_session_ok ev then [AppendSummary (px_userId ctx) parent] else [])"

section \<open>One text request\<close>

definition directRoute :: "router \<Rightarrow> router_env \<Rightarrow> msg \<Rightarrow> string list \<Rightarrow> classified \<Rightarrow> router_state \<Rightarrow> effect list" where
  "directRoute rt ev ctx enabled m s =
     (case getApp (cl_appId m) (rt_apps rt) of
        Some app \<Rightarrow> dispatchMessage rt ev app ctx (routeFromClassifier m SourceIntent (if rt_verifier rt then Skipped else NotRun)) s
      | None \<Rightarrow> sendToFallback rt ev ctx enabled s)"

text \<open>The call of the verifier: its action, what it sent to the user, and the state.\<close>

definition ask_verifier ::
  "router \<Rightarrow> router_env \<Rightarrow> string \<Rightarrow> string \<Rightarrow> string list \<Rightarrow> bool \<Rightarrow> held \<Rightarrow> bool \<Rightarrow> classified \<Rightarrow> router_state \<Rightarrow>
   verify_action \<times> effect list \<times> router_state" where
  "ask_verifier rt ev u text' enabled strict ctx photo m s =
     (let (act, bs, st) = verify (rt_apps rt) (Some (resolveEnabledApps rt u enabled)) (ev_verdict ev text') (ev_buttons_ok ev)
            (ev_pendingId ev text') strict photo ctx m (rs_pending s)
      in (act, case bs of None \<Rightarrow> [] | Some b \<Rightarrow> [Buttons u b], s\<lparr>rs_pending := st\<rparr>))"

definition routeVerified ::
  "router \<Rightarrow> router_env \<Rightarrow> msg \<Rightarrow> string list \<Rightarrow> classified \<Rightarrow> router_state \<Rightarrow> effect list \<times> router_state" where
  "routeVerified rt ev ctx enabled m s =
     (let u = mx_userId ctx; (act, out, s1) = ask_verifier rt ev u (mx_text ctx) enabled False (HeldText ctx) False m s
      in case act of
           ActRoute d st \<Rightarrow>
             (out @
              (if \<not> rt_isAppEnabled rt u (cl_appId d) enabled then [Say u (NoAccess (cl_appId d))]
               else if cl_appId d = ''chatbot'' \<and> rt_conversation rt
               then dispatchConversation rt ev ctx (routeFromClassifier d SourceIntent st) s1
               else (case getApp (cl_appId d) (rt_apps rt) of
                       Some app \<Rightarrow> dispatchMessage rt ev app ctx (routeFromClassifier d SourceIntent st) s1
                     | None \<Rightarrow> directRoute rt ev ctx enabled m s1)), s1)
         | _ \<Rightarrow> (out, s1))"

text \<open>An exception during the promotion sends the message to the fallback.\<close>

definition rescue :: "effect list \<Rightarrow> effect list \<Rightarrow> effect list" where
  "rescue es handler = (if Thrown \<in> set es then filter (\<lambda>e. e \<noteq> Thrown) es @ handler else es)"

definition tryContextPromotion :: "router \<Rightarrow> router_env \<Rightarrow> msg \<Rightarrow> string list \<Rightarrow> router_state \<Rightarrow> effect list \<times> router_state" where
  "tryContextPromotion rt ev ctx enabled s =
     (let u = mx_userId ctx; fallback = sendToFallback rt ev ctx enabled s
      in if \<not> rt_interaction rt \<or> \<not> rt_verifier rt then (fallback, s)
         else if ev_recent ev = [] then (rescue fallback fallback, s)
         else (case ic_classifyWithLowConfidence (buildIntentTable (rt_cache rt)) (ev_classifyLow ev (mx_text ctx)) of
                 None \<Rightarrow> (rescue fallback fallback, s)
               | Some low \<Rightarrow>
                   if cl_appId low \<notin> set (ev_recent ev) then (rescue fallback fallback, s)
                   else (let (act, out, s1) = ask_verifier rt ev u (mx_text ctx) enabled True (HeldText ctx) False low s
                         in case act of
                              ActHeld \<Rightarrow> (out, s1)
                            | ActFallback \<Rightarrow> (rescue fallback fallback, s1)
                            | ActRoute d st \<Rightarrow>
                                if cl_appId d = cl_appId low then
                                  if \<not> rt_isAppEnabled rt u (cl_appId d) enabled then ([Say u (NoAccess (cl_appId d))], s1)
                                  else (case getApp (cl_appId d) (rt_apps rt) of
                                          Some app \<Rightarrow>
                                            (rescue (dispatchMessage rt ev app ctx (routeFromClassifier d SourceContextPromotion st) s1)
                                               fallback, s1)
                                        | None \<Rightarrow> (rescue fallback fallback, s1))
                                else (rescue fallback fallback, s1))))"

definition routeOneTextRequest :: "router \<Rightarrow> router_env \<Rightarrow> msg \<Rightarrow> string list \<Rightarrow> router_state \<Rightarrow> effect list \<times> router_state" where
  "routeOneTextRequest rt ev ctx enabled s =
     (case ic_classify (buildIntentTable (rt_cache rt)) (rt_threshold rt) (ev_classify ev (mx_text ctx)) of
        Some m \<Rightarrow>
          if \<not> rt_isAppEnabled rt (mx_userId ctx) (cl_appId m) enabled
          then ([Say (mx_userId ctx) (NoAccess (cl_appId m))], s)
          else if rt_verifier rt \<and> shouldVerifyIntent rt (cl_intent m) (cl_confidence m)
          then routeVerified rt ev ctx enabled m s
          else (directRoute rt ev ctx enabled m s, s)
      | None \<Rightarrow>
          if rt_interaction rt \<and> rt_verifier rt then tryContextPromotion rt ev ctx enabled s
          else (sendToFallback rt ev ctx enabled s, s))"

section \<open>Several requests in one message\<close>

text \<open>A segment whose handling threw is answered with an apology; later segments are still handled.\<close>

definition routeSegment :: "router \<Rightarrow> router_env \<Rightarrow> msg \<Rightarrow> string list \<Rightarrow> string \<Rightarrow> router_state \<Rightarrow> effect list \<times> router_state" where
  "routeSegment rt ev ctx enabled segment s =
     (let (es, s1) = routeOneTextRequest rt ev (ctx\<lparr>mx_text := segment\<rparr>) enabled s
      in (rescue es [Say (mx_userId ctx) SegmentApology], s1))"

fun routeSegments :: "router \<Rightarrow> router_env \<Rightarrow> msg \<Rightarrow> string list \<Rightarrow> string list \<Rightarrow> router_state \<Rightarrow> effect list \<times> router_state" where
  "routeSegments rt ev ctx enabled [] s = ([], s)"
| "routeSegments rt ev ctx enabled (w # ws) s =
     (let (e1, s1) = routeSegment rt ev ctx enabled w s; (e2, s2) = routeSegments rt ev ctx enabled ws s1
      in (e1 @ e2, s2))"

text \<open>\<open>None\<close> when the message is to be handled as one request.\<close>

definition tryMultiIntentSplit ::
  "router \<Rightarrow> router_env \<Rightarrow> msg \<Rightarrow> string list \<Rightarrow> router_state \<Rightarrow> (effect list \<times> router_state) option" where
  "tryMultiIntentSplit rt ev ctx enabled s =
     (if \<not> rt_splitting rt \<or> \<not> preFilterMultiIntent (mx_text ctx) then None
      else (let segs = segmentMessage (mx_text ctx) (ev_segments ev)
            in if length segs < 2 then None
               else (let (es, s1) = routeSegments rt ev ctx enabled segs s in Some (Say (mx_userId ctx) Preamble # es, s1))))"

section \<open>Starting a new chat in plain words\<close>

text \<open>Whether the message was taken, what was done, and the state.\<close>

definition handleSessionControlHook :: "router \<Rightarrow> router_env \<Rightarrow> msg \<Rightarrow> router_state \<Rightarrow> bool \<times> effect list \<times> router_state" where
  "handleSessionControlHook rt ev ctx s =
     (case ev_newchat ev of
        None \<Rightarrow> (False, [], s)
      | Some (new_session, conf, prefilter) \<Rightarrow>
          if \<not> new_session then (False, [], s)
          else if rt_upper rt \<le> conf \<or> prefilter
          then (True, dispatchConversationCommand rt ev ''newchat'' [] ctx False, s)
          else if rt_threshold rt \<le> conf \<and> conf < rt_upper rt then
            (let e = createPendingEntry (ev_now ev) (ev_random ev) (mx_text ctx)
             in if ev_buttons_ok ev
                then (True, [AskNewChat (mx_userId ctx) (sc_id e)], s\<lparr>rs_newchat := sc_attach (mx_userId ctx) e (rs_newchat s)\<rparr>)
                else (False, [], s\<lparr>rs_newchat := sc_remove (mx_userId ctx) (sc_attach (mx_userId ctx) e (rs_newchat s))\<rparr>))
          else (False, [], s))"

section \<open>Commands\<close>

definition catalog_for :: "router \<Rightarrow> string \<Rightarrow> router_state \<Rightarrow> catalog_entry list" where
  "catalog_for rt u s =
     (let user = findUser rt u s; enabled = (case user of None \<Rightarrow> [] | Some x \<Rightarrow> ru_enabledApps x)
      in getEffectiveCommandCatalog (case user of None \<Rightarrow> False | Some x \<Rightarrow> ru_isAdmin x)
           (\<lambda>a. rt_isAppEnabled rt u a enabled)
           \<lparr>wd_conversation = rt_conversation rt, wd_space = (iw_spaces (rs_world s) \<noteq> None), wd_invite = rt_invites rt\<rparr>
           (rt_apps rt))"

text \<open>The conversation commands, under their names and aliases.\<close>

definition conversation_command :: "string \<Rightarrow> string option" where
  "conversation_command c =
     map_of [(''/ask'', ''ask''), (''/edit'', ''edit''), (''/notes'', ''notes''), (''/newchat'', ''newchat''),
       (''/reset'', ''newchat''), (''/title'', ''title''), (''/recall'', ''recall''),
       (''/refreshmemory'', ''refresh-memory''), (''/refresh-memory'', ''refresh-memory''),
       (''/flushmemory'', ''flush-memory''), (''/flush-memory'', ''flush-memory''), (''/settings'', ''settings'')] c"

definition strip_slash :: "string \<Rightarrow> string" where
  "strip_slash c = (if starts_with ''/'' c then tl c else c)"

definition handleCommand ::
  "router \<Rightarrow> router_env \<Rightarrow> parsed_command \<Rightarrow> msg \<Rightarrow> string list \<Rightarrow> router_state \<Rightarrow> effect list" where
  "handleCommand rt ev p ctx enabled s =
     (let u = mx_userId ctx; c = pc_command p in
      if c = ''/help'' then [Say u (HelpReply (groupCatalogForHelp (catalog_for rt u s)))]
      else if c = ''/start'' then
        [Say u (if trim (pc_rawArgs p) \<noteq> [] \<and> rt_invites rt then AlreadyRegisteredReply else WelcomeReply)]
      else if rt_conversation rt \<and> conversation_command c \<noteq> None then
        dispatchConversationCommand rt ev (the (conversation_command c)) (pc_args p) ctx
          (c = ''/settings'' \<and> (case findUser rt u s of None \<Rightarrow> False | Some x \<Rightarrow> ru_isAdmin x))
      else (case lookupCommand p (buildCommandMap (rt_cache rt)) of
              None \<Rightarrow> [Say u (UnknownCommand c)]
            | Some (app, cmd) \<Rightarrow>
                if \<not> rt_isAppEnabled rt u app enabled then [Say u (NoAccess app)]
                else (case getApp app (rt_apps rt) of
                        None \<Rightarrow> [Say u SomethingWrong]
                      | Some a \<Rightarrow>
                          (let name = strip_slash (md_name cmd); route = routeForCommand app name
                           in if ra_handleCommand a then
                                ToAppCommand app name (pc_args p) ctx route #
                                  (if ev_command_ok ev then [] else [Say u CommandFailed])
                              else dispatchMessage rt ev a ctx route s))))"

definition env_of_spaces :: "router_state \<Rightarrow> space_env" where
  "env_of_spaces s =
     \<lparr>se_registered = map ru_id (uw_users (iw_users (rs_world s))), se_household = uw_household (iw_users (rs_world s))\<rparr>"

definition routeSpaceCommand :: "router_env \<Rightarrow> string \<Rightarrow> string \<Rightarrow> router_state \<Rightarrow> effect list \<times> router_state" where
  "routeSpaceCommand ev args u s =
     (case iw_spaces (rs_world s) of
        None \<Rightarrow> ([Say u (SpaceReply SpacesNotConfigured)], s)
      | Some sp \<Rightarrow>
          (let (r, sp1) = handleSpaceCommand (env_of_spaces s) (uw_users (iw_users (rs_world s))) (ev_iso ev) args u sp
           in (case r of None \<Rightarrow> [Thrown] | Some r \<Rightarrow> [Say u (SpaceReply r)],
               s\<lparr>rs_world := (rs_world s)\<lparr>iw_spaces := Some sp1\<rparr>\<rparr>)))"

definition handleInviteCommand :: "router \<Rightarrow> router_env \<Rightarrow> string \<Rightarrow> string \<Rightarrow> router_state \<Rightarrow> effect list \<times> router_state" where
  "handleInviteCommand rt ev args u s =
     (if \<not> rt_invites rt then ([Say u InvitesNotConfigured], s)
      else if (case findUser rt u s of None \<Rightarrow> True | Some x \<Rightarrow> \<not> ru_isAdmin x) then ([Say u AdminsOnly], s)
      else (let name = trim args in
            if name = [] then ([Say u UsageInviteCode], s)
            else (let opts = \<lparr>io_householdId = Some (case household_of u s of None \<Rightarrow> ''default'' | Some h \<Rightarrow> h),
                              io_role = Some RoleMember, io_initialSpaces = Some [], io_enabledApps = None\<rparr>;
                      (r, f) = createInvite (ev_config_ok ev) (ev_now ev) (ev_random ev) name u opts
                                 (uw_users (iw_users (rs_world s))) (iw_file (rs_world s))
                  in (case r of Inl e \<Rightarrow> [Thrown] | Inr cd \<Rightarrow> [Say u (InviteCreated name cd)],
                      s\<lparr>rs_world := (rs_world s)\<lparr>iw_file := f\<rparr>\<rparr>))))"

text \<open>No space service is handed to the registration.\<close>

definition handleInviteRedemption :: "router_env \<Rightarrow> string \<Rightarrow> string \<Rightarrow> router_state \<Rightarrow> effect list \<times> router_state" where
  "handleInviteRedemption ev cd u s =
     (let w = rs_world s;
          (r, w1) = redeemInviteAndRegister (ev_claim_ok ev) (ev_config_ok ev) (ev_now ev) cd u (w\<lparr>iw_spaces := None\<rparr>)
      in (case r of
            Registered name \<Rightarrow> [Welcomed u name]
          | Threw e \<Rightarrow> [Thrown]
          | ClaimThrew \<Rightarrow> [Thrown]
          | _ \<Rightarrow> [Say u (RedeemRefused r)],
          s\<lparr>rs_world := w1\<lparr>iw_spaces := iw_spaces w\<rparr>\<rparr>))"

section \<open>The entry points\<close>

definition active_space :: "string \<Rightarrow> router_state \<Rightarrow> (string \<times> string) option \<times> router_state" where
  "active_space u s =
     (case iw_spaces (rs_world s) of
        None \<Rightarrow> (None, s)
      | Some sp \<Rightarrow>
          (let (i, sp1) = sp_getActiveSpace u sp
           in (Option.bind i (\<lambda>i. map_option (\<lambda>d. (i, sd_name d)) (sp_getSpace i sp1)),
               s\<lparr>rs_world := (rs_world s)\<lparr>iw_spaces := Some sp1\<rparr>\<rparr>)))"

definition routeText :: "router \<Rightarrow> router_env \<Rightarrow> msg \<Rightarrow> string list \<Rightarrow> router_state \<Rightarrow> effect list \<times> router_state" where
  "routeText rt ev ctx enabled s =
     (let (taken, out, s1) =
            (if rt_newchat rt \<and> mx_idle ctx \<noteq> Some IdleReset then handleSessionControlHook rt ev ctx s else (False, [], s))
      in if taken then (out, s1)
         else (case tryMultiIntentSplit rt ev ctx enabled s1 of
                 Some r \<Rightarrow> r
               | None \<Rightarrow> routeOneTextRequest rt ev ctx enabled s1))"

definition routeMessage :: "router \<Rightarrow> router_env \<Rightarrow> msg \<Rightarrow> router_state \<Rightarrow> effect list \<times> router_state" where
  "routeMessage rt ev ctx0 s =
     (let u = mx_userId ctx0; parsed = parseCommand (mx_text ctx0); user = findUser rt u s in
      case user of
        None \<Rightarrow>
          (case parsed of
             Some p \<Rightarrow>
               if pc_command p = ''/start'' \<and> trim (pc_rawArgs p) \<noteq> [] \<and> rt_invites rt \<and> rt_mutation rt
               then handleInviteRedemption ev (trim (pc_rawArgs p)) u s
               else ([Say u NotAuthorized], s)
           | None \<Rightarrow> ([Say u NotAuthorized], s))
      | Some usr \<Rightarrow>
          (case parsed of
             None \<Rightarrow>
               if ev_wizard ev then ([RunWizard u (mx_text ctx0)], s)
               else (let (sp, s1) = active_space u s
                     in routeText rt ev (ctx0\<lparr>mx_space := sp, mx_idle := ev_idle ev\<rparr>) (ru_enabledApps usr) s1)
           | Some p \<Rightarrow>
               if pc_command p = ''/space'' then routeSpaceCommand ev (pc_rawArgs p) u s
               else if pc_command p = ''/invite'' then handleInviteCommand rt ev (pc_rawArgs p) u s
               else if ev_idle ev = Some IdleReset \<and> (pc_command p = ''/newchat'' \<or> pc_command p = ''/reset'') then ([], s)
               else (let (sp, s1) = active_space u s
                     in (handleCommand rt ev p (ctx0\<lparr>mx_space := sp, mx_idle := ev_idle ev\<rparr>) (ru_enabledApps usr) s1, s1))))"

text \<open>The photo goes to the app of the match, where that app handles photos.\<close>

definition directPhoto :: "router \<Rightarrow> router_env \<Rightarrow> photo_msg \<Rightarrow> classified \<Rightarrow> router_state \<Rightarrow> effect list" where
  "directPhoto rt ev ctx m s =
     (case getApp (cl_appId m) (rt_apps rt) of
        Some a \<Rightarrow>
          if ra_handlePhoto a
          then dispatchPhoto rt ev a ctx (routeFromClassifier m SourcePhotoIntent (if rt_verifier rt then Skipped else NotRun)) (ev_parent ev) s
          else [Say (px_userId ctx) PhotoUnclear]
      | None \<Rightarrow> [Say (px_userId ctx) PhotoUnclear])"

definition photoVerified ::
  "router \<Rightarrow> router_env \<Rightarrow> photo_msg \<Rightarrow> string \<Rightarrow> string list \<Rightarrow> classified \<Rightarrow> router_state \<Rightarrow> effect list \<times> router_state" where
  "photoVerified rt ev ctx caption enabled m s =
     (let u = px_userId ctx; (act, out, s1) = ask_verifier rt ev u caption enabled False (HeldPhoto ctx) True m s
      in case act of
           ActRoute d st \<Rightarrow>
             (out @
              (if \<not> rt_isAppEnabled rt u (cl_appId d) enabled then [Say u (NoAccess (cl_appId d))]
               else (case getApp (cl_appId d) (rt_apps rt) of
                       Some a \<Rightarrow> if ra_handlePhoto a
                         then dispatchPhoto rt ev a ctx (routeFromClassifier d SourcePhotoIntent st) (ev_parent ev) s1
                         else directPhoto rt ev ctx m s1
                     | None \<Rightarrow> directPhoto rt ev ctx m s1)), s1)
         | _ \<Rightarrow> (out, s1))"

definition routePhoto :: "router \<Rightarrow> router_env \<Rightarrow> photo_msg \<Rightarrow> router_state \<Rightarrow> effect list \<times> router_state" where
  "routePhoto rt ev ctx0 s =
     (let u = px_userId ctx0 in
      case findUser rt u s of
        None \<Rightarrow> ([Say u NotAuthorized], s)
      | Some usr \<Rightarrow>
          (let (sp, s1) = active_space u s; ctx = ctx0\<lparr>px_space := sp\<rparr>; enabled = ru_enabledApps usr;
               caption = (case px_caption ctx of None \<Rightarrow> [] | Some c \<Rightarrow> c)
           in if getPhotoAppIds (rt_cache rt) = [] then ([Say u NoPhotoApps], s1)
              else (case ph_classify (px_caption ctx) (buildPhotoIntentTable (rt_cache rt)) (rt_threshold rt) (ev_classify ev caption) of
                      None \<Rightarrow> ([Say u PhotoUnclear], s1)
                    | Some m \<Rightarrow>
                        if \<not> rt_isAppEnabled rt u (cl_appId m) enabled then ([Say u (NoAccess (cl_appId m))], s1)
                        else if rt_verifier rt \<and> shouldVerifyIntent rt (cl_intent m) (cl_confidence m)
                        then photoVerified rt ev ctx caption enabled m s1
                        else (directPhoto rt ev ctx m s1, s1))))"

text \<open>A held photo that is passed on as a message has no text.\<close>

fun as_message :: "held \<Rightarrow> msg" where
  "as_message (HeldText m) = m"
| "as_message (HeldPhoto m) = \<lparr>mx_userId = px_userId m, mx_text = [], mx_space = px_space m, mx_idle = None\<rparr>"

text \<open>
  A click on a button of the verifier, after the user guard: \<open>users\<close> is asked for the apps of the clicking
  user (the user manager, not the configuration).
\<close>

definition verificationCallback :: "router \<Rightarrow> router_env \<Rightarrow> string \<Rightarrow> string \<Rightarrow> string \<Rightarrow> router_state \<Rightarrow> effect list \<times> router_state" where
  "verificationCallback rt ev u pid chosen s =
     (if pid = [] \<or> chosen = [] then ([], s)
      else if \<not> rt_isAppEnabled rt u chosen (um_getUserApps u (uw_users (iw_users (rs_world s)))) then ([Say u NoLongerAccess], s)
      else (let (r, st) = resolveCallback pid chosen (rs_pending s); s1 = s\<lparr>rs_pending := st\<rparr>
            in (case r of None \<Rightarrow> []
                | Some (e, app) \<Rightarrow>
                    (let route = buildUserOverrideRouteInfo (pe_classifier e) chosen (pe_suggestedIntent e)
                     in if chosen = ''chatbot'' then dispatchConversation rt ev (as_message (pe_ctx e)) route s1
                        else (case getApp chosen (rt_apps rt) of
                                None \<Rightarrow> []
                              | Some a \<Rightarrow>
                                  (case pe_ctx e of
                                     HeldPhoto m \<Rightarrow>
                                       if ra_handlePhoto a then dispatchPhoto rt ev a m route None s1
                                       else dispatchMessage rt ev a (as_message (HeldPhoto m)) route s1
                                   | HeldText m \<Rightarrow> dispatchMessage rt ev a m route s1))), s1)))"

section \<open>Access\<close>

definition may_use :: "router \<Rightarrow> string \<Rightarrow> router_state \<Rightarrow> string \<Rightarrow> bool" where
  "may_use rt u s app \<longleftrightarrow>
     (case findUser rt u s of None \<Rightarrow> False | Some usr \<Rightarrow> rt_isAppEnabled rt u app (ru_enabledApps usr))"

definition loaded :: "router \<Rightarrow> string \<Rightarrow> bool" where
  "loaded rt app \<longleftrightarrow> getApp app (rt_apps rt) \<noteq> None"

text \<open>What the router may do on behalf of the sender \<open>u\<close>.\<close>

fun granted :: "router \<Rightarrow> string \<Rightarrow> router_state \<Rightarrow> effect \<Rightarrow> bool" where
  "granted rt u s (ToApp a m r hh) =
     (mx_userId m = u \<and> may_use rt u s a \<and> loaded rt a \<and> ri_appId r = a \<and> hh = household_of u s)"
| "granted rt u s (ToAppCommand a name args m r) = (mx_userId m = u \<and> may_use rt u s a \<and> loaded rt a \<and> ri_appId r = a)"
| "granted rt u s (ToPhotoApp a m r hh) =
     (px_userId m = u \<and> may_use rt u s a \<and> loaded rt a \<and> ri_appId r = a \<and> hh = household_of u s)"
| "granted rt u s (ToConversation m r hh) = (mx_userId m = u \<and> may_use rt u s ''chatbot'' \<and> hh = household_of u s)"
| "granted rt u s (ToConversationCommand name args m admin) =
     (mx_userId m = u \<and> (\<exists>usr. findUser rt u s = Some usr \<and> (admin = (name = ''settings'' \<and> ru_isAdmin usr))))"
| "granted rt u s (ToNotes m) = (mx_userId m = u \<and> findUser rt u s \<noteq> None)"
| "granted rt u s (AppendSummary v parent) = (v = u \<and> findUser rt u s \<noteq> None)"
| "granted rt u s (Say v r) = (v = u)"
| "granted rt u s (Buttons v bs) = (v = u \<and> findUser rt u s \<noteq> None)"
| "granted rt u s (AskNewChat v i) = (v = u \<and> findUser rt u s \<noteq> None)"
| "granted rt u s (RunWizard v t) = (v = u \<and> findUser rt u s \<noteq> None)"
| "granted rt u s (Welcomed v n) = (v = u \<and> findUser rt u s = None)"
| "granted rt u s Thrown = True"

text \<open>Users, and with them rights and households, are the same before and after.\<close>

definition same_users :: "router_state \<Rightarrow> router_state \<Rightarrow> bool" where
  "same_users s t \<longleftrightarrow> iw_users (rs_world t) = iw_users (rs_world s)"

lemma same_users_refl [simp]: "same_users s s"
  by (simp add: same_users_def)

lemma same_users_trans: "same_users s t \<Longrightarrow> same_users t r \<Longrightarrow> same_users s r"
  by (simp add: same_users_def)

lemma same_find: "same_users s t \<Longrightarrow> findUser rt u t = findUser rt u s"
  by (simp add: same_users_def findUser_def cong: option.case_cong)

lemma same_granted: "same_users s t \<Longrightarrow> granted rt u t e = granted rt u s e"
  using same_find [of s t rt u]
  by (cases e) (simp_all add: same_users_def may_use_def household_of_def cong: option.case_cong)

lemma same_granted_all: "same_users s t \<Longrightarrow> list_all (granted rt u t) es = list_all (granted rt u s) es"
  by (simp add: list_all_iff same_granted)

lemma granted_fallback:
  assumes "findUser rt u s = Some usr" "mx_userId ctx = u"
  shows "list_all (granted rt u s) (sendToFallback rt ev ctx (ru_enabledApps usr) s)"
  using assms by (simp add: sendToFallback_def dispatchConversation_def may_use_def)

lemma granted_dispatch:
  assumes "findUser rt u s = Some usr" "mx_userId ctx = u" "may_use rt u s (ra_id app)" "ri_appId r = ra_id app" "loaded rt (ra_id app)"
  shows "list_all (granted rt u s) (dispatchMessage rt ev app ctx r s)"
  using assms granted_fallback [OF assms(1,2)] by (auto simp: dispatchMessage_def split: handled.splits)

lemma granted_rescue:
  "list_all (granted rt u s) es \<Longrightarrow> list_all (granted rt u s) hs \<Longrightarrow> list_all (granted rt u s) (rescue es hs)"
  by (auto simp: rescue_def list_all_iff)

lemma granted_direct:
  assumes "findUser rt u s = Some usr" "mx_userId ctx = u" "may_use rt u s (cl_appId m)"
  shows "list_all (granted rt u s) (directRoute rt ev ctx (ru_enabledApps usr) m s)"
proof (cases "getApp (cl_appId m) (rt_apps rt)")
  case None
  then show ?thesis using granted_fallback [OF assms(1,2)] by (simp add: directRoute_def)
next
  case (Some app)
  then have "ra_id app = cl_appId m" using getApp_Some by blast
  then show ?thesis
    using granted_dispatch [OF assms(1,2), of app] assms(3) Some by (simp add: directRoute_def loaded_def routeFromClassifier_def)
qed

lemma ask_verifier_out:
  "ask_verifier rt ev u t enabled strict ctx photo m s = (act, out, s1) \<Longrightarrow>
   same_users s s1 \<and> (findUser rt u s \<noteq> None \<longrightarrow> list_all (granted rt u s) out)"
  by (auto simp: ask_verifier_def same_users_def split: prod.splits option.splits)

lemma granted_verified:
  assumes "findUser rt u s = Some usr" "mx_userId ctx = u" "may_use rt u s (cl_appId m)"
    and run: "routeVerified rt ev ctx (ru_enabledApps usr) m s = (es, s')"
  shows "list_all (granted rt u s) es \<and> same_users s s'"
proof -
  obtain act out s1 where v: "ask_verifier rt ev u (mx_text ctx) (ru_enabledApps usr) False (HeldText ctx) False m s = (act, out, s1)"
    by (metis prod_cases3)
  note frame = ask_verifier_out [OF v]
  then have f1: "findUser rt u s1 = Some usr" "may_use rt u s1 = may_use rt u s"
    using assms(1) same_find by (auto simp: may_use_def same_find)
  show ?thesis
  proof (cases act)
    case (ActRoute d st)
    have route: "list_all (granted rt u s) (dispatchMessage rt ev app ctx (routeFromClassifier d SourceIntent st) s1)"
      if "rt_isAppEnabled rt u (cl_appId d) (ru_enabledApps usr)" "getApp (cl_appId d) (rt_apps rt) = Some app" for app
      using granted_dispatch [OF f1(1) assms(2), of app] that getApp_Some [OF that(2)] f1 assms(1) same_granted_all frame
      by (auto simp: may_use_def loaded_def routeFromClassifier_def)
    have conv: "list_all (granted rt u s) (dispatchConversation rt ev ctx r s1)"
      if "rt_isAppEnabled rt u ''chatbot'' (ru_enabledApps usr)" for r
    proof -
      have "list_all (granted rt u s1) (dispatchConversation rt ev ctx r s1)"
        using that f1(1) assms(2) by (auto simp: dispatchConversation_def may_use_def)
      then show ?thesis using frame same_granted_all by blast
    qed
    have direct: "list_all (granted rt u s) (directRoute rt ev ctx (ru_enabledApps usr) m s1)"
      using granted_direct [OF f1(1) assms(2)] assms(3) f1(2) frame same_granted_all by metis
    show ?thesis
      using run v ActRoute frame route conv direct assms(1,2)
      by (auto simp: routeVerified_def Let_def split: if_splits option.splits)
  qed (use run v frame assms in \<open>auto simp: routeVerified_def Let_def\<close>)
qed

lemma granted_promotion:
  assumes "findUser rt u s = Some usr" "mx_userId ctx = u"
    and run: "tryContextPromotion rt ev ctx (ru_enabledApps usr) s = (es, s')"
  shows "list_all (granted rt u s) es \<and> same_users s s'"
proof -
  define fb where "fb = sendToFallback rt ev ctx (ru_enabledApps usr) s"
  have fb: "list_all (granted rt u s) fb" unfolding fb_def by (rule granted_fallback [OF assms(1,2)])
  note fbs = fb granted_rescue [OF fb fb]
  show ?thesis
  proof (cases "ic_classifyWithLowConfidence (buildIntentTable (rt_cache rt)) (ev_classifyLow ev (mx_text ctx))")
    case None
    then show ?thesis using run fbs by (auto simp: tryContextPromotion_def Let_def fb_def split: if_splits)
  next
    case (Some low)
    obtain act out s1 where v: "ask_verifier rt ev u (mx_text ctx) (ru_enabledApps usr) True (HeldText ctx) False low s = (act, out, s1)"
      by (metis prod_cases3)
    note frame = ask_verifier_out [OF v]
    then have f1: "findUser rt u s1 = Some usr" using assms(1) same_find by metis
    have route: "list_all (granted rt u s) (rescue (dispatchMessage rt ev app ctx (routeFromClassifier d SourceContextPromotion st) s1) fb)"
      if "rt_isAppEnabled rt u (cl_appId d) (ru_enabledApps usr)" "getApp (cl_appId d) (rt_apps rt) = Some app" for app d st
      using granted_dispatch [OF f1 assms(2), of app] that getApp_Some [OF that(2)] f1 frame fb
      by (intro granted_rescue) (auto simp: may_use_def loaded_def routeFromClassifier_def same_granted_all)
    show ?thesis
      using run Some v frame fbs route assms(1,2)
      by (auto simp: tryContextPromotion_def Let_def fb_def [symmetric] split: if_splits verify_action.splits option.splits)
  qed
qed

lemma granted_one:
  assumes "findUser rt u s = Some usr" "mx_userId ctx = u"
    and run: "routeOneTextRequest rt ev ctx (ru_enabledApps usr) s = (es, s')"
  shows "list_all (granted rt u s) es \<and> same_users s s'"
proof (cases "ic_classify (buildIntentTable (rt_cache rt)) (rt_threshold rt) (ev_classify ev (mx_text ctx))")
  case None
  then show ?thesis
    using run granted_promotion [OF assms(1,2)] granted_fallback [OF assms(1,2)]
    by (auto simp: routeOneTextRequest_def split: if_splits)
next
  case (Some m)
  show ?thesis
  proof (cases "rt_isAppEnabled rt u (cl_appId m) (ru_enabledApps usr)")
    case True
    then have "may_use rt u s (cl_appId m)" using assms(1) by (simp add: may_use_def)
    then show ?thesis
      using run Some True assms(2) granted_verified [OF assms(1,2)] granted_direct [OF assms(1,2)]
      by (auto simp: routeOneTextRequest_def split: if_splits)
  qed (use run Some assms in \<open>auto simp: routeOneTextRequest_def\<close>)
qed

lemma granted_segment:
  assumes "findUser rt u s = Some usr" "mx_userId ctx = u"
    and run: "routeSegment rt ev ctx (ru_enabledApps usr) w s = (es, s')"
  shows "list_all (granted rt u s) es \<and> same_users s s'"
proof -
  obtain e1 where r: "routeOneTextRequest rt ev (ctx\<lparr>mx_text := w\<rparr>) (ru_enabledApps usr) s = (e1, s')"
    and es: "es = rescue e1 [Say u SegmentApology]"
    using run assms(2) by (auto simp: routeSegment_def split: prod.splits)
  have "list_all (granted rt u s) e1 \<and> same_users s s'"
    using granted_one [OF assms(1) _ r] assms(2) by simp
  then show ?thesis using granted_rescue [of rt u s e1 "[Say u SegmentApology]"] es by simp
qed

lemma granted_segments:
  assumes "findUser rt u s = Some usr" "mx_userId ctx = u" "routeSegments rt ev ctx (ru_enabledApps usr) ws s = (es, s')"
  shows "list_all (granted rt u s) es \<and> same_users s s'"
  using assms
proof (induction ws arbitrary: s es)
  case (Cons w ws)
  obtain e1 s1 where r1: "routeSegment rt ev ctx (ru_enabledApps usr) w s = (e1, s1)" by fastforce
  obtain e2 where r2: "routeSegments rt ev ctx (ru_enabledApps usr) ws s1 = (e2, s')" and es: "es = e1 @ e2"
    using Cons.prems(3) r1 by (auto split: prod.splits)
  have g1: "list_all (granted rt u s) e1" "same_users s s1"
    using granted_segment [OF Cons.prems(1,2) r1] by auto
  have "list_all (granted rt u s1) e2 \<and> same_users s1 s'"
    using Cons.IH [OF _ Cons.prems(2) r2] same_find [OF g1(2)] Cons.prems(1) by simp
  then show ?case using g1 es same_granted_all same_users_trans by auto
qed simp

lemma granted_convCommand:
  assumes "findUser rt u s = Some usr" "mx_userId ctx = u" "admin \<longleftrightarrow> name = ''settings'' \<and> ru_isAdmin usr"
  shows "list_all (granted rt u s) (dispatchConversationCommand rt ev name args ctx admin)"
  using assms by (auto simp: dispatchConversationCommand_def)

lemma granted_hook:
  assumes "findUser rt u s = Some usr" "mx_userId ctx = u" "handleSessionControlHook rt ev ctx s = (b, es, s')"
  shows "list_all (granted rt u s) es \<and> same_users s s'"
  using assms(3) granted_convCommand [OF assms(1,2), of False "''newchat''" ev "[]"] assms(1,2)
  by (auto simp: handleSessionControlHook_def Let_def same_users_def split: option.splits if_splits prod.splits)

lemma tryMultiIntentSplit_Some:
  assumes "tryMultiIntentSplit rt ev ctx enabled s = Some (es, s')"
  shows "\<exists>e2. es = Say (mx_userId ctx) Preamble # e2 \<and>
    routeSegments rt ev ctx enabled (segmentMessage (mx_text ctx) (ev_segments ev)) s = (e2, s')"
proof -
  obtain e2 s2 where r: "routeSegments rt ev ctx enabled (segmentMessage (mx_text ctx) (ev_segments ev)) s = (e2, s2)"
    by fastforce
  show ?thesis
    using assms by (simp add: tryMultiIntentSplit_def Let_def r split: if_splits)
qed

lemma granted_text:
  assumes "findUser rt u s = Some usr" "mx_userId ctx = u" "routeText rt ev ctx (ru_enabledApps usr) s = (es, s')"
  shows "list_all (granted rt u s) es \<and> same_users s s'"
proof -
  obtain taken out s1 where h: "(if rt_newchat rt \<and> mx_idle ctx \<noteq> Some IdleReset
      then handleSessionControlHook rt ev ctx s else (False, [], s)) = (taken, out, s1)"
    using prod_cases3 by metis
  have g: "list_all (granted rt u s) out \<and> same_users s s1"
    using h granted_hook [OF assms(1,2)] by (auto split: if_splits)
  then have f1: "findUser rt u s1 = Some usr" using same_find assms(1) by metis
  note run = assms(3) [unfolded routeText_def h prod.case]
  consider "taken" "es = out" "s' = s1"
    | e2 where "es = Say u Preamble # e2"
        "routeSegments rt ev ctx (ru_enabledApps usr) (segmentMessage (mx_text ctx) (ev_segments ev)) s1 = (e2, s')"
    | "routeOneTextRequest rt ev ctx (ru_enabledApps usr) s1 = (es, s')"
  proof (cases "taken")
    case True
    then show ?thesis using run that(1) by simp
  next
    case False
    show ?thesis
    proof (cases "tryMultiIntentSplit rt ev ctx (ru_enabledApps usr) s1")
      case None
      then show ?thesis using run False that(3) by simp
    next
      case (Some r)
      then have r: "r = (es, s')" using run False by simp
      show ?thesis
        using tryMultiIntentSplit_Some [OF Some [unfolded r]] assms(2) that(2) by blast
    qed
  qed
  then show ?thesis
  proof cases
    case 1
    then show ?thesis using g by simp
  next
    case 2
    then show ?thesis using granted_segments [OF f1 assms(2)] g same_granted_all same_users_trans by fastforce
  next
    case 3
    then show ?thesis using granted_one [OF f1 assms(2)] g same_granted_all same_users_trans by fastforce
  qed
qed

lemma active_space_users: "active_space u s = (sp, s') \<Longrightarrow> same_users s s'"
  by (auto simp: active_space_def same_users_def split: option.splits prod.splits)

lemma conversation_settings: "conversation_command c = Some ''settings'' \<longleftrightarrow> c = ''/settings''"
  by (auto simp: conversation_command_def split: if_splits)

lemma granted_command:
  assumes "findUser rt u s = Some usr" "mx_userId ctx = u"
  shows "list_all (granted rt u s) (handleCommand rt ev p ctx (ru_enabledApps usr) s)"
proof -
  consider "pc_command p = ''/help''" | "pc_command p = ''/start''"
    | name where "pc_command p \<noteq> ''/help''" "pc_command p \<noteq> ''/start''" "rt_conversation rt" "conversation_command (pc_command p) = Some name"
    | "pc_command p \<noteq> ''/help''" "pc_command p \<noteq> ''/start''" "\<not> (rt_conversation rt \<and> conversation_command (pc_command p) \<noteq> None)"
    by blast
  then show ?thesis
  proof cases
    case 3
    then show ?thesis
      using granted_convCommand [OF assms, of "pc_command p = ''/settings'' \<and> ru_isAdmin usr" name ev "pc_args p"]
        conversation_settings [of "pc_command p"] assms
      by (auto simp: handleCommand_def Let_def)
  next
    case 4
    have go: "list_all (granted rt u s) (dispatchMessage rt ev a ctx (routeForCommand app name) s)"
      if "getApp app (rt_apps rt) = Some a" "rt_isAppEnabled rt u app (ru_enabledApps usr)" for a app name
      using granted_dispatch [OF assms, of a] getApp_Some [OF that(1)] that assms
      by (auto simp: may_use_def loaded_def routeForCommand_def)
    show ?thesis
      using 4 assms go
      by (auto simp: handleCommand_def Let_def may_use_def loaded_def routeForCommand_def split: option.splits)
  qed (use assms in \<open>auto simp: handleCommand_def Let_def\<close>)
qed

lemma granted_spaceCommand:
  "routeSpaceCommand ev args u s = (es, s') \<Longrightarrow> list_all (granted rt u s) es"
  by (auto simp: routeSpaceCommand_def split: option.splits prod.splits)

lemma granted_invite:
  "handleInviteCommand rt ev args u s = (es, s') \<Longrightarrow> list_all (granted rt u s) es"
  by (auto simp: handleInviteCommand_def Let_def split: if_splits sum.splits prod.splits)

lemma granted_redemption:
  assumes "findUser rt u s = None" "handleInviteRedemption ev cd u s = (es, s')"
  shows "list_all (granted rt u s) es"
  using assms by (auto simp: handleInviteRedemption_def Let_def split: outcome.splits prod.splits)

lemma granted_message:
  assumes "routeMessage rt ev ctx s = (es, s')"
  shows "list_all (granted rt (mx_userId ctx) s) es"
proof (cases "findUser rt (mx_userId ctx) s")
  case None
  then show ?thesis
    using assms granted_redemption [OF None]
    by (auto simp: routeMessage_def Let_def split: option.splits if_splits)
next
  case (Some usr)
  define u where "u = mx_userId ctx"
  obtain sp s1 where a: "active_space u s = (sp, s1)" by fastforce
  note same = active_space_users [OF a]
  have f1: "findUser rt u s1 = Some usr" using Some same_find [OF same] u_def by simp
  show ?thesis
  proof (cases "parseCommand (mx_text ctx)")
    case None
    then show ?thesis
      using assms Some a granted_text [OF f1, of "ctx\<lparr>mx_space := sp, mx_idle := ev_idle ev\<rparr>"] same_granted_all [OF same]
      by (auto simp: routeMessage_def Let_def u_def [symmetric] split: if_splits)
  next
    case p: (Some p)
    show ?thesis
      using assms Some p a granted_command [OF f1, of "ctx\<lparr>mx_space := sp, mx_idle := ev_idle ev\<rparr>" ev p] same_granted_all [OF same]
        granted_spaceCommand granted_invite
      by (auto simp: routeMessage_def Let_def u_def [symmetric] split: if_splits)
  qed
qed

lemma granted_dispatchPhoto:
  assumes "findUser rt u s = Some usr" "px_userId ctx = u" "may_use rt u s (ra_id a)" "ri_appId r = ra_id a" "loaded rt (ra_id a)"
  shows "list_all (granted rt u s) (dispatchPhoto rt ev a ctx r parent s)"
  using assms by (auto simp: dispatchPhoto_def split: option.splits)

lemma granted_directPhoto:
  assumes "findUser rt u s = Some usr" "px_userId ctx = u" "may_use rt u s (cl_appId m)"
  shows "list_all (granted rt u s) (directPhoto rt ev ctx m s)"
proof (cases "getApp (cl_appId m) (rt_apps rt)")
  case None
  then show ?thesis using assms(2) by (simp add: directPhoto_def)
next
  case (Some a)
  then have "ra_id a = cl_appId m" using getApp_Some by blast
  then show ?thesis
    using granted_dispatchPhoto [OF assms(1,2), of a] assms(2,3) Some
    by (simp add: directPhoto_def loaded_def routeFromClassifier_def)
qed

lemma granted_photoVerified:
  assumes "findUser rt u s = Some usr" "px_userId ctx = u" "may_use rt u s (cl_appId m)"
    and run: "photoVerified rt ev ctx caption (ru_enabledApps usr) m s = (es, s')"
  shows "list_all (granted rt u s) es"
proof -
  obtain act out s1 where v: "ask_verifier rt ev u caption (ru_enabledApps usr) False (HeldPhoto ctx) True m s = (act, out, s1)"
    by (metis prod_cases3)
  note frame = ask_verifier_out [OF v]
  then have f1: "findUser rt u s1 = Some usr" "may_use rt u s1 = may_use rt u s"
    using assms(1) same_find by (auto simp: may_use_def same_find)
  have direct: "list_all (granted rt u s) (directPhoto rt ev ctx m s1)"
    using granted_directPhoto [OF f1(1) assms(2)] assms(3) f1(2) frame same_granted_all by metis
  show ?thesis
  proof (cases act)
    case (ActRoute d st)
    have go: "list_all (granted rt u s) (dispatchPhoto rt ev a ctx (routeFromClassifier d SourcePhotoIntent st) (ev_parent ev) s1)"
      if "rt_isAppEnabled rt u (cl_appId d) (ru_enabledApps usr)" "getApp (cl_appId d) (rt_apps rt) = Some a" for a
      using granted_dispatchPhoto [OF f1(1) assms(2), of a] that getApp_Some [OF that(2)] f1 assms(1) same_granted_all frame
      by (auto simp: may_use_def loaded_def routeFromClassifier_def)
    show ?thesis
      using run v ActRoute frame go direct assms(1,2)
      by (auto simp: photoVerified_def Let_def split: if_splits option.splits)
  qed (use run v frame assms in \<open>auto simp: photoVerified_def Let_def\<close>)
qed

lemma granted_photo:
  assumes "routePhoto rt ev ctx s = (es, s')"
  shows "list_all (granted rt (px_userId ctx) s) es"
proof (cases "findUser rt (px_userId ctx) s")
  case None
  then show ?thesis using assms by (auto simp: routePhoto_def)
next
  case (Some usr)
  define u where "u = px_userId ctx"
  obtain sp s1 where a: "active_space u s = (sp, s1)" by fastforce
  note same = active_space_users [OF a]
  have f1: "findUser rt u s1 = Some usr" using Some same_find [OF same] u_def by simp
  have "list_all (granted rt u s1) es"
    using assms Some a granted_photoVerified [OF f1, of "ctx\<lparr>px_space := sp\<rparr>"]
      granted_directPhoto [OF f1, of "ctx\<lparr>px_space := sp\<rparr>"] f1
    by (auto simp: routePhoto_def Let_def u_def [symmetric] may_use_def split: if_splits option.splits)
  then show ?thesis using same_granted_all [OF same] u_def by simp
qed


section \<open>Every message is answered\<close>

definition answered :: "effect list \<Rightarrow> bool" where
  "answered es \<longleftrightarrow> es \<noteq> [] \<and> Thrown \<notin> set es"

lemma answered_say [simp]: "answered [Say u r]"
  by (simp add: answered_def)

lemma answered_append: "answered xs \<Longrightarrow> answered ys \<Longrightarrow> answered (xs @ ys)"
  by (auto simp: answered_def)

lemma answered_after: "Thrown \<notin> set out \<Longrightarrow> answered ys \<Longrightarrow> answered (out @ ys)"
  by (auto simp: answered_def)

locale wired_router =
  fixes rt :: router and ev :: router_env
  assumes conversation: "rt_conversation rt" and session: "ev_session_ok ev"
begin

lemma fallback_answers: "answered (sendToFallback rt ev ctx enabled s)"
  using conversation session by (simp add: answered_def sendToFallback_def dispatchConversation_def)

lemma conversation_answers: "answered (dispatchConversation rt ev ctx r s)"
  using conversation session by (simp add: answered_def dispatchConversation_def)

lemma convCommand_answers: "answered (dispatchConversationCommand rt ev n args ctx admin)"
  using conversation session by (simp add: answered_def dispatchConversationCommand_def)

lemma dispatch_answers: "answered (dispatchMessage rt ev a ctx r s)"
  using fallback_answers by (auto simp: answered_def dispatchMessage_def split: handled.splits)

lemma direct_answers [simp]: "answered (directRoute rt ev ctx enabled m s)"
  using fallback_answers dispatch_answers by (simp add: directRoute_def split: option.splits)

lemma rescue_answers: "answered es \<Longrightarrow> rescue es hs = es"
  by (simp add: answered_def rescue_def)

lemmas answers = fallback_answers conversation_answers convCommand_answers dispatch_answers direct_answers

lemma verifier_answers:
  assumes "ask_verifier rt ev u t enabled strict ctx photo m s = (act, out, s1)"
  shows "Thrown \<notin> set out" "act = ActHeld \<Longrightarrow> answered out" "\<not> strict \<Longrightarrow> act \<noteq> ActFallback"
proof -
  obtain bs st where v: "verify (rt_apps rt) (Some (resolveEnabledApps rt u enabled)) (ev_verdict ev t) (ev_buttons_ok ev)
      (ev_pendingId ev t) strict photo ctx m (rs_pending s) = (act, bs, st)"
    and out: "out = (case bs of None \<Rightarrow> [] | Some b \<Rightarrow> [Buttons u b])"
    using assms by (auto simp: ask_verifier_def split: prod.splits)
  show "Thrown \<notin> set out" using out by (auto split: option.splits)
  show "answered out" if "act = ActHeld"
    using verify_held [OF v [unfolded that]] out by (auto simp: answered_def)
  show "act \<noteq> ActFallback" if "\<not> strict"
  proof -
    have "strict = False" using that by simp
    show ?thesis by (rule verify_not_fallback [OF v [unfolded \<open>strict = False\<close>]])
  qed
qed

lemma verified_answers: "answered (fst (routeVerified rt ev ctx enabled m s))"
proof -
  obtain act out s1 where v: "ask_verifier rt ev (mx_userId ctx) (mx_text ctx) enabled False (HeldText ctx) False m s = (act, out, s1)"
    by (metis prod_cases3)
  show ?thesis
    using v verifier_answers [OF v] answers
    by (cases act) (auto simp: routeVerified_def Let_def intro: answered_after split: option.splits)
qed

lemma promotion_answers: "answered (fst (tryContextPromotion rt ev ctx enabled s))"
proof (cases "ic_classifyWithLowConfidence (buildIntentTable (rt_cache rt)) (ev_classifyLow ev (mx_text ctx))")
  case None
  then show ?thesis using answers rescue_answers by (simp add: tryContextPromotion_def Let_def)
next
  case (Some low)
  obtain act out s1 where v: "ask_verifier rt ev (mx_userId ctx) (mx_text ctx) enabled True (HeldText ctx) False low s = (act, out, s1)"
    by (metis prod_cases3)
  show ?thesis
    using Some v verifier_answers(2) [OF v] answers rescue_answers
    by (cases act) (auto simp: tryContextPromotion_def Let_def split: option.splits)
qed

lemma one_answers: "answered (fst (routeOneTextRequest rt ev ctx enabled s))"
  using answers verified_answers promotion_answers
  by (auto simp: routeOneTextRequest_def split: option.splits)

lemma segment_answers: "answered (fst (routeSegment rt ev ctx enabled w s))"
  using one_answers rescue_answers by (simp add: routeSegment_def split_def)

lemma segments_answers: "Thrown \<notin> set (fst (routeSegments rt ev ctx enabled ws s))"
proof (induction ws arbitrary: s)
  case (Cons w ws)
  then show ?case
    using segment_answers [of ctx enabled w s] by (auto simp: split_def Let_def answered_def)
qed simp

lemma hook_answers:
  "handleSessionControlHook rt ev ctx s = (taken, out, s') \<Longrightarrow> (if taken then answered out else out = [])"
  using convCommand_answers by (auto simp: handleSessionControlHook_def Let_def answered_def split: option.splits if_splits prod.splits)

lemma text_answers: "answered (fst (routeText rt ev ctx enabled s))"
proof -
  obtain taken out s1 where h: "(if rt_newchat rt \<and> mx_idle ctx \<noteq> Some IdleReset
      then handleSessionControlHook rt ev ctx s else (False, [], s)) = (taken, out, s1)"
    using prod_cases3 by metis
  have t: "taken \<Longrightarrow> answered out"
    using h hook_answers [of ctx s taken out s1] by (auto split: if_splits)
  have split: "answered (fst r)" if "tryMultiIntentSplit rt ev ctx enabled s1 = Some r" for r
    using tryMultiIntentSplit_Some [of rt ev ctx enabled s1 "fst r" "snd r"] that segments_answers
    by (auto simp: answered_def) (metis fst_conv)
  show ?thesis
    unfolding routeText_def h using t split one_answers by (auto split: option.splits)
qed

lemma command_answers: "answered (handleCommand rt ev p ctx enabled s)"
  using convCommand_answers dispatch_answers conversation
  by (auto simp: handleCommand_def Let_def split: option.splits) (simp_all add: answered_def)

lemma message_answers:
  assumes "findUser rt (mx_userId ctx) s = Some usr"
    and "\<And>p. parseCommand (mx_text ctx) = Some p \<Longrightarrow> pc_command p \<notin> {''/space'', ''/invite''} \<and>
      \<not> (ev_idle ev = Some IdleReset \<and> pc_command p \<in> {''/newchat'', ''/reset''})"
  shows "answered (fst (routeMessage rt ev ctx s))"
proof (cases "parseCommand (mx_text ctx)")
  case None
  then show ?thesis
    using assms(1) text_answers by (auto simp: routeMessage_def Let_def split_def answered_def)
next
  case (Some p)
  then show ?thesis
    using assms(1) assms(2) [OF Some] command_answers by (auto simp: routeMessage_def Let_def split_def)
qed

end

interpretation wired: wired_router "rt\<lparr>rt_conversation := True\<rparr>" "ev\<lparr>ev_session_ok := True\<rparr>" for rt ev
  by unfold_locales simp_all


definition food_app :: registered_app where
  "food_app =
     \<lparr>ra_manifest = \<lparr>mf_id = ''food'', mf_name = ''Food'', mf_commands = [], mf_intents = [''log a meal''],
        mf_accepts_photos = False, mf_photo_intents = []\<rparr>, ra_handleCommand = False, ra_handlePhoto = False\<rparr>"

definition small_router :: router where
  "small_router =
     \<lparr>rt_apps = [food_app], rt_cache = mc_add (ra_manifest food_app) [],
      rt_users = [\<lparr>ru_id = ''7'', ru_name = ''Dora'', ru_isAdmin = False, ru_enabledApps = [''*''], ru_sharedScopes = [],
        ru_householdId = None\<rparr>],
      rt_toggles = None, rt_threshold = 2 / 5, rt_upper = 7 / 10, rt_always = [], rt_conversation = True, rt_verifier = False,
      rt_interaction = False, rt_splitting = False, rt_newchat = False, rt_invites = False, rt_mutation = False\<rparr>"

definition yielding_env :: router_env where
  "yielding_env =
     \<lparr>ev_now = 0, ev_iso = [], ev_random = [], ev_claim_ok = True, ev_config_ok = True, ev_idle = None, ev_parent = None,
      ev_wizard = False, ev_session_ok = True, ev_classify = (\<lambda>_. Some (''log a meal'', 9 / 10)), ev_classifyLow = (\<lambda>_. None),
      ev_verdict = (\<lambda>_. VerifierThrew), ev_pendingId = (\<lambda>_. []), ev_buttons_ok = False, ev_app = (\<lambda>_ _. HandlerYielded),
      ev_command_ok = True, ev_photo = None, ev_conversation_ok = (\<lambda>_. False), ev_recent = [], ev_segments = None,
      ev_newchat = None\<rparr>"

definition empty_state :: router_state where
  "empty_state =
     \<lparr>rs_world = \<lparr>iw_file = None, iw_users = \<lparr>uw_users = [], uw_config = [], uw_household = None, uw_pending = []\<rparr>, iw_spaces = None\<rparr>,
      rs_pending = [], rs_newchat = []\<rparr>"

definition pizza :: msg where
  "pizza = \<lparr>mx_userId = ''7'', mx_text = ''had pizza'', mx_space = None, mx_idle = None\<rparr>"


section \<open>Where the code falls short\<close>

text \<open>Who was in the configuration at the start keeps the rights of that day, whatever the users' table says.\<close>

lemma rights_of_the_start_prevail:
  "find (\<lambda>x. ru_id x = u) (rt_users rt) = Some usr \<Longrightarrow> findUser rt u s = Some usr \<and> findUser rt u s' = Some usr"
  by (simp add: findUser_def)

text \<open>A session lookup that fails leaves the router as an exception.\<close>

lemma session_lookup_escapes:
  "rt_conversation rt \<Longrightarrow> \<not> ev_session_ok ev \<Longrightarrow> dispatchConversation rt ev ctx r s = [Thrown]"
  by (simp add: dispatchConversation_def)

end
