(* ===== verification/Conditions.thy ===== *)
theory Conditions
  imports Js_Text
begin

text \<open>
  Conditions on data and the rules that carry them: \<open>services/condition-evaluator\<close>. Cooldowns
  (\<open>cooldown-tracker.ts\<close>), the two ways to evaluate a condition (\<open>evaluator.ts\<close>), rule files in markdown
  (\<open>rule-parser.ts\<close>) and the service that evaluates rules and writes the time of the last firing back into the file
  (\<open>index.ts\<close>). \<open>new Date(text)\<close> is a parameter \<open>date_of\<close> of the parser; what the model answers and what
  the data store does are arguments.
\<close>

section \<open>Cooldowns\<close>

text \<open>A date that was read may be no valid one; then every comparison of its time is false.\<close>

datatype fired = NeverFired | FiredAt time | InvalidDate

definition line_char :: "char \<Rightarrow> bool" where
  "line_char c \<longleftrightarrow> c \<noteq> CHR 0x0A \<and> c \<noteq> CHR 0x0D"

text \<open>\<open>.+\<close> in a pattern.\<close>

definition dots :: "string \<Rightarrow> bool" where
  "dots s \<longleftrightarrow> s \<noteq> [] \<and> list_all line_char s"

definition parseCooldown :: "string \<Rightarrow> time" where
  "parseCooldown s =
     (let t = trim s; d = takeWhile is_digit t; r = drop (length d) t; unit = lower (dropWhile is_ws r)
      in if d = [] \<or> dropWhile is_ws r = r then 0
         else if unit = ''minute'' \<or> unit = ''minutes'' then int (dec_val d) * 60 * 1000
         else if unit = ''hour'' \<or> unit = ''hours'' then int (dec_val d) * 60 * 60 * 1000
         else if unit = ''day'' \<or> unit = ''days'' then int (dec_val d) * 24 * 60 * 60 * 1000
         else 0)"

fun canFire :: "fired \<Rightarrow> time \<Rightarrow> time \<Rightarrow> bool" where
  "canFire NeverFired cooldown now = True"
| "canFire (FiredAt t) cooldown now = (cooldown \<le> now - t)"
| "canFire InvalidDate cooldown now = False"

text \<open>With an invalid date nothing remains, as \<open>NaN > 0\<close> is false.\<close>

fun getCooldownRemaining :: "fired \<Rightarrow> time \<Rightarrow> time \<Rightarrow> time" where
  "getCooldownRemaining NeverFired cooldown now = 0"
| "getCooldownRemaining (FiredAt t) cooldown now = max 0 (cooldown - (now - t))"
| "getCooldownRemaining InvalidDate cooldown now = 0"

record rule_status =
  rst_id :: string
  rst_lastFired :: fired
  rst_cooldownRemaining :: time
  rst_isActive :: bool

definition buildRuleStatus :: "string \<Rightarrow> fired \<Rightarrow> time \<Rightarrow> time \<Rightarrow> rule_status" where
  "buildRuleStatus i fd cooldown now =
     (let r = getCooldownRemaining fd cooldown now
      in \<lparr>rst_id = i, rst_lastFired = fd, rst_cooldownRemaining = r, rst_isActive = (r = 0)\<rparr>)"

section \<open>Conditions\<close>

definition nonblank_lines :: "string \<Rightarrow> nat" where
  "nonblank_lines s = length (filter (\<lambda>l. trim l \<noteq> []) (split_on (CHR 0x0A) s))"

text \<open>\<open>^P\s+"(.+)"$\<close> and \<open>^P\s*(\d+)$\<close>: the group, when the text matches.\<close>

definition quoted_after :: "string \<Rightarrow> string \<Rightarrow> string option" where
  "quoted_after p s =
     (let r = drop (length p) s; q = dropWhile is_ws r; w = drop 1 (butlast q)
      in if starts_with p s \<and> q \<noteq> r \<and> starts_with [CHR 0x22] q \<and> 2 \<le> length q \<and> last q = CHR 0x22 \<and> dots w
         then Some w else None)"

definition number_after :: "string \<Rightarrow> string \<Rightarrow> nat option" where
  "number_after p s =
     (let d = dropWhile is_ws (drop (length p) s)
      in if starts_with p s \<and> d \<noteq> [] \<and> list_all is_digit d then Some (dec_val d) else None)"

text \<open>\<open>^line count\s*OP\s*(\d+)$\<close>.\<close>

definition count_condition :: "string \<Rightarrow> string \<Rightarrow> nat option" where
  "count_condition op s =
     (if starts_with ''line count'' s then number_after op (dropWhile is_ws (drop 10 s)) else None)"

definition evaluateDeterministic :: "string \<Rightarrow> string \<Rightarrow> bool" where
  "evaluateDeterministic condition data =
     (let cond = trim (lower condition) in
      if cond = ''empty'' \<or> cond = ''is empty'' then trim data = []
      else if cond = ''not empty'' \<or> cond = ''is not empty'' then trim data \<noteq> []
      else case quoted_after ''contains'' cond of Some w \<Rightarrow> str_includes w data
      | None \<Rightarrow> (case quoted_after ''not contains'' cond of Some w \<Rightarrow> \<not> str_includes w data
      | None \<Rightarrow> (case count_condition ''>'' cond of Some n \<Rightarrow> n < nonblank_lines data
      | None \<Rightarrow> (case count_condition ''<'' cond of Some n \<Rightarrow> nonblank_lines data < n
      | None \<Rightarrow> False))))"

text \<open>What the model answers, \<open>None\<close> when the call throws; \<open>None\<close> as the result is that exception.\<close>

datatype fuzzy_call = NoLLM | LLMThrew | LLMAnswer string

fun evaluateFuzzy :: "fuzzy_call \<Rightarrow> bool option" where
  "evaluateFuzzy NoLLM = Some False"
| "evaluateFuzzy LLMThrew = None"
| "evaluateFuzzy (LLMAnswer a) = Some (starts_with ''yes'' (lower (trim a)))"

section \<open>Rule files\<close>

record rule =
  rr_id :: string
  rr_condition :: string
  rr_dataSources :: "string list"
  rr_action :: string
  rr_cooldown :: string
  rr_cooldownMs :: time
  rr_lastFired :: fired
  rr_isFuzzy :: bool

text \<open>The rule that is being read: fields are \<open>None\<close> until their line has been seen.\<close>

record partial_rule =
  pt_id :: string
  pt_isFuzzy :: bool
  pt_condition :: "string option"
  pt_dataSources :: "string list"
  pt_action :: "string option"
  pt_cooldown :: "string option"
  pt_lastFired :: fired

text \<open>\<open>^##\s+(.+)$\<close> on a trimmed line.\<close>

definition heading_of :: "string \<Rightarrow> string option" where
  "heading_of t =
     (let r = drop 2 t; w = dropWhile is_ws r
      in if starts_with ''##'' t \<and> w \<noteq> r \<and> dots w then Some w else None)"

text \<open>\<open>^-\s+\*\*\<close>, then \<open>NAME:\*\*\s*(.+)$\<close>.\<close>

definition bold_item :: "string \<Rightarrow> string option" where
  "bold_item t =
     (let r = drop 1 t; w = dropWhile is_ws r
      in if starts_with ''-'' t \<and> w \<noteq> r \<and> starts_with ''**'' w then Some (drop 2 w) else None)"

definition field :: "string \<Rightarrow> string \<Rightarrow> string option" where
  "field name t =
     (case bold_item t of None \<Rightarrow> None
      | Some w \<Rightarrow>
          (let v = dropWhile is_ws (drop (length name + 3) w)
           in if starts_with (name @ '':**'') w \<and> dots v then Some (trim v) else None))"

text \<open>All matches of a pair of backticks with something between them.\<close>

function ticked :: "string \<Rightarrow> string list" where
  "ticked [] = []"
| "ticked (c # s) =
     (let w = takeWhile (\<lambda>c. c \<noteq> CHR 0x60) s; r = drop (length w) s
      in if c = CHR 0x60 \<and> w \<noteq> [] \<and> r \<noteq> [] then w # ticked (tl r) else ticked s)"
  by pat_completeness auto
termination by (relation "measure length") auto

definition data_paths :: "string \<Rightarrow> string list" where
  "data_paths s =
     (if ticked s \<noteq> [] then ticked s else filter (\<lambda>p. p \<noteq> []) (map trim (split_on (CHR '','') s)))"

definition raw_fuzzy :: "string \<Rightarrow> bool" where
  "raw_fuzzy raw = starts_with ''fuzzy:'' raw"

definition raw_id :: "string \<Rightarrow> string" where
  "raw_id raw = (if raw_fuzzy raw then trim (drop 6 raw) else raw)"

definition start_rule :: "string \<Rightarrow> partial_rule" where
  "start_rule raw =
     \<lparr>pt_id = raw_id raw, pt_isFuzzy = raw_fuzzy raw, pt_condition = None, pt_dataSources = [],
      pt_action = None, pt_cooldown = None, pt_lastFired = NeverFired\<rparr>"

definition parse_field :: "(string \<Rightarrow> fired) \<Rightarrow> string \<Rightarrow> partial_rule \<Rightarrow> partial_rule" where
  "parse_field date_of t p =
     (case field ''Condition'' t of Some v \<Rightarrow> p\<lparr>pt_condition := Some v\<rparr>
      | None \<Rightarrow> (case field ''Data'' t of Some v \<Rightarrow> p\<lparr>pt_dataSources := data_paths v\<rparr>
      | None \<Rightarrow> (case field ''Action'' t of Some v \<Rightarrow> p\<lparr>pt_action := Some v\<rparr>
      | None \<Rightarrow> (case field ''Cooldown'' t of Some v \<Rightarrow> p\<lparr>pt_cooldown := Some v\<rparr>
      | None \<Rightarrow> (case field ''Last fired'' t of
                   Some v \<Rightarrow> p\<lparr>pt_lastFired := if v \<noteq> [] \<and> v \<noteq> ''never'' then date_of v else NeverFired\<rparr>
                 | None \<Rightarrow> p)))))"

definition finalizeRule :: "partial_rule \<Rightarrow> rule option" where
  "finalizeRule p =
     (case pt_condition p of None \<Rightarrow> None
      | Some c \<Rightarrow>
          if pt_id p = [] \<or> c = [] then None
          else (let cd = (case pt_cooldown p of None \<Rightarrow> ''24 hours'' | Some s \<Rightarrow> s)
                in Some \<lparr>rr_id = pt_id p, rr_condition = c, rr_dataSources = pt_dataSources p,
                     rr_action = (case pt_action p of None \<Rightarrow> [] | Some a \<Rightarrow> a), rr_cooldown = cd,
                     rr_cooldownMs = parseCooldown cd, rr_lastFired = pt_lastFired p, rr_isFuzzy = pt_isFuzzy p\<rparr>))"

definition finished :: "partial_rule option \<Rightarrow> rule list" where
  "finished cur = (case Option.bind cur finalizeRule of None \<Rightarrow> [] | Some r \<Rightarrow> [r])"

fun parse_lines :: "(string \<Rightarrow> fired) \<Rightarrow> partial_rule option \<Rightarrow> string list \<Rightarrow> rule list" where
  "parse_lines date_of cur [] = finished cur"
| "parse_lines date_of cur (l # ls) =
     (case heading_of (trim l) of
        Some raw \<Rightarrow> finished cur @ parse_lines date_of (Some (start_rule (trim raw))) ls
      | None \<Rightarrow> parse_lines date_of (map_option (parse_field date_of (trim l)) cur) ls)"

definition parseRuleFile :: "(string \<Rightarrow> fired) \<Rightarrow> string \<Rightarrow> rule list" where
  "parseRuleFile date_of content = parse_lines date_of None (split_on (CHR 0x0A) content)"

section \<open>Writing the last firing back\<close>

definition rule_heading :: "string \<Rightarrow> bool \<Rightarrow> string" where
  "rule_heading i fuzzy = (if fuzzy then ''## fuzzy:'' @ i else ''## '' @ i)"

text \<open>\<open>^##\s+\<close> on a trimmed line.\<close>

definition any_heading :: "string \<Rightarrow> bool" where
  "any_heading t \<longleftrightarrow> starts_with ''##'' t \<and> dropWhile is_ws (drop 2 t) \<noteq> drop 2 t"

definition last_fired_item :: "string \<Rightarrow> bool" where
  "last_fired_item t = (case bold_item t of None \<Rightarrow> False | Some w \<Rightarrow> starts_with ''Last fired:**'' w)"

text \<open>The scan: the index of the line it is at, whether it is in the rule, the last field and the last firing.\<close>

fun scan_rule :: "string \<Rightarrow> nat \<Rightarrow> bool \<Rightarrow> nat option \<Rightarrow> nat option \<Rightarrow> string list \<Rightarrow> nat option \<times> nat option" where
  "scan_rule h i inside fld frd [] = (fld, frd)"
| "scan_rule h i inside fld frd (l # ls) =
     (let t = trim l in
      if t = h then scan_rule h (Suc i) True (Some i) frd ls
      else if inside \<and> any_heading t then (fld, frd)
      else if inside \<and> bold_item t \<noteq> None
           then scan_rule h (Suc i) inside (Some i) (if last_fired_item t then Some i else frd) ls
      else scan_rule h (Suc i) inside fld frd ls)"

definition fired_line :: "time \<Rightarrow> string" where
  "fired_line t = ''- **Last fired:** '' @ iso_string t"

definition update_lines :: "string \<Rightarrow> string \<Rightarrow> string list \<Rightarrow> string list" where
  "update_lines h new ls =
     (case scan_rule h 0 False None None ls of
        (_, Some i) \<Rightarrow> ls[i := new]
      | (Some i, None) \<Rightarrow> take (Suc i) ls @ new # drop (Suc i) ls
      | (None, None) \<Rightarrow> ls)"

definition updateLastFiredInContent :: "string \<Rightarrow> string \<Rightarrow> bool \<Rightarrow> time \<Rightarrow> string" where
  "updateLastFiredInContent content i fuzzy t =
     join [CHR 0x0A] (update_lines (rule_heading i fuzzy) (fired_line t) (split_on (CHR 0x0A) content))"

section \<open>The service\<close>

record condition_service =
  cs_rules :: "rule jsmap"
  cs_sources :: "string jsmap"

definition cs_new :: condition_service where
  "cs_new = \<lparr>cs_rules = [], cs_sources = []\<rparr>"

definition loadRules :: "(string \<Rightarrow> fired) \<Rightarrow> string \<Rightarrow> string option \<Rightarrow> condition_service \<Rightarrow> condition_service" where
  "loadRules date_of content source s =
     fold (\<lambda>r s. s\<lparr>cs_rules := set_key (rr_id r) r (cs_rules s),
                   cs_sources := (case truthy source of None \<Rightarrow> cs_sources s | Some f \<Rightarrow> set_key (rr_id r) f (cs_sources s))\<rparr>)
       (parseRuleFile date_of content) s"

text \<open>The data store: what a read answers (\<open>None\<close>: it throws) and whether a write goes through.\<close>

record rule_store =
  st_files :: "string jsmap"
  st_reads :: "string \<Rightarrow> bool"
  st_writes :: bool

definition st_read :: "string \<Rightarrow> rule_store \<Rightarrow> string option" where
  "st_read p st = (if st_reads st p then Some (get_or [] (st_files st) p) else None)"

text \<open>Files are loaded one after the other; the first read that throws ends it.\<close>

fun loadRuleFiles :: "(string \<Rightarrow> fired) \<Rightarrow> string list \<Rightarrow> rule_store \<Rightarrow> condition_service \<Rightarrow> bool \<times> condition_service" where
  "loadRuleFiles date_of [] st s = (True, s)"
| "loadRuleFiles date_of (p # ps) st s =
     (case st_read p st of None \<Rightarrow> (False, s)
      | Some c \<Rightarrow> loadRuleFiles date_of ps st (if c \<noteq> [] then loadRules date_of c (Some p) s else s))"

record rule_result =
  rx_conditionMet :: bool
  rx_actionTriggered :: bool
  rx_failed :: bool

definition evaluateRule :: "fuzzy_call \<Rightarrow> time \<Rightarrow> rule_store \<Rightarrow> rule \<Rightarrow> rule_result" where
  "evaluateRule llm now st r =
     (if \<not> canFire (rr_lastFired r) (rr_cooldownMs r) now
      then \<lparr>rx_conditionMet = False, rx_actionTriggered = False, rx_failed = False\<rparr>
      else case those (map (\<lambda>p. st_read p st) (rr_dataSources r)) of
             None \<Rightarrow> \<lparr>rx_conditionMet = False, rx_actionTriggered = False, rx_failed = True\<rparr>
           | Some ds \<Rightarrow>
               (let data = join ([CHR 0x0A] @ ''---'' @ [CHR 0x0A]) ds
                in case (if rr_isFuzzy r then evaluateFuzzy llm else Some (evaluateDeterministic (rr_condition r) data)) of
                     None \<Rightarrow> \<lparr>rx_conditionMet = False, rx_actionTriggered = False, rx_failed = True\<rparr>
                   | Some b \<Rightarrow> \<lparr>rx_conditionMet = b, rx_actionTriggered = b, rx_failed = False\<rparr>))"

definition persistLastFired :: "rule \<Rightarrow> time \<Rightarrow> condition_service \<Rightarrow> rule_store \<Rightarrow> rule_store" where
  "persistLastFired r t s st =
     (case truthy (map_of (cs_sources s) (rr_id r)) of None \<Rightarrow> st
      | Some f \<Rightarrow>
          (case st_read f st of None \<Rightarrow> st
           | Some c \<Rightarrow>
               if st_writes st
               then st\<lparr>st_files := set_key f (updateLastFiredInContent c (rr_id r) (rr_isFuzzy r) t) (st_files st)\<rparr>
               else st))"

text \<open>The time is read when the cooldown is checked, \<open>now\<close>, and again when the rule has fired, \<open>later\<close>.\<close>

definition cs_evaluate ::
  "fuzzy_call \<Rightarrow> time \<Rightarrow> time \<Rightarrow> string \<Rightarrow> condition_service \<Rightarrow> rule_store \<Rightarrow> bool \<times> condition_service \<times> rule_store" where
  "cs_evaluate llm now later i s st =
     (case map_of (cs_rules s) i of None \<Rightarrow> (False, s, st)
      | Some r \<Rightarrow>
          (let x = evaluateRule llm now st r
           in if rx_actionTriggered x
              then (rx_conditionMet x, s\<lparr>cs_rules := set_key i (r\<lparr>rr_lastFired := FiredAt later\<rparr>) (cs_rules s)\<rparr>,
                    persistLastFired r later s st)
              else (rx_conditionMet x, s, st)))"

definition getRuleStatus :: "time \<Rightarrow> string \<Rightarrow> condition_service \<Rightarrow> rule_status" where
  "getRuleStatus now i s =
     (case map_of (cs_rules s) i of
        None \<Rightarrow> \<lparr>rst_id = i, rst_lastFired = NeverFired, rst_cooldownRemaining = 0, rst_isActive = False\<rparr>
      | Some r \<Rightarrow> buildRuleStatus (rr_id r) (rr_lastFired r) (rr_cooldownMs r) now)"

fun evaluate_rules ::
  "(string \<Rightarrow> fuzzy_call) \<Rightarrow> time \<Rightarrow> string list \<Rightarrow> condition_service \<Rightarrow> rule_store \<Rightarrow> condition_service \<times> rule_store" where
  "evaluate_rules llm now [] s st = (s, st)"
| "evaluate_rules llm now (i # is) s st =
     (let (_, s1, st1) = cs_evaluate (llm i) now now i s st in evaluate_rules llm now is s1 st1)"

definition evaluateAll ::
  "(string \<Rightarrow> fuzzy_call) \<Rightarrow> time \<Rightarrow> condition_service \<Rightarrow> rule_store \<Rightarrow> condition_service \<times> rule_store" where
  "evaluateAll llm now s st = evaluate_rules llm now (map (rr_id \<circ> snd) (cs_rules s)) s st"

section \<open>A firing survives in the file\<close>

text \<open>The rule a line starts, and lines without a carriage return inside.\<close>

definition rule_of_line :: "string \<Rightarrow> (string \<times> bool) option" where
  "rule_of_line l = map_option (\<lambda>raw. (raw_id (trim raw), raw_fuzzy (trim raw))) (heading_of (trim l))"

definition no_inner_cr :: "string \<Rightarrow> bool" where
  "no_inner_cr l \<longleftrightarrow> CHR 0x0D \<notin> set (trim l) \<and> CHR 0x0A \<notin> set l"

lemma dropWhile_ws_Nil: "dropWhile is_ws s = [] \<longleftrightarrow> list_all is_ws s"
  by (induction s) auto

lemma trim_last: "trim s \<noteq> [] \<Longrightarrow> \<not> is_ws (last (trim s))"
  unfolding trim_def by (metis hd_dropWhile last_rev rev_is_Nil_conv)

lemma set_trim: "set (trim s) \<subseteq> set s"
  unfolding trim_def by (metis set_dropWhileD set_rev subset_code(1))

lemma any_heading_iff:
  assumes "no_inner_cr l"
  shows "any_heading (trim l) \<longleftrightarrow> heading_of (trim l) \<noteq> None"
proof
  assume h: "any_heading (trim l)"
  define r where "r = drop 2 (trim l)"
  define w where "w = dropWhile is_ws r"
  have w: "w \<noteq> r" using h by (simp add: any_heading_def r_def w_def)
  have "w \<noteq> []"
  proof
    assume "w = []"
    then have "list_all is_ws r" "r \<noteq> []" using dropWhile_ws_Nil w by (auto simp: w_def)
    then have "is_ws (last r)" by (simp add: list_all_iff)
    moreover have "last r = last (trim l)" using \<open>r \<noteq> []\<close> by (simp add: r_def last_drop)
    moreover have "trim l \<noteq> []" using \<open>r \<noteq> []\<close> by (auto simp: r_def)
    ultimately show False using trim_last by simp
  qed
  moreover have "list_all line_char w"
  proof -
    have "set w \<subseteq> set (trim l)" unfolding w_def r_def by (meson set_dropWhileD set_drop_subset subset_code(1) subset_iff)
    then show ?thesis using assms set_trim [of l] by (auto simp: list_all_iff line_char_def no_inner_cr_def)
  qed
  ultimately have "dots w" by (simp add: dots_def)
  then show "heading_of (trim l) \<noteq> None" using h w by (simp add: heading_of_def any_heading_def Let_def r_def w_def)
qed (auto simp: heading_of_def any_heading_def Let_def split: if_splits)

lemma parse_split:
  "heading_of (trim l) = Some raw \<Longrightarrow>
   parse_lines d cur (pre @ l # rest) = parse_lines d cur pre @ parse_lines d (Some (start_rule (trim raw))) rest"
  by (induction pre arbitrary: cur) (auto split: option.splits)

definition starts_section :: "string list \<Rightarrow> bool" where
  "starts_section post \<longleftrightarrow> (case post of [] \<Rightarrow> True | l # _ \<Rightarrow> heading_of (trim l) \<noteq> None)"

lemma parse_body:
  "list_all (\<lambda>l. heading_of (trim l) = None) body \<Longrightarrow> starts_section post \<Longrightarrow>
   parse_lines d (Some p) (body @ post) =
     finished (Some (fold (\<lambda>l. parse_field d (trim l)) body p)) @ parse_lines d None post"
proof (induction body arbitrary: p)
  case Nil
  then show ?case by (cases post) (auto simp: starts_section_def finished_def split: option.splits)
qed simp

lemma parse_field_frame [simp]:
  "pt_id (parse_field d t p) = pt_id p" "pt_isFuzzy (parse_field d t p) = pt_isFuzzy p"
  by (simp_all add: parse_field_def split: option.splits)

lemma finished_id: "x \<in> set (finished (Some p)) \<Longrightarrow> rr_id x = pt_id p \<and> rr_isFuzzy x = pt_isFuzzy p"
  by (auto simp: finished_def finalizeRule_def Let_def split: option.splits if_splits)

lemma parsed_from:
  "x \<in> set (parse_lines d cur ls) \<Longrightarrow>
   (\<exists>l \<in> set ls. rule_of_line l = Some (rr_id x, rr_isFuzzy x)) \<or>
   (\<exists>p. cur = Some p \<and> pt_id p = rr_id x \<and> pt_isFuzzy p = rr_isFuzzy x)"
proof (induction ls arbitrary: cur)
  case Nil
  then show ?case using finished_id [of x] by (cases cur) (auto simp: finished_def)
next
  case (Cons l ls)
  show ?case
  proof (cases "heading_of (trim l)")
    case None
    then show ?thesis using Cons by (fastforce simp: map_option_case split: option.splits)
  next
    case (Some raw)
    then consider "x \<in> set (finished cur)" | "x \<in> set (parse_lines d (Some (start_rule (trim raw))) ls)"
      using Cons.prems by auto
    then show ?thesis
    proof cases
      case 1
      then show ?thesis using finished_id [of x] by (cases cur) (auto simp: finished_def)
    next
      case 2
      from Cons.IH [OF this] Some show ?thesis
        by (auto simp: rule_of_line_def start_rule_def)
    qed
  qed
qed

lemma field_last_fired:
  assumes "last_fired_item t"
  shows "field ''Condition'' t = None" "field ''Data'' t = None" "field ''Action'' t = None" "field ''Cooldown'' t = None"
  using assms by (auto simp: last_fired_item_def field_def starts_with_iff Let_def split: option.splits)

lemma field_not_last_fired: "\<not> last_fired_item t \<Longrightarrow> field ''Last fired'' t = None"
  by (auto simp: last_fired_item_def field_def Let_def split: option.splits)

lemma parse_last_fired: "last_fired_item t \<Longrightarrow> \<exists>f. parse_field d t p = p\<lparr>pt_lastFired := f\<rparr>"
proof -
  assume "last_fired_item t"
  note none = field_last_fired [OF this]
  show ?thesis
  proof (cases "field ''Last fired'' t")
    case None
    then have "parse_field d t p = p\<lparr>pt_lastFired := pt_lastFired p\<rparr>" by (simp add: parse_field_def none)
    then show ?thesis by blast
  qed (auto simp: parse_field_def none)
qed

lemma parse_other:
  "\<not> last_fired_item t \<Longrightarrow> parse_field d t (p\<lparr>pt_lastFired := f\<rparr>) = (parse_field d t p)\<lparr>pt_lastFired := f\<rparr>"
  by (simp add: parse_field_def field_not_last_fired split: option.splits)

lemma fold_other:
  "list_all (\<lambda>l. \<not> last_fired_item (trim l)) ls \<Longrightarrow>
   fold (\<lambda>l. parse_field d (trim l)) ls (p\<lparr>pt_lastFired := f\<rparr>) = (fold (\<lambda>l. parse_field d (trim l)) ls p)\<lparr>pt_lastFired := f\<rparr>"
  by (induction ls arbitrary: p) (simp_all add: parse_other)

lemma trim_id: "s \<noteq> [] \<Longrightarrow> \<not> is_ws (hd s) \<Longrightarrow> \<not> is_ws (last s) \<Longrightarrow> trim s = s"
proof -
  assume a: "s \<noteq> []" "\<not> is_ws (hd s)" "\<not> is_ws (last s)"
  then have "dropWhile is_ws s = s" by (cases s) auto
  moreover have "dropWhile is_ws (rev s) = rev s" using a by (cases s rule: rev_cases) auto
  ultimately show ?thesis by (simp add: trim_def)
qed

lemma iso_string_visible:
  "iso_string t \<noteq> []" "list_all line_char (iso_string t)" "list_all (\<lambda>c. \<not> is_ws c) (iso_string t)"
  "trim (iso_string t) = iso_string t" "iso_string t \<noteq> ''never''"
proof -
  have ic: "\<And>c. c \<in> set (iso_string t) \<Longrightarrow> iso_char c" using iso_string_chars by (simp add: list_all_iff)
  show ne: "iso_string t \<noteq> []" by (simp add: iso_string_def split_def Let_def)
  show "list_all line_char (iso_string t)" using ic iso_char_plain by (auto simp: list_all_iff line_char_def)
  show nw: "list_all (\<lambda>c. \<not> is_ws c) (iso_string t)" using ic iso_char_plain by (auto simp: list_all_iff)
  show "trim (iso_string t) = iso_string t" using ne nw by (auto simp: list_all_iff intro!: trim_id)
  have "\<not> iso_char (CHR ''n'')" by (simp add: iso_char_def is_digit_def)
  then show "iso_string t \<noteq> ''never''" using ic by fastforce
qed

lemma dropWhile_plain: "list_all (\<lambda>c. \<not> is_ws c) s \<Longrightarrow> dropWhile is_ws s = s"
  by (cases s) auto

lemma fired_line_facts:
  "trim (fired_line t) = fired_line t" "heading_of (fired_line t) = None"
  "last_fired_item (fired_line t)" "field ''Last fired'' (fired_line t) = Some (iso_string t)"
  "CHR 0x0A \<notin> set (fired_line t)"
proof -
  note iso = iso_string_visible [of t]
  note dw = dropWhile_plain [OF iso(3)]
  have l: "last (fired_line t) = last (iso_string t)" using iso(1) by (simp add: fired_line_def)
  have "\<not> is_ws (last (iso_string t))" using iso(1,3) by (simp add: list_all_iff)
  then show "trim (fired_line t) = fired_line t"
    using l by (intro trim_id) (simp_all add: fired_line_def is_ws_def)
  show "heading_of (fired_line t) = None" by (simp add: heading_of_def fired_line_def starts_with_def Let_def)
  have b: "bold_item (fired_line t) = Some (''Last fired:** '' @ iso_string t)"
    by (simp add: bold_item_def fired_line_def starts_with_def is_ws_def)
  show "last_fired_item (fired_line t)" by (simp add: last_fired_item_def b starts_with_def)
  have "dropWhile is_ws (CHR '' '' # iso_string t) = iso_string t" using dw by (simp add: is_ws_def)
  then show "field ''Last fired'' (fired_line t) = Some (iso_string t)"
    using iso by (simp add: field_def b starts_with_def dots_def)
  show "CHR 0x0A \<notin> set (fired_line t)" using iso(2) by (auto simp: fired_line_def list_all_iff line_char_def)
qed

lemma parse_fired_line:
  "d (iso_string t) = FiredAt t \<Longrightarrow> parse_field d (trim (fired_line t)) p = p\<lparr>pt_lastFired := FiredAt t\<rparr>"
  using field_last_fired [OF fired_line_facts(3)] iso_string_visible(1,5)
  by (simp add: parse_field_def fired_line_facts(1,4))

lemma scan_before:
  "list_all (\<lambda>l. trim l \<noteq> h) pre \<Longrightarrow> scan_rule h k False fld frd (pre @ ls) = scan_rule h (k + length pre) False fld frd ls"
  by (induction pre arbitrary: k) (simp_all add: Let_def)

lemma scan_stop:
  "list_all no_inner_cr post \<Longrightarrow> starts_section post \<Longrightarrow> list_all (\<lambda>l. trim l \<noteq> h) post \<Longrightarrow>
   scan_rule h k True fld frd post = (fld, frd)"
  by (cases post) (auto simp: starts_section_def any_heading_iff Let_def)

text \<open>The scan of a rule's body finds its last field and its last firing.\<close>

definition found :: "(string \<Rightarrow> bool) \<Rightarrow> nat \<Rightarrow> string list \<Rightarrow> nat option \<Rightarrow> nat option \<Rightarrow> bool" where
  "found P k body acc r \<longleftrightarrow>
     (r = acc \<and> list_all (\<lambda>l. \<not> P (trim l)) body) \<or>
     (\<exists>xs l ys. body = xs @ l # ys \<and> r = Some (k + length xs) \<and> P (trim l) \<and> list_all (\<lambda>l. \<not> P (trim l)) ys)"

lemma found_Cons:
  assumes "found P (Suc k) body acc' r" "acc' = (if P (trim l) then Some k else acc)"
  shows "found P k (l # body) acc r"
  using assms(1) unfolding found_def
proof
  assume a: "r = acc' \<and> list_all (\<lambda>l. \<not> P (trim l)) body"
  show "(r = acc \<and> list_all (\<lambda>l. \<not> P (trim l)) (l # body)) \<or>
    (\<exists>xs m ys. l # body = xs @ m # ys \<and> r = Some (k + length xs) \<and> P (trim m) \<and> list_all (\<lambda>l. \<not> P (trim l)) ys)"
  proof (cases "P (trim l)")
    case True
    then have "l # body = [] @ l # body \<and> r = Some (k + length ([] :: string list)) \<and> P (trim l) \<and> list_all (\<lambda>l. \<not> P (trim l)) body"
      using a assms(2) by simp
    then show ?thesis by blast
  qed (use a assms(2) in simp)
next
  assume "\<exists>xs m ys. body = xs @ m # ys \<and> r = Some (Suc k + length xs) \<and> P (trim m) \<and> list_all (\<lambda>l. \<not> P (trim l)) ys"
  then obtain xs m ys where b: "body = xs @ m # ys" "r = Some (Suc k + length xs)" "P (trim m)" "list_all (\<lambda>l. \<not> P (trim l)) ys" by blast
  then have "l # body = (l # xs) @ m # ys \<and> r = Some (k + length (l # xs)) \<and> P (trim m) \<and> list_all (\<lambda>l. \<not> P (trim l)) ys"
    by simp
  then show "(r = acc \<and> list_all (\<lambda>l. \<not> P (trim l)) (l # body)) \<or>
    (\<exists>xs m ys. l # body = xs @ m # ys \<and> r = Some (k + length xs) \<and> P (trim m) \<and> list_all (\<lambda>l. \<not> P (trim l)) ys)"
    by blast
qed

lemma scan_body:
  assumes "list_all (\<lambda>l. trim l \<noteq> h \<and> heading_of (trim l) = None \<and> no_inner_cr l) body"
    and stop: "\<And>k fld frd. scan_rule h k True fld frd post = (fld, frd)"
    and "scan_rule h k True fld frd (body @ post) = (F, L)"
  shows "found (\<lambda>t. bold_item t \<noteq> None) k body fld F \<and> found last_fired_item k body frd L"
  using assms(1,3)
proof (induction body arbitrary: k fld frd)
  case Nil
  then show ?case using stop by (simp add: found_def)
next
  case (Cons l body)
  have nh: "\<not> any_heading (trim l)" using Cons.prems(1) any_heading_iff by simp
  have lf: "last_fired_item (trim l) \<Longrightarrow> bold_item (trim l) \<noteq> None" by (auto simp: last_fired_item_def split: option.splits)
  define fld' where "fld' = (if bold_item (trim l) \<noteq> None then Some k else fld)"
  define frd' where "frd' = (if last_fired_item (trim l) then Some k else frd)"
  have "scan_rule h (Suc k) True fld' frd' (body @ post) = (F, L)"
    using Cons.prems nh lf by (auto simp: Let_def fld'_def frd'_def split: if_splits)
  from Cons.IH [OF _ this] Cons.prems(1)
  have "found (\<lambda>t. bold_item t \<noteq> None) (Suc k) body fld' F" "found last_fired_item (Suc k) body frd' L" by auto
  then show ?case
    using found_Cons [of "\<lambda>t. bold_item t \<noteq> None" k body fld' F l fld] found_Cons [of last_fired_item k body frd' L l frd]
    unfolding fld'_def frd'_def by blast
qed

text \<open>The lines after the update: one new line in the rule's body, put where parsing finds it last.\<close>

lemma update_lines_body:
  assumes pre: "list_all (\<lambda>l. trim l \<noteq> h) pre" and l0: "trim l0 = h"
    and body: "list_all (\<lambda>l. trim l \<noteq> h \<and> heading_of (trim l) = None \<and> no_inner_cr l) body"
    and post: "list_all no_inner_cr post" "starts_section post" "list_all (\<lambda>l. trim l \<noteq> h) post"
  shows "\<exists>xs ys zs. update_lines h new (pre @ l0 # body @ post) = pre @ l0 # (xs @ new # ys) @ post \<and>
    list_all (\<lambda>l. \<not> last_fired_item (trim l)) ys \<and>
    (body = xs @ ys \<and> list_all (\<lambda>l. \<not> last_fired_item (trim l)) xs \<or> (\<exists>l. last_fired_item (trim l) \<and> body = xs @ l # ys))"
proof -
  define k where "k = Suc (length pre)"
  obtain F L where s: "scan_rule h k True (Some (length pre)) None (body @ post) = (F, L)" by fastforce
  have all: "scan_rule h 0 False None None (pre @ l0 # body @ post) = (F, L)"
    using scan_before [OF pre, of 0 None None "l0 # body @ post"] s l0 by (simp add: k_def Let_def)
  have f: "found (\<lambda>t. bold_item t \<noteq> None) k body (Some (length pre)) F" "found last_fired_item k body None L"
    using scan_body [OF body scan_stop [OF post] s] by auto
  show ?thesis
  proof (cases L)
    case (Some i)
    then obtain xs l ys where b: "body = xs @ l # ys" "i = k + length xs" "last_fired_item (trim l)"
        "list_all (\<lambda>l. \<not> last_fired_item (trim l)) ys"
      using f(2) by (auto simp: found_def)
    then have "update_lines h new (pre @ l0 # body @ post) = pre @ l0 # (xs @ new # ys) @ post"
      using all Some by (cases F) (simp_all add: update_lines_def k_def list_update_append)
    then show ?thesis using b by blast
  next
    case None
    then have nl: "list_all (\<lambda>l. \<not> last_fired_item (trim l)) body" using f(2) by (auto simp: found_def)
    obtain xs ys where b: "body = xs @ ys" "F = Some (length pre + length xs)"
    proof -
      from f(1) consider "F = Some (length pre)" | us l vs where "body = us @ l # vs" "F = Some (k + length us)"
        by (auto simp: found_def)
      then show thesis
      proof cases
        case 1
        then show thesis using that [of "[]" body] by simp
      next
        case 2
        then show thesis using that [of "us @ [l]" vs] by (simp add: k_def)
      qed
    qed
    then have "update_lines h new (pre @ l0 # body @ post) = pre @ l0 # (xs @ new # ys) @ post"
      using all None by (simp add: update_lines_def)
    moreover have "list_all (\<lambda>l. \<not> last_fired_item (trim l)) ys" "list_all (\<lambda>l. \<not> last_fired_item (trim l)) xs"
      using nl b by simp_all
    ultimately show ?thesis using b by blast
  qed
qed

lemma parse_body_fired:
  assumes d: "d (iso_string t) = FiredAt t"
    and ys: "list_all (\<lambda>l. \<not> last_fired_item (trim l)) ys"
    and b: "body = xs @ ys \<and> list_all (\<lambda>l. \<not> last_fired_item (trim l)) xs \<or> (\<exists>l. last_fired_item (trim l) \<and> body = xs @ l # ys)"
  shows "fold (\<lambda>l. parse_field d (trim l)) (xs @ fired_line t # ys) p =
    (fold (\<lambda>l. parse_field d (trim l)) body p)\<lparr>pt_lastFired := FiredAt t\<rparr>"
proof -
  define q where "q = fold (\<lambda>l. parse_field d (trim l)) xs p"
  have new: "fold (\<lambda>l. parse_field d (trim l)) (xs @ fired_line t # ys) p =
      (fold (\<lambda>l. parse_field d (trim l)) ys q)\<lparr>pt_lastFired := FiredAt t\<rparr>"
    using parse_fired_line [of d t, OF d] fold_other [OF ys] by (simp add: q_def)
  from b show ?thesis
  proof
    assume "body = xs @ ys \<and> list_all (\<lambda>l. \<not> last_fired_item (trim l)) xs"
    then show ?thesis using new by (simp add: q_def)
  next
    assume "\<exists>l. last_fired_item (trim l) \<and> body = xs @ l # ys"
    then obtain l where l: "last_fired_item (trim l)" "body = xs @ l # ys" by blast
    obtain f where "parse_field d (trim l) q = q\<lparr>pt_lastFired := f\<rparr>" using parse_last_fired [OF l(1)] by blast
    then have "fold (\<lambda>l. parse_field d (trim l)) body p = (fold (\<lambda>l. parse_field d (trim l)) ys q)\<lparr>pt_lastFired := f\<rparr>"
      using l fold_other [OF ys] by (simp add: q_def)
    then show ?thesis using new by simp
  qed
qed

definition refire :: "string \<Rightarrow> bool \<Rightarrow> time \<Rightarrow> rule \<Rightarrow> rule" where
  "refire i fuzzy t r = (if rr_id r = i \<and> rr_isFuzzy r = fuzzy then r\<lparr>rr_lastFired := FiredAt t\<rparr> else r)"

lemma finalize_fired:
  "finished (Some (p\<lparr>pt_lastFired := FiredAt t\<rparr>)) = map (refire (pt_id p) (pt_isFuzzy p) t) (finished (Some p))"
  by (auto simp: finished_def finalizeRule_def refire_def Let_def split: option.splits)

lemma fold_frame [simp]:
  "pt_id (fold (\<lambda>l. parse_field d (trim l)) ls p) = pt_id p"
  "pt_isFuzzy (fold (\<lambda>l. parse_field d (trim l)) ls p) = pt_isFuzzy p"
  by (induction ls arbitrary: p) simp_all

lemma refire_others:
  "list_all (\<lambda>l. rule_of_line l \<noteq> Some (i, fuzzy)) ls \<Longrightarrow> map (refire i fuzzy t) (parse_lines d None ls) = parse_lines d None ls"
  using parsed_from [of _ d None ls] by (intro map_idI) (fastforce simp: refire_def list_all_iff)

text \<open>Exactly one heading in the file starts this rule, and it is written as the code writes it.\<close>

definition headed_once :: "string \<Rightarrow> bool \<Rightarrow> string \<Rightarrow> bool" where
  "headed_once i fuzzy content \<longleftrightarrow>
     map trim (filter (\<lambda>l. rule_of_line l = Some (i, fuzzy)) (split_on (CHR 0x0A) content)) = [rule_heading i fuzzy] \<and>
     list_all (\<lambda>l. CHR 0x0D \<notin> set (trim l)) (split_on (CHR 0x0A) content)"

lemma filter_oneD:
  assumes "filter P xs = [x]"
  shows "\<exists>pre post. xs = pre @ x # post \<and> P x \<and> list_all (\<lambda>x. \<not> P x) pre \<and> list_all (\<lambda>x. \<not> P x) post"
proof -
  obtain us vs where "xs = us @ x # vs" "\<forall>u \<in> set us. \<not> P u" "P x" "[] = filter P vs"
    using filter_eq_ConsD [OF assms] by blast
  moreover have "\<forall>v \<in> set vs. \<not> P v" using filter_empty_conv [of P vs] \<open>[] = filter P vs\<close> by simp
  ultimately show ?thesis by (auto simp: list_all_iff)
qed

lemma firing_in_file:
  assumes once: "headed_once i fuzzy content" and d: "d (iso_string t) = FiredAt t"
  shows "parseRuleFile d (updateLastFiredInContent content i fuzzy t) = map (refire i fuzzy t) (parseRuleFile d content)"
proof -
  define ls where "ls = split_on (CHR 0x0A) content"
  define h where "h = rule_heading i fuzzy"
  obtain l0 where "filter (\<lambda>l. rule_of_line l = Some (i, fuzzy)) ls = [l0]" and h0: "trim l0 = h"
    using once by (auto simp: headed_once_def ls_def h_def)
  then obtain pre rest where ls: "ls = pre @ l0 # rest" and r0: "rule_of_line l0 = Some (i, fuzzy)"
    and others: "list_all (\<lambda>l. rule_of_line l \<noteq> Some (i, fuzzy)) pre" "list_all (\<lambda>l. rule_of_line l \<noteq> Some (i, fuzzy)) rest"
    using filter_oneD [of "\<lambda>l. rule_of_line l = Some (i, fuzzy)" ls l0] by blast
  define body where "body = takeWhile (\<lambda>l. heading_of (trim l) = None) rest"
  define post where "post = dropWhile (\<lambda>l. heading_of (trim l) = None) rest"
  have rest: "rest = body @ post" by (simp add: body_def post_def)
  have cr: "list_all no_inner_cr ls"
    using once split_on_pieces by (auto simp: headed_once_def ls_def list_all_iff no_inner_cr_def)
  have nh: "rule_of_line l \<noteq> Some (i, fuzzy) \<Longrightarrow> trim l \<noteq> h" for l
    using r0 h0 by (auto simp: rule_of_line_def)
  have hs: "list_all (\<lambda>l. trim l \<noteq> h) pre" "list_all (\<lambda>l. trim l \<noteq> h) rest"
    using others nh by (auto simp: list_all_iff)
  have bd: "list_all (\<lambda>l. trim l \<noteq> h \<and> heading_of (trim l) = None \<and> no_inner_cr l) body"
  proof -
    have "heading_of (trim l) = None" if "l \<in> set body" for l
      using set_takeWhileD [OF that [unfolded body_def]] by simp
    then show ?thesis using hs(2) cr unfolding ls rest by (simp add: list_all_iff)
  qed
  have bh: "list_all (\<lambda>l. heading_of (trim l) = None) body" using bd by (simp add: list_all_iff)
  have ps: "starts_section post"
  proof (cases post)
    case (Cons l more)
    then have "\<not> heading_of (trim l) = None" using hd_dropWhile [of "\<lambda>l. heading_of (trim l) = None" rest] by (simp add: post_def)
    then show ?thesis using Cons by (simp add: starts_section_def)
  qed (simp add: starts_section_def)
  have po: "list_all no_inner_cr post" "list_all (\<lambda>l. trim l \<noteq> h) post" using cr ls rest hs(2) by (auto simp: list_all_iff)
  obtain xs ys where u: "update_lines h (fired_line t) ls = pre @ l0 # (xs @ fired_line t # ys) @ post"
    and ys: "list_all (\<lambda>l. \<not> last_fired_item (trim l)) ys"
    and b: "body = xs @ ys \<and> list_all (\<lambda>l. \<not> last_fired_item (trim l)) xs \<or> (\<exists>l. last_fired_item (trim l) \<and> body = xs @ l # ys)"
    using update_lines_body [OF hs(1) h0 bd po(1) ps po(2), of "fired_line t"] ls rest by auto
  obtain raw where raw: "heading_of (trim l0) = Some raw" "raw_id (trim raw) = i" "raw_fuzzy (trim raw) = fuzzy"
    using r0 by (auto simp: rule_of_line_def)
  define p where "p = start_rule (trim raw)"
  have p: "pt_id p = i" "pt_isFuzzy p = fuzzy" using raw by (simp_all add: p_def start_rule_def)
  have bh': "list_all (\<lambda>l. heading_of (trim l) = None) (xs @ fired_line t # ys)"
    using bh b fired_line_facts(1,2) by (auto simp: list_all_iff)
  have old: "parse_lines d None ls = parse_lines d None pre @
      finished (Some (fold (\<lambda>l. parse_field d (trim l)) body p)) @ parse_lines d None post"
    using parse_split [OF raw(1)] parse_body [OF bh ps] ls rest by (simp add: p_def)
  have new: "parse_lines d None (update_lines h (fired_line t) ls) = parse_lines d None pre @
      finished (Some ((fold (\<lambda>l. parse_field d (trim l)) body p)\<lparr>pt_lastFired := FiredAt t\<rparr>)) @ parse_lines d None post"
    using parse_split [OF raw(1)] parse_body [OF bh' ps] parse_body_fired [of d t ys body xs, OF d ys b] u by (simp add: p_def)
  have others': "list_all (\<lambda>l. rule_of_line l \<noteq> Some (i, fuzzy)) post" using others(2) rest by simp
  have lines: "split_on (CHR 0x0A) (updateLastFiredInContent content i fuzzy t) = update_lines h (fired_line t) ls"
  proof -
    have "set (update_lines h (fired_line t) ls) \<subseteq> insert (fired_line t) (set ls)" using u b ls rest by auto
    then have "\<forall>x \<in> set (update_lines h (fired_line t) ls). CHR 0x0A \<notin> set x"
      using fired_line_facts(5) cr by (auto simp: list_all_iff no_inner_cr_def)
    then show ?thesis using u by (simp add: updateLastFiredInContent_def h_def ls_def split_join)
  qed
  show ?thesis
    unfolding parseRuleFile_def lines new ls_def [symmetric] old
    using refire_others [OF others(1)] refire_others [OF others'] finalize_fired [of t "fold (\<lambda>l. parse_field d (trim l)) body p"]
    by (simp add: p)
qed

section \<open>Properties\<close>

lemma triggered_when_met: "rx_actionTriggered (evaluateRule llm now st r) = rx_conditionMet (evaluateRule llm now st r)"
  by (simp add: evaluateRule_def Let_def split: option.splits)


definition milk_file :: string where
  "milk_file = join [CHR 0x0A] [''# Rules'', ''## low-milk'', ''- **Condition:** contains \"milk\"'', ''- **Cooldown:** 2 hours'', '''',
     ''## other'', ''- **Condition:** empty'', ''- **Last fired:** never'']"

definition read_iso :: "string \<Rightarrow> fired" where
  "read_iso s = (if s = iso_string 1000 then FiredAt 1000 else InvalidDate)"

definition milk_store :: rule_store where
  "milk_store = \<lparr>st_files = [(''rules.md'', milk_file)], st_reads = (\<lambda>_. True), st_writes = True\<rparr>"

definition milk_service :: condition_service where
  "milk_service = cs_new\<lparr>cs_rules := [(''low-milk'', \<lparr>rr_id = ''low-milk'', rr_condition = ''empty'', rr_dataSources = [], rr_action = [],
     rr_cooldown = ''2 hours'', rr_cooldownMs = 7200000, rr_lastFired = NeverFired, rr_isFuzzy = False\<rparr>)],
     cs_sources := [(''low-milk'', ''rules.md'')]\<rparr>"


section \<open>Where the code falls short\<close>

text \<open>
  The condition is lowered as a whole, quoted text included, the data is not: text with a capital
  letter is never found.
\<close>

lemma capitals_are_never_found:
  "\<not> evaluateDeterministic ''contains \"Warning\"'' ''Warning: low on milk''"
  "evaluateDeterministic ''not contains \"Warning\"'' ''Warning: low on milk''"
  by code_simp+

text \<open>
  Headings that parse to a rule but are not written as the code writes them (two blanks, a blank after the
  prefix) are not found when the firing is to be recorded: the file stays as it was.
\<close>

lemma odd_headings_forget_the_firing:
  "map rr_id (parseRuleFile (\<lambda>_. InvalidDate) (''##  milk'' @ [CHR 0x0A] @ ''- **Condition:** empty'')) = [''milk'']"
  "updateLastFiredInContent (''##  milk'' @ [CHR 0x0A] @ ''- **Condition:** empty'') ''milk'' False 0 =
     ''##  milk'' @ [CHR 0x0A] @ ''- **Condition:** empty''"
  by code_simp+

text \<open>A date that cannot be read blocks the rule for good, while its status says that it is active.\<close>

lemma unreadable_date_blocks:
  "\<not> canFire InvalidDate cooldown now" "rst_isActive (buildRuleStatus i InvalidDate cooldown now)"
  by (simp_all add: buildRuleStatus_def)

end
