(* ===== verification/Alert_Actions.thy ===== *)
theory Alert_Actions
  imports Conditions Users Spaces
begin

text \<open>
  What alerts are made of (\<open>types/alert.ts\<close>), their validation (\<open>services/alerts/alert-validator.ts\<close>) and their
  actions (\<open>services/alerts/alert-executor.ts\<close>). Optional texts that the code tests for truth are strings that may be
  empty; validation errors are their fields, without the message. What services answer is the record \<open>exec_env\<close>;
  an executed action is described by its effects. Prompts, log entries and the payload's timestamp are left out.
\<close>

section \<open>Alerts\<close>

record summary_config =
  sm_enabled :: bool
  sm_prompt :: string
  sm_tier :: string
  sm_max_tokens :: nat

datatype write_mode = ModeWrite | ModeAppend | ModeAbsent | ModeOther string

record write_config =
  wc_app_id :: string
  wc_user_id :: string
  wc_path :: string
  wc_content :: "string option"
  wc_mode :: write_mode

datatype alert_action =
    TelegramMessage string "summary_config option"
  | RunReport string
  | Webhook string bool
  | WriteData write_config
  | Audio string "string option"
  | DispatchMessage string string
  | NoConfig
  | UnknownAction string

record alert_source =
  so_app_id :: string
  so_user_id :: "string option"
  so_path :: string
  so_space_id :: "string option"

record alert_condition =
  cn_type :: string
  cn_expression :: string
  cn_data_sources :: "alert_source list"

record alert_trigger =
  tg_type :: string
  tg_schedule :: "string option"
  tg_event_name :: string

record alert =
  al_id :: string
  al_name :: string
  al_enabled :: bool
  al_schedule :: string
  al_condition :: "alert_condition option"
  al_actions :: "alert_action list"
  al_trigger :: "alert_trigger option"
  al_delivery :: "string list"
  al_cooldown :: string
  al_lastFired :: "string option"
  al_updatedAt :: "string option"

definition MAX_ALERT_ID_LENGTH :: nat where "MAX_ALERT_ID_LENGTH = 50"
definition MAX_ALERT_NAME_LENGTH :: nat where "MAX_ALERT_NAME_LENGTH = 100"
definition MAX_ACTIONS_PER_ALERT :: nat where "MAX_ACTIONS_PER_ALERT = 5"
definition MAX_ALERTS :: nat where "MAX_ALERTS = 50"
definition MAX_DATA_SOURCES :: nat where "MAX_DATA_SOURCES = 5"

section \<open>Validation\<close>

text \<open>\<open>/^[a-z][a-z0-9-]*$/\<close> is the pattern of spaces; \<open>/^[a-zA-Z0-9_-]+$/\<close> is \<open>safe_segment\<close>.\<close>

abbreviation alert_id_pattern :: "string \<Rightarrow> bool" where
  "alert_id_pattern \<equiv> space_id_pattern"

definition alnum :: "char \<Rightarrow> bool" where
  "alnum c \<longleftrightarrow> is_lower_az c \<or> is_upper_az c \<or> is_digit c"

definition event_name_pattern :: "string \<Rightarrow> bool" where
  "event_name_pattern s \<longleftrightarrow>
     s \<noteq> [] \<and> alnum (hd s) \<and> length s \<le> 100 \<and> list_all (\<lambda>c. alnum c \<or> c \<in> set '':._-'') (tl s)"

definition url_pattern :: "string \<Rightarrow> bool" where
  "url_pattern s \<longleftrightarrow> starts_with ''http://'' s \<or> starts_with ''https://'' s"

definition check_field :: "bool \<Rightarrow> string \<Rightarrow> string list" where
  "check_field bad f = (if bad then [f] else [])"

definition indexed :: "string \<Rightarrow> nat \<Rightarrow> string" where
  "indexed name i = name @ ''['' @ dec i @ '']''"

definition validate_path :: "string \<Rightarrow> string \<Rightarrow> string list" where
  "validate_path f p =
     (if p = [] then [f]
      else check_field (str_includes ''..'' p) f @ check_field (starts_with ''/'' p \<or> starts_with [CHR 0x5C] p) f @
           check_field (str_includes [CHR 0x5C] p) f)"

definition validateDataSource :: "alert_source \<Rightarrow> string \<Rightarrow> string list" where
  "validateDataSource so prefix =
     check_field (so_app_id so = [] \<or> \<not> alert_id_pattern (so_app_id so)) (prefix @ ''.app_id'') @
     (case so_space_id so of None \<Rightarrow> [] | Some i \<Rightarrow> check_field (\<not> space_id_pattern i) (prefix @ ''.space_id'')) @
     check_field (case truthy (so_user_id so) of None \<Rightarrow> so_space_id so = None | Some u \<Rightarrow> \<not> safe_segment u) (prefix @ ''.user_id'') @
     validate_path (prefix @ ''.path'') (so_path so)"

definition validateCondition :: "alert_condition option \<Rightarrow> string list" where
  "validateCondition cn =
     (case cn of None \<Rightarrow> [''condition'']
      | Some c \<Rightarrow>
          check_field (cn_type c \<noteq> ''deterministic'' \<and> cn_type c \<noteq> ''fuzzy'') ''condition.type'' @
          check_field (trim (cn_expression c) = []) ''condition.expression'' @
          (if cn_data_sources c = [] then [''condition.data_sources'']
           else check_field (MAX_DATA_SOURCES < length (cn_data_sources c)) ''condition.data_sources'' @
             concat (map (\<lambda>(i, so). validateDataSource so (indexed ''condition.data_sources'' i))
               (enumerate 0 (cn_data_sources c)))))"

definition user_field :: "reg_user list \<Rightarrow> string \<Rightarrow> string \<Rightarrow> string list" where
  "user_field users u f = check_field (u = [] \<or> \<not> safe_segment u \<or> \<not> um_isRegistered u users) f"

fun validateAction :: "reg_user list \<Rightarrow> string \<Rightarrow> alert_action \<Rightarrow> string list" where
  "validateAction users p (UnknownAction t) = [p @ ''.type'']"
| "validateAction users p NoConfig = [p @ ''.config'']"
| "validateAction users p (TelegramMessage m sm) = check_field (trim m = []) (p @ ''.config.message'')"
| "validateAction users p (RunReport r) = check_field (r = [] \<or> \<not> alert_id_pattern r) (p @ ''.config.report_id'')"
| "validateAction users p (Webhook u d) = check_field (trim u = [] \<or> \<not> url_pattern u) (p @ ''.config.url'')"
| "validateAction users p (WriteData c) =
     check_field (wc_app_id c = [] \<or> \<not> alert_id_pattern (wc_app_id c)) (p @ ''.config.app_id'') @
     user_field users (wc_user_id c) (p @ ''.config.user_id'') @
     validate_path (p @ ''.config.path'') (wc_path c) @
     check_field (wc_content c = None) (p @ ''.config.content'') @
     check_field (case wc_mode c of ModeOther m \<Rightarrow> True | _ \<Rightarrow> False) (p @ ''.config.mode'')"
| "validateAction users p (Audio m d) = check_field (trim m = []) (p @ ''.config.message'')"
| "validateAction users p (DispatchMessage t u) =
     check_field (trim t = []) (p @ ''.config.text'') @ user_field users u (p @ ''.config.user_id'')"

definition is_event :: "alert \<Rightarrow> bool" where
  "is_event a \<longleftrightarrow> (case al_trigger a of None \<Rightarrow> False | Some t \<Rightarrow> tg_type t = ''event'')"

definition schedule_of :: "alert \<Rightarrow> string" where
  "schedule_of a = (case Option.bind (al_trigger a) tg_schedule of None \<Rightarrow> al_schedule a | Some s \<Rightarrow> s)"

text \<open>\<open>valid_cron\<close> is \<open>cron.validate\<close> of node-cron.\<close>

definition validateAlert :: "(string \<Rightarrow> bool) \<Rightarrow> reg_user list \<Rightarrow> alert \<Rightarrow> string list" where
  "validateAlert valid_cron users a =
     (if al_id a = [] then [''id'']
      else check_field (\<not> alert_id_pattern (al_id a)) ''id'' @ check_field (MAX_ALERT_ID_LENGTH < length (al_id a)) ''id'') @
     check_field (trim (al_name a) = [] \<or> MAX_ALERT_NAME_LENGTH < length (al_name a)) ''name'' @
     (if is_event a
      then check_field (\<not> event_name_pattern (trim (tg_event_name (the (al_trigger a))))) ''trigger.event_name''
      else check_field (schedule_of a = [] \<or> \<not> valid_cron (schedule_of a)) ''schedule'') @
     (if al_delivery a = [] then [''delivery'']
      else concat (map (\<lambda>u. check_field (\<not> um_isRegistered u users) ''delivery'') (al_delivery a))) @
     check_field (trim (al_cooldown a) = [] \<or> parseCooldown (al_cooldown a) = 0) ''cooldown'' @
     validateCondition (al_condition a) @
     (if al_actions a = [] then [''actions'']
      else check_field (MAX_ACTIONS_PER_ALERT < length (al_actions a)) ''actions'' @
        concat (map (\<lambda>(i, x). validateAction users (indexed ''actions'' i) x) (enumerate 0 (al_actions a))))"

section \<open>Templates\<close>

text \<open>
  \<open>s.replace(/p/g, r)\<close> with a string as replacement: in \<open>r\<close> a dollar sign before a dollar sign, an ampersand, a
  backtick or an apostrophe stands for itself, the match, the text before it and the text after it.
\<close>

fun expand :: "string \<Rightarrow> string \<Rightarrow> string \<Rightarrow> string \<Rightarrow> string" where
  "expand m pre post [] = []"
| "expand m pre post [c] = [c]"
| "expand m pre post (c # d # s) =
     (if c \<noteq> CHR ''$'' then c # expand m pre post (d # s)
      else if d = CHR ''$'' then CHR ''$'' # expand m pre post s
      else if d = CHR ''&'' then m @ expand m pre post s
      else if d = CHR 0x60 then pre @ expand m pre post s
      else if d = CHR 0x27 then post @ expand m pre post s
      else c # expand m pre post (d # s))"

function replace_from :: "string \<Rightarrow> string \<Rightarrow> string \<Rightarrow> string \<Rightarrow> string" where
  "replace_from p r pre s =
     (if s = [] \<or> p = [] then s
      else if starts_with p s
      then expand p pre (drop (length p) s) r @ replace_from p r (pre @ p) (drop (length p) s)
      else hd s # replace_from p r (pre @ [hd s]) (tl s))"
  by pat_completeness auto
termination by (relation "measure (\<lambda>(p, r, pre, s). length s)") auto

declare replace_from.simps [simp del]

definition replace_all :: "string \<Rightarrow> string \<Rightarrow> string \<Rightarrow> string" where
  "replace_all p r s = replace_from p r [] s"

record template_vars =
  tv_data :: string
  tv_summary :: string
  tv_alertName :: string
  tv_date :: string

definition resolveTemplate :: "string \<Rightarrow> template_vars \<Rightarrow> string" where
  "resolveTemplate t v =
     replace_all ''{date}'' (tv_date v) (replace_all ''{alert_name}'' (tv_alertName v)
       (replace_all ''{summary}'' (tv_summary v) (replace_all ''{data}'' (tv_data v) t)))"

definition escapeMarkdown :: "string \<Rightarrow> string" where
  "escapeMarkdown s =
     concat (map (\<lambda>c. if c \<in> set ''*_[]()'' \<or> c = CHR 0x60 then [CHR 0x5C, c] else [c]) s)"

text \<open>\<open>resolveDateTokens\<close>, given the dates of today and yesterday.\<close>

definition resolveDateTokens :: "string \<Rightarrow> string \<Rightarrow> string \<Rightarrow> string" where
  "resolveDateTokens today yesterday p =
     replace_all ''{yesterday}'' yesterday (replace_all ''{today}'' today (replace_all ''{date}'' today p))"

section \<open>Executing actions\<close>

datatype alert_effect =
    Sent string string
  | Mirrored string string
  | ReportRun string
  | Posted string "string option" string
  | Wrote string string
  | Appended string string
  | Spoke string "string option"
  | Dispatched string string "string option"
  | EmittedFired string nat

text \<open>
  \<open>ex_llm\<close> is the model's answer to a request for a summary, \<open>None\<close> when it throws; \<open>ex_bridge\<close> whether mirroring a
  message into the transcript of a user works; \<open>ex_context\<close> the household of the request that is being handled.
\<close>

record exec_env =
  ex_cwd :: string
  ex_dataDir :: "string option"
  ex_today :: string
  ex_yesterday :: string
  ex_llm :: "(string \<Rightarrow> summary_config \<Rightarrow> string option) option"
  ex_sends :: "string \<Rightarrow> bool"
  ex_bridge :: "(string \<Rightarrow> bool) option"
  ex_reports :: "string \<Rightarrow> bool"
  ex_fetches :: "string \<Rightarrow> bool"
  ex_writes :: "string \<Rightarrow> bool"
  ex_speaks :: "bool option"
  ex_router :: "bool option"
  ex_households :: "household_service option"
  ex_context :: "string option"

definition MAX_DATA_LENGTH :: nat where "MAX_DATA_LENGTH = 4000"
definition MAX_TELEGRAM_LENGTH :: nat where "MAX_TELEGRAM_LENGTH = 4000"
definition MAX_WEBHOOK_DATA_LENGTH :: nat where "MAX_WEBHOOK_DATA_LENGTH = 1000000"

definition ELLIPSIS :: char where "ELLIPSIS = CHR 0x85"

text \<open>The ellipsis, beyond the code units of the model, stands as one character of its own.\<close>

definition truncate_data :: "string \<Rightarrow> string" where
  "truncate_data d = (if MAX_DATA_LENGTH < length d then take MAX_DATA_LENGTH d @ [ELLIPSIS] else d)"

definition generateSummary :: "exec_env \<Rightarrow> string \<Rightarrow> summary_config \<Rightarrow> string" where
  "generateSummary ex data cfg =
     (case ex_llm ex of None \<Rightarrow> [] | Some f \<Rightarrow> (case f data cfg of None \<Rightarrow> [] | Some s \<Rightarrow> trim s))"

fun summary_of :: "alert_action \<Rightarrow> summary_config option" where
  "summary_of (TelegramMessage m (Some cfg)) = (if sm_enabled cfg then Some cfg else None)"
| "summary_of _ = None"

definition findAndGenerateSummary :: "exec_env \<Rightarrow> alert_action list \<Rightarrow> string \<Rightarrow> string" where
  "findAndGenerateSummary ex actions data =
     (case find (\<lambda>a. summary_of a \<noteq> None) actions of
        Some a \<Rightarrow> generateSummary ex data (the (summary_of a))
      | None \<Rightarrow>
          if ex_llm ex \<noteq> None \<and> trim data \<noteq> []
          then generateSummary ex data \<lparr>sm_enabled = True, sm_prompt = [], sm_tier = [], sm_max_tokens = 0\<rparr> else [])"

text \<open>Each user's failure is isolated, but a failing mirror ends the action. The numbers sent and failed.\<close>

fun send_all :: "exec_env \<Rightarrow> string \<Rightarrow> string list \<Rightarrow> nat \<Rightarrow> nat \<Rightarrow> alert_effect list \<times> bool" where
  "send_all ex t [] sent failed = ([], \<not> (0 < failed \<and> sent = 0))"
| "send_all ex t (u # us) sent failed =
     (if \<not> ex_sends ex u then send_all ex t us sent (Suc failed)
      else case ex_bridge ex of
             None \<Rightarrow> (let (es, ok) = send_all ex t us (Suc sent) failed in (Sent u t # es, ok))
           | Some f \<Rightarrow>
               if f u then (let (es, ok) = send_all ex t us (Suc sent) failed in (Sent u t # Mirrored u t # es, ok))
               else ([Sent u t], False))"

definition executeTelegramMessage :: "exec_env \<Rightarrow> string \<Rightarrow> template_vars \<Rightarrow> string list \<Rightarrow> alert_effect list \<times> bool" where
  "executeTelegramMessage ex msg v delivery =
     (let t = resolveTemplate msg (v\<lparr>tv_data := escapeMarkdown (tv_data v), tv_alertName := escapeMarkdown (tv_alertName v)\<rparr>);
          t = (if MAX_TELEGRAM_LENGTH < length t
               then take (MAX_TELEGRAM_LENGTH - 20) t @ [CHR 0x0A, CHR 0x0A] @ ''_(truncated)_'' else t)
      in send_all ex t delivery 0 0)"

definition hostile_path :: "string \<Rightarrow> bool" where
  "hostile_path p \<longleftrightarrow>
     CHR 0x00 \<in> set p \<or> CHR 0x5C \<in> set p \<or> starts_with ''/'' p \<or>
     (case p of a # b # c # _ \<Rightarrow> (is_lower_az a \<or> is_upper_az a) \<and> b = CHR '':'' \<and> (c = CHR 0x5C \<or> c = CHR ''/'') | _ \<Rightarrow> False) \<or>
     ''..'' \<in> set (split_on (CHR ''/'') p)"

definition write_base :: "exec_env \<Rightarrow> string \<Rightarrow> write_config \<Rightarrow> string" where
  "write_base ex dir c =
     (case Option.bind (ex_households ex) (\<lambda>h. truthy (hs_getHouseholdForUser (wc_user_id c) h)) of
        Some hh \<Rightarrow> node_resolve (ex_cwd ex) [node_join [dir, ''households'', hh, ''users'', wc_user_id c, wc_app_id c]]
      | None \<Rightarrow> node_resolve (ex_cwd ex) [node_join [dir, ''users'', wc_user_id c, wc_app_id c]])"

definition executeWriteData :: "exec_env \<Rightarrow> write_config \<Rightarrow> template_vars \<Rightarrow> alert_effect list \<times> bool" where
  "executeWriteData ex c v =
     (case ex_dataDir ex of None \<Rightarrow> ([], False)
      | Some dir \<Rightarrow>
          (let p = resolveDateTokens (ex_today ex) (ex_yesterday ex) (wc_path c);
               content = resolveTemplate (case wc_content c of None \<Rightarrow> [] | Some s \<Rightarrow> s) v;
               base = write_base ex dir c;
               full = node_resolve (ex_cwd ex) [node_join [base, p]]
           in if hostile_path p then ([], False)
              else if \<not> starts_with (base @ ''/'') full \<and> full \<noteq> base then ([], False)
              else if (case truthy (ex_context ex) of None \<Rightarrow> False
                       | Some hh \<Rightarrow> (case extractHouseholdIdFromPath full of None \<Rightarrow> False | Some h \<Rightarrow> h \<noteq> hh)) then ([], False)
              else if \<not> ex_writes ex full then ([], False)
              else ([if wc_mode c = ModeWrite then Wrote full content else Appended full content], True)))"

definition executeDispatchMessage :: "exec_env \<Rightarrow> string \<Rightarrow> string \<Rightarrow> template_vars \<Rightarrow> alert_effect list \<times> bool" where
  "executeDispatchMessage ex t u v =
     (case ex_router ex of None \<Rightarrow> ([], False)
      | Some ok \<Rightarrow> ([Dispatched u (resolveTemplate t v) (Option.bind (ex_households ex) (hs_getHouseholdForUser u))], ok))"

definition wants_summary :: "alert_action \<Rightarrow> bool" where
  "wants_summary a =
     (case a of WriteData c \<Rightarrow> str_includes ''{summary}'' (case wc_content c of None \<Rightarrow> [] | Some s \<Rightarrow> s)
      | Audio m d \<Rightarrow> str_includes ''{summary}'' m
      | DispatchMessage t u \<Rightarrow> str_includes ''{summary}'' t
      | TelegramMessage m sm \<Rightarrow> str_includes ''{summary}'' m \<and> summary_of a \<noteq> None
      | _ \<Rightarrow> False)"

text \<open>The summary is made when it is first wanted, and then kept.\<close>

definition summary_for :: "exec_env \<Rightarrow> alert_action list \<Rightarrow> string \<Rightarrow> alert_action \<Rightarrow> string option \<Rightarrow> string option" where
  "summary_for ex actions data a summary =
     (if wants_summary a \<and> summary = None
      then Some (case summary_of a of Some cfg \<Rightarrow> generateSummary ex data cfg | None \<Rightarrow> findAndGenerateSummary ex actions data)
      else summary)"

text \<open>One action: its effects and whether it succeeded.\<close>

definition run_action ::
  "exec_env \<Rightarrow> string list \<Rightarrow> string \<Rightarrow> string \<Rightarrow> string \<Rightarrow> alert_action \<Rightarrow> alert_effect list \<times> bool" where
  "run_action ex delivery data name summary a =
     (let v = \<lparr>tv_data = truncate_data data, tv_summary = summary, tv_alertName = name, tv_date = ex_today ex\<rparr>
      in case a of
           TelegramMessage m sm \<Rightarrow> executeTelegramMessage ex m v delivery
         | RunReport r \<Rightarrow> ([ReportRun r], ex_reports ex r)
         | Webhook url with_data \<Rightarrow>
             ([Posted url (if with_data then Some (take MAX_WEBHOOK_DATA_LENGTH data) else None) name], ex_fetches ex url)
         | WriteData c \<Rightarrow> if wc_content c = None then ([], False) else executeWriteData ex c v
         | Audio m d \<Rightarrow>
             (case ex_speaks ex of None \<Rightarrow> ([], False) | Some ok \<Rightarrow> ([Spoke (resolveTemplate m v) d], ok))
         | DispatchMessage t u \<Rightarrow> executeDispatchMessage ex t u v
         | _ \<Rightarrow> ([], False))"

fun run_actions ::
  "exec_env \<Rightarrow> alert_action list \<Rightarrow> string list \<Rightarrow> string \<Rightarrow> string \<Rightarrow> string option \<Rightarrow> alert_action list \<Rightarrow>
   alert_effect list \<times> nat \<times> nat" where
  "run_actions ex all delivery data name summary [] = ([], 0, 0)"
| "run_actions ex all delivery data name summary (a # as) =
     (let summary = summary_for ex all data a summary;
          (es, ok) = run_action ex delivery data name (case summary of None \<Rightarrow> [] | Some s \<Rightarrow> s) a;
          (rest, s, f) = run_actions ex all delivery data name summary as
      in (es @ rest, if ok then Suc s else s, if ok then f else Suc f))"

definition executeActions :: "exec_env \<Rightarrow> alert_action list \<Rightarrow> string list \<Rightarrow> string \<Rightarrow> string \<Rightarrow> alert_effect list \<times> nat \<times> nat" where
  "executeActions ex actions delivery data name = run_actions ex actions delivery data name None actions"

end
