(* ===== verification/Frontmatter.thy ===== *)
theory Frontmatter
  imports Js_Text
begin

text \<open>
  YAML frontmatter as the program writes and reads it itself, \<open>utils/frontmatter.ts\<close>: generation, parsing,
  quoting, wiki links and tags. A value of the metadata is \<open>undefined\<close> (or \<open>null\<close>), a list or a scalar that has been turned into
  its text.
\<close>

datatype fm_value = FmNone | FmList "string list" | FmText string

type_synonym fm_meta = "fm_value jsmap"

abbreviation NL :: char where "NL \<equiv> CHR 0x0A"
abbreviation CR :: char where "CR \<equiv> CHR 0x0D"
abbreviation QUOTE :: char where "QUOTE \<equiv> CHR 0x22"
abbreviation BACKSLASH :: char where "BACKSLASH \<equiv> CHR 0x5C"
abbreviation APOSTROPHE :: char where "APOSTROPHE \<equiv> CHR 0x27"

section \<open>Quoting\<close>

definition SPECIALS :: "char list" where
  "SPECIALS = '':#{}[],&*?|>!%@'' @ [CHR 0x60, APOSTROPHE, QUOTE, BACKSLASH]"

definition needs_quoting :: "string \<Rightarrow> bool" where
  "needs_quoting v \<longleftrightarrow>
     list_ex (\<lambda>c. c \<in> set SPECIALS) v \<or>
     lower v \<in> {''true'', ''false'', ''null'', ''yes'', ''no''} \<or>
     (v \<noteq> [] \<and> (is_ws (hd v) \<or> is_ws (last v)))"

text \<open>\<open>v.replace(/\\/g, '\\\\').replace(/"/g, '\\"')\<close>.\<close>

definition escape_value :: "string \<Rightarrow> string" where
  "escape_value v = concat (map (\<lambda>c. if c = BACKSLASH then [BACKSLASH, BACKSLASH] else if c = QUOTE then [BACKSLASH, QUOTE] else [c]) v)"

definition quoteIfNeeded :: "string \<Rightarrow> string" where
  "quoteIfNeeded v =
     (if v = [] then [QUOTE, QUOTE]
      else if needs_quoting v then [QUOTE] @ escape_value v @ [QUOTE] else v)"

text \<open>\<open>s.replace(/\\c/g, c)\<close> for a character after a backslash.\<close>

fun unescape :: "char \<Rightarrow> string \<Rightarrow> string" where
  "unescape q [] = []"
| "unescape q [c] = [c]"
| "unescape q (c # d # s) = (if c = BACKSLASH \<and> d = q then q # unescape q s else c # unescape q (d # s))"

definition quoted_by :: "char \<Rightarrow> string \<Rightarrow> bool" where
  "quoted_by q v \<longleftrightarrow> v \<noteq> [] \<and> hd v = q \<and> last v = q"

text \<open>\<open>v.slice(1, -1)\<close> of a single quote character is empty.\<close>

definition unquote :: "string \<Rightarrow> string" where
  "unquote v =
     (if quoted_by QUOTE v \<or> quoted_by APOSTROPHE v
      then unescape BACKSLASH (unescape QUOTE (butlast (tl v))) else v)"

section \<open>Generating\<close>

fun fm_lines :: "string \<times> fm_value \<Rightarrow> string list" where
  "fm_lines (k, FmNone) = []"
| "fm_lines (k, FmList xs) = (if xs = [] then [] else (k @ '':'') # map (\<lambda>x. ''  - '' @ quoteIfNeeded x) xs)"
| "fm_lines (k, FmText v) = [k @ '': '' @ quoteIfNeeded v]"

definition generateFrontmatter :: "fm_meta \<Rightarrow> string" where
  "generateFrontmatter meta = join [NL] ([''---''] @ concat (map fm_lines meta) @ [''---'']) @ [NL]"

section \<open>Parsing\<close>

definition hasFrontmatter :: "string \<Rightarrow> bool" where
  "hasFrontmatter s \<longleftrightarrow> starts_with (''---'' @ [NL]) s \<or> starts_with (''---'' @ [CR, NL]) s"

text \<open>What stands before the first occurrence of \<open>p\<close>, and what follows it.\<close>

fun cut_at :: "string \<Rightarrow> string \<Rightarrow> (string \<times> string) option" where
  "cut_at p s =
     (if starts_with p s then Some ([], drop (length p) s)
      else case s of [] \<Rightarrow> None | c # s' \<Rightarrow> map_option (\<lambda>(a, b). (c # a, b)) (cut_at p s'))"

declare cut_at.simps [simp del]

fun drop_cr :: "string \<Rightarrow> string" where
  "drop_cr s = (if s \<noteq> [] \<and> last s = CR then butlast s else s)"

definition word_start :: "char \<Rightarrow> bool" where
  "word_start c \<longleftrightarrow> is_lower_az c \<or> is_upper_az c \<or> c = CHR ''_''"

definition key_char :: "char \<Rightarrow> bool" where
  "key_char c \<longleftrightarrow> word_start c \<or> is_digit c"

definition plain_line :: "string \<Rightarrow> bool" where
  "plain_line s \<longleftrightarrow> list_all (\<lambda>c. c \<noteq> NL \<and> c \<noteq> CR) s"

text \<open>\<open>^\s{2}- (.+)$\<close> and \<open>^([a-zA-Z_][a-zA-Z0-9_]*):(.*)$\<close>.\<close>

definition item_of :: "string \<Rightarrow> string option" where
  "item_of l =
     (case l of a # b # r \<Rightarrow>
        if is_ws a \<and> is_ws b \<and> starts_with ''- '' r \<and> drop 2 r \<noteq> [] \<and> plain_line (drop 2 r) then Some (drop 2 r) else None
      | _ \<Rightarrow> None)"

definition entry_line :: "string \<Rightarrow> (string \<times> string) option" where
  "entry_line l =
     (let k = takeWhile key_char l; r = drop (length k) l
      in if k \<noteq> [] \<and> word_start (hd k) \<and> starts_with '':'' r \<and> plain_line (tl r) then Some (k, tl r) else None)"

text \<open>The state of the loop: the metadata, the key of the last entry, the list that is being read.\<close>

definition parse_line :: "string \<Rightarrow> fm_meta \<times> string \<times> string list option \<Rightarrow> fm_meta \<times> string \<times> string list option" where
  "parse_line raw st =
     (let (meta, cur, arr) = st; l = drop_cr raw in
      case (if cur \<noteq> [] then item_of l else None) of
        Some x \<Rightarrow>
          (let xs = (case arr of None \<Rightarrow> [] | Some a \<Rightarrow> a) @ [unquote (trim x)]
           in (set_key cur (FmList xs) meta, cur, Some xs))
      | None \<Rightarrow>
          (case entry_line l of
             None \<Rightarrow> (meta, cur, None)
           | Some (k, v) \<Rightarrow>
               (set_key k (if trim v = [] then FmNone else FmText (unquote (trim v))) meta, k, None)))"

definition drop_break :: "string \<Rightarrow> string" where
  "drop_break s = (if starts_with [CR, NL] s then drop 2 s else if starts_with [NL] s then drop 1 s else s)"

text \<open>The search for the closing line starts at the line break of the opening one.\<close>

definition parseFrontmatter :: "string \<Rightarrow> fm_meta \<times> string" where
  "parseFrontmatter raw =
     (if \<not> hasFrontmatter raw then ([], raw)
      else (let n = (if starts_with (''---'' @ [CR, NL]) raw then 5 else 4)
            in case cut_at ([NL] @ ''---'') (drop (n - 1) raw) of
                 None \<Rightarrow> ([], raw)
               | Some (block, rest) \<Rightarrow>
                   (fst (fold parse_line (split_on NL (drop 1 block)) ([], [], None)), drop_break rest)))"

definition stripFrontmatter :: "string \<Rightarrow> string" where
  "stripFrontmatter s = snd (parseFrontmatter s)"

section \<open>Links and tags\<close>

text \<open>\<open>\[\[([^\]|]+)(?:\|[^\]]+)?\]\]\<close> at the start of a text: target and what follows.\<close>

definition link_here :: "string \<Rightarrow> (string \<times> string) option" where
  "link_here s =
     (if \<not> starts_with ''[['' s then None
      else (let t = takeWhile (\<lambda>c. c \<noteq> CHR '']'' \<and> c \<noteq> CHR ''|'') (drop 2 s);
                r = drop (length t) (drop 2 s);
                d = takeWhile (\<lambda>c. c \<noteq> CHR '']'') (drop 1 r);
                e = (if starts_with ''|'' r then (if d = [] then r else drop (length d) (drop 1 r)) else r)
            in if t \<noteq> [] \<and> starts_with '']]'' e then Some (t, drop 2 e) else None))"

lemma link_here_shorter: "link_here s = Some (t, r) \<Longrightarrow> length r < length s"
proof -
  assume a: "link_here s = Some (t, r)"
  then have "starts_with ''[['' s" by (simp add: link_here_def split: if_splits)
  then have "2 \<le> length s" by (auto simp: starts_with_iff)
  moreover have "\<exists>n. r = drop n (drop 2 s)"
    using a by (auto simp: link_here_def Let_def drop_drop [symmetric] simp del: drop_drop split: if_splits)
       (auto simp: drop_drop)
  ultimately show ?thesis by auto
qed

function links :: "string \<Rightarrow> string list" where
  "links [] = []"
| "links (c # s) = (case link_here (c # s) of None \<Rightarrow> links s | Some (t, r) \<Rightarrow> trim t # links r)"
  by pat_completeness auto
termination by (relation "measure length") (auto dest: link_here_shorter)

definition extractWikiLinks :: "string \<Rightarrow> string list" where
  "extractWikiLinks s = rev (remdups (rev (filter (\<lambda>t. t \<noteq> []) (links s))))"

definition buildAppTags :: "string \<Rightarrow> string \<Rightarrow> string list \<Rightarrow> string list" where
  "buildAppTags app kind extras =
     fold (\<lambda>t tags. if t \<noteq> [] \<and> t \<notin> set tags then tags @ [t] else tags) extras [''pas/'' @ kind, ''pas/'' @ app]"

section \<open>Facts\<close>

lemma unescape_escape: "unescape BACKSLASH (unescape QUOTE (escape_value v)) = v"
proof -
  define half where "half v = concat (map (\<lambda>c. if c = BACKSLASH then [BACKSLASH, BACKSLASH] else [c]) v)" for v :: string
  have starts: "escape_value v = [] \<or> hd (escape_value v) \<noteq> QUOTE" for v
    by (cases v) (simp_all add: escape_value_def)
  have cons: "s = [] \<or> hd s \<noteq> QUOTE \<Longrightarrow> unescape QUOTE (c # s) = c # unescape QUOTE s" for c s
    by (cases s) auto
  have one: "unescape QUOTE (escape_value v) = half v"
  proof (induction v)
    case (Cons c v)
    have "escape_value (c # v) = (if c = BACKSLASH then [BACKSLASH, BACKSLASH] else if c = QUOTE then [BACKSLASH, QUOTE] else [c]) @ escape_value v"
      by (simp add: escape_value_def)
    then show ?case using Cons cons [OF starts [of v]] by (simp add: half_def)
  qed (simp add: escape_value_def half_def)
  have "unescape BACKSLASH (half v) = v"
  proof (induction v)
    case (Cons c v)
    show ?case
    proof (cases "half v")
      case Nil
      then have "v = []" using Cons by simp
      then show ?thesis by (simp add: half_def)
    next
      case (Cons d s)
      then show ?thesis using \<open>unescape BACKSLASH (half v) = v\<close> by (simp add: half_def)
    qed
  qed (simp add: half_def)
  then show ?thesis using one by simp
qed

lemma cut_at_skip:
  "NL \<notin> set l \<Longrightarrow> cut_at (NL # q) (l @ s) = map_option (\<lambda>(a, b). (l @ a, b)) (cut_at (NL # q) s)"
proof (induction l)
  case Nil
  then show ?case by (simp add: option.map_ident case_prod_beta')
next
  case (Cons c l)
  then have "\<not> starts_with (NL # q) (c # l @ s)" by (auto simp: starts_with_def)
  then show ?case using Cons by (subst cut_at.simps) (simp add: option.map_comp comp_def split_def)
qed

lemma cut_at_lines:
  "\<forall>l \<in> set ls. NL \<notin> set l \<and> l \<noteq> [] \<and> hd l \<noteq> CHR ''-'' \<Longrightarrow>
   cut_at (NL # ''---'') (concat (map (\<lambda>l. NL # l) ls) @ NL # ''---'' @ rest) = Some (concat (map (\<lambda>l. NL # l) ls), rest)"
proof (induction ls)
  case Nil
  then show ?case by (subst cut_at.simps) (simp add: starts_with_def)
next
  case (Cons l ls)
  then obtain c t where l: "l = c # t" "c \<noteq> CHR ''-''" by (cases l) auto
  have "\<not> starts_with (NL # ''---'') (NL # l @ s)" for s using l by (simp add: starts_with_def)
  then show ?case
    using Cons cut_at_skip [of l "''---''" "concat (map (\<lambda>l. NL # l) ls) @ NL # ''---'' @ rest"]
    by (subst cut_at.simps) (simp add: option.map_comp)
qed

lemma join_lines: "join [NL] (x # ls) = x @ concat (map (\<lambda>l. NL # l) ls)"
  by (induction ls arbitrary: x) simp_all

text \<open>Metadata that can be written: plain keys of their own, texts of one line.\<close>

definition good_key :: "string \<Rightarrow> bool" where
  "good_key k \<longleftrightarrow> k \<noteq> [] \<and> word_start (hd k) \<and> list_all key_char k \<and> k \<noteq> ''__proto__''"

fun good_value :: "fm_value \<Rightarrow> bool" where
  "good_value FmNone = True"
| "good_value (FmList xs) = list_all plain_line xs"
| "good_value (FmText v) = plain_line v"

definition good_meta :: "fm_meta \<Rightarrow> bool" where
  "good_meta meta \<longleftrightarrow> distinct (keys meta) \<and> list_all (\<lambda>(k, v). good_key k \<and> good_value v) meta"

lemma special_not_word: "key_char c \<Longrightarrow> c \<noteq> CHR '':'' \<and> c \<noteq> CHR ''-'' \<and> c \<noteq> NL \<and> c \<noteq> CR \<and> \<not> is_ws c"
  by (auto simp: key_char_def word_start_def is_lower_az_def is_upper_az_def is_digit_def is_ws_def)

lemma plain_escape: "plain_line (escape_value v) = plain_line v"
  by (induction v) (auto simp: plain_line_def escape_value_def)

lemma plain_quote [simp]: "plain_line (quoteIfNeeded v) = plain_line v"
  using plain_escape [of v] by (auto simp: quoteIfNeeded_def plain_line_def)

lemma quote_edges: "quoteIfNeeded v \<noteq> [] \<and> \<not> is_ws (hd (quoteIfNeeded v)) \<and> \<not> is_ws (last (quoteIfNeeded v))"
  by (auto simp: quoteIfNeeded_def needs_quoting_def is_ws_def)

lemma trim_edges: "s \<noteq> [] \<Longrightarrow> \<not> is_ws (hd s) \<Longrightarrow> \<not> is_ws (last s) \<Longrightarrow> trim s = s"
proof -
  assume a: "s \<noteq> []" "\<not> is_ws (hd s)" "\<not> is_ws (last s)"
  then have "dropWhile is_ws s = s" by (cases s) auto
  moreover have "dropWhile is_ws (rev s) = rev s" using a by (cases s rule: rev_cases) auto
  ultimately show ?thesis by (simp add: trim_def)
qed

lemma trim_quote [simp]: "trim (quoteIfNeeded v) = quoteIfNeeded v"
  using quote_edges trim_edges by blast

lemma trim_blank_quote [simp]: "trim (CHR '' '' # quoteIfNeeded v) = quoteIfNeeded v"
proof -
  have "trim (CHR '' '' # s) = trim s" for s by (simp add: trim_def is_ws_def)
  then show ?thesis by simp
qed

lemma unquote_quote: "unquote (quoteIfNeeded v) = v"
proof (cases "v \<noteq> [] \<and> \<not> needs_quoting v")
  case True
  then have "QUOTE \<notin> set v" "APOSTROPHE \<notin> set v"
    by (auto simp: needs_quoting_def list_ex_iff SPECIALS_def)
  moreover have "hd v \<in> set v" using True by simp
  ultimately have "hd v \<noteq> QUOTE" "hd v \<noteq> APOSTROPHE" by metis+
  then show ?thesis using True by (simp add: quoteIfNeeded_def unquote_def quoted_by_def)
next
  case False
  then show ?thesis using unescape_escape [of v] by (auto simp: quoteIfNeeded_def unquote_def quoted_by_def butlast_append)
qed

lemma plain_no_cr: "plain_line l \<Longrightarrow> drop_cr l = l"
  by (cases l rule: rev_cases) (auto simp: plain_line_def)

lemma entry_line_key:
  assumes "good_key k" "plain_line v"
  shows "entry_line (k @ CHR '':'' # v) = Some (k, v)"
proof -
  have "takeWhile key_char (k @ CHR '':'' # v) = k"
    using assms(1) special_not_word [of "CHR '':''"] by (auto simp: good_key_def list_all_iff takeWhile_append2)
  then show ?thesis using assms by (simp add: entry_line_def good_key_def starts_with_def)
qed

lemma item_of_key: "good_key k \<Longrightarrow> item_of (k @ s) = None"
  using special_not_word by (cases k) (auto simp: item_of_def good_key_def list_all_iff split: list.splits)

lemma plain_key: "good_key k \<Longrightarrow> plain_line k"
  using special_not_word by (auto simp: good_key_def plain_line_def list_all_iff)

lemma parse_text:
  assumes "good_key k" "plain_line v"
  shows "parse_line (k @ '': '' @ quoteIfNeeded v) (meta, cur, arr) = (set_key k (FmText v) meta, k, None)"
proof -
  have p: "plain_line (CHR '' '' # quoteIfNeeded v)" using assms(2) plain_quote [of v] by (simp add: plain_line_def del: plain_quote)
  have "plain_line (k @ '': '' @ quoteIfNeeded v)"
    using plain_key [OF assms(1)] p by (simp add: plain_line_def)
  then have "drop_cr (k @ '': '' @ quoteIfNeeded v) = k @ '': '' @ quoteIfNeeded v" by (rule plain_no_cr)
  then show ?thesis
    using entry_line_key [OF assms(1) p] item_of_key [OF assms(1)] quote_edges [of v]
    by (simp add: parse_line_def Let_def unquote_quote del: drop_cr.simps)
qed

lemma parse_list_head:
  assumes "good_key k"
  shows "parse_line (k @ '':'') (meta, cur, arr) = (set_key k FmNone meta, k, None)"
proof -
  have p: "plain_line []" by (simp add: plain_line_def)
  have "plain_line (k @ '':'')" using plain_key [OF assms] by (simp add: plain_line_def)
  then have "drop_cr (k @ '':'') = k @ '':''" by (rule plain_no_cr)
  then show ?thesis
    using entry_line_key [OF assms p] item_of_key [OF assms] by (simp add: parse_line_def trim_def Let_def del: drop_cr.simps)
qed

lemma parse_item:
  assumes "k \<noteq> []" "plain_line x"
  shows "parse_line (''  - '' @ quoteIfNeeded x) (meta, k, arr) =
    (set_key k (FmList ((case arr of None \<Rightarrow> [] | Some a \<Rightarrow> a) @ [x])) meta, k, Some ((case arr of None \<Rightarrow> [] | Some a \<Rightarrow> a) @ [x]))"
proof -
  have p: "plain_line (quoteIfNeeded x)" using assms(2) by simp
  have i: "item_of (''  - '' @ quoteIfNeeded x) = Some (quoteIfNeeded x)"
    using p quote_edges [of x] by (simp add: item_of_def is_ws_def starts_with_def)
  have "plain_line (''  - '' @ quoteIfNeeded x)" using p by (simp add: plain_line_def)
  then have "drop_cr (''  - '' @ quoteIfNeeded x) = ''  - '' @ quoteIfNeeded x" by (rule plain_no_cr)
  then show ?thesis using i assms(1) unquote_quote [of x] by (simp add: parse_line_def Let_def del: drop_cr.simps)
qed

lemma parse_items:
  assumes "k \<noteq> []" "list_all plain_line ys"
  shows "fold parse_line (map (\<lambda>x. ''  - '' @ quoteIfNeeded x) ys) (set_key k (FmList xs) meta, k, Some xs) =
    (set_key k (FmList (xs @ ys)) meta, k, Some (xs @ ys))"
  using assms(2)
proof (induction ys arbitrary: xs)
  case (Cons y ys)
  have "set_key k a (set_key k b meta) = set_key k a meta" for a b :: fm_value
    by (induction meta) auto
  then show ?case using Cons.IH [of "xs @ [y]"] Cons.prems parse_item [OF assms(1), of y "set_key k (FmList xs) meta" "Some xs"] by simp
qed simp

definition written :: "fm_value \<Rightarrow> bool" where
  "written v \<longleftrightarrow> v \<noteq> FmNone \<and> v \<noteq> FmList []"

definition clean_meta :: "fm_meta \<Rightarrow> fm_meta" where
  "clean_meta meta = filter (\<lambda>(_, v). written v) meta"

lemma parse_entry:
  assumes "good_key k" "good_value v" "k \<notin> set (keys meta)"
  shows "\<exists>cur' arr'. fold parse_line (fm_lines (k, v)) (meta, cur, arr) = (if written v then meta @ [(k, v)] else meta, cur', arr')"
proof (cases v)
  case FmNone
  then show ?thesis by (simp add: written_def)
next
  case (FmText t)
  then show ?thesis
    using assms parse_text [OF assms(1), of t meta cur arr] by (simp add: written_def set_key_new)
next
  case (FmList xs)
  show ?thesis
  proof (cases xs)
    case Nil
    then show ?thesis using FmList by (simp add: written_def)
  next
    case (Cons y ys)
    have k: "k \<noteq> []" using assms(1) by (simp add: good_key_def)
    have y: "plain_line y" "list_all plain_line ys" using assms(2) FmList Cons by simp_all
    have twice: "set_key k a (set_key k b meta) = set_key k a meta" for a b :: fm_value
      by (induction meta) auto
    have "fold parse_line (fm_lines (k, v)) (meta, cur, arr) = (set_key k (FmList (y # ys)) meta, k, Some (y # ys))"
      using FmList Cons parse_list_head [OF assms(1), of meta cur arr] parse_item [OF k y(1), of "set_key k FmNone meta" None]
        parse_items [OF k y(2), of "[y]" meta] twice by simp
    then show ?thesis using FmList Cons assms(3) by (simp add: written_def set_key_new)
  qed
qed

lemma parse_entries:
  assumes "good_meta (m0 @ meta)"
  shows "fst (fold parse_line (concat (map fm_lines meta)) (clean_meta m0, cur, arr)) = clean_meta (m0 @ meta)"
  using assms
proof (induction meta arbitrary: m0 cur arr)
  case (Cons e meta)
  obtain k v where e: "e = (k, v)" by (cases e)
  have g: "good_key k" "good_value v" "k \<notin> set (keys (clean_meta m0))"
    using Cons.prems by (auto simp: good_meta_def e clean_meta_def)
  obtain cur' arr' where s: "fold parse_line (fm_lines (k, v)) (clean_meta m0, cur, arr) =
      (if written v then clean_meta m0 @ [(k, v)] else clean_meta m0, cur', arr')"
    using parse_entry [OF g, of cur arr] by blast
  have c: "(if written v then clean_meta m0 @ [(k, v)] else clean_meta m0) = clean_meta (m0 @ [e])"
    by (simp add: clean_meta_def e)
  have "good_meta ((m0 @ [e]) @ meta)" using Cons.prems by simp
  from Cons.IH [OF this, of cur' arr'] show ?case using s c by (simp add: e)
qed (simp add: clean_meta_def)

lemma fm_lines_shape:
  assumes "good_key k" "good_value v" "l \<in> set (fm_lines (k, v))"
  shows "NL \<notin> set l \<and> l \<noteq> [] \<and> hd l \<noteq> CHR ''-''"
proof -
  have pk: "plain_line k" "k \<noteq> []" "hd k \<noteq> CHR ''-''"
    using plain_key [OF assms(1)] assms(1) special_not_word [of "hd k"] by (auto simp: good_key_def key_char_def)
  have pq: "plain_line x \<Longrightarrow> NL \<notin> set (quoteIfNeeded x)" for x
    using plain_quote [of x] by (auto simp: plain_line_def list_all_iff)
  have nk: "NL \<notin> set k" using pk(1) by (auto simp: plain_line_def list_all_iff)
  show ?thesis
  proof (cases v)
    case (FmList xs)
    then show ?thesis using assms(2,3) pk nk pq by (auto simp: list_all_iff split: if_splits)
  qed (use assms(2,3) pk nk pq in auto)
qed

lemma generate_eq:
  "generateFrontmatter meta = ''---'' @ concat (map (\<lambda>l. NL # l) (concat (map fm_lines meta))) @ NL # ''---'' @ [NL]"
  using join_lines [of "''---''" "concat (map fm_lines meta) @ [''---'']"] by (simp add: generateFrontmatter_def)

lemma parse_generate:
  assumes "good_meta meta"
  shows "parseFrontmatter (generateFrontmatter meta @ body) = (clean_meta meta, body)"
proof -
  define ls where "ls = concat (map fm_lines meta)"
  define raw where "raw = generateFrontmatter meta @ body"
  have shape: "\<forall>l \<in> set ls. NL \<notin> set l \<and> l \<noteq> [] \<and> hd l \<noteq> CHR ''-''"
    using assms fm_lines_shape by (fastforce simp: ls_def good_meta_def list_all_iff)
  have raw: "raw = ''---'' @ concat (map (\<lambda>l. NL # l) ls) @ NL # ''---'' @ NL # body"
    by (simp add: raw_def ls_def generate_eq)
  have nl: "\<exists>s. raw = ''---'' @ NL # s" by (cases ls) (auto simp: raw)
  then have h: "hasFrontmatter raw" "\<not> starts_with (''---'' @ [CR, NL]) raw"
    by (auto simp: hasFrontmatter_def starts_with_def)
  have cut: "cut_at ([NL] @ ''---'') (drop 3 raw) = Some (concat (map (\<lambda>l. NL # l) ls), NL # body)"
    using cut_at_lines [OF shape, of "NL # body"] by (simp add: raw)
  have lines: "ls = [] \<and> split_on NL (drop 1 (concat (map (\<lambda>l. NL # l) ls))) = [[]] \<or>
      split_on NL (drop 1 (concat (map (\<lambda>l. NL # l) ls))) = ls"
  proof (cases ls)
    case (Cons l more)
    then have "drop 1 (concat (map (\<lambda>l. NL # l) ls)) = join [NL] ls" using join_lines [of l more] by simp
    then show ?thesis using split_join [of ls NL] shape Cons by simp
  qed simp
  have "fold parse_line [[]] ([], [], None) = ([], [], None)"
    by (simp add: parse_line_def entry_line_def item_of_def)
  moreover have "fst (fold parse_line ls ([], [], None)) = clean_meta meta"
    using parse_entries [of "[]" meta] assms by (simp add: ls_def clean_meta_def)
  ultimately have m: "fst (fold parse_line (split_on NL (drop 1 (concat (map (\<lambda>l. NL # l) ls)))) ([], [], None)) = clean_meta meta"
    using lines by auto
  have "drop_break (NL # body) = body" by (simp add: drop_break_def starts_with_def)
  then show ?thesis using h cut m unfolding raw_def [symmetric] by (simp add: parseFrontmatter_def Let_def)
qed

section \<open>Property\<close>


definition tricky_meta :: fm_meta where
  "tricky_meta = [(''title'', FmText ('' a: '' @ [QUOTE, BACKSLASH] @ '' b'')), (''tags'', FmList [''pas/x'', ''yes'']),
     (''date'', FmNone), (''source'', FmText '''')]"


section \<open>Where the code falls short\<close>

text \<open>A value with a line break is neither escaped nor kept: what follows the break is lost, or read as an entry of its own.\<close>

lemma line_breaks_forge_entries:
  "fst (parseFrontmatter (generateFrontmatter [(''title'', FmText (''a'' @ [NL] @ ''user: admin''))])) =
     [(''title'', FmText ([QUOTE] @ ''a'')), (''user'', FmText (''admin'' @ [QUOTE]))]"
  by code_simp

end
