(* ===== verification/Alerts.thy ===== *)
theory Alerts
  imports Alert_Actions Frontmatter Scheduler "HOL-Library.Multiset"
begin

text \<open>
  The alert service, \<open>services/alerts/index.ts\<close>: definitions in files, their triggers (cron jobs and
  subscriptions to events), who may be involved in an alert, and its evaluation. A file is named by the id it stands under.
  The evaluation is split where it awaits: the check that reads the alert and decides, and the firing. The dispatch to
  n8n, the list for a user, sorting by locale and logging are left out.
\<close>

section \<open>State\<close>

text \<open>A file of definitions: not YAML, no object with an id, or an alert.\<close>

datatype alert_file = BrokenYaml | NoAlert | AlertDef alert

datatype found_file = NoSuchFile | Unreadable | FileText string | Directory "(string \<times> bool \<times> time option \<times> string) list"

text \<open>
  Subscriptions pair alert and event; \<open>aw_handlers\<close> are the handlers of the bus, as event and alert. \<open>aw_history\<close> holds
  the files of the history, by their path below its directory.
\<close>

record alert_world =
  aw_files :: "alert_file jsmap"
  aw_crons :: cron_world
  aw_subs :: "string jsmap"
  aw_handlers :: "(string \<times> string) list"
  aw_history :: "string jsmap"

record alert_env =
  ae_exec :: exec_env
  ae_users :: "reg_user list"
  ae_spaces :: "space_service option"
  ae_valid_cron :: "string \<Rightarrow> bool"
  ae_bus :: bool
  ae_date_of :: "string \<Rightarrow> fired"
  ae_read :: "string \<Rightarrow> found_file"
  ae_fuzzy :: fuzzy_call
  ae_disk :: bool

datatype alert_problem =
    AlertNotFound | HasValidationErrors
  | NoHouseholdFor string | SpansHouseholds | ForeignSpace string | NotAMember string string | ForeignSource string
  | ForeignTarget string
  | BadDirectory path_error | ReadFailed | ConditionThrew

record evaluation =
  ev_conditionMet :: bool
  ev_actionTriggered :: bool
  ev_actionsExecuted :: nat
  ev_error :: "alert_problem option"

definition no_evaluation :: "alert_problem option \<Rightarrow> evaluation" where
  "no_evaluation e = \<lparr>ev_conditionMet = False, ev_actionTriggered = False, ev_actionsExecuted = 0, ev_error = e\<rparr>"

definition CRON_KEY_PREFIX :: string where "CRON_KEY_PREFIX = ''alerts''"

section \<open>Reading definitions\<close>

definition alert_errors :: "alert_env \<Rightarrow> alert \<Rightarrow> string list" where
  "alert_errors env a = validateAlert (ae_valid_cron env) (ae_users env) a"

fun alerts_in :: "alert_file jsmap \<Rightarrow> alert list" where
  "alerts_in [] = []"
| "alerts_in ((_, AlertDef a) # fs) = (if al_id a = [] then alerts_in fs else a # alerts_in fs)"
| "alerts_in (_ # fs) = alerts_in fs"

definition listAlerts :: "alert_world \<Rightarrow> alert list" where
  "listAlerts w = alerts_in (aw_files w)"

definition getAlert :: "string \<Rightarrow> alert_world \<Rightarrow> alert option" where
  "getAlert i w =
     (if \<not> alert_id_pattern i then None
      else case map_of (aw_files w) i of
             Some (AlertDef a) \<Rightarrow> if al_id a = [] then None else Some a
           | _ \<Rightarrow> None)"

section \<open>Triggers\<close>

datatype effective_trigger = Scheduled string | OnEvent string

definition getEffectiveTrigger :: "alert \<Rightarrow> effective_trigger" where
  "getEffectiveTrigger a =
     (if is_event a \<and> tg_event_name (the (al_trigger a)) \<noteq> [] then OnEvent (tg_event_name (the (al_trigger a)))
      else Scheduled (schedule_of a))"

definition cron_of :: "alert \<Rightarrow> string \<Rightarrow> cron_job" where
  "cron_of a sched =
     \<lparr>cj_id = al_id a, cj_appId = CRON_KEY_PREFIX, cj_cron = sched, cj_handler = ''alert-evaluator'',
      cj_description = ''Alert: '' @ al_name a, cj_userScope = ScopeSystem\<rparr>"

definition subscribeEvent :: "alert_env \<Rightarrow> string \<Rightarrow> string \<Rightarrow> alert_world \<Rightarrow> alert_world" where
  "subscribeEvent env i e w =
     (if ae_bus env then w\<lparr>aw_handlers := aw_handlers w @ [(e, i)], aw_subs := set_key i e (aw_subs w)\<rparr> else w)"

definition unsubscribeEvent :: "alert_env \<Rightarrow> string \<Rightarrow> alert_world \<Rightarrow> alert_world" where
  "unsubscribeEvent env i w =
     (case map_of (aw_subs w) i of None \<Rightarrow> w
      | Some e \<Rightarrow> w\<lparr>aw_handlers := (if ae_bus env then remove1 (e, i) (aw_handlers w) else aw_handlers w),
                   aw_subs := del_key i (aw_subs w)\<rparr>)"

definition registerTrigger :: "alert_env \<Rightarrow> alert \<Rightarrow> alert_world \<Rightarrow> alert_world" where
  "registerTrigger env a w =
     (case getEffectiveTrigger a of
        OnEvent e \<Rightarrow> subscribeEvent env (al_id a) e w
      | Scheduled sched \<Rightarrow> w\<lparr>aw_crons := cm_register (ae_valid_cron env) (cron_of a sched) (aw_crons w)\<rparr>)"

definition unregisterTrigger :: "alert_env \<Rightarrow> string \<Rightarrow> alert_world \<Rightarrow> alert_world" where
  "unregisterTrigger env i w =
     unsubscribeEvent env i (w\<lparr>aw_crons := snd (cm_unregister (ae_disk env) (job_key CRON_KEY_PREFIX i) (aw_crons w))\<rparr>)"

definition syncTrigger :: "alert_env \<Rightarrow> alert \<Rightarrow> alert_world \<Rightarrow> alert_world" where
  "syncTrigger env a w =
     (let w = unregisterTrigger env (al_id a) w in if al_enabled a then registerTrigger env a w else w)"

definition al_init :: "alert_env \<Rightarrow> alert_world \<Rightarrow> alert_world" where
  "al_init env w =
     fold (\<lambda>a w. if al_enabled a \<and> alert_errors env a = [] then registerTrigger env a w else w) (listAlerts w) w"

section \<open>Saving and deleting\<close>

datatype save_result = Refused "string list" | TooManyAlerts | NoEventBus | SaveThrew | Saved

definition saveAlert :: "alert_env \<Rightarrow> time \<Rightarrow> alert \<Rightarrow> alert_world \<Rightarrow> save_result \<times> alert_world" where
  "saveAlert env now a w =
     (if alert_errors env a \<noteq> [] then (Refused (alert_errors env a), w)
      else if is_event a \<and> al_enabled a \<and> \<not> ae_bus env then (NoEventBus, w)
      else if getAlert (al_id a) w = None \<and> MAX_ALERTS \<le> length (listAlerts w) then (TooManyAlerts, w)
      else (let a = a\<lparr>al_updatedAt := Some (iso_string now)\<rparr>
            in if \<not> ae_disk env then (SaveThrew, w)
               else (Saved, syncTrigger env a (w\<lparr>aw_files := set_key (al_id a) (AlertDef a) (aw_files w)\<rparr>))))"

text \<open>\<open>None\<close>: the file could not be removed, and the call throws.\<close>

definition deleteAlert :: "alert_env \<Rightarrow> string \<Rightarrow> alert_world \<Rightarrow> bool option \<times> alert_world" where
  "deleteAlert env i w =
     (if \<not> alert_id_pattern i then (Some False, w)
      else if \<not> has_key i (aw_files w) then (Some False, w)
      else if \<not> ae_disk env then (None, w)
      else (Some True, unregisterTrigger env i (w\<lparr>aw_files := del_key i (aw_files w)\<rparr>)))"

section \<open>Who may be involved\<close>

definition find_space :: "alert_env \<Rightarrow> string \<Rightarrow> space option" where
  "find_space env i = Option.bind (ae_spaces env) (sp_getSpace i)"

definition authorizeDataSource :: "alert_env \<Rightarrow> household_service \<Rightarrow> string \<Rightarrow> string list \<Rightarrow> alert_source \<Rightarrow> alert_problem option" where
  "authorizeDataSource env hs hh delivery so =
     (case truthy (so_space_id so) of
        Some i \<Rightarrow>
          (case find_space env i of
             None \<Rightarrow> None
           | Some d \<Rightarrow>
               (case sd_kind d of
                  Some KHousehold \<Rightarrow> if sd_householdId d \<noteq> Some hh then Some (ForeignSpace i) else None
                | Some KCollaboration \<Rightarrow>
                    map_option (NotAMember i) (find (\<lambda>u. \<not> sp_isMember i u (the (ae_spaces env))) delivery)
                | None \<Rightarrow> None))
      | None \<Rightarrow>
          (case truthy (so_user_id so) of None \<Rightarrow> None
           | Some u \<Rightarrow> if hs_getHouseholdForUser u hs \<noteq> Some hh then Some (ForeignSource u) else None))"

definition authorizeAction :: "household_service \<Rightarrow> string \<Rightarrow> alert_action \<Rightarrow> alert_problem option" where
  "authorizeAction hs hh x =
     (case x of
        WriteData c \<Rightarrow>
          if hs_getHouseholdForUser (wc_user_id c) hs \<noteq> Some hh then Some (ForeignTarget (wc_user_id c)) else None
      | DispatchMessage t u \<Rightarrow> if hs_getHouseholdForUser u hs \<noteq> Some hh then Some (ForeignTarget u) else None
      | _ \<Rightarrow> None)"

fun first_problem :: "alert_problem option list \<Rightarrow> alert_problem option" where
  "first_problem [] = None"
| "first_problem (None # ps) = first_problem ps"
| "first_problem (Some p # ps) = Some p"

definition authorizeAlertScope :: "alert_env \<Rightarrow> alert \<Rightarrow> alert_problem + string option" where
  "authorizeAlertScope env a =
     (case ex_households (ae_exec env) of
        None \<Rightarrow> Inr None
      | Some hs \<Rightarrow>
          if al_delivery a = [] then Inr None
          else case find (\<lambda>u. hs_getHouseholdForUser u hs = None) (al_delivery a) of
            Some u \<Rightarrow> Inl (NoHouseholdFor u)
          | None \<Rightarrow>
              (let hhs = remdups (map (\<lambda>u. the (hs_getHouseholdForUser u hs)) (al_delivery a)); hh = hd hhs
               in if 1 < length hhs then Inl SpansHouseholds
                  else case first_problem
                      (map (authorizeDataSource env hs hh (al_delivery a))
                         (case al_condition a of None \<Rightarrow> [] | Some c \<Rightarrow> cn_data_sources c) @
                       map (authorizeAction hs hh) (al_actions a)) of
                    Some p \<Rightarrow> Inl p
                  | None \<Rightarrow> Inr (Some hh)))"

section \<open>Data and condition\<close>

definition space_view :: "alert_env \<Rightarrow> (string \<Rightarrow> (string \<times> string option) option) option" where
  "space_view env =
     (if ae_spaces env = None then None
      else Some (\<lambda>i. map_option (\<lambda>d. (case sd_kind d of None \<Rightarrow> [] | Some KHousehold \<Rightarrow> ''household''
             | Some KCollaboration \<Rightarrow> ''collaboration'', sd_householdId d)) (find_space env i)))"

definition source_dir :: "alert_env \<Rightarrow> string option \<Rightarrow> alert_source \<Rightarrow> path_error + string" where
  "source_dir env hh so =
     resolveScopedDataDir (ex_cwd (ae_exec env))
       \<lparr>dd_dataDir = (case ex_dataDir (ae_exec env) of None \<Rightarrow> [] | Some d \<Rightarrow> d), dd_appId = so_app_id so,
        dd_userId = so_user_id so, dd_spaceId = so_space_id so,
        dd_householdId = map_option Some hh, dd_getSpace = space_view env\<rparr>"

text \<open>Of the regular files that can be examined the one modified last, the earlier listed one among equals.\<close>

fun newest :: "(string \<times> bool \<times> time option \<times> string) list \<Rightarrow> (time \<times> string) option \<Rightarrow> (time \<times> string) option" where
  "newest [] best = best"
| "newest ((n, regular, mtime, content) # fs) best =
     newest fs
       (case (regular, mtime) of
          (True, Some t) \<Rightarrow> (case best of None \<Rightarrow> Some (t, content) | Some (b, c) \<Rightarrow> if b < t then Some (t, content) else best)
        | _ \<Rightarrow> best)"

definition readMostRecentFile :: "(string \<times> bool \<times> time option \<times> string) list \<Rightarrow> string" where
  "readMostRecentFile fs = (case newest fs None of None \<Rightarrow> [] | Some (_, c) \<Rightarrow> stripFrontmatter c)"

text \<open>What one source contributes; \<open>Some None\<close> is a path that is skipped.\<close>

definition source_path :: "alert_env \<Rightarrow> alert_source \<Rightarrow> string \<Rightarrow> string" where
  "source_path env so base =
     node_resolve (ex_cwd (ae_exec env))
       [node_join [base, resolveDateTokens (ex_today (ae_exec env)) (ex_yesterday (ae_exec env)) (so_path so)]]"

definition read_source :: "alert_env \<Rightarrow> string option \<Rightarrow> alert_source \<Rightarrow> alert_problem + (string \<times> string) option" where
  "read_source env hh so =
     (case source_dir env hh so of
        Inl e \<Rightarrow> Inl (BadDirectory e)
      | Inr base \<Rightarrow>
          (let full = source_path env so base
           in if \<not> starts_with (base @ ''/'') full then Inr None
              else case ae_read env full of
                     NoSuchFile \<Rightarrow> Inr (Some (full, []))
                   | Unreadable \<Rightarrow> Inl ReadFailed
                   | FileText t \<Rightarrow> Inr (Some (full, stripFrontmatter t))
                   | Directory fs \<Rightarrow> Inr (Some (full, readMostRecentFile fs))))"

text \<open>The paths that were read, and the data.\<close>

fun readDataSources :: "alert_env \<Rightarrow> string option \<Rightarrow> alert_source list \<Rightarrow> alert_problem + (string \<times> string) list" where
  "readDataSources env hh [] = Inr []"
| "readDataSources env hh (so # ss) =
     (case read_source env hh so of
        Inl p \<Rightarrow> Inl p
      | Inr r \<Rightarrow>
          (case readDataSources env hh ss of
             Inl p \<Rightarrow> Inl p
           | Inr rest \<Rightarrow> Inr ((case r of None \<Rightarrow> [] | Some x \<Rightarrow> [x]) @ rest)))"

definition data_of :: "(string \<times> string) list \<Rightarrow> string" where
  "data_of reads = join ([NL] @ ''---'' @ [NL]) (map snd reads)"

definition checkCondition :: "alert_env \<Rightarrow> alert_condition \<Rightarrow> string \<Rightarrow> bool option" where
  "checkCondition env c data =
     (if cn_type c = ''fuzzy'' then evaluateFuzzy (ae_fuzzy env) else Some (evaluateDeterministic (cn_expression c) data))"

section \<open>Evaluation\<close>

text \<open>The check: either the answer is known, or the alert is to be fired with the data that was read.\<close>

datatype checked = Answer evaluation | Fire alert "(string \<times> string) list"

definition last_fired :: "alert_env \<Rightarrow> alert \<Rightarrow> fired" where
  "last_fired env a = (case truthy (al_lastFired a) of None \<Rightarrow> NeverFired | Some s \<Rightarrow> ae_date_of env s)"

definition evaluate_check :: "alert_env \<Rightarrow> time \<Rightarrow> bool \<Rightarrow> string \<Rightarrow> alert_world \<Rightarrow> checked" where
  "evaluate_check env now preview i w =
     (case getAlert i w of
        None \<Rightarrow> Answer (no_evaluation (Some AlertNotFound))
      | Some a \<Rightarrow>
          if alert_errors env a \<noteq> [] then Answer (no_evaluation (Some HasValidationErrors))
          else case authorizeAlertScope env a of
            Inl p \<Rightarrow> Answer (no_evaluation (Some p))
          | Inr hh \<Rightarrow>
              (case readDataSources env hh (cn_data_sources (the (al_condition a))) of
                 Inl p \<Rightarrow> Answer (no_evaluation (Some p))
               | Inr reads \<Rightarrow>
                   (case checkCondition env (the (al_condition a)) (data_of reads) of
                      None \<Rightarrow> Answer (no_evaluation (Some ConditionThrew))
                    | Some False \<Rightarrow> Answer (no_evaluation None)
                    | Some True \<Rightarrow>
                        if preview \<or> \<not> canFire (last_fired env a) (parseCooldown (al_cooldown a)) now
                        then Answer ((no_evaluation None)\<lparr>ev_conditionMet := True\<rparr>)
                        else Fire a reads)))"

definition updateLastFired :: "alert_env \<Rightarrow> time \<Rightarrow> alert \<Rightarrow> alert_world \<Rightarrow> alert_world" where
  "updateLastFired env t a w =
     (case map_of (aw_files w) (al_id a) of
        Some (AlertDef c) \<Rightarrow>
          if ae_disk env then w\<lparr>aw_files := set_key (al_id a) (AlertDef (c\<lparr>al_lastFired := Some (iso_string t)\<rparr>)) (aw_files w)\<rparr> else w
      | _ \<Rightarrow> w)"

definition history_file :: "time \<Rightarrow> string \<Rightarrow> string" where
  "history_file t i =
     i @ ''/'' @ take 10 (iso_string t) @ ''_'' @
     map (\<lambda>c. if c = CHR '':'' \<or> c = CHR ''.'' then CHR ''-'' else c) (take 12 (drop 11 (iso_string t))) @ ''.md''"

definition history_text :: "time \<Rightarrow> string \<Rightarrow> nat \<Rightarrow> string" where
  "history_text t i n =
     generateFrontmatter
       [(''title'', FmText (''Alert: '' @ i)), (''date'', FmText (take 10 (iso_string t))), (''created'', FmText (iso_string t)),
        (''tags'', FmList [''pas/alert'', ''pas/alert/'' @ i]), (''type'', FmText ''alert''), (''source'', FmText ''pas-alerts'')] @
     join [NL] [''# Alert: '' @ i, ''**Fired at:** '' @ iso_string t, ''**Condition met:** true'', ''**Actions triggered:** true'',
       ''**Actions executed:** '' @ dec n]"

text \<open>Only the result of a firing is saved: condition met, actions triggered, \<open>n\<close> executed and no error.\<close>

definition saveToHistory :: "alert_env \<Rightarrow> time \<Rightarrow> string \<Rightarrow> nat \<Rightarrow> alert_world \<Rightarrow> alert_world" where
  "saveToHistory env t i n w =
     (if ae_disk env then w\<lparr>aw_history := set_key (history_file t i) (history_text t i n) (aw_history w)\<rparr> else w)"

definition evaluate_fire ::
  "alert_env \<Rightarrow> time \<Rightarrow> string \<Rightarrow> alert \<Rightarrow> (string \<times> string) list \<Rightarrow> alert_world \<Rightarrow> evaluation \<times> alert_effect list \<times> alert_world" where
  "evaluate_fire env later i a reads w =
     (let (es, ok, _) = executeActions (ae_exec env) (al_actions a) (al_delivery a) (data_of reads) (al_name a)
      in (\<lparr>ev_conditionMet = True, ev_actionTriggered = True, ev_actionsExecuted = ok, ev_error = None\<rparr>,
          es @ (if ae_bus env then [EmittedFired i ok] else []), saveToHistory env later i ok (updateLastFired env later a w)))"

definition al_evaluate ::
  "alert_env \<Rightarrow> time \<Rightarrow> time \<Rightarrow> bool \<Rightarrow> string \<Rightarrow> alert_world \<Rightarrow> evaluation \<times> alert_effect list \<times> alert_world" where
  "al_evaluate env now later preview i w =
     (case evaluate_check env now preview i w of
        Answer r \<Rightarrow> (r, [], w)
      | Fire a reads \<Rightarrow> evaluate_fire env later i a reads w)"

section \<open>Triggers follow the files\<close>

text \<open>The trigger an alert should have.\<close>

definition trigger_for :: "alert_env \<Rightarrow> alert \<Rightarrow> effective_trigger option" where
  "trigger_for env a =
     (if al_enabled a \<and> alert_errors env a = []
      then (case getEffectiveTrigger a of OnEvent e \<Rightarrow> if ae_bus env then Some (OnEvent e) else None | t \<Rightarrow> Some t) else None)"

fun sched_part :: "effective_trigger option \<Rightarrow> string option" where
  "sched_part (Some (Scheduled s)) = Some s"
| "sched_part _ = None"

fun event_part :: "effective_trigger option \<Rightarrow> string option" where
  "event_part (Some (OnEvent e)) = Some e"
| "event_part _ = None"

text \<open>Alert \<open>i\<close> has exactly the trigger \<open>t\<close>: one cron job or one handler at the bus, or neither.\<close>

definition armed :: "alert_world \<Rightarrow> string \<Rightarrow> effective_trigger option \<Rightarrow> bool" where
  "armed w i t \<longleftrightarrow>
     map_option cj_cron (map_of (cw_jobs (aw_crons w)) (job_key CRON_KEY_PREFIX i)) = sched_part t \<and>
     map_of (aw_subs w) i = event_part t \<and>
     (\<forall>e. count (mset (aw_handlers w)) (e, i) = (if event_part t = Some e then 1 else 0))"

definition wanted :: "alert_env \<Rightarrow> alert_world \<Rightarrow> string \<Rightarrow> effective_trigger option" where
  "wanted env w i = (case map_of (aw_files w) i of Some (AlertDef a) \<Rightarrow> trigger_for env a | _ \<Rightarrow> None)"

definition triggers_match :: "alert_env \<Rightarrow> alert_world \<Rightarrow> bool" where
  "triggers_match env w \<longleftrightarrow>
     distinct (keys (aw_files w)) \<and>
     (\<forall>i a. map_of (aw_files w) i = Some (AlertDef a) \<longrightarrow> al_id a = i) \<and>
     (\<forall>i. armed w i (wanted env w i))"

lemma job_key_inj [simp]: "job_key CRON_KEY_PREFIX i = job_key CRON_KEY_PREFIX j \<longleftrightarrow> i = j"
  by (simp add: job_key_def)

lemma cj_key_cron_of [simp]: "cj_key (cron_of a s) = job_key CRON_KEY_PREFIX (al_id a)"
  by (simp add: cj_key_def cron_of_def)

lemma cj_cron_cron_of [simp]: "cj_cron (cron_of a s) = s"
  by (simp add: cron_of_def)

lemma valid_trigger:
  assumes "alert_errors env a = []"
  shows "getEffectiveTrigger a = Scheduled s \<Longrightarrow> ae_valid_cron env s"
proof -
  assume t: "getEffectiveTrigger a = Scheduled s"
  have e: "is_event a \<Longrightarrow> event_name_pattern (trim (tg_event_name (the (al_trigger a))))"
    and c: "\<not> is_event a \<Longrightarrow> ae_valid_cron env (schedule_of a)"
    using assms by (auto simp: alert_errors_def validateAlert_def check_field_def split: if_splits)
  have "trim [] = []" by (simp add: trim_def)
  then have "is_event a \<Longrightarrow> tg_event_name (the (al_trigger a)) \<noteq> []" using e by (auto simp: event_name_pattern_def)
  then show ?thesis using t c by (auto simp: getEffectiveTrigger_def split: if_splits)
qed

lemma register_files [simp]:
  "aw_files (registerTrigger env a w) = aw_files w" "aw_files (unregisterTrigger env i w) = aw_files w"
  "aw_files (syncTrigger env a w) = aw_files w"
proof -
  show r: "aw_files (registerTrigger env a w) = aw_files w" for a w
    by (simp add: registerTrigger_def subscribeEvent_def split: effective_trigger.splits)
  show u: "aw_files (unregisterTrigger env i w) = aw_files w" for i w
    by (simp add: unregisterTrigger_def unsubscribeEvent_def split: option.splits)
  show "aw_files (syncTrigger env a w) = aw_files w" by (simp add: syncTrigger_def Let_def r u)
qed

lemma register_armed:
  assumes "armed w (al_id a) None" "al_enabled a" "alert_errors env a = []"
  shows "armed (registerTrigger env a w) (al_id a) (trigger_for env a)"
proof (cases "getEffectiveTrigger a")
  case (Scheduled s)
  then show ?thesis
    using assms valid_trigger [OF assms(3) Scheduled]
    by (auto simp: armed_def registerTrigger_def trigger_for_def cm_register_def)
next
  case (OnEvent e)
  then show ?thesis
    using assms by (auto simp: armed_def registerTrigger_def trigger_for_def subscribeEvent_def)
qed

lemma register_frame: "i \<noteq> al_id a \<Longrightarrow> armed (registerTrigger env a w) i t = armed w i t"
  by (auto simp: armed_def registerTrigger_def subscribeEvent_def cm_register_def split: effective_trigger.splits)

lemma persist_jobs [simp]: "cw_jobs (cm_persistLastRunData ok w) = cw_jobs w"
  by (simp add: cm_persistLastRunData_def)

lemma unregister_jobs:
  "map_of (cw_jobs (snd (cm_unregister ok k w))) k' = (if k' = k then None else map_of (cw_jobs w) k')"
  by (auto simp: cm_unregister_def)

lemma unregister_armed:
  assumes "armed w i t" "\<not> ae_bus env \<Longrightarrow> event_part t = None"
  shows "armed (unregisterTrigger env i w) i None"
proof (cases "event_part t")
  case None
  then show ?thesis
    using assms by (auto simp: armed_def unregisterTrigger_def unsubscribeEvent_def unregister_jobs)
next
  case (Some e)
  then have "ae_bus env" using assms(2) by auto
  then show ?thesis
    using assms(1) Some by (auto simp: armed_def unregisterTrigger_def unsubscribeEvent_def unregister_jobs)
qed

lemma unregister_frame: "i \<noteq> j \<Longrightarrow> armed (unregisterTrigger env j w) i t = armed w i t"
  by (auto simp: armed_def unregisterTrigger_def unsubscribeEvent_def unregister_jobs split: option.splits)

text \<open>Environments that judge alerts alike: users, cron expressions and the bus are the same.\<close>

definition same_judge :: "alert_env \<Rightarrow> alert_env \<Rightarrow> bool" where
  "same_judge e f \<longleftrightarrow> ae_users f = ae_users e \<and> ae_valid_cron f = ae_valid_cron e \<and> ae_bus f = ae_bus e"

lemma same_judge_trigger: "same_judge e f \<Longrightarrow> trigger_for f a = trigger_for e a"
  by (simp add: same_judge_def trigger_for_def alert_errors_def cong: effective_trigger.case_cong)

lemma alert_frame [simp]:
  "is_event (a\<lparr>al_updatedAt := x\<rparr>) = is_event a" "is_event (a\<lparr>al_lastFired := y\<rparr>) = is_event a"
  "schedule_of (a\<lparr>al_updatedAt := x\<rparr>) = schedule_of a" "schedule_of (a\<lparr>al_lastFired := y\<rparr>) = schedule_of a"
  by (simp_all add: is_event_def schedule_of_def cong: option.case_cong)

lemma alert_errors_frame [simp]:
  "alert_errors env (a\<lparr>al_updatedAt := x\<rparr>) = alert_errors env a" "alert_errors env (a\<lparr>al_lastFired := y\<rparr>) = alert_errors env a"
  by (simp_all add: alert_errors_def validateAlert_def)

lemma trigger_for_frame [simp]:
  "trigger_for env (a\<lparr>al_updatedAt := x\<rparr>) = trigger_for env a" "trigger_for env (a\<lparr>al_lastFired := y\<rparr>) = trigger_for env a"
  by (simp_all add: trigger_for_def getEffectiveTrigger_def)

lemma no_bus_no_event: "\<not> ae_bus env \<Longrightarrow> event_part (trigger_for env a) = None"
  by (simp add: trigger_for_def split: effective_trigger.splits)

lemma sync_armed:
  assumes "armed w (al_id a) t" "\<not> ae_bus env \<Longrightarrow> event_part t = None" "alert_errors env a = []"
  shows "armed (syncTrigger env a w) (al_id a) (trigger_for env a)"
proof -
  note off = unregister_armed [OF assms(1,2)]
  show ?thesis
  proof (cases "al_enabled a")
    case True
    then show ?thesis using register_armed [OF off True assms(3)] by (simp add: syncTrigger_def Let_def)
  next
    case False
    then show ?thesis using off by (simp add: syncTrigger_def Let_def trigger_for_def)
  qed
qed

lemma sync_frame: "i \<noteq> al_id a \<Longrightarrow> armed (syncTrigger env a w) i t = armed w i t"
  by (simp add: syncTrigger_def Let_def register_frame unregister_frame)

lemma armed_files [simp]: "armed (w\<lparr>aw_files := f\<rparr>) i t = armed w i t" "armed (w\<lparr>aw_history := h\<rparr>) i t = armed w i t"
  by (simp_all add: armed_def)

lemma matchD:
  assumes "triggers_match env w"
  shows "armed w i (wanted env w i)"
    "\<not> ae_bus env \<Longrightarrow> event_part (wanted env w i) = None"
    "map_of (aw_files w) i = Some (AlertDef a) \<Longrightarrow> al_id a = i"
proof -
  show "armed w i (wanted env w i)"
    using assms unfolding triggers_match_def by blast
  show "\<not> ae_bus env \<Longrightarrow> event_part (wanted env w i) = None"
    using no_bus_no_event by (auto simp: wanted_def split: option.splits alert_file.splits)
  show "map_of (aw_files w) i = Some (AlertDef a) \<Longrightarrow> al_id a = i"
    using assms unfolding triggers_match_def by blast
qed

lemma match_set:
  assumes "triggers_match env w" "al_id a = i"
    and "armed w' i (trigger_for env a)" "\<And>j t. j \<noteq> i \<Longrightarrow> armed w' j t = armed w j t"
    and "aw_files w' = set_key i (AlertDef a) (aw_files w)"
  shows "triggers_match env w'"
  using assms unfolding triggers_match_def by (simp add: wanted_def)

lemma save_match:
  assumes "triggers_match env w" "saveAlert env now a w = (r, w')"
  shows "triggers_match env w'"
proof (cases "r = Saved")
  case True
  define a' where "a' = a\<lparr>al_updatedAt := Some (iso_string now)\<rparr>"
  define w1 where "w1 = w\<lparr>aw_files := set_key (al_id a) (AlertDef a') (aw_files w)\<rparr>"
  have w': "w' = syncTrigger env a' w1" and valid: "alert_errors env a = []"
    using assms(2) True by (auto simp: saveAlert_def Let_def a'_def w1_def split: if_splits)
  have v': "alert_errors env a' = []" and i': "al_id a' = al_id a"
    using valid by (simp_all add: a'_def)
  define t where "t = wanted env w (al_id a)"
  have "armed w1 (al_id a') t" "\<not> ae_bus env \<Longrightarrow> event_part t = None"
    using matchD(1,2) [OF assms(1), of "al_id a"] i' by (simp_all add: w1_def t_def)
  from sync_armed [OF this v'] have "armed w' (al_id a) (trigger_for env a')" using i' by (simp add: w')
  moreover have "armed w' j s = armed w j s" if "j \<noteq> al_id a" for j s
    using sync_frame [of j a' env w1 s] that i' by (simp add: w' w1_def)
  moreover have "aw_files w' = set_key (al_id a) (AlertDef a') (aw_files w)" by (simp add: w' w1_def)
  ultimately show ?thesis using match_set [OF assms(1) i'] by blast
next
  case False
  then have "w' = w" using assms(2) by (auto simp: saveAlert_def Let_def split: if_splits)
  then show ?thesis using assms(1) by simp
qed

lemma delete_match:
  assumes "triggers_match env w" "deleteAlert env i w = (r, w')"
  shows "triggers_match env w'"
proof (cases "r = Some True")
  case True
  define w1 where "w1 = w\<lparr>aw_files := del_key i (aw_files w)\<rparr>"
  have w': "w' = unregisterTrigger env i w1"
    using assms(2) True by (auto simp: deleteAlert_def w1_def split: if_splits)
  define t where "t = wanted env w i"
  have "armed w1 i t" "\<not> ae_bus env \<Longrightarrow> event_part t = None"
    using matchD(1,2) [OF assms(1), of i] by (simp_all add: w1_def t_def)
  from unregister_armed [OF this] have off: "armed w' i None" by (simp add: w')
  have frame: "armed w' j s = armed w j s" if "j \<noteq> i" for j s
    using unregister_frame [OF that, of env w1 s] by (simp add: w' w1_def)
  have files: "aw_files w' = del_key i (aw_files w)" by (simp add: w' w1_def)
  show ?thesis
    using assms(1) off frame unfolding triggers_match_def by (auto simp: distinct_delete wanted_def files)
next
  case False
  then have "w' = w" using assms(2) by (auto simp: deleteAlert_def split: if_splits)
  then show ?thesis using assms(1) by simp
qed

lemma update_match:
  assumes "triggers_match env w"
  shows "triggers_match env (updateLastFired env' t a w)"
proof (cases "\<exists>c. map_of (aw_files w) (al_id a) = Some (AlertDef c) \<and> ae_disk env'")
  case True
  then obtain c where c: "map_of (aw_files w) (al_id a) = Some (AlertDef c)" "ae_disk env'" by blast
  have i: "al_id c = al_id a" using matchD(3) [OF assms c(1)] .
  have "armed w (al_id a) (trigger_for env (c\<lparr>al_lastFired := Some (iso_string t)\<rparr>))"
    using matchD(1) [OF assms, of "al_id a"] c(1) by (simp add: wanted_def)
  then show ?thesis
    using match_set [OF assms, of "c\<lparr>al_lastFired := Some (iso_string t)\<rparr>" "al_id a" "updateLastFired env' t a w"] c i
    by (simp add: updateLastFired_def)
next
  case False
  then have "updateLastFired env' t a w = w" by (auto simp: updateLastFired_def split: option.splits alert_file.splits)
  then show ?thesis using assms by simp
qed

lemma history_match: "triggers_match env (saveToHistory env' t i n w) = triggers_match env w"
  by (simp add: saveToHistory_def triggers_match_def wanted_def)

lemma evaluate_match:
  "triggers_match env w \<Longrightarrow> al_evaluate env' now later pv i w = (r, es, w') \<Longrightarrow> triggers_match env w'"
  by (auto simp: al_evaluate_def evaluate_fire_def history_match update_match Let_def split: checked.splits prod.splits)

text \<open>The start: no trigger is registered yet.\<close>

definition fresh_start :: "alert_world \<Rightarrow> bool" where
  "fresh_start w \<longleftrightarrow>
     distinct (keys (aw_files w)) \<and>
     (\<forall>i a. map_of (aw_files w) i = Some (AlertDef a) \<longrightarrow> al_id a = i) \<and>
     (\<forall>i. armed w i None)"


definition start_trigger :: "alert_env \<Rightarrow> alert \<Rightarrow> alert_world \<Rightarrow> alert_world" where
  "start_trigger env a w = (if al_enabled a \<and> alert_errors env a = [] then registerTrigger env a w else w)"

lemma start_trigger_armed: "armed w (al_id a) None \<Longrightarrow> armed (start_trigger env a w) (al_id a) (trigger_for env a)"
  using register_armed by (auto simp: start_trigger_def trigger_for_def)

lemma start_trigger_frame: "i \<noteq> al_id a \<Longrightarrow> armed (start_trigger env a w) i t = armed w i t"
  by (simp add: start_trigger_def register_frame)

lemma start_all:
  "distinct (map al_id as) \<Longrightarrow> \<forall>a \<in> set as. armed w (al_id a) None \<Longrightarrow>
   (\<forall>a \<in> set as. armed (fold (start_trigger env) as w) (al_id a) (trigger_for env a)) \<and>
   (\<forall>i t. i \<notin> al_id ` set as \<longrightarrow> armed (fold (start_trigger env) as w) i t = armed w i t) \<and>
   aw_files (fold (start_trigger env) as w) = aw_files w"
proof (induction as arbitrary: w)
  case (Cons a as)
  define w1 where "w1 = start_trigger env a w"
  have "armed w1 (al_id b) None" if "b \<in> set as" for b
  proof -
    have "al_id b \<in> al_id ` set as" using that by simp
    then have "al_id b \<noteq> al_id a" "armed w (al_id b) None" using Cons.prems that by (metis distinct.simps(2) list.simps(9) set_map, simp)
    then show ?thesis using start_trigger_frame by (simp add: w1_def)
  qed
  then have "\<forall>b \<in> set as. armed w1 (al_id b) None" by blast
  note IH = Cons.IH [OF _ this]
  have a: "armed w1 (al_id a) (trigger_for env a)" using start_trigger_armed Cons.prems(2) by (simp add: w1_def)
  have fr: "i \<noteq> al_id a \<Longrightarrow> armed w1 i t = armed w i t" for i t using start_trigger_frame by (simp add: w1_def)
  have fi: "aw_files w1 = aw_files w" by (simp add: w1_def start_trigger_def)
  show ?case using IH Cons.prems(1) a fr fi by (auto simp: w1_def [symmetric])
qed simp

lemma alerts_in_mem: "a \<in> set (alerts_in fs) \<longleftrightarrow> al_id a \<noteq> [] \<and> (\<exists>k. (k, AlertDef a) \<in> set fs)"
  by (induction fs rule: alerts_in.induct) auto

lemma alerts_in_ids:
  "\<forall>(k, f) \<in> set fs. \<forall>a. f = AlertDef a \<longrightarrow> al_id a = k \<Longrightarrow> distinct (map fst fs) \<Longrightarrow> distinct (map al_id (alerts_in fs))"
proof (induction fs rule: alerts_in.induct)
  case (2 k a fs)
  have "al_id b \<noteq> al_id a" if "b \<in> set (alerts_in fs)" for b
  proof -
    have "\<exists>m. (m, AlertDef b) \<in> set fs" using that by (simp add: alerts_in_mem)
    then obtain m where "(m, AlertDef b) \<in> set fs" by blast
    moreover from this have "al_id b = m" using "2.prems"(1) by auto
    moreover have "al_id a = k" "k \<notin> fst ` set fs" using "2.prems" by auto
    ultimately show ?thesis by force
  qed
  then have "al_id a \<notin> al_id ` set (alerts_in fs)" by (metis imageE)
  then show ?case using 2 by simp
qed auto

lemma init_match:
  assumes "fresh_start w"
  shows "triggers_match env (al_init env w)"
proof -
  define as where "as = listAlerts w"
  have init: "al_init env w = fold (start_trigger env) as w"
    by (simp add: al_init_def as_def start_trigger_def [abs_def])
  have d: "distinct (keys (aw_files w))"
    and ids: "\<And>i a. map_of (aw_files w) i = Some (AlertDef a) \<Longrightarrow> al_id a = i"
    and none: "\<And>i. armed w i None"
    using assms by (auto simp: fresh_start_def split: alert_file.splits)
  have ids': "\<forall>(k, f) \<in> set (aw_files w). \<forall>a. f = AlertDef a \<longrightarrow> al_id a = k"
    using ids d by (auto simp: map_of_eq_Some_iff)
  have mem: "a \<in> set as \<longleftrightarrow> al_id a \<noteq> [] \<and> map_of (aw_files w) (al_id a) = Some (AlertDef a)" for a
  proof -
    have "a \<in> set as \<longleftrightarrow> al_id a \<noteq> [] \<and> (\<exists>k. (k, AlertDef a) \<in> set (aw_files w))"
      by (simp add: as_def listAlerts_def alerts_in_mem)
    then show ?thesis using ids' d by (auto simp: map_of_eq_Some_iff)
  qed
  have "distinct (map al_id as)" using alerts_in_ids [OF ids' d] by (simp add: as_def listAlerts_def)
  note all = start_all [OF this, of w env]
  have on: "\<And>a. a \<in> set as \<Longrightarrow> armed (al_init env w) (al_id a) (trigger_for env a)"
    and off: "\<And>i t. i \<notin> al_id ` set as \<Longrightarrow> armed (al_init env w) i t = armed w i t"
    and files: "aw_files (al_init env w) = aw_files w"
    using all none unfolding init by auto
  have "armed (al_init env w) i (wanted env w i)" for i
  proof (cases "i \<in> al_id ` set as")
    case True
    then obtain a where "a \<in> set as" "i = al_id a" by blast
    then show ?thesis using on mem by (simp add: wanted_def)
  next
    case False
    have bad: "trigger_for env a = None" if "al_id a = []" for a
      using that by (simp add: trigger_for_def alert_errors_def validateAlert_def)
    have "wanted env w i = None"
    proof (cases "map_of (aw_files w) i")
      case (Some f)
      show ?thesis
      proof (cases f)
        case (AlertDef a)
        then have "al_id a = i" using ids Some by blast
        then have "al_id a = []" using False mem [of a] Some AlertDef by force
        then show ?thesis using Some AlertDef bad by (simp add: wanted_def)
      qed (simp_all add: Some wanted_def)
    qed (simp add: wanted_def)
    then show ?thesis using off [OF False] none by simp
  qed
  then show ?thesis using assms files by (simp add: triggers_match_def fresh_start_def wanted_def)
qed

section \<open>Runs\<close>

datatype alert_op =
    Save alert_env time alert
  | Delete alert_env string
  | Evaluate alert_env time time bool string

fun judge :: "alert_op \<Rightarrow> alert_env" where
  "judge (Save e _ _) = e"
| "judge (Delete e _) = e"
| "judge (Evaluate e _ _ _ _) = e"

fun alert_step :: "alert_op \<Rightarrow> alert_world \<Rightarrow> alert_world" where
  "alert_step (Save e t a) w = snd (saveAlert e t a w)"
| "alert_step (Delete e i) w = snd (deleteAlert e i w)"
| "alert_step (Evaluate e n l p i) w = snd (snd (al_evaluate e n l p i w))"

lemma same_judge_match: "same_judge e f \<Longrightarrow> triggers_match f w = triggers_match e w"
proof -
  assume "same_judge e f"
  then have "wanted f w i = wanted e w i" for i
    using same_judge_trigger [of e f] by (simp add: wanted_def split: option.splits alert_file.splits)
  then show ?thesis by (simp add: triggers_match_def)
qed

lemma step_match:
  assumes "triggers_match env w" "same_judge env (judge x)"
  shows "triggers_match env (alert_step x w)"
proof -
  have m: "triggers_match (judge x) w" using assms same_judge_match by blast
  have "triggers_match (judge x) (alert_step x w)"
  proof (cases x)
    case (Save e t a)
    then show ?thesis using save_match [of e w t a] m by (metis alert_step.simps(1) judge.simps(1) prod.collapse)
  next
    case (Delete e i)
    then show ?thesis using delete_match [of e w i] m by (metis alert_step.simps(2) judge.simps(2) prod.collapse)
  next
    case (Evaluate e n l p i)
    then show ?thesis using evaluate_match [of e w e n l p i] m by (metis alert_step.simps(3) judge.simps(3) prod.collapse)
  qed
  then show ?thesis using assms(2) same_judge_match by blast
qed

lemma run_match:
  "triggers_match env w \<Longrightarrow> \<forall>x \<in> set ops. same_judge env (judge x) \<Longrightarrow> triggers_match env (fold alert_step ops w)"
  by (induction ops arbitrary: w) (simp_all add: step_match)

section \<open>Cooldowns\<close>

type_synonym evaluation_call = "alert_env \<times> time \<times> time \<times> bool \<times> string"

text \<open>The alerts fired by evaluations that are awaited one after the other, with the times of check and firing.\<close>

fun firings :: "evaluation_call list \<Rightarrow> alert_world \<Rightarrow> (string \<times> time \<times> time) list" where
  "firings [] w = []"
| "firings ((env, now, later, pv, i) # cs) w =
     (let (r, _, w') = al_evaluate env now later pv i w
      in if ev_actionTriggered r then (i, now, later) # firings cs w' else firings cs w')"

text \<open>Time does not run backwards, files can be written, and the dates written here are read back.\<close>

fun paced :: "time set \<Rightarrow> time \<Rightarrow> evaluation_call list \<Rightarrow> bool" where
  "paced D t [] = True"
| "paced D t ((env, now, later, pv, i) # cs) =
     (t \<le> now \<and> now \<le> later \<and> later \<in> D \<and> ae_disk env \<and> (\<forall>d \<in> D. ae_date_of env (iso_string d) = FiredAt d) \<and>
      paced D later cs)"

definition kept_apart :: "time \<Rightarrow> (time \<times> time) list \<Rightarrow> bool" where
  "kept_apart cd fs \<longleftrightarrow> sorted_wrt (\<lambda>(n, l) (n', l'). l + cd \<le> n') fs"

definition firings_of :: "string \<Rightarrow> (string \<times> time \<times> time) list \<Rightarrow> (time \<times> time) list" where
  "firings_of i fs = map snd (filter (\<lambda>f. fst f = i) fs)"

text \<open>What the file of alert \<open>i\<close> says at time \<open>t\<close>, when the last firing that counts was at \<open>since\<close>.\<close>

definition remembers :: "time set \<Rightarrow> string \<Rightarrow> time \<Rightarrow> time option \<Rightarrow> time \<Rightarrow> alert_world \<Rightarrow> bool" where
  "remembers D i cd since t w \<longleftrightarrow>
     (\<exists>a. map_of (aw_files w) i = Some (AlertDef a) \<and> al_id a = i \<and> parseCooldown (al_cooldown a) = cd \<and>
       (case since of None \<Rightarrow> True
        | Some s \<Rightarrow> s \<le> t \<and> (\<exists>d \<in> D. al_lastFired a = Some (iso_string d) \<and> s \<le> d)))"

lemma fire_when_ready:
  assumes "evaluate_check env now pv i w = Fire a reads"
  shows "getAlert i w = Some a" "canFire (last_fired env a) (parseCooldown (al_cooldown a)) now" "alert_errors env a = []"
    "\<exists>hh. authorizeAlertScope env a = Inr hh \<and> readDataSources env hh (cn_data_sources (the (al_condition a))) = Inr reads"
  using assms by (auto simp: evaluate_check_def split: option.splits sum.splits bool.splits if_splits)

lemma getAlert_file: "getAlert i w = Some a \<Longrightarrow> map_of (aw_files w) i = Some (AlertDef a)"
  by (auto simp: getAlert_def split: if_splits option.splits alert_file.splits)

lemma remembers_update:
  assumes "remembers D i cd since t w" "t \<le> later" "later \<in> D" "ae_disk env"
  shows "remembers D i cd (if al_id a = i then Some later else since) later (updateLastFired env later a w)"
proof -
  obtain c where c: "map_of (aw_files w) i = Some (AlertDef c)" "al_id c = i" "parseCooldown (al_cooldown c) = cd"
      "case since of None \<Rightarrow> True | Some s \<Rightarrow> s \<le> t \<and> (\<exists>d \<in> D. al_lastFired c = Some (iso_string d) \<and> s \<le> d)"
    using assms(1) by (auto simp: remembers_def)
  show ?thesis
  proof (cases "al_id a = i")
    case True
    have "map_of (aw_files (updateLastFired env later a w)) i = Some (AlertDef (c\<lparr>al_lastFired := Some (iso_string later)\<rparr>))"
      using c(1) True assms(4) by (simp add: updateLastFired_def)
    then show ?thesis using c True assms(3) by (auto simp: remembers_def)
  next
    case False
    have "map_of (aw_files (updateLastFired env later a w)) i = Some (AlertDef c)"
      using c(1) False by (simp add: updateLastFired_def split: option.splits alert_file.splits)
    then show ?thesis using c False assms(2) by (auto simp: remembers_def split: option.splits)
  qed
qed

lemma remembers_history [simp]: "remembers D i cd since t (saveToHistory env l j n w) = remembers D i cd since t w"
  by (simp add: remembers_def saveToHistory_def)

lemma remembers_later: "remembers D i cd since t w \<Longrightarrow> t \<le> t' \<Longrightarrow> remembers D i cd since t' w"
  by (fastforce simp: remembers_def split: option.splits)

lemma ready_after_cooldown:
  assumes "remembers D i cd (Some s) t w" "getAlert i w = Some a" "canFire (last_fired env a) (parseCooldown (al_cooldown a)) now"
    "\<forall>d \<in> D. ae_date_of env (iso_string d) = FiredAt d"
  shows "s + cd \<le> now"
proof -
  obtain d where "d \<in> D" "al_lastFired a = Some (iso_string d)" "s \<le> d" "parseCooldown (al_cooldown a) = cd"
    using assms(1) getAlert_file [OF assms(2)] by (auto simp: remembers_def)
  then show ?thesis using assms(3,4) iso_string_visible(1) by (simp add: last_fired_def)
qed

lemma firings_spaced:
  assumes "paced D t cs" "remembers D i cd since t w"
  shows "kept_apart cd (firings_of i (firings cs w)) \<and>
    (\<forall>s. since = Some s \<longrightarrow> (\<forall>(n, l) \<in> set (firings_of i (firings cs w)). s + cd \<le> n))"
  using assms
proof (induction cs arbitrary: t since w)
  case Nil
  then show ?case by (simp add: firings_of_def kept_apart_def)
next
  case (Cons c cs)
  obtain env now later pv j where c: "c = (env, now, later, pv, j)" by (metis prod_cases5)
  have p: "t \<le> now" "now \<le> later" "later \<in> D" "ae_disk env" "\<forall>d \<in> D. ae_date_of env (iso_string d) = FiredAt d" "paced D later cs"
    using Cons.prems(1) by (simp_all add: c)
  show ?case
  proof (cases "evaluate_check env now pv j w")
    case (Answer r)
    have nt: "\<not> ev_actionTriggered r"
      using Answer by (auto simp: evaluate_check_def no_evaluation_def split: option.splits sum.splits bool.splits if_splits)
    have "remembers D i cd since later w" using remembers_later [OF Cons.prems(2)] p by simp
    from Cons.IH [OF p(6) this] show ?thesis using nt by (simp add: c al_evaluate_def Answer)
  next
    case (Fire a reads)
    define n where "n = fst (snd (executeActions (ae_exec env) (al_actions a) (al_delivery a) (data_of reads) (al_name a)))"
    define w' where "w' = saveToHistory env later j n (updateLastFired env later a w)"
    note ready = fire_when_ready [OF Fire]
    have run: "firings (c # cs) w = (j, now, later) # firings cs w'"
      by (simp add: c al_evaluate_def Fire evaluate_fire_def w'_def n_def Let_def split_def)
    have rem: "remembers D i cd (if al_id a = i then Some later else since) later w'"
      using remembers_update [OF Cons.prems(2) _ p(3,4), of a] p by (simp add: w'_def)
    note IH = Cons.IH [OF p(6) rem]
    have own: "al_id a = i" if "j = i"
      using getAlert_file [OF ready(1)] Cons.prems(2) that by (auto simp: remembers_def)
    have first: "s + cd \<le> now" if "j = i" "since = Some s" for s
      using ready_after_cooldown [OF Cons.prems(2) [unfolded that(2)] _ ready(2) p(5)] ready(1) that(1) by simp
    have past: "s + cd \<le> n" if "since = Some s" "(n, l) \<in> set (firings_of i (firings cs w'))" for s n l
    proof (cases "al_id a = i")
      case True
      have "s \<le> later" using Cons.prems(2) that(1) p by (auto simp: remembers_def)
      moreover have "later + cd \<le> n" using IH True that(2) by auto
      ultimately show ?thesis by simp
    next
      case False
      then show ?thesis using IH that by auto
    qed
    show ?thesis
    proof (cases "j = i")
      case True
      have "firings_of i (firings (c # cs) w) = (now, later) # firings_of i (firings cs w')"
        using True by (simp add: run firings_of_def)
      then show ?thesis using IH own [OF True] first [OF True] past by (auto simp: kept_apart_def)
    next
      case False
      have "firings_of i (firings (c # cs) w) = firings_of i (firings cs w')" using False by (simp add: run firings_of_def)
      then show ?thesis using IH past by auto
    qed
  qed
qed

section \<open>An alert stays in its household\<close>

definition data_root :: "alert_env \<Rightarrow> string" where
  "data_root env = (case ex_dataDir (ae_exec env) of None \<Rightarrow> [] | Some d \<Rightarrow> d)"

definition user_area :: "alert_env \<Rightarrow> string \<Rightarrow> string \<Rightarrow> string \<Rightarrow> string" where
  "user_area env hh u app = node_resolve (ex_cwd (ae_exec env)) [node_join [data_root env, ''households'', hh, ''users'', u, app]]"

definition below_dir :: "string \<Rightarrow> string \<Rightarrow> bool" where
  "below_dir base p \<longleftrightarrow> p = base \<or> starts_with (base @ ''/'') p"

text \<open>Whom an effect may reach, and where it may write.\<close>

fun kept_in :: "alert_env \<Rightarrow> household_service \<Rightarrow> string \<Rightarrow> alert \<Rightarrow> alert_effect \<Rightarrow> bool" where
  "kept_in env hs hh a (Sent u t) = (u \<in> set (al_delivery a))"
| "kept_in env hs hh a (Mirrored u t) = (u \<in> set (al_delivery a))"
| "kept_in env hs hh a (Dispatched u t h) = (hs_getHouseholdForUser u hs = Some hh \<and> h = Some hh)"
| "kept_in env hs hh a (Wrote p c) = (\<exists>u app. hs_getHouseholdForUser u hs = Some hh \<and> below_dir (user_area env hh u app) p)"
| "kept_in env hs hh a (Appended p c) = (\<exists>u app. hs_getHouseholdForUser u hs = Some hh \<and> below_dir (user_area env hh u app) p)"
| "kept_in env hs hh a _ = True"

text \<open>
  Whose data a source gives: a user's of the household, from that user's area; a household space's of
  the household; a collaboration's of which all recipients are members. (A space that is not known or has no
  kind falls through to the areas from before there were households.)
\<close>

definition lawful_source :: "alert_env \<Rightarrow> household_service \<Rightarrow> string \<Rightarrow> alert \<Rightarrow> alert_source \<Rightarrow> bool" where
  "lawful_source env hs hh a so \<longleftrightarrow>
     (case so_space_id so of
        None \<Rightarrow>
          (\<exists>u. so_user_id so = Some u \<and> hs_getHouseholdForUser u hs = Some hh \<and>
             (\<forall>p t. read_source env (Some hh) so = Inr (Some (p, t)) \<longrightarrow> starts_with (user_area env hh u (so_app_id so) @ ''/'') p))
      | Some i \<Rightarrow>
          (case find_space env i of
             None \<Rightarrow> True
           | Some d \<Rightarrow>
               (sd_kind d = Some KHousehold \<longrightarrow> sd_householdId d = Some hh) \<and>
               (sd_kind d = Some KCollaboration \<longrightarrow> (\<forall>u \<in> set (al_delivery a). sp_isMember i u (the (ae_spaces env))))))"

lemma send_all_to: "(es, ok) = send_all ex t us s f \<Longrightarrow> e \<in> set es \<Longrightarrow> \<exists>u \<in> set us. e = Sent u t \<or> e = Mirrored u t"
  by (induction ex t us s f arbitrary: es ok rule: send_all.induct) (fastforce split: if_splits option.splits prod.splits)+

lemma run_actions_from:
  "e \<in> set (fst (run_actions ex all delivery data name summary as)) \<Longrightarrow>
   \<exists>a \<in> set as. \<exists>s. e \<in> set (fst (run_action ex delivery data name s a))"
proof (induction as arbitrary: summary)
  case (Cons a as)
  then show ?case by (auto simp: Let_def split_def)
qed simp

lemma first_problem_None: "first_problem ps = None \<longleftrightarrow> (\<forall>p \<in> set ps. p = None)"
  by (induction ps rule: first_problem.induct) auto

lemma authorized:
  assumes "authorizeAlertScope env a = Inr h" "ex_households (ae_exec env) = Some hs" "al_delivery a \<noteq> []"
  shows "\<exists>hh. h = Some hh \<and> (\<forall>u \<in> set (al_delivery a). hs_getHouseholdForUser u hs = Some hh) \<and>
    (\<forall>so \<in> set (case al_condition a of None \<Rightarrow> [] | Some c \<Rightarrow> cn_data_sources c). authorizeDataSource env hs hh (al_delivery a) so = None) \<and>
    (\<forall>x \<in> set (al_actions a). authorizeAction hs hh x = None)"
proof -
  define hhs where "hhs = remdups (map (\<lambda>u. the (hs_getHouseholdForUser u hs)) (al_delivery a))"
  have all: "find (\<lambda>u. hs_getHouseholdForUser u hs = None) (al_delivery a) = None"
    and len: "\<not> 1 < length hhs"
    and prob: "first_problem (map (authorizeDataSource env hs (hd hhs) (al_delivery a))
        (case al_condition a of None \<Rightarrow> [] | Some c \<Rightarrow> cn_data_sources c) @ map (authorizeAction hs (hd hhs)) (al_actions a)) = None"
    and h: "h = Some (hd hhs)"
    using assms by (auto simp: authorizeAlertScope_def Let_def hhs_def [symmetric] split: option.splits if_splits)
  have "hhs \<noteq> []" using assms(3) by (simp add: hhs_def)
  then obtain hh where hh: "hhs = [hh]" using len by (cases hhs; cases "tl hhs") auto
  have "hs_getHouseholdForUser u hs = Some hh" if "u \<in> set (al_delivery a)" for u
  proof -
    have "the (hs_getHouseholdForUser u hs) \<in> set hhs" using that by (auto simp: hhs_def)
    moreover have "hs_getHouseholdForUser u hs \<noteq> None" using all that by (auto simp: find_None_iff)
    ultimately show ?thesis using hh by auto
  qed
  then show ?thesis using prob h hh by (auto simp: first_problem_None)
qed

lemma pattern_safe: "alert_id_pattern s \<Longrightarrow> safe_segment s"
  by (cases s) (auto simp: safe_segment_def safe_char_def list_all_iff)

lemma valid_parts:
  assumes "alert_errors env a = []"
  shows "al_delivery a \<noteq> []" "\<exists>c. al_condition a = Some c \<and> (\<forall>so \<in> set (cn_data_sources c). \<exists>p. validateDataSource so p = [])"
proof -
  show "al_delivery a \<noteq> []" using assms by (auto simp: alert_errors_def validateAlert_def split: if_splits)
  have c: "validateCondition (al_condition a) = []" using assms by (simp add: alert_errors_def validateAlert_def)
  show "\<exists>c. al_condition a = Some c \<and> (\<forall>so \<in> set (cn_data_sources c). \<exists>p. validateDataSource so p = [])"
  proof (cases "al_condition a")
    case None
    then show ?thesis using c by (simp add: validateCondition_def)
  next
    case (Some cn)
    have "\<forall>(i, so) \<in> set (enumerate 0 (cn_data_sources cn)). validateDataSource so (indexed ''condition.data_sources'' i) = []"
      using c Some by (auto simp: validateCondition_def split: if_splits)
    then have "\<exists>p. validateDataSource so p = []" if "so \<in> set (cn_data_sources cn)" for so
    proof -
      have "\<exists>k < length (cn_data_sources cn). so = cn_data_sources cn ! k" using that by (metis in_set_conv_nth)
      then obtain k where "k < length (cn_data_sources cn)" "so = cn_data_sources cn ! k" by blast
      then have "(k, so) \<in> set (enumerate 0 (cn_data_sources cn))" by (simp add: in_set_enumerate_eq)
      then show ?thesis using \<open>\<forall>(i, so) \<in> set (enumerate 0 (cn_data_sources cn)). validateDataSource so (indexed ''condition.data_sources'' i) = []\<close> by blast
    qed
    then show ?thesis using Some by blast
  qed
qed

lemma source_lawful:
  assumes "authorizeDataSource env hs hh (al_delivery a) so = None" "validateDataSource so p = []"
  shows "lawful_source env hs hh a so"
proof (cases "so_space_id so")
  case None
  have "truthy (so_user_id so) \<noteq> None" using assms(2) None
    by (auto simp: validateDataSource_def check_field_def split: option.splits if_splits)
  then obtain u where u: "so_user_id so = Some u" "u \<noteq> []" by (cases "so_user_id so") (auto split: if_splits)
  have safe: "safe_segment u" "safe_segment (so_app_id so)"
    using assms(2) None u pattern_safe by (auto simp: validateDataSource_def check_field_def split: if_splits)
  have hh: "hs_getHouseholdForUser u hs = Some hh"
    using assms(1) None u by (auto simp: authorizeDataSource_def split: if_splits)
  have "source_dir env (Some hh) so = Inr (user_area env hh u (so_app_id so))"
    using None u safe by (simp add: source_dir_def resolveScopedDataDir_def user_area_def data_root_def Let_def)
  then show ?thesis using None u hh
    by (auto simp: lawful_source_def read_source_def Let_def split: if_splits found_file.splits)
next
  case (Some i)
  have "i \<noteq> []" using assms(2) Some by (auto simp: validateDataSource_def check_field_def split: if_splits)
  then show ?thesis
    using assms(1) Some by (auto simp: lawful_source_def authorizeDataSource_def find_None_iff split: option.splits space_kind.splits if_splits)
qed

lemma action_within:
  assumes hs: "ex_households (ae_exec env) = Some hs" and named: "\<forall>u. hs_getHouseholdForUser u hs \<noteq> Some []"
    and ok: "authorizeAction hs hh x = None"
    and e: "e \<in> set (fst (run_action (ae_exec env) (al_delivery a) data name s x))"
  shows "kept_in env hs hh a e"
proof (cases x)
  case (TelegramMessage m sm)
  then obtain t where "e \<in> set (fst (send_all (ae_exec env) t (al_delivery a) 0 0))"
    using e by (auto simp: run_action_def executeTelegramMessage_def Let_def)
  then obtain u where "u \<in> set (al_delivery a)" "e = Sent u t \<or> e = Mirrored u t"
    using send_all_to [OF prod.collapse] by metis
  then show ?thesis by auto
next
  case (WriteData c)
  define base where "base = write_base (ae_exec env) (data_root env) c"
  have u: "hs_getHouseholdForUser (wc_user_id c) hs = Some hh" using ok WriteData by (simp add: authorizeAction_def split: if_splits)
  then have "hh \<noteq> []" using named by auto
  then have base: "base = user_area env hh (wc_user_id c) (wc_app_id c)"
    using u hs by (simp add: base_def write_base_def user_area_def)
  obtain v where v: "e \<in> set (fst (executeWriteData (ae_exec env) c v))" using e WriteData by (auto simp: run_action_def Let_def split: if_splits)
  have dir: "ex_dataDir (ae_exec env) = Some (data_root env)"
    using v by (auto simp: executeWriteData_def data_root_def split: option.splits)
  obtain p t where p: "e = Wrote p t \<or> e = Appended p t" "below_dir base p"
    using v dir by (auto simp: executeWriteData_def Let_def base_def below_dir_def split: if_splits)
  then have "\<exists>u app. hs_getHouseholdForUser u hs = Some hh \<and> below_dir (user_area env hh u app) p" using base u by blast
  then show ?thesis using p(1) by (metis kept_in.simps(4,5))
next
  case (DispatchMessage t u)
  then show ?thesis
    using e ok hs by (auto simp: run_action_def executeDispatchMessage_def authorizeAction_def Let_def split: option.splits if_splits)
qed (use e in \<open>auto simp: run_action_def Let_def split: option.splits\<close>)

section \<open>Properties\<close>

text \<open>A household of one, with an alert on its shopping list.\<close>

definition milk_exec :: exec_env where
  "milk_exec =
     \<lparr>ex_cwd = ''/'', ex_dataDir = Some ''/data'', ex_today = ''2026-01-02'', ex_yesterday = ''2026-01-01'', ex_llm = None,
      ex_sends = (\<lambda>_. True), ex_bridge = None, ex_reports = (\<lambda>_. True), ex_fetches = (\<lambda>_. True), ex_writes = (\<lambda>_. True),
      ex_speaks = None, ex_router = None,
      ex_households = Some \<lparr>hs_households = [], hs_userMap = [(''ann'', ''home'')], hs_registry = [], hs_queue = [],
        hs_file = None, hs_writable = True\<rparr>,
      ex_context = None\<rparr>"

definition milk_env :: alert_env where
  "milk_env =
     \<lparr>ae_exec = milk_exec,
      ae_users = [\<lparr>ru_id = ''ann'', ru_name = ''Ann'', ru_isAdmin = False, ru_enabledApps = [], ru_sharedScopes = [],
        ru_householdId = Some ''home''\<rparr>],
      ae_spaces = None, ae_valid_cron = (\<lambda>s. s \<noteq> []), ae_bus = True, ae_date_of = read_iso, ae_read = (\<lambda>_. FileText ''milk''),
      ae_fuzzy = NoLLM, ae_disk = True\<rparr>"

definition milk_alert :: alert where
  "milk_alert =
     \<lparr>al_id = ''milk'', al_name = ''Milk'', al_enabled = True, al_schedule = ''0 * * * *'',
      al_condition = Some \<lparr>cn_type = ''deterministic'', cn_expression = ''not empty'',
        cn_data_sources = [\<lparr>so_app_id = ''food'', so_user_id = Some ''ann'', so_path = ''list.md'', so_space_id = None\<rparr>]\<rparr>,
      al_actions = [TelegramMessage ''Buy {data}'' None,
        WriteData \<lparr>wc_app_id = ''notes'', wc_user_id = ''ann'', wc_path = ''log.md'', wc_content = Some ''{data}'', wc_mode = ModeAppend\<rparr>],
      al_trigger = None, al_delivery = [''ann''], al_cooldown = ''1 hour'', al_lastFired = None, al_updatedAt = None\<rparr>"

definition milk_world :: alert_world where
  "milk_world =
     \<lparr>aw_files = [(''milk'', AlertDef milk_alert)], aw_crons = \<lparr>cw_jobs = [], cw_lastRunAt = [], cw_stored = None, cw_notifier = None, cw_inFlight = 0, cw_waiting = 0, cw_started = False\<rparr>, aw_subs = [],
      aw_handlers = [], aw_history = []\<rparr>"


lemma milk_valid: "alert_errors milk_env milk_alert = []" "getAlert ''milk'' milk_world = Some milk_alert"
  "authorizeAlertScope milk_env milk_alert = Inr (Some ''home'')"
  "read_source milk_env (Some ''home'') (hd (cn_data_sources (the (al_condition milk_alert)))) =
     Inr (Some (''/data/households/home/users/ann/food/list.md'', ''milk''))"
  "checkCondition milk_env (the (al_condition milk_alert)) ''milk'' = Some True"
  "parseCooldown ''1 hour'' = 3600000"
  "executeActions milk_exec (al_actions milk_alert) (al_delivery milk_alert) ''milk'' ''Milk'' =
     ([Sent ''ann'' ''Buy milk'', Appended ''/data/households/home/users/ann/notes/log.md'' ''milk''], 2, 0)"
  by code_simp+

lemma milk_parts: "cn_data_sources (the (al_condition milk_alert)) = [hd (cn_data_sources (the (al_condition milk_alert)))]"
  "al_id milk_alert = ''milk''" "al_name milk_alert = ''Milk''" "al_cooldown milk_alert = ''1 hour''" "al_enabled milk_alert"
  "ae_exec milk_env = milk_exec" "ae_disk milk_env" "ae_bus milk_env"
  by (simp_all add: milk_alert_def milk_env_def)

definition milk_reads :: "(string \<times> string) list" where
  "milk_reads = [(''/data/households/home/users/ann/food/list.md'', ''milk'')]"

definition milk_fired :: "time \<Rightarrow> alert" where
  "milk_fired t = milk_alert\<lparr>al_lastFired := Some (iso_string t)\<rparr>"

text \<open>The world after a firing at \<open>t\<close>.\<close>

definition milk_after :: "time \<Rightarrow> alert_world" where
  "milk_after t = milk_world\<lparr>aw_files := [(''milk'', AlertDef (milk_fired t))], aw_history := [(history_file t ''milk'', history_text t ''milk'' 2)]\<rparr>"

lemma milk_read: "readDataSources milk_env (Some ''home'') (cn_data_sources (the (al_condition milk_alert))) = Inr milk_reads"
  by (subst milk_parts(1)) (simp add: milk_valid milk_reads_def)

lemma milk_data: "data_of milk_reads = ''milk''"
  by (simp add: milk_reads_def data_of_def)

lemma milk_check: "evaluate_check milk_env now False ''milk'' milk_world = Fire milk_alert milk_reads"
proof -
  have "last_fired milk_env milk_alert = NeverFired" by (simp add: last_fired_def milk_alert_def)
  then show ?thesis by (simp add: evaluate_check_def milk_valid milk_read milk_data)
qed

lemma milk_fire:
  "evaluate_fire milk_env t ''milk'' milk_alert milk_reads milk_world =
    (\<lparr>ev_conditionMet = True, ev_actionTriggered = True, ev_actionsExecuted = 2, ev_error = None\<rparr>,
     [Sent ''ann'' ''Buy milk'', Appended ''/data/households/home/users/ann/notes/log.md'' ''milk'', EmittedFired ''milk'' 2], milk_after t)"
  by (simp add: evaluate_fire_def milk_valid milk_parts milk_data updateLastFired_def saveToHistory_def milk_after_def
    milk_fired_def milk_world_def)

lemma milk_recheck:
  "evaluate_check milk_env 1000 False ''milk'' (milk_after 1000) = Answer ((no_evaluation None)\<lparr>ev_conditionMet := True\<rparr>)"
proof -
  have "getAlert ''milk'' (milk_after 1000) = Some (milk_fired 1000)"
    using milk_parts(2) by (simp add: getAlert_def milk_after_def milk_fired_def is_lower_az_def)
  moreover have "authorizeAlertScope milk_env (milk_fired 1000) = Inr (Some ''home'')"
    using milk_valid(3) by (simp add: authorizeAlertScope_def milk_fired_def Let_def cong: option.case_cong if_cong)
  moreover have "alert_errors milk_env (milk_fired 1000) = []" using milk_valid(1) by (simp add: milk_fired_def)
  moreover have "last_fired milk_env (milk_fired 1000) = FiredAt 1000"
    using iso_string_visible(1) [of 1000] by (simp add: last_fired_def milk_fired_def milk_env_def read_iso_def)
  moreover have "al_condition (milk_fired 1000) = al_condition milk_alert" "al_cooldown (milk_fired 1000) = ''1 hour''"
    using milk_parts(4) by (simp_all add: milk_fired_def)
  ultimately show ?thesis by (simp add: evaluate_check_def milk_valid(5,6) milk_read milk_data)
qed

text \<open>
  C4. Triggers follow the files: after a start and any sequence of saves, deletions and evaluations (with writes that
  fail, refusals and firings among them), every alert that is on file, enabled and valid has exactly the
  trigger its definition asks for, one cron job with its schedule or one subscription to its event, and nothing
  else has any.
\<close>

theorem alert_triggers_follow_files:
  assumes "fresh_start w" "\<forall>x \<in> set ops. same_judge env (judge x)"
  shows "armed (fold alert_step ops (al_init env w)) i (wanted env (fold alert_step ops (al_init env w)) i)"
  using run_match [OF init_match [OF assms(1)] assms(2)] unfolding triggers_match_def by blast

lemma alert_triggers_follow_files_witness:
  "armed (al_init milk_env milk_world) ''milk'' (Some (Scheduled ''0 * * * *'')) \<and>
   armed (fold alert_step [Delete milk_env ''milk''] (al_init milk_env milk_world)) ''milk'' None"
proof -
  have fresh: "fresh_start milk_world" by (simp add: fresh_start_def milk_world_def armed_def milk_alert_def)
  define w where "w = al_init milk_env milk_world"
  have w: "aw_files w = [(''milk'', AlertDef milk_alert)]"
    by (simp add: w_def al_init_def milk_world_def listAlerts_def milk_parts milk_valid)
  have trigger: "trigger_for milk_env milk_alert = Some (Scheduled ''0 * * * *'')" by code_simp
  have "alert_id_pattern ''milk''" by code_simp
  then have "wanted milk_env (fold alert_step [Delete milk_env ''milk''] w) ''milk'' = None"
    by (simp add: wanted_def deleteAlert_def w milk_parts)
  moreover have "wanted milk_env w ''milk'' = Some (Scheduled ''0 * * * *'')" by (simp add: wanted_def w trigger)
  moreover have "armed (fold alert_step ops w) ''milk'' (wanted milk_env (fold alert_step ops w) ''milk'')"
    if "\<forall>x \<in> set ops. same_judge milk_env (judge x)" for ops
    using alert_triggers_follow_files [OF fresh that] by (simp add: w_def)
  from this [of "[]"] this [of "[Delete milk_env ''milk'']"] show ?thesis
    using calculation by (simp add: same_judge_def w_def)
qed

text \<open>
  C9. Cooldowns are kept: when evaluations are awaited one after the other, time does not run backwards and the
  definitions can be written, then between a firing of an alert and the check that leads to its next one
  lies at least the cooldown, and the first one comes no sooner than the cooldown after the firing that the
  file remembers.
\<close>

theorem cooldowns_are_kept:
  assumes "paced D t cs" "remembers D i cd since t w"
  shows "kept_apart cd (firings_of i (firings cs w)) \<and>
    (\<forall>s. since = Some s \<longrightarrow> (\<forall>(n, l) \<in> set (firings_of i (firings cs w)). s + cd \<le> n))"
  by (rule firings_spaced [OF assms])

lemma cooldowns_are_kept_witness:
  "firings_of ''milk'' (firings [(milk_env, 900, 1000, False, ''milk''), (milk_env, 1000, 1000, False, ''milk'')] milk_world) = [(900, 1000)] \<and>
   kept_apart 3600000 (firings_of ''milk'' (firings [(milk_env, 900, 1000, False, ''milk''), (milk_env, 1000, 1000, False, ''milk'')] milk_world))"
proof -
  define cs where "cs = [(milk_env, 900::time, 1000::time, False, ''milk''), (milk_env, 1000, 1000, False, ''milk'')]"
  have p: "paced {1000} 0 cs" by (simp add: cs_def milk_env_def read_iso_def)
  have "remembers {1000} ''milk'' 3600000 None 0 milk_world"
    by (simp add: remembers_def milk_world_def milk_parts milk_valid)
  moreover have "firings_of ''milk'' (firings cs milk_world) = [(900, 1000)]"
    by (simp add: cs_def al_evaluate_def milk_check milk_fire milk_recheck firings_of_def no_evaluation_def)
  ultimately show ?thesis using cooldowns_are_kept [OF p, of "''milk''" 3600000 None milk_world] unfolding cs_def [symmetric] by simp
qed



section \<open>Where the code falls short\<close>

text \<open>Data is put in as a replacement pattern of JavaScript: a dollar sign is taken for a command, and braces are expanded again.\<close>

lemma data_is_taken_for_a_pattern:
  "resolveTemplate ''Owed: {data}'' \<lparr>tv_data = ''$$20'', tv_summary = [], tv_alertName = [], tv_date = []\<rparr> = ''Owed: $20''"
  "resolveTemplate ''Owed: {data}'' \<lparr>tv_data = ''$&'', tv_summary = [], tv_alertName = [], tv_date = []\<rparr> = ''Owed: {data}''"
  "resolveTemplate ''{data}'' \<lparr>tv_data = ''{alert_name}'', tv_summary = [], tv_alertName = ''Milk'', tv_date = []\<rparr> = ''Milk''"
  by code_simp+

text \<open>A check that begins before the firing of another is written down does not see it: the alert fires twice within its cooldown.\<close>

lemma overlapping_evaluations_fire_twice:
  "\<exists>a reads. evaluate_check milk_env 900 False ''milk'' milk_world = Fire a reads \<and>
    evaluate_check milk_env 950 False ''milk'' milk_world = Fire a reads \<and>
    (let (r, es, w) = evaluate_fire milk_env 1000 ''milk'' a reads milk_world;
         (r', es', w') = evaluate_fire milk_env 1000 ''milk'' a reads w
     in Sent ''ann'' ''Buy milk'' \<in> set es \<and> Sent ''ann'' ''Buy milk'' \<in> set es' \<and>
        evaluate_check milk_env 1000 False ''milk'' w = Answer ((no_evaluation None)\<lparr>ev_conditionMet := True\<rparr>))"
proof -
  have "fst (snd (evaluate_fire milk_env t ''milk'' a reads w)) = fst (snd (evaluate_fire milk_env t ''milk'' a reads w'))" for t a reads w w'
    by (simp add: evaluate_fire_def split_def Let_def)
  then have again: "Sent ''ann'' ''Buy milk'' \<in> set (fst (snd (evaluate_fire milk_env 1000 ''milk'' milk_alert milk_reads w)))" for w
    using milk_fire [of 1000] by (metis fst_conv list.set_intros(1) snd_conv)
  show ?thesis using again [of "milk_after 1000"] by (simp add: milk_check milk_fire milk_recheck split_def)
qed

text \<open>The name of an event is validated without the spaces around it, and subscribed to with them.\<close>

lemma padded_event_never_arrives:
  "let a = milk_alert\<lparr>al_trigger := Some \<lparr>tg_type = ''event'', tg_schedule = None, tg_event_name = '' food:low ''\<rparr>\<rparr>
   in alert_errors milk_env a = [] \<and> getEffectiveTrigger a = OnEvent '' food:low ''"
  by code_simp

end
