(* ===== verification/Credentials.thy ===== *)
theory Credentials
  imports Js_Text
begin

text \<open>
  Passwords and session versions: \<open>services/credentials\<close> (\<open>hash.ts\<close>, \<open>index.ts\<close>), with what the API keys share. The key
  derivation \<open>crypto.scrypt\<close> is a parameter, bytes are the characters of a string, random values are
  arguments. Every operation that changes a file runs under the lock of that file and is one step; whether
  the file can be written is an argument too. Copies of corrupt files and logging are left out.
\<close>

section \<open>Hexadecimal text\<close>

definition hex_digit :: "nat \<Rightarrow> char" where
  "hex_digit n = (if n < 10 then char_of (48 + n) else char_of (87 + n))"

definition hex_val :: "char \<Rightarrow> nat option" where
  "hex_val c =
     (if is_digit c then Some (code c - 48)
      else if 97 \<le> code c \<and> code c \<le> 102 then Some (code c - 87)
      else if 65 \<le> code c \<and> code c \<le> 70 then Some (code c - 55) else None)"

text \<open>\<open>buffer.toString('hex')\<close>, and \<open>Buffer.from(s, 'hex')\<close>, which stops before what are no two digits.\<close>

fun to_hex :: "string \<Rightarrow> string" where
  "to_hex [] = []"
| "to_hex (b # bs) = hex_digit (code b div 16) # hex_digit (code b mod 16) # to_hex bs"

fun from_hex :: "string \<Rightarrow> string" where
  "from_hex (c # d # s) =
     (case (hex_val c, hex_val d) of (Some a, Some b) \<Rightarrow> char_of (16 * a + b) # from_hex s | _ \<Rightarrow> [])"
| "from_hex _ = []"

lemma hex_val_digit: "n < 16 \<Longrightarrow> hex_val (hex_digit n) = Some n"
  by (auto simp: hex_val_def hex_digit_def is_digit_def)

lemma from_to_hex [simp]: "from_hex (to_hex bs) = bs"
proof (induction bs)
  case (Cons b bs)
  have "code b < (256::nat)" by simp
  then have "code b div 16 < (16::nat)" by linarith
  then have "hex_val (hex_digit (code b div 16)) = Some (code b div 16)" "hex_val (hex_digit (code b mod 16)) = Some (code b mod 16)"
    by (simp_all add: hex_val_digit)
  then show ?case using Cons by simp
qed simp

section \<open>Key derivation\<close>

record scrypt_params =
  sc_N :: nat
  sc_r :: nat
  sc_p :: nat
  sc_keyLen :: nat

text \<open>\<open>scrypt(secret, salt, params)\<close>: the derived bytes, or a rejection.\<close>

type_synonym scrypt = "string \<Rightarrow> string \<Rightarrow> scrypt_params \<Rightarrow> string option"

text \<open>Left out options default to \<open>N = 16384\<close>, \<open>r = 8\<close>, \<open>p = 1\<close> in Node, so \<open>hashPassword\<close> derives with the parameters it stores.\<close>

definition PASSWORD_PARAMS :: scrypt_params where
  "PASSWORD_PARAMS = \<lparr>sc_N = 16384, sc_r = 8, sc_p = 1, sc_keyLen = 64\<rparr>"

text \<open>The comparison both services make: derive again, compare lengths, then bytes.\<close>

definition same_hash :: "scrypt \<Rightarrow> string \<Rightarrow> string \<Rightarrow> scrypt_params \<Rightarrow> string \<Rightarrow> bool" where
  "same_hash scrypt secret salt params hash =
     (case scrypt secret salt params of None \<Rightarrow> False
      | Some candidate \<Rightarrow> length candidate = length (from_hex hash) \<and> candidate = from_hex hash)"

lemma same_hash_stored: "scrypt s' salt params = Some bs \<Longrightarrow>
    same_hash scrypt s salt params (to_hex bs) \<longleftrightarrow> scrypt s salt params = Some bs"
  by (auto simp: same_hash_def split: option.splits)

section \<open>Passwords\<close>

record stored_credential =
  cr_salt :: string
  cr_hash :: string
  cr_params :: scrypt_params
  cr_sessionVersion :: int
  cr_updatedAt :: string

text \<open>
  The file: absent or an empty document, something that cannot be read or is no object, or entries, of which some may not have the
  shape of a credential (\<open>isStoredCredential\<close>: version 1, algorithm \<open>scrypt\<close>, every field of its type).
\<close>

datatype cred_entry = BadEntry | Credential stored_credential

datatype cred_file = NoCredFile | BadCredFile | CredEntries "cred_entry jsmap"

fun good_entries :: "cred_entry jsmap \<Rightarrow> stored_credential jsmap" where
  "good_entries [] = []"
| "good_entries ((u, Credential c) # es) = set_key u c (good_entries es)"
| "good_entries ((u, BadEntry) # es) = good_entries es"

fun cr_load :: "cred_file \<Rightarrow> stored_credential jsmap" where
  "cr_load NoCredFile = []"
| "cr_load BadCredFile = []"
| "cr_load (CredEntries es) = good_entries es"

definition cr_store :: "stored_credential jsmap \<Rightarrow> cred_file" where
  "cr_store m = CredEntries (map (\<lambda>(u, c). (u, Credential c)) m)"

definition hashPassword :: "scrypt \<Rightarrow> string \<Rightarrow> string \<Rightarrow> (string \<times> string \<times> scrypt_params) option" where
  "hashPassword scrypt salt plaintext =
     map_option (\<lambda>key. (salt, to_hex key, PASSWORD_PARAMS)) (scrypt plaintext salt PASSWORD_PARAMS)"

definition cr_getSessionVersion :: "string \<Rightarrow> cred_file \<Rightarrow> int" where
  "cr_getSessionVersion u f = (case map_of (cr_load f) u of None \<Rightarrow> 0 | Some c \<Rightarrow> cr_sessionVersion c)"

text \<open>The results say whether the call returned; an exception leaves the file as it is.\<close>

definition cr_setPassword :: "scrypt \<Rightarrow> string \<Rightarrow> time \<Rightarrow> bool \<Rightarrow> string \<Rightarrow> string \<Rightarrow> cred_file \<Rightarrow> bool \<times> cred_file" where
  "cr_setPassword scrypt salt now ok u plaintext f =
     (case hashPassword scrypt salt plaintext of None \<Rightarrow> (False, f)
      | Some (salt, hash, params) \<Rightarrow>
          if ok then
            (True, cr_store (set_key u \<lparr>cr_salt = salt, cr_hash = hash, cr_params = params,
               cr_sessionVersion = cr_getSessionVersion u f + 1, cr_updatedAt = iso_string now\<rparr> (cr_load f)))
          else (False, f))"

definition cr_verifyPassword :: "scrypt \<Rightarrow> string \<Rightarrow> string \<Rightarrow> cred_file \<Rightarrow> bool" where
  "cr_verifyPassword scrypt u plaintext f =
     (case map_of (cr_load f) u of None \<Rightarrow> False
      | Some c \<Rightarrow> same_hash scrypt plaintext (cr_salt c) (cr_params c) (cr_hash c))"

definition cr_incrementSessionVersion :: "time \<Rightarrow> bool \<Rightarrow> string \<Rightarrow> cred_file \<Rightarrow> int option \<times> cred_file" where
  "cr_incrementSessionVersion now ok u f =
     (case map_of (cr_load f) u of None \<Rightarrow> (Some 0, f)
      | Some c \<Rightarrow>
          if ok then
            (Some (cr_sessionVersion c + 1),
             cr_store (set_key u (c\<lparr>cr_sessionVersion := cr_sessionVersion c + 1, cr_updatedAt := iso_string now\<rparr>) (cr_load f)))
          else (None, f))"

definition cr_clearCredentials :: "bool \<Rightarrow> string \<Rightarrow> cred_file \<Rightarrow> bool \<times> cred_file" where
  "cr_clearCredentials ok u f =
     (if \<not> has_key u (cr_load f) then (True, f)
      else if ok then (True, cr_store (del_key u (cr_load f))) else (False, f))"

definition cr_hasCredentials :: "string \<Rightarrow> cred_file \<Rightarrow> bool" where
  "cr_hasCredentials u f = has_key u (cr_load f)"

lemma good_entries_distinct: "distinct (keys (good_entries es))"
  by (induction es rule: good_entries.induct) simp_all

lemma load_store [simp]: "distinct (keys m) \<Longrightarrow> map_of (cr_load (cr_store m)) u = map_of m u"
proof -
  have "map_of (good_entries (map (\<lambda>(u, c). (u, Credential c)) m)) u = map_of m u"
    by (induction m) auto
  then show ?thesis by (simp add: cr_store_def)
qed

lemma load_distinct: "distinct (keys (cr_load f))"
  by (cases f) (auto simp: good_entries_distinct)

lemma load_after:
  "map_of (cr_load (cr_store (set_key u c (cr_load f)))) v = (if v = u then Some c else map_of (cr_load f) v)"
  "map_of (cr_load (cr_store (del_key u (cr_load f)))) v = (if v = u then None else map_of (cr_load f) v)"
  by (simp_all add: distinct_delete load_distinct)

text \<open>A new password is the one that is accepted afterwards, and nothing changes for anybody else.\<close>

lemma set_then_verify:
  assumes "cr_setPassword scrypt salt now ok u pw f = (True, f')"
  shows "cr_verifyPassword scrypt u pw' f' \<longleftrightarrow> scrypt pw' salt PASSWORD_PARAMS = scrypt pw salt PASSWORD_PARAMS"
proof -
  obtain key where key: "scrypt pw salt PASSWORD_PARAMS = Some key"
    using assms by (auto simp: cr_setPassword_def hashPassword_def split: option.splits)
  have "map_of (cr_load f') u = Some \<lparr>cr_salt = salt, cr_hash = to_hex key, cr_params = PASSWORD_PARAMS,
      cr_sessionVersion = cr_getSessionVersion u f + 1, cr_updatedAt = iso_string now\<rparr>"
    using assms by (auto simp: cr_setPassword_def hashPassword_def key load_after split: if_splits)
  then show ?thesis using same_hash_stored [of scrypt pw salt PASSWORD_PARAMS key pw'] key
    by (simp add: cr_verifyPassword_def)
qed

section \<open>Steps on the credentials\<close>

datatype cred_op =
    SetPassword string time bool string string
  | IncrementVersion time bool string
  | ClearCredentials bool string

fun cr_step :: "scrypt \<Rightarrow> cred_op \<Rightarrow> cred_file \<Rightarrow> cred_file" where
  "cr_step scrypt (SetPassword salt now ok u pw) f = snd (cr_setPassword scrypt salt now ok u pw f)"
| "cr_step scrypt (IncrementVersion now ok u) f = snd (cr_incrementSessionVersion now ok u f)"
| "cr_step scrypt (ClearCredentials ok u) f = snd (cr_clearCredentials ok u f)"

fun clears :: "string \<Rightarrow> cred_op \<Rightarrow> bool" where
  "clears u (ClearCredentials ok v) = (v = u)"
| "clears u _ = False"

lemma version_after:
  "cr_getSessionVersion v (cr_step scrypt (SetPassword salt now ok u pw) f) =
     (if v = u \<and> ok \<and> scrypt pw salt PASSWORD_PARAMS \<noteq> None then cr_getSessionVersion u f + 1 else cr_getSessionVersion v f)"
  "cr_getSessionVersion v (cr_step scrypt (IncrementVersion now ok u) f) =
     (if v = u \<and> ok \<and> cr_hasCredentials u f then cr_getSessionVersion u f + 1 else cr_getSessionVersion v f)"
  by (auto simp: cr_getSessionVersion_def cr_setPassword_def cr_incrementSessionVersion_def cr_hasCredentials_def
      hashPassword_def load_after split: option.splits)

lemma has_after:
  "cr_hasCredentials v f \<Longrightarrow> \<not> clears v x \<Longrightarrow> cr_hasCredentials v (cr_step scrypt x f)"
  by (cases x) (auto simp: cr_hasCredentials_def cr_setPassword_def cr_incrementSessionVersion_def cr_clearCredentials_def
      hashPassword_def load_after split: option.splits)

lemma version_step:
  "\<not> clears v x \<Longrightarrow> cr_getSessionVersion v f \<le> cr_getSessionVersion v (cr_step scrypt x f)"
proof (cases x)
  case (ClearCredentials ok u)
  then show "\<not> clears v x \<Longrightarrow> ?thesis"
    by (auto simp: cr_getSessionVersion_def cr_clearCredentials_def load_after)
qed (simp_all add: version_after del: cr_step.simps)

text \<open>Session versions never go back while the credentials are not cleared.\<close>

lemma version_grows:
  "\<forall>x \<in> set ops. \<not> clears v x \<Longrightarrow> cr_getSessionVersion v f \<le> cr_getSessionVersion v (fold (cr_step scrypt) ops f)"
proof (induction ops arbitrary: f)
  case (Cons x ops)
  then show ?case using version_step [of v x f scrypt] by (force intro: order_trans)
qed simp

end
