(* ===== verification/Gui_Auth.thy ===== *)
theory Gui_Auth
  imports Credentials Users Rate_Limiter
begin

text \<open>
  Who is let into the web interface: \<open>gui/auth.ts\<close> (login, logout and the guard before every request),
  \<open>gui/csrf.ts\<close>, \<open>gui/guards\<close> and the password routes of \<open>gui/routes/credentials.ts\<close>. Cookies are given as what unsigning and
  parsing them yields; the HMAC of the legacy cookie is a parameter. What a handler does to a cookie and where it
  sends the browser is its result; pages, their texts and the flags of cookies are left out. Where a handler awaits the
  credentials, their state is an argument of its own.
\<close>

section \<open>Actors\<close>

datatype auth_method = GuiPassword | LegacyGuiToken | ApiKeyAuth | LegacyApiToken

record actor =
  ac_userId :: string
  ac_householdId :: string
  ac_isPlatformAdmin :: bool
  ac_isHouseholdAdmin :: bool
  ac_authMethod :: auth_method
  ac_scopes :: "string list option"
  ac_sessionVersion :: "int option"

definition buildActor :: "string \<Rightarrow> int \<Rightarrow> auth_method \<Rightarrow> household_service \<Rightarrow> reg_user list \<Rightarrow> actor option" where
  "buildActor u version method hs users =
     (case um_getUser u users of None \<Rightarrow> None
      | Some user \<Rightarrow>
          (case truthy (hs_getHouseholdForUser u hs) of None \<Rightarrow> None
           | Some hh \<Rightarrow>
               Some \<lparr>ac_userId = u, ac_householdId = hh, ac_isPlatformAdmin = ru_isAdmin user,
                 ac_isHouseholdAdmin = (case hs_getHousehold hh hs of None \<Rightarrow> False | Some h \<Rightarrow> u \<in> set (hh_adminUserIds h)),
                 ac_authMethod = method, ac_scopes = None, ac_sessionVersion = Some version\<rparr>))"

section \<open>Cookies\<close>

text \<open>\<open>authMethod\<close> may be missing in the payload; an \<open>issuedAt\<close> of zero counts as missing.\<close>

record session_cookie =
  sk_userId :: string
  sk_sessionVersion :: int
  sk_issuedAt :: time
  sk_authMethod :: "auth_method option"

datatype cookie = NoCookie | BadSignature | TextCookie string | SessionCookie session_cookie

datatype set_cookie = KeepCookie | ClearCookie | SetSession session_cookie | SetText string

definition MAX_COOKIE_AGE_MS :: time where "MAX_COOKIE_AGE_MS = 24 * 60 * 60 * 1000"

definition issueSessionCookie :: "time \<Rightarrow> string \<Rightarrow> int \<Rightarrow> auth_method \<Rightarrow> set_cookie" where
  "issueSessionCookie now u version method =
     SetSession \<lparr>sk_userId = u, sk_sessionVersion = version, sk_issuedAt = now, sk_authMethod = Some method\<rparr>"

text \<open>\<open>ge_perUser\<close>: the services for logins of single users are wired; without them only the shared token counts.\<close>

record gui_env =
  ge_authToken :: string
  ge_mac :: "string \<Rightarrow> string"
  ge_perUser :: bool
  ge_byName :: bool
  ge_testIds :: bool
  ge_users :: "reg_user list"
  ge_households :: household_service

definition admins :: "gui_env \<Rightarrow> reg_user list" where
  "admins env = filter ru_isAdmin (ge_users env)"

section \<open>The guard\<close>

datatype gui_answer = SkipAuth | Redirect string set_cookie | Enter "actor option" set_cookie

definition to_login :: "string \<Rightarrow> gui_answer" where
  "to_login reason = Redirect (''/gui/login'' @ reason) ClearCookie"

definition gui_guard :: "gui_env \<Rightarrow> cred_file \<Rightarrow> time \<Rightarrow> string \<Rightarrow> cookie \<Rightarrow> gui_answer" where
  "gui_guard env creds now url ck =
     (if url = ''/gui/login'' \<or> starts_with ''/gui/login?'' url \<or> starts_with ''/gui/public/'' url then SkipAuth
      else case ck of
        NoCookie \<Rightarrow> Redirect ''/gui/login'' KeepCookie
      | BadSignature \<Rightarrow> to_login []
      | TextCookie v \<Rightarrow>
          if v = [] then to_login []
          else if \<not> ge_perUser env then
            (if v \<noteq> ge_mac env (ge_authToken env) then to_login [] else Enter None (SetText v))
          else if ge_authToken env \<noteq> [] \<and> v = ge_mac env (ge_authToken env) then
            (case admins env of
               [a] \<Rightarrow>
                 (let version = cr_getSessionVersion (ru_id a) creds
                  in case buildActor (ru_id a) version LegacyGuiToken (ge_households env) (ge_users env) of
                       None \<Rightarrow> to_login []
                     | Some x \<Rightarrow> Enter (Some x) (issueSessionCookie now (ru_id a) version LegacyGuiToken))
             | _ \<Rightarrow> to_login ''?reason=password-required'')
          else to_login []
      | SessionCookie c \<Rightarrow>
          if \<not> ge_perUser env then to_login []
          else if sk_issuedAt c = 0 \<or> now - sk_issuedAt c > MAX_COOKIE_AGE_MS then to_login ''?reason=expired''
          else if um_getUser (sk_userId c) (ge_users env) = None then to_login ''?reason=user-removed''
          else (let version = cr_getSessionVersion (sk_userId c) creds
                in if version \<noteq> 0 \<and> sk_sessionVersion c \<noteq> version then to_login ''?reason=session-invalidated''
                   else case buildActor (sk_userId c) version (case sk_authMethod c of None \<Rightarrow> GuiPassword | Some m \<Rightarrow> m)
                               (ge_households env) (ge_users env) of
                     None \<Rightarrow> to_login ''?reason=household-missing''
                   | Some x \<Rightarrow> Enter (Some x) (issueSessionCookie now (ac_userId x) version (ac_authMethod x))))"

section \<open>Login\<close>

record login_body =
  lb_token :: "string option"
  lb_legacyToken :: "string option"
  lb_userId :: "string option"
  lb_password :: "string option"

datatype login_answer =
    TooManyAttempts bool
  | LoginRefused nat string
  | LoginRedirect string
  | LoggedIn string set_cookie

text \<open>After the check the session version is still to be read; with \<open>Checked\<close> the cookie will be for that user.\<close>

datatype login_check = Answered login_answer | Checked string auth_method

definition login_limit :: "time \<Rightarrow> string \<Rightarrow> rate_limiter option \<Rightarrow> bool \<times> rate_limiter option" where
  "login_limit now key rl = (case rl of None \<Rightarrow> (True, None) | Some l \<Rightarrow> (let (ok, l) = rl_isAllowed now key l in (ok, Some l)))"

definition or_empty :: "string option \<Rightarrow> string" where
  "or_empty v = (case v of None \<Rightarrow> [] | Some s \<Rightarrow> s)"

definition resolve_login :: "gui_env \<Rightarrow> string \<Rightarrow> reg_user option" where
  "resolve_login env submitted =
     (if submitted \<noteq> [] \<and> list_all is_digit submitted then um_getUser submitted (ge_users env)
      else case (if ge_byName env then um_findByName submitted (ge_users env) else None) of
             Some u \<Rightarrow> Some u
           | None \<Rightarrow> if ge_testIds env then um_getUser submitted (ge_users env) else None)"

definition account_key :: "string \<Rightarrow> string \<Rightarrow> reg_user option \<Rightarrow> string" where
  "account_key ip submitted r =
     (case r of Some u \<Rightarrow> ''user:'' @ ru_id u | None \<Rightarrow> ''unknown:'' @ ip @ '':'' @ lower submitted)"

definition legacy_login :: "gui_env \<Rightarrow> string \<Rightarrow> login_check" where
  "legacy_login env t =
     (if ge_authToken env = [] then Answered (LoginRefused 401 ''No authentication token configured.'')
      else if t \<noteq> ge_authToken env then Answered (LoginRefused 401 ''Invalid authentication token.'')
      else case admins env of
             [a] \<Rightarrow> Checked (ru_id a) LegacyGuiToken
           | as \<Rightarrow> Answered (LoginRedirect (''/gui/login?reason=password-required&admins='' @ dec (length as))))"

text \<open>The check of a login, with the user whose password was verified, if the handler came that far.\<close>

definition password_login ::
  "gui_env \<Rightarrow> scrypt \<Rightarrow> cred_file \<Rightarrow> time \<Rightarrow> string \<Rightarrow> login_body \<Rightarrow> rate_limiter option \<Rightarrow>
   login_check \<times> string option \<times> rate_limiter option" where
  "password_login env scrypt creds now ip body rl =
     (let submitted = trim (or_empty (lb_userId body)); password = or_empty (lb_password body)
      in if submitted = [] \<or> password = [] then (Answered (LoginRefused 401 ''Login and password are required.''), None, rl)
         else (let (ok, rl) = login_limit now ip rl
           in if \<not> ok then (Answered (TooManyAttempts False), None, rl)
              else (let r = resolve_login env submitted; (ok, rl) = login_limit now (account_key ip submitted r) rl
                in if \<not> ok then (Answered (TooManyAttempts True), None, rl)
                   else case r of
                     None \<Rightarrow> (Answered (LoginRefused 401 ''Invalid login or password.''), None, rl)
                   | Some u \<Rightarrow>
                       (if cr_verifyPassword scrypt (ru_id u) password creds then Checked (ru_id u) GuiPassword
                        else Answered (LoginRefused 401 ''Invalid login or password.''), Some (ru_id u), rl))))"

definition gui_login ::
  "gui_env \<Rightarrow> scrypt \<Rightarrow> cred_file \<Rightarrow> time \<Rightarrow> string \<Rightarrow> login_body \<Rightarrow> rate_limiter option \<Rightarrow>
   login_check \<times> string option \<times> rate_limiter option" where
  "gui_login env scrypt creds now ip body rl =
     (if \<not> ge_perUser env then
        (let (ok, rl) = login_limit now ip rl
         in if \<not> ok then (Answered (TooManyAttempts False), None, rl)
            else if or_empty (lb_token body) \<noteq> ge_authToken env then (Answered (LoginRefused 200 ''Invalid token''), None, rl)
            else (Answered (LoggedIn ''/gui/'' (SetText (ge_mac env (ge_authToken env)))), None, rl))
      else case truthy (lb_legacyToken body) of
        Some t \<Rightarrow>
          (let (ok, rl) = login_limit now ip rl
           in if \<not> ok then (Answered (TooManyAttempts False), None, rl) else (legacy_login env t, None, rl))
      | None \<Rightarrow> password_login env scrypt creds now ip body rl)"

text \<open>The rest, with the credentials as they are when the session version is read.\<close>

definition finish_login :: "cred_file \<Rightarrow> time \<Rightarrow> login_check \<Rightarrow> login_answer" where
  "finish_login creds now x =
     (case x of Answered a \<Rightarrow> a
      | Checked u method \<Rightarrow>
          LoggedIn (if method = LegacyGuiToken \<and> \<not> cr_hasCredentials u creds then ''/gui/account'' else ''/gui/'')
            (issueSessionCookie now u (cr_getSessionVersion u creds) method))"

definition gui_logout :: "login_answer" where
  "gui_logout = LoggedIn ''/gui/login'' ClearCookie"

section \<open>Further guards\<close>

definition requirePlatformAdmin :: "actor option \<Rightarrow> bool" where
  "requirePlatformAdmin a \<longleftrightarrow> (case a of None \<Rightarrow> False | Some x \<Rightarrow> ac_isPlatformAdmin x)"

record viewer_scope =
  vs_userId :: string
  vs_householdId :: string
  vs_isUnrestricted :: bool

definition resolveViewerScope :: "actor \<Rightarrow> viewer_scope" where
  "resolveViewerScope a =
     \<lparr>vs_userId = ac_userId a, vs_householdId = ac_householdId a, vs_isUnrestricted = ac_isPlatformAdmin a\<rparr>"

definition isDeliveryVisible :: "string list \<Rightarrow> actor \<Rightarrow> bool" where
  "isDeliveryVisible delivery a \<longleftrightarrow> ac_isPlatformAdmin a \<or> ac_userId a \<in> set delivery"

definition shouldSkipCsrf :: "string \<Rightarrow> bool" where
  "shouldSkipCsrf url \<longleftrightarrow> starts_with ''/gui/public/'' url \<or> url = ''/gui/login''"

text \<open>The header is a single text, or absent; the field of the body a text, or absent.\<close>

definition getSubmittedToken :: "string option \<Rightarrow> string option \<Rightarrow> string option" where
  "getSubmittedToken header field = (case truthy header of Some t \<Rightarrow> Some t | None \<Rightarrow> field)"

text \<open>On \<open>GET\<close> and \<open>HEAD\<close>: the token that is set, \<open>fresh\<close> when the request brings none.\<close>

definition csrf_issue :: "string \<Rightarrow> string \<Rightarrow> string \<Rightarrow> cookie \<Rightarrow> string option" where
  "csrf_issue fresh meth url ck =
     (if shouldSkipCsrf url \<or> meth \<notin> {''GET'', ''HEAD''} then None
      else case ck of TextCookie t \<Rightarrow> Some (if t = [] then fresh else t) | _ \<Rightarrow> Some fresh)"

definition csrf_guard :: "string \<Rightarrow> string \<Rightarrow> cookie \<Rightarrow> string option \<Rightarrow> string option \<Rightarrow> bool" where
  "csrf_guard meth url ck header field \<longleftrightarrow>
     (if shouldSkipCsrf url then True
      else if meth \<in> {''POST'', ''PUT'', ''DELETE''} then
        (case ck of
           TextCookie t \<Rightarrow> t \<noteq> [] \<and> (case truthy (getSubmittedToken header field) of None \<Rightarrow> False | Some s \<Rightarrow> s = t)
         | _ \<Rightarrow> False)
      else True)"

section \<open>Changing passwords\<close>

definition MIN_PASSWORD_LENGTH :: nat where "MIN_PASSWORD_LENGTH = 8"

definition new_password_ok :: "string option \<Rightarrow> string option \<Rightarrow> bool" where
  "new_password_ok new confirm \<longleftrightarrow>
     or_empty new \<noteq> [] \<and> MIN_PASSWORD_LENGTH \<le> length (or_empty new) \<and> or_empty new = or_empty confirm"

datatype password_answer = PasswordRefused | PasswordThrew | PasswordChanged set_cookie

text \<open>One's own password: with credentials on file the current one has to be given.\<close>

definition changeOwnPassword ::
  "scrypt \<Rightarrow> string \<Rightarrow> time \<Rightarrow> bool \<Rightarrow> actor \<Rightarrow> string option \<Rightarrow> string option \<Rightarrow> string option \<Rightarrow> cred_file \<Rightarrow>
   password_answer \<times> cred_file" where
  "changeOwnPassword scrypt salt now ok a current new confirm creds =
     (if \<not> new_password_ok new confirm then (PasswordRefused, creds)
      else if cr_hasCredentials (ac_userId a) creds \<and> \<not> cr_verifyPassword scrypt (ac_userId a) (or_empty current) creds
      then (PasswordRefused, creds)
      else (let (succeeded, creds) = cr_setPassword scrypt salt now ok (ac_userId a) (or_empty new) creds
            in if succeeded then
                 (PasswordChanged (issueSessionCookie now (ac_userId a) (cr_getSessionVersion (ac_userId a) creds) GuiPassword), creds)
               else (PasswordThrew, creds)))"

definition resetPassword ::
  "scrypt \<Rightarrow> string \<Rightarrow> time \<Rightarrow> bool \<Rightarrow> actor option \<Rightarrow> reg_user list \<Rightarrow> string \<Rightarrow> string option \<Rightarrow> string option \<Rightarrow> cred_file \<Rightarrow>
   password_answer \<times> cred_file" where
  "resetPassword scrypt salt now ok a users u new confirm creds =
     (if \<not> requirePlatformAdmin a then (PasswordRefused, creds)
      else if \<not> safe_segment u \<or> um_getUser u users = None then (PasswordRefused, creds)
      else if \<not> new_password_ok new confirm then (PasswordRefused, creds)
      else (let (succeeded, creds) = cr_setPassword scrypt salt now ok u (or_empty new) creds
            in (if succeeded then PasswordChanged KeepCookie else PasswordThrew, creds)))"

section \<open>Facts\<close>

definition public_url :: "string \<Rightarrow> bool" where
  "public_url url \<longleftrightarrow> url = ''/gui/login'' \<or> starts_with ''/gui/login?'' url \<or> starts_with ''/gui/public/'' url"

text \<open>What an actor claims is what the services say at that moment.\<close>

definition actor_ok :: "gui_env \<Rightarrow> cred_file \<Rightarrow> actor \<Rightarrow> bool" where
  "actor_ok env creds a \<longleftrightarrow>
     (case um_getUser (ac_userId a) (ge_users env) of None \<Rightarrow> False | Some u \<Rightarrow> ac_isPlatformAdmin a = ru_isAdmin u) \<and>
     ac_householdId a \<noteq> [] \<and> hs_getHouseholdForUser (ac_userId a) (ge_households env) = Some (ac_householdId a) \<and>
     ac_isHouseholdAdmin a =
       (case hs_getHousehold (ac_householdId a) (ge_households env) of None \<Rightarrow> False | Some h \<Rightarrow> ac_userId a \<in> set (hh_adminUserIds h)) \<and>
     ac_scopes a = None \<and> ac_sessionVersion a = Some (cr_getSessionVersion (ac_userId a) creds)"

lemma buildActor_ok:
  "buildActor u (cr_getSessionVersion u creds) m (ge_households env) (ge_users env) = Some a \<longleftrightarrow>
     actor_ok env creds a \<and> ac_userId a = u \<and> ac_authMethod a = m"
  by (cases a) (auto simp: buildActor_def actor_ok_def truthy_iff split: option.splits)

text \<open>The two ways in.\<close>

lemma guard_enters:
  assumes "gui_guard env creds now url ck = Enter (Some a) sc"
  shows "actor_ok env creds a \<and> \<not> public_url url \<and> ge_perUser env \<and>
    sc = issueSessionCookie now (ac_userId a) (cr_getSessionVersion (ac_userId a) creds) (ac_authMethod a) \<and>
    ((\<exists>c. ck = SessionCookie c \<and> sk_userId c = ac_userId a \<and> sk_issuedAt c \<noteq> 0 \<and> now - sk_issuedAt c \<le> MAX_COOKIE_AGE_MS \<and>
        (cr_getSessionVersion (ac_userId a) creds \<in> {0, sk_sessionVersion c})) \<or>
     (\<exists>x. ck = TextCookie (ge_mac env (ge_authToken env)) \<and> ge_authToken env \<noteq> [] \<and> admins env = [x] \<and> ru_id x = ac_userId a))"
proof (cases ck)
  case (TextCookie v)
  have "\<exists>x. admins env = [x] \<and> v = ge_mac env (ge_authToken env) \<and> ge_authToken env \<noteq> [] \<and> ge_perUser env \<and> \<not> public_url url \<and>
      buildActor (ru_id x) (cr_getSessionVersion (ru_id x) creds) LegacyGuiToken (ge_households env) (ge_users env) = Some a \<and>
      sc = issueSessionCookie now (ru_id x) (cr_getSessionVersion (ru_id x) creds) LegacyGuiToken"
    using assms TextCookie by (auto simp: gui_guard_def to_login_def public_url_def Let_def split: if_splits list.splits option.splits)
  then show ?thesis using TextCookie by (auto simp: buildActor_ok)
next
  case (SessionCookie c)
  then show ?thesis using assms
    by (auto simp: gui_guard_def to_login_def public_url_def Let_def buildActor_ok split: if_splits option.splits)
qed (use assms in \<open>auto simp: gui_guard_def to_login_def split: if_splits\<close>)

lemma guard_lets_in:
  assumes "actor_ok env creds a" "\<not> public_url url" "ge_perUser env" "sk_issuedAt c \<noteq> 0" "now - sk_issuedAt c \<le> MAX_COOKIE_AGE_MS"
    "sk_userId c = ac_userId a" "sk_sessionVersion c = cr_getSessionVersion (ac_userId a) creds" "sk_authMethod c = Some (ac_authMethod a)"
  shows "gui_guard env creds now url (SessionCookie c) =
    Enter (Some a) (issueSessionCookie now (ac_userId a) (cr_getSessionVersion (ac_userId a) creds) (ac_authMethod a))"
proof -
  have "um_getUser (ac_userId a) (ge_users env) \<noteq> None" using assms(1) by (simp add: actor_ok_def split: option.splits)
  moreover have "buildActor (ac_userId a) (cr_getSessionVersion (ac_userId a) creds) (ac_authMethod a) (ge_households env) (ge_users env) = Some a"
    using assms(1) by (simp add: buildActor_ok)
  ultimately show ?thesis using assms(2-) by (auto simp: gui_guard_def public_url_def Let_def)
qed

section \<open>Cookies in circulation\<close>

text \<open>The credentials with all cookies that were ever handed out, and everything that touches either.\<close>

record gui_world =
  gw_creds :: cred_file
  gw_issued :: "session_cookie list"

datatype gui_event =
    CredCall cred_op
  | GuiRequest gui_env time string cookie
  | LoginDone time string auth_method
  | OwnPassword string time bool actor "string option" "string option" "string option"
  | AdminReset string time bool "actor option" "reg_user list" string "string option" "string option"

fun session_of :: "set_cookie \<Rightarrow> session_cookie list" where
  "session_of (SetSession c) = [c]"
| "session_of _ = []"

fun answer_session :: "gui_answer \<Rightarrow> session_cookie list" where
  "answer_session (Enter _ sc) = session_of sc"
| "answer_session _ = []"

fun login_session :: "login_answer \<Rightarrow> session_cookie list" where
  "login_session (LoggedIn _ sc) = session_of sc"
| "login_session _ = []"

fun password_session :: "password_answer \<Rightarrow> session_cookie list" where
  "password_session (PasswordChanged sc) = session_of sc"
| "password_session _ = []"

definition hand_out :: "session_cookie list \<times> cred_file \<Rightarrow> gui_world \<Rightarrow> gui_world" where
  "hand_out x w = \<lparr>gw_creds = snd x, gw_issued = gw_issued w @ fst x\<rparr>"

text \<open>What an event does to the credentials, and the sessions it hands out.\<close>

fun event_effect :: "scrypt \<Rightarrow> gui_event \<Rightarrow> cred_file \<Rightarrow> session_cookie list \<times> cred_file" where
  "event_effect scrypt (CredCall x) f = ([], cr_step scrypt x f)"
| "event_effect scrypt (GuiRequest env now url ck) f = (answer_session (gui_guard env f now url ck), f)"
| "event_effect scrypt (LoginDone now u m) f = (login_session (finish_login f now (Checked u m)), f)"
| "event_effect scrypt (OwnPassword salt now ok a current new confirm) f =
     (let (x, f) = changeOwnPassword scrypt salt now ok a current new confirm f in (password_session x, f))"
| "event_effect scrypt (AdminReset salt now ok a users u new confirm) f =
     (let (x, f) = resetPassword scrypt salt now ok a users u new confirm f in (password_session x, f))"

definition gui_step :: "scrypt \<Rightarrow> gui_event \<Rightarrow> gui_world \<Rightarrow> gui_world" where
  "gui_step scrypt e w = hand_out (event_effect scrypt e (gw_creds w)) w"

fun event_clears :: "string \<Rightarrow> gui_event \<Rightarrow> bool" where
  "event_clears u (CredCall x) = clears u x"
| "event_clears u _ = False"

text \<open>The event sets a new password for the user, or raises the version of one who has a password.\<close>

fun revokes :: "scrypt \<Rightarrow> string \<Rightarrow> gui_event \<Rightarrow> cred_file \<Rightarrow> bool" where
  "revokes scrypt u (CredCall (SetPassword salt now ok v pw)) f = (v = u \<and> fst (cr_setPassword scrypt salt now ok v pw f))"
| "revokes scrypt u (CredCall (IncrementVersion now ok v)) f =
     (v = u \<and> cr_hasCredentials u f \<and> fst (cr_incrementSessionVersion now ok v f) \<noteq> None)"
| "revokes scrypt u (OwnPassword salt now ok a current new confirm) f =
     (ac_userId a = u \<and> (case changeOwnPassword scrypt salt now ok a current new confirm f of (PasswordChanged _, _) \<Rightarrow> True | _ \<Rightarrow> False))"
| "revokes scrypt u (AdminReset salt now ok a users v new confirm) f =
     (v = u \<and> (case resetPassword scrypt salt now ok a users v new confirm f of (PasswordChanged _, _) \<Rightarrow> True | _ \<Rightarrow> False))"
| "revokes scrypt u _ f = False"

lemma set_version:
  "cr_setPassword scrypt salt now ok v pw f = (succeeded, f') \<Longrightarrow>
    cr_getSessionVersion u f' = (if u = v \<and> succeeded then cr_getSessionVersion u f + 1 else cr_getSessionVersion u f)"
  by (auto simp: cr_setPassword_def cr_getSessionVersion_def load_after split: option.splits if_splits)

lemma event_version:
  "\<not> event_clears u e \<Longrightarrow> cr_getSessionVersion u f \<le> cr_getSessionVersion u (snd (event_effect scrypt e f))"
proof (cases e)
  case (CredCall x)
  then show "\<not> event_clears u e \<Longrightarrow> ?thesis" by (simp add: version_step)
qed (auto simp: changeOwnPassword_def resetPassword_def set_version Let_def split: prod.splits if_splits)

lemma revokes_version:
  "revokes scrypt u e f \<Longrightarrow> cr_getSessionVersion u f < cr_getSessionVersion u (snd (event_effect scrypt e f))"
  by (induction scrypt u e f rule: revokes.induct)
    (auto simp: changeOwnPassword_def resetPassword_def set_version version_after cr_incrementSessionVersion_def
      cr_setPassword_def cr_hasCredentials_def cr_getSessionVersion_def hashPassword_def load_after Let_def
      split: prod.splits if_splits option.splits)

lemma guard_enters_unnamed: "gui_guard env creds now url ck = Enter None sc \<Longrightarrow> session_of sc = []"
  by (auto simp: gui_guard_def to_login_def Let_def split: if_splits list.splits option.splits cookie.splits)

lemma event_hands_out:
  "c \<in> set (fst (event_effect scrypt e f)) \<Longrightarrow> sk_sessionVersion c = cr_getSessionVersion (sk_userId c) (snd (event_effect scrypt e f))"
proof (cases e)
  case (GuiRequest env now url ck)
  assume c: "c \<in> set (fst (event_effect scrypt e f))"
  show ?thesis
  proof (cases "gui_guard env f now url ck")
    case (Enter a sc)
    then obtain x where "gui_guard env f now url ck = Enter (Some x) sc"
      using c GuiRequest guard_enters_unnamed [of env f now url ck sc] by (cases a) auto
    from guard_enters [OF this] this c show ?thesis by (auto simp: GuiRequest issueSessionCookie_def)
  qed (use c GuiRequest in auto)
qed (auto simp: changeOwnPassword_def resetPassword_def set_version finish_login_def issueSessionCookie_def Let_def
    split: prod.splits if_splits)

text \<open>No cookie of a user runs ahead of the version on file, while it is not cleared.\<close>

lemma issued_bounded:
  assumes "\<forall>x \<in> set es. \<not> event_clears u x" "0 \<le> cr_getSessionVersion u (gw_creds w)"
    "\<forall>c \<in> set (gw_issued w). sk_userId c = u \<longrightarrow> 0 \<le> sk_sessionVersion c \<and> sk_sessionVersion c \<le> cr_getSessionVersion u (gw_creds w)"
  shows "\<forall>c \<in> set (gw_issued (fold (gui_step scrypt) es w)). sk_userId c = u \<longrightarrow>
    0 \<le> sk_sessionVersion c \<and> sk_sessionVersion c \<le> cr_getSessionVersion u (gw_creds (fold (gui_step scrypt) es w))"
  using assms
proof (induction es arbitrary: w)
  case (Cons e es)
  have le: "cr_getSessionVersion u (gw_creds w) \<le> cr_getSessionVersion u (gw_creds (gui_step scrypt e w))"
    using event_version [of u e "gw_creds w" scrypt] Cons.prems(1) by (simp add: gui_step_def hand_out_def)
  have "\<forall>c \<in> set (gw_issued (gui_step scrypt e w)). sk_userId c = u \<longrightarrow>
      0 \<le> sk_sessionVersion c \<and> sk_sessionVersion c \<le> cr_getSessionVersion u (gw_creds (gui_step scrypt e w))"
  proof (intro ballI impI)
    fix c assume c: "c \<in> set (gw_issued (gui_step scrypt e w))" "sk_userId c = u"
    show "0 \<le> sk_sessionVersion c \<and> sk_sessionVersion c \<le> cr_getSessionVersion u (gw_creds (gui_step scrypt e w))"
    proof (cases "c \<in> set (gw_issued w)")
      case True
      then show ?thesis using Cons.prems(3) c le by force
    next
      case False
      then show ?thesis using event_hands_out [of c scrypt e "gw_creds w"] c Cons.prems(2) le
        by (simp add: gui_step_def hand_out_def)
    qed
  qed
  then show ?case using Cons.IH [of "gui_step scrypt e w"] Cons.prems(1,2) le by simp
qed simp

lemma versions_grow:
  "\<forall>x \<in> set es. \<not> event_clears u x \<Longrightarrow>
    cr_getSessionVersion u (gw_creds w) \<le> cr_getSessionVersion u (gw_creds (fold (gui_step scrypt) es w))"
proof (induction es arbitrary: w)
  case (Cons e es)
  have "cr_getSessionVersion u (gw_creds w) \<le> cr_getSessionVersion u (gw_creds (gui_step scrypt e w))"
    using event_version [of u e "gw_creds w" scrypt] Cons.prems by (simp add: gui_step_def hand_out_def)
  then show ?case using Cons.IH [of "gui_step scrypt e w"] Cons.prems by simp
qed simp

lemma old_cookie_refused:
  assumes "0 \<le> sk_sessionVersion c" "sk_sessionVersion c < cr_getSessionVersion (sk_userId c) creds" "\<not> public_url url"
  shows "\<exists>reason. gui_guard env creds now url (SessionCookie c) = to_login reason"
  using assms by (auto simp: gui_guard_def public_url_def Let_def)

section \<open>Runs of logins\<close>

text \<open>Logins, each with the configuration, users and credentials of its time, through the shared limiter and its clean-up timer.\<close>

datatype login_event = Login gui_env cred_file string login_body | Cleanup

fun login_step ::
  "scrypt \<Rightarrow> time \<times> login_event \<Rightarrow> rate_limiter \<times> (time \<times> string) list \<Rightarrow> rate_limiter \<times> (time \<times> string) list" where
  "login_step scrypt (now, Login env creds ip body) (rl, checked) =
     (case gui_login env scrypt creds now ip body (Some rl) of
        (_, v, rl') \<Rightarrow> (case rl' of None \<Rightarrow> rl | Some l \<Rightarrow> l, checked @ (case v of None \<Rightarrow> [] | Some u \<Rightarrow> [(now, u)])))"
| "login_step scrypt (now, Cleanup) (rl, checked) = (rl_purgeExpiredAll now rl, checked)"

text \<open>The accounts whose password was compared, with the times.\<close>

definition passwords_checked :: "scrypt \<Rightarrow> (time \<times> login_event) list \<Rightarrow> rate_limiter \<Rightarrow> (time \<times> string) list" where
  "passwords_checked scrypt es rl = snd (fold (login_step scrypt) es (rl, []))"

text \<open>Every comparison has a slot under the key of its account.\<close>

definition covers :: "(time \<times> string) list \<Rightarrow> (time \<times> string) list \<Rightarrow> bool" where
  "covers checked lg \<longleftrightarrow>
     (\<forall>w t u. length (in_window w t u checked) \<le> length (in_window w t (''user:'' @ u) lg))"

lemma in_window_append: "in_window w t k (lg @ lg') = in_window w t k lg @ in_window w t k lg'"
  by (simp add: in_window_def slots_def)

lemma in_window_one: "in_window w t k [(s, k')] = (if k' = k \<and> live w t s \<and> s \<le> t then [s] else [])"
  by (simp add: in_window_def slots_def)

lemma covers_empty: "covers [] lg"
  by (simp add: covers_def in_window_def slots_def)

lemma covers_slot: "covers checked lg \<Longrightarrow> covers checked (lg @ lg')"
  by (simp add: covers_def in_window_append trans_le_add1)

lemma covers_check: "covers checked lg \<Longrightarrow> covers (checked @ [(now, u)]) (lg @ [(now, ''user:'' @ u)])"
  by (auto simp: covers_def in_window_append in_window_one)

lemma rl_run_append: "rl_run (es @ es') rl lg = (let (lg, rl) = rl_run es rl lg in rl_run es' rl lg)"
  by (induction es arbitrary: rl lg) (auto simp: Let_def)

lemma login_limit_run:
  "login_limit now key (Some rl) = (ok, rl') \<Longrightarrow>
    rl_run [(now, EvAllowed key)] rl lg = (lg @ (if ok then [(now, key)] else []), the rl') \<and> rl' \<noteq> None"
  by (auto simp: login_limit_def split: prod.splits)

text \<open>One login is at most two calls of the limiter.\<close>

lemma login_run:
  assumes "gui_login env scrypt creds now ip body (Some rl) = (x, v, rl')"
  shows "\<exists>ks lg'. rl_run (map (Pair now) (map EvAllowed ks)) rl lg = (lg @ lg', the rl') \<and> rl' \<noteq> None \<and>
    (\<forall>u. v = Some u \<longrightarrow> (\<exists>lg1. lg' = lg1 @ [(now, ''user:'' @ u)]))"
proof -
  let ?body = "trim (or_empty (lb_userId body))"
  let ?r = "resolve_login env ?body"
  obtain ok1 rl1 where l1: "login_limit now ip (Some rl) = (ok1, rl1)" by fastforce
  obtain ok2 rl2 where l2: "login_limit now (account_key ip ?body ?r) rl1 = (ok2, rl2)" by fastforce
  note r1 = login_limit_run [OF l1, of lg]
  then have r2: "rl_run [(now, EvAllowed (account_key ip ?body ?r))] (the rl1) lg' =
      (lg' @ (if ok2 then [(now, account_key ip ?body ?r)] else []), the rl2) \<and> rl2 \<noteq> None" for lg'
    using l2 login_limit_run by fastforce
  consider "(v, rl') = (None, Some rl)" | "(v, rl') = (None, rl1)" | "v = None" "rl' = rl2"
    | u where "?r = Some u" "v = Some (ru_id u)" "rl' = rl2" "ok2"
    using assms by (auto simp: gui_login_def password_login_def l1 l2 Let_def split: if_splits option.splits)
  then show ?thesis
  proof cases
    case 1
    then show ?thesis by (intro exI [of _ "[]"]) simp
  next
    case 2
    then show ?thesis using r1 by (intro exI [of _ "[ip]"]) auto
  next
    case 3
    then show ?thesis using r1 r2 by (intro exI [of _ "[ip, account_key ip ?body ?r]"]) (auto simp: account_key_def)
  next
    case 4
    then show ?thesis using r1 r2 by (intro exI [of _ "[ip, account_key ip ?body ?r]"]) (auto simp: account_key_def)
  qed
qed

lemma in_order_block: "in_order now es \<Longrightarrow> t0 \<le> now \<Longrightarrow> in_order t0 (map (Pair now) ks @ es)"
proof (induction ks arbitrary: t0)
  case Nil
  then show ?case by (cases es) auto
qed auto

lemma login_step_covered:
  assumes "covers checked lg"
  shows "\<exists>es lg' rl' checked'. login_step scrypt (now, e) (rl, checked) = (rl', checked') \<and>
    rl_run (map (Pair now) es) rl lg = (lg', rl') \<and> covers checked' lg'"
proof (cases e)
  case Cleanup
  then show ?thesis using assms by (intro exI [of _ "[EvPurge]"]) simp
next
  case (Login env creds ip body)
  obtain x v rl' where g: "gui_login env scrypt creds now ip body (Some rl) = (x, v, rl')" by (metis prod_cases3)
  obtain ks lg' where r: "rl_run (map (Pair now) (map EvAllowed ks)) rl lg = (lg @ lg', the rl')" "rl' \<noteq> None"
      and v: "\<forall>u. v = Some u \<longrightarrow> (\<exists>lg1. lg' = lg1 @ [(now, ''user:'' @ u)])"
    using login_run [OF g, of lg] by blast
  have "covers (checked @ (case v of None \<Rightarrow> [] | Some u \<Rightarrow> [(now, u)])) (lg @ lg')"
  proof (cases v)
    case None
    then show ?thesis using covers_slot [OF assms] by simp
  next
    case (Some u)
    then obtain lg1 where "lg' = lg1 @ [(now, ''user:'' @ u)]" using v by blast
    then show ?thesis using covers_check [OF covers_slot [OF assms, of lg1], of now u] Some by simp
  qed
  then show ?thesis using g r Login
    by (intro exI [of _ "map EvAllowed ks"] exI [of _ "lg @ lg'"]) (auto split: option.splits)
qed

lemma run_covered:
  "in_order t0 es \<Longrightarrow> covers checked lg \<Longrightarrow>
    \<exists>es'. in_order t0 es' \<and> covers (snd (fold (login_step scrypt) es (rl, checked))) (fst (rl_run es' rl lg))"
proof (induction es arbitrary: t0 rl checked lg)
  case Nil
  then show ?case by (intro exI [of _ "[]"]) simp
next
  case (Cons te es)
  obtain now e where te: "te = (now, e)" by fastforce
  obtain es1 lg' rl' checked' where s: "login_step scrypt (now, e) (rl, checked) = (rl', checked')"
      and r: "rl_run (map (Pair now) es1) rl lg = (lg', rl')" and c: "covers checked' lg'"
    using login_step_covered [OF Cons.prems(2)] by blast
  obtain es2 where es2: "in_order now es2" "covers (snd (fold (login_step scrypt) es (rl', checked'))) (fst (rl_run es2 rl' lg'))"
    using Cons.IH [OF _ c] Cons.prems(1) te by fastforce
  have "in_order t0 (map (Pair now) es1 @ es2)" using Cons.prems(1) te es2(1) by (intro in_order_block) simp_all
  then show ?case using es2(2) by (intro exI [of _ "map (Pair now) es1 @ es2"]) (simp add: te s r rl_run_append)
qed

section \<open>Properties\<close>

text \<open>
  C6. Setting a new password, by the user or by an administrator, or raising the session version ends every session
  the user had: whatever requests, logins and password changes came before and come after, in any order, a cookie handed
  out before is sent back to the login page by the guard, as long as the credentials of the user are not cleared.
\<close>

theorem new_password_ends_sessions:
  assumes "0 \<le> cr_getSessionVersion u f"
    and "w1 = fold (gui_step scrypt) before \<lparr>gw_creds = f, gw_issued = []\<rparr>" and "revokes scrypt u e (gw_creds w1)"
    and "w2 = fold (gui_step scrypt) since (gui_step scrypt e w1)"
    and "\<forall>x \<in> set (before @ e # since). \<not> event_clears u x"
    and "c \<in> set (gw_issued w1)" and "sk_userId c = u" and "\<not> public_url url"
  shows "\<exists>reason. gui_guard env (gw_creds w2) now url (SessionCookie c) = to_login reason"
proof -
  have "0 \<le> sk_sessionVersion c \<and> sk_sessionVersion c \<le> cr_getSessionVersion u (gw_creds w1)"
    using issued_bounded [of before u "\<lparr>gw_creds = f, gw_issued = []\<rparr>" scrypt] assms by auto
  moreover have "cr_getSessionVersion u (gw_creds w1) < cr_getSessionVersion u (gw_creds (gui_step scrypt e w1))"
    using revokes_version [OF assms(3)] by (simp add: gui_step_def hand_out_def)
  moreover have "\<dots> \<le> cr_getSessionVersion u (gw_creds w2)" unfolding assms(4) using assms(5) by (intro versions_grow) auto
  ultimately show ?thesis using assms(7,8) by (intro old_cookie_refused) auto
qed

theorem new_password_ends_sessions_witness:
  defines "scrypt \<equiv> \<lambda>s salt p. Some (s @ salt)"
    and "before \<equiv> [CredCall (SetPassword ''x'' 1 True ''7'' ''first-one''), LoginDone 2 ''7'' GuiPassword]"
    and "a \<equiv> \<lparr>ac_userId = ''1'', ac_householdId = ''h'', ac_isPlatformAdmin = True, ac_isHouseholdAdmin = False,
      ac_authMethod = GuiPassword, ac_scopes = None, ac_sessionVersion = Some 1\<rparr>"
    and "c \<equiv> \<lparr>sk_userId = ''7'', sk_sessionVersion = 1, sk_issuedAt = 2, sk_authMethod = Some GuiPassword\<rparr>"
  defines "e \<equiv> AdminReset ''y'' 3 True (Some a)
      [\<lparr>ru_id = ''7'', ru_name = ''Bo'', ru_isAdmin = False, ru_enabledApps = [], ru_sharedScopes = [], ru_householdId = None\<rparr>]
      ''7'' (Some ''other-one'') (Some ''other-one'')"
  shows "c \<in> set (gw_issued (fold (gui_step scrypt) before \<lparr>gw_creds = NoCredFile, gw_issued = []\<rparr>)) \<and>
    (\<forall>env. \<exists>reason. gui_guard env (gw_creds (fold (gui_step scrypt) [LoginDone 4 ''7'' GuiPassword]
      (gui_step scrypt e (fold (gui_step scrypt) before \<lparr>gw_creds = NoCredFile, gw_issued = []\<rparr>)))) 5 ''/gui/'' (SessionCookie c) = to_login reason)"
proof -
  define w where "w = fold (gui_step scrypt) before \<lparr>gw_creds = NoCredFile, gw_issued = []\<rparr>"
  have c: "c \<in> set (gw_issued w)"
    by (simp add: w_def before_def c_def gui_step_def hand_out_def scrypt_def cr_setPassword_def hashPassword_def finish_login_def
        issueSessionCookie_def cr_getSessionVersion_def cr_store_def)
  have r: "revokes scrypt ''7'' e (gw_creds w)"
    by (simp add: e_def a_def resetPassword_def requirePlatformAdmin_def safe_segment_def safe_char_def is_digit_def um_getUser_def new_password_ok_def or_empty_def
        MIN_PASSWORD_LENGTH_def cr_setPassword_def hashPassword_def scrypt_def)
  have "0 \<le> cr_getSessionVersion ''7'' NoCredFile" by (simp add: cr_getSessionVersion_def)
  from new_password_ends_sessions [OF this w_def r refl _ c, of "[LoginDone 4 ''7'' GuiPassword]" "''/gui/''" _ 5] c
  show ?thesis by (simp add: w_def before_def e_def c_def public_url_def starts_with_def)
qed



text \<open>
  C20. Passwords cannot be guessed fast: however logins come in, from whatever addresses, in whatever spelling of the name
  and with whatever changes to users and credentials in between, the password of one account is compared at most five
  times in any fifteen minutes.
\<close>

theorem password_guesses_bounded:
  assumes "createLoginRateLimiter = Inr rl" and "in_order t0 es"
  shows "length (in_window (15 * 60000) t u (passwords_checked scrypt es rl)) \<le> 5"
proof -
  have rl: "rl_maxAttempts rl = 5" "rl_windowMs rl = 15 * 60000" "0 < rl_windowMs rl" "rl_entries rl = []"
    using assms(1) by (auto simp: createLoginRateLimiter_def new_rate_limiter_def)
  then have start: "log_agrees t0 [] rl" "rl_wf rl" "log_bounded (rl_maxAttempts rl) (rl_windowMs rl) t0 []"
    by (simp_all add: log_agrees_def rl_wf_def log_bounded_def slots_def in_window_def)
  obtain es' where es': "in_order t0 es'" "covers (passwords_checked scrypt es rl) (fst (rl_run es' rl []))"
    using run_covered [OF assms(2) covers_empty] unfolding passwords_checked_def by blast
  from rl_run_bounded [OF es'(1) start(1,2) rl(3) start(3)]
  have "length (in_window (15 * 60000) t (''user:'' @ u) (fst (rl_run es' rl []))) \<le> 5"
    by (auto simp: log_bounded_def rl)
  then show ?thesis using es'(2) order_trans unfolding covers_def by blast
qed

theorem password_guesses_bounded_witness:
  defines "env \<equiv> \<lparr>ge_authToken = [], ge_mac = \<lambda>t. t, ge_perUser = True, ge_byName = True, ge_testIds = False,
      ge_users = [\<lparr>ru_id = ''7'', ru_name = ''Bo'', ru_isAdmin = True, ru_enabledApps = [], ru_sharedScopes = [], ru_householdId = Some ''h''\<rparr>],
      ge_households = new_household_service []\<rparr>"
    and "body \<equiv> \<lparr>lb_token = None, lb_legacyToken = None, lb_userId = Some ''7'', lb_password = Some ''guess''\<rparr>"
    and "rl \<equiv> \<lparr>rl_maxAttempts = 5, rl_windowMs = 900000, rl_entries = [], rl_cleanupTimer = False, rl_disposed = False\<rparr>"
  shows "passwords_checked (\<lambda>s salt p. None) [(1, Login env NoCredFile ''ip'' body)] rl = [(1, ''7'')] \<and>
    length (in_window (15 * 60000) 1 ''7'' (passwords_checked (\<lambda>s salt p. None) [(1, Login env NoCredFile ''ip'' body)] rl)) \<le> 5"
proof -
  have new: "createLoginRateLimiter = Inr rl"
    by (simp add: createLoginRateLimiter_def new_rate_limiter_def rl_def)
  have ord: "in_order 0 [(1, Login env NoCredFile ''ip'' body)]" by simp
  have "passwords_checked (\<lambda>s salt p. None) [(1, Login env NoCredFile ''ip'' body)] rl = [(1, ''7'')]"
    by (simp add: passwords_checked_def gui_login_def password_login_def env_def body_def rl_def or_empty_def trim_def is_ws_def
        login_limit_def rl_isAllowed_def resolve_login_def is_digit_def um_getUser_def account_key_def Let_def get_or_def)
  then show ?thesis using password_guesses_bounded [OF new ord] by blast
qed

section \<open>What the checks leave open\<close>

text \<open>
  Version 0 is taken for a user who never set a password: with the credentials cleared, or their file unreadable, every
  cookie of the last day is accepted, revoked ones too.
\<close>

lemma no_version_no_check:
  assumes "cr_getSessionVersion (sk_userId c) creds = 0" "\<not> public_url url" "ge_perUser env"
    "sk_issuedAt c \<noteq> 0" "now - sk_issuedAt c \<le> MAX_COOKIE_AGE_MS" "actor_ok env creds a" "ac_userId a = sk_userId c"
    "ac_authMethod a = (case sk_authMethod c of None \<Rightarrow> GuiPassword | Some m \<Rightarrow> m)"
  shows "\<exists>sc. gui_guard env creds now url (SessionCookie c) = Enter (Some a) sc"
proof -
  have "um_getUser (sk_userId c) (ge_users env) \<noteq> None" using assms(6,7) by (simp add: actor_ok_def split: option.splits)
  moreover have "buildActor (sk_userId c) 0 (case sk_authMethod c of None \<Rightarrow> GuiPassword | Some m \<Rightarrow> m) (ge_households env) (ge_users env) = Some a"
    using assms buildActor_ok [of "sk_userId c" creds _ env a] by simp
  ultimately show ?thesis using assms(1-5) by (auto simp: gui_guard_def public_url_def Let_def)
qed

lemma unreadable_credentials_have_no_versions: "cr_getSessionVersion u BadCredFile = 0"
  by (simp add: cr_getSessionVersion_def)

text \<open>The first password after clearing is version 1 again, as the first one ever was.\<close>

lemma versions_start_again:
  assumes "cr_clearCredentials True u f = (True, f')" "cr_setPassword scrypt salt now True u pw f' = (True, f'')"
  shows "cr_getSessionVersion u f'' = 1"
proof -
  have "cr_getSessionVersion u f' = 0"
    using assms(1) by (auto simp: cr_clearCredentials_def cr_getSessionVersion_def load_after split: if_splits option.splits)
  then show ?thesis using set_version [OF assms(2)] by simp
qed

text \<open>A password that is changed between its check and the reading of the version still logs in, with the new version.\<close>

lemma old_password_new_session:
  assumes "cr_setPassword scrypt salt now True u new f = (True, f')" "cr_verifyPassword scrypt u old f"
  shows "finish_login f' now (Checked u GuiPassword) =
    LoggedIn ''/gui/'' (issueSessionCookie now u (cr_getSessionVersion u f + 1) GuiPassword)"
  using set_version [OF assms(1)] by (simp add: finish_login_def)

end
