(* ===== verification/Api_Keys.thy ===== *)
theory Api_Keys
  imports Credentials
begin

text \<open>
  API keys, \<open>services/api-keys/index.ts\<close>. A token is \<open>pas_<keyId>_<secret>\<close>; the file holds the derived secret. Every
  change of the file runs under its lock and is one step (\<open>key_step\<close>); the time of last use is written by a step of its own,
  some time after the verification that asked for it. \<open>new Date(text)\<close> is the parameter \<open>date_of\<close>, \<open>None\<close> for no date. A key is
  accepted exactly while it is alive in the history of these steps.
\<close>

section \<open>State\<close>

record api_key =
  ak_keyId :: string
  ak_userId :: string
  ak_scopes :: "string list"
  ak_salt :: string
  ak_hashedSecret :: string
  ak_params :: scrypt_params
  ak_createdAt :: string
  ak_expiresAt :: "string option"
  ak_revokedAt :: "string option"
  ak_lastUsedAt :: "string option"
  ak_label :: "string option"

record create_opts =
  co_scopes :: "string list"
  co_expiresAt :: "string option"
  co_label :: "string option"

text \<open>
  \<open>ks_file\<close> is the list in the file, \<open>None\<close> when it is missing, cannot be read, has another shape or another version;
  \<open>ks_lastUsed\<close> the times of the last writes of \<open>lastUsedAt\<close>.
\<close>

record key_service =
  ks_file :: "api_key list option"
  ks_lastUsed :: "time jsmap"

definition API_KEY_PARAMS :: scrypt_params where
  "API_KEY_PARAMS = \<lparr>sc_N = 4096, sc_r = 8, sc_p = 1, sc_keyLen = 32\<rparr>"

definition LAST_USED_DEBOUNCE_MS :: time where "LAST_USED_DEBOUNCE_MS = 60000"

definition ks_load :: "key_service \<Rightarrow> api_key list" where
  "ks_load s = (case ks_file s of None \<Rightarrow> [] | Some ks \<Rightarrow> ks)"

definition find_key :: "string \<Rightarrow> api_key list \<Rightarrow> api_key option" where
  "find_key i ks = find (\<lambda>k. ak_keyId k = i) ks"

text \<open>Changing the first key with an id in place.\<close>

fun change_key :: "string \<Rightarrow> (api_key \<Rightarrow> api_key) \<Rightarrow> api_key list \<Rightarrow> api_key list" where
  "change_key i f [] = []"
| "change_key i f (k # ks) = (if ak_keyId k = i then f k # ks else k # change_key i f ks)"

section \<open>Operations\<close>

definition full_token :: "string \<Rightarrow> string \<Rightarrow> string" where
  "full_token keyId secret = ''pas_'' @ keyId @ ''_'' @ secret"

definition new_key :: "string \<Rightarrow> string \<Rightarrow> string \<Rightarrow> time \<Rightarrow> string \<Rightarrow> create_opts \<Rightarrow> api_key" where
  "new_key keyId salt key now u opts =
     \<lparr>ak_keyId = keyId, ak_userId = u, ak_scopes = co_scopes opts, ak_salt = salt, ak_hashedSecret = to_hex key,
      ak_params = API_KEY_PARAMS, ak_createdAt = iso_string now, ak_expiresAt = co_expiresAt opts,
      ak_revokedAt = None, ak_lastUsedAt = None, ak_label = co_label opts\<rparr>"

text \<open>\<open>None\<close>: the call throws, because the derivation or the write failed.\<close>

definition ks_createKey ::
  "scrypt \<Rightarrow> string \<Rightarrow> string \<Rightarrow> string \<Rightarrow> time \<Rightarrow> bool \<Rightarrow> string \<Rightarrow> create_opts \<Rightarrow> key_service \<Rightarrow> (string \<times> string) option \<times> key_service" where
  "ks_createKey scrypt keyId secret salt now ok u opts s =
     (case scrypt secret salt API_KEY_PARAMS of None \<Rightarrow> (None, s)
      | Some key \<Rightarrow>
          if ok then
            (Some (keyId, full_token keyId secret),
             s\<lparr>ks_file := Some (ks_load s @ [new_key keyId salt key now u opts])\<rparr>)
          else (None, s))"

definition parseToken :: "string \<Rightarrow> (string \<times> string) option" where
  "parseToken t =
     (if \<not> starts_with ''pas_'' t then None
      else (let r = drop 4 t; i = takeWhile (\<lambda>c. c \<noteq> CHR ''_'') r
            in if length i = length r then None
               else if i = [] \<or> drop (Suc (length i)) r = [] then None
               else Some (i, drop (Suc (length i)) r)))"

text \<open>A date that is none compares as false.\<close>

definition key_expired :: "(string \<Rightarrow> time option) \<Rightarrow> time \<Rightarrow> string option \<Rightarrow> bool" where
  "key_expired date_of now e =
     (case Option.bind (truthy e) date_of of None \<Rightarrow> False | Some d \<Rightarrow> d \<le> now)"

definition key_accepts :: "scrypt \<Rightarrow> (string \<Rightarrow> time option) \<Rightarrow> time \<Rightarrow> string \<Rightarrow> api_key \<Rightarrow> bool" where
  "key_accepts scrypt date_of now secret k \<longleftrightarrow>
     truthy (ak_revokedAt k) = None \<and> \<not> key_expired date_of now (ak_expiresAt k) \<and>
     same_hash scrypt secret (ak_salt k) (ak_params k) (ak_hashedSecret k)"

text \<open>Whether a write of \<open>lastUsedAt\<close> is started.\<close>

definition debounceLastUsed :: "time \<Rightarrow> string \<Rightarrow> key_service \<Rightarrow> bool \<times> key_service" where
  "debounceLastUsed now i s =
     (if now - get_or 0 (ks_lastUsed s) i < LAST_USED_DEBOUNCE_MS then (False, s)
      else (True, s\<lparr>ks_lastUsed := set_key i now (ks_lastUsed s)\<rparr>))"

definition verifyAndConsume ::
  "scrypt \<Rightarrow> (string \<Rightarrow> time option) \<Rightarrow> time \<Rightarrow> string \<Rightarrow> key_service \<Rightarrow> api_key option \<times> key_service" where
  "verifyAndConsume scrypt date_of now t s =
     (case parseToken t of None \<Rightarrow> (None, s)
      | Some (i, secret) \<Rightarrow>
          (case find_key i (ks_load s) of None \<Rightarrow> (None, s)
           | Some k \<Rightarrow>
               if key_accepts scrypt date_of now secret k then (Some k, snd (debounceLastUsed now i s)) else (None, s)))"

definition ks_change :: "bool \<Rightarrow> string \<Rightarrow> (api_key \<Rightarrow> api_key) \<Rightarrow> key_service \<Rightarrow> bool \<times> key_service" where
  "ks_change ok i f s =
     (if find_key i (ks_load s) = None then (True, s)
      else if ok then (True, s\<lparr>ks_file := Some (change_key i f (ks_load s))\<rparr>) else (False, s))"

definition writeLastUsed :: "bool \<Rightarrow> string \<Rightarrow> string \<Rightarrow> key_service \<Rightarrow> bool \<times> key_service" where
  "writeLastUsed ok i t s = ks_change ok i (\<lambda>k. k\<lparr>ak_lastUsedAt := Some t\<rparr>) s"

definition revokeKey :: "time \<Rightarrow> bool \<Rightarrow> string \<Rightarrow> key_service \<Rightarrow> bool \<times> key_service" where
  "revokeKey now ok i s = ks_change ok i (\<lambda>k. k\<lparr>ak_revokedAt := Some (iso_string now)\<rparr>) s"

definition outlives :: "(string \<Rightarrow> time option) \<Rightarrow> time \<Rightarrow> string option \<Rightarrow> bool" where
  "outlives date_of now e \<longleftrightarrow>
     (case truthy e of None \<Rightarrow> True | Some x \<Rightarrow> (case date_of x of None \<Rightarrow> False | Some d \<Rightarrow> now < d))"

text \<open>The number of keys removed; \<open>None\<close>: the write failed.\<close>

definition cleanupExpired :: "(string \<Rightarrow> time option) \<Rightarrow> time \<Rightarrow> bool \<Rightarrow> key_service \<Rightarrow> nat option \<times> key_service" where
  "cleanupExpired date_of now ok s =
     (let kept = filter (\<lambda>k. outlives date_of now (ak_expiresAt k)) (ks_load s); n = length (ks_load s) - length kept
      in if n = 0 then (Some 0, s) else if ok then (Some n, s\<lparr>ks_file := Some kept\<rparr>) else (None, s))"

text \<open>A key without its secret fields.\<close>

record key_view =
  kv_keyId :: string
  kv_userId :: string
  kv_scopes :: "string list"
  kv_params :: scrypt_params
  kv_createdAt :: string
  kv_expiresAt :: "string option"
  kv_revokedAt :: "string option"
  kv_lastUsedAt :: "string option"
  kv_label :: "string option"

definition redact :: "api_key \<Rightarrow> key_view" where
  "redact k =
     \<lparr>kv_keyId = ak_keyId k, kv_userId = ak_userId k, kv_scopes = ak_scopes k, kv_params = ak_params k,
      kv_createdAt = ak_createdAt k, kv_expiresAt = ak_expiresAt k, kv_revokedAt = ak_revokedAt k,
      kv_lastUsedAt = ak_lastUsedAt k, kv_label = ak_label k\<rparr>"

definition listKeysForUser :: "string \<Rightarrow> key_service \<Rightarrow> key_view list" where
  "listKeysForUser u s = map redact (filter (\<lambda>k. ak_userId k = u) (ks_load s))"

section \<open>Steps\<close>

datatype key_op =
    CreateKey string string string time bool string create_opts
  | RevokeKey time bool string
  | CleanUpKeys time bool
  | VerifyKey time string
  | TouchKey bool string string

fun key_step :: "scrypt \<Rightarrow> (string \<Rightarrow> time option) \<Rightarrow> key_op \<Rightarrow> key_service \<Rightarrow> key_service" where
  "key_step scrypt date_of (CreateKey i secret salt now ok u opts) s = snd (ks_createKey scrypt i secret salt now ok u opts s)"
| "key_step scrypt date_of (RevokeKey now ok i) s = snd (revokeKey now ok i s)"
| "key_step scrypt date_of (CleanUpKeys now ok) s = snd (cleanupExpired date_of now ok s)"
| "key_step scrypt date_of (VerifyKey now t) s = snd (verifyAndConsume scrypt date_of now t s)"
| "key_step scrypt date_of (TouchKey ok i t) s = snd (writeLastUsed ok i t s)"

text \<open>A key that expires at \<open>e\<close> is still there and not revoked after a step.\<close>

fun spares :: "(string \<Rightarrow> time option) \<Rightarrow> string \<Rightarrow> string option \<Rightarrow> key_op \<Rightarrow> bool" where
  "spares date_of i e (RevokeKey now ok j) = (ok \<longrightarrow> j \<noteq> i)"
| "spares date_of i e (CleanUpKeys now ok) = (ok \<longrightarrow> outlives date_of now e)"
| "spares date_of i e _ = True"

fun created_ids :: "key_op list \<Rightarrow> string list" where
  "created_ids [] = []"
| "created_ids (CreateKey i secret salt now ok u opts # xs) = i # created_ids xs"
| "created_ids (_ # xs) = created_ids xs"

text \<open>Keys that can be told apart by what a verification needs; the time of last use may differ.\<close>

definition same_key :: "api_key \<Rightarrow> api_key \<Rightarrow> bool" where
  "same_key k k' \<longleftrightarrow> k\<lparr>ak_lastUsedAt := None\<rparr> = k'\<lparr>ak_lastUsedAt := None\<rparr>"

lemma same_key_refl [simp]: "same_key k k"
  by (simp add: same_key_def)

lemma same_key_fields:
  "same_key k k' \<longleftrightarrow> ak_keyId k = ak_keyId k' \<and> ak_userId k = ak_userId k' \<and> ak_scopes k = ak_scopes k' \<and> ak_salt k = ak_salt k' \<and>
     ak_hashedSecret k = ak_hashedSecret k' \<and> ak_params k = ak_params k' \<and> ak_createdAt k = ak_createdAt k' \<and>
     ak_expiresAt k = ak_expiresAt k' \<and> ak_revokedAt k = ak_revokedAt k' \<and> ak_label k = ak_label k'"
  by (cases k; cases k') (simp add: same_key_def)

text \<open>The key with an id in the table of the service.\<close>

definition key_table :: "key_service \<Rightarrow> string \<Rightarrow> api_key option" where
  "key_table s i = find_key i (ks_load s)"

lemma find_key_Cons: "find_key i (k # ks) = (if ak_keyId k = i then Some k else find_key i ks)"
  by (simp add: find_key_def)

lemma find_key_Nil [simp]: "find_key i [] = None"
  by (simp add: find_key_def)

lemma find_key_append: "find_key i (ks @ ls) = (case find_key i ks of None \<Rightarrow> find_key i ls | Some k \<Rightarrow> Some k)"
  by (induction ks) (simp_all add: find_key_Cons)

lemma find_key_id: "find_key i ks = Some k \<Longrightarrow> ak_keyId k = i"
  by (induction ks) (auto simp: find_key_Cons split: if_splits)

lemma find_change_key:
  "(\<And>k. ak_keyId (f k) = ak_keyId k) \<Longrightarrow>
   find_key i (change_key j f ks) = (if i = j then map_option f (find_key i ks) else find_key i ks)"
  by (induction ks) (auto simp: find_key_Cons)

lemma find_filter_distinct:
  "distinct (map ak_keyId ks) \<Longrightarrow>
   find_key i (filter P ks) = (case find_key i ks of None \<Rightarrow> None | Some k \<Rightarrow> if P k then Some k else None)"
proof (induction ks)
  case (Cons k ks)
  have "find_key i (filter P ks) = None" if "ak_keyId k = i"
  proof -
    have "ak_keyId x \<noteq> i" if "x \<in> set ks" for x
      using Cons.prems \<open>ak_keyId k = i\<close> imageI [OF that, of ak_keyId] by (metis distinct.simps(2) list.simps(9) set_map)
    then show ?thesis by (auto simp: find_key_def find_None_iff)
  qed
  then show ?case using Cons by (auto simp: find_key_Cons)
qed simp

lemma ids_change_key: "(\<And>k. ak_keyId (f k) = ak_keyId k) \<Longrightarrow> map ak_keyId (change_key i f ks) = map ak_keyId ks"
  by (induction ks) auto

section \<open>The table follows the history\<close>

lemma parse_full_token:
  assumes "CHR ''_'' \<notin> set i" "i \<noteq> []" "secret \<noteq> []"
  shows "parseToken (full_token i secret) = Some (i, secret)"
proof -
  have "takeWhile (\<lambda>c. c \<noteq> CHR ''_'') (i @ CHR ''_'' # secret) = i"
    using assms(1) by (subst takeWhile_append2) auto
  then show ?thesis using assms by (simp add: parseToken_def full_token_def starts_with_def Let_def)
qed

definition ids_ok :: "key_op list \<Rightarrow> key_service \<Rightarrow> bool" where
  "ids_ok ops s \<longleftrightarrow> distinct (map ak_keyId (ks_load s)) \<and> ak_keyId ` set (ks_load s) \<subseteq> set (created_ids ops)"

lemma created_append [simp]: "created_ids (xs @ ys) = created_ids xs @ created_ids ys"
  by (induction xs rule: created_ids.induct) auto

lemma load_file [simp]: "ks_load (s\<lparr>ks_file := Some ks\<rparr>) = ks" "ks_load (s\<lparr>ks_lastUsed := m\<rparr>) = ks_load s"
  by (simp_all add: ks_load_def)

lemma load_verify [simp]: "ks_load (snd (verifyAndConsume scrypt date_of now t s)) = ks_load s"
  by (simp add: verifyAndConsume_def debounceLastUsed_def split: option.splits prod.splits)

lemma load_change:
  "ks_load (snd (ks_change ok i f s)) = (if ok \<and> find_key i (ks_load s) \<noteq> None then change_key i f (ks_load s) else ks_load s)"
  by (cases "find_key i (ks_load s)") (auto simp: ks_change_def)

lemma load_cleanup:
  "ks_load (snd (cleanupExpired date_of now ok s)) =
     (if ok then filter (\<lambda>k. outlives date_of now (ak_expiresAt k)) (ks_load s) else ks_load s)"
proof -
  have "filter P xs = xs" if "length xs - length (filter P xs) = 0" for P and xs :: "api_key list"
    using that length_filter_le [of P xs] by (metis diff_is_0_eq filter_id_conv le_antisym length_filter_less not_less)
  note same = this [of "ks_load s" "\<lambda>k. outlives date_of now (ak_expiresAt k)"]
  show ?thesis
  proof (cases "length (ks_load s) - length (filter (\<lambda>k. outlives date_of now (ak_expiresAt k)) (ks_load s)) = 0")
    case True
    then have "cleanupExpired date_of now ok s = (Some 0, s)" unfolding cleanupExpired_def Let_def by (rule if_P)
    then show ?thesis using same [OF True] by simp
  next
    case False
    then show ?thesis unfolding cleanupExpired_def Let_def by simp
  qed
qed

lemmas key_loads = load_change load_cleanup writeLastUsed_def revokeKey_def

lemma ids_step:
  assumes "ids_ok ops s" "distinct (created_ids (ops @ [x]))"
  shows "ids_ok (ops @ [x]) (key_step scrypt date_of x s)"
proof (cases x)
  case (CreateKey i secret salt now ok u opts)
  then show ?thesis
    using assms by (auto simp: ids_ok_def ks_createKey_def new_key_def split: option.splits)
next
  case (CleanUpKeys now ok)
  then show ?thesis using assms(1) by (auto simp: ids_ok_def key_loads distinct_map_filter)
next
  case (RevokeKey now ok i)
  have "map ak_keyId (change_key i (\<lambda>k. k\<lparr>ak_revokedAt := Some t\<rparr>) ks) = map ak_keyId ks" for t ks
    by (rule ids_change_key) simp
  then show ?thesis using assms(1) RevokeKey by (auto simp: ids_ok_def key_loads simp flip: set_map)
next
  case (TouchKey ok i t)
  have "map ak_keyId (change_key i (\<lambda>k. k\<lparr>ak_lastUsedAt := Some t\<rparr>) ks) = map ak_keyId ks" for ks
    by (rule ids_change_key) simp
  then show ?thesis using assms(1) TouchKey by (auto simp: ids_ok_def key_loads simp flip: set_map)
qed (use assms in \<open>simp add: ids_ok_def\<close>)

definition usable :: "key_service \<Rightarrow> string \<Rightarrow> api_key \<Rightarrow> bool" where
  "usable s i k \<longleftrightarrow> (\<exists>k'. key_table s i = Some k' \<and> truthy (ak_revokedAt k') = None \<and> same_key k' k)"

lemma usable_step:
  assumes "distinct (map ak_keyId (ks_load s))"
  shows "usable (key_step scrypt date_of x s) i k \<longleftrightarrow>
    usable s i k \<and> spares date_of i (ak_expiresAt k) x \<or>
    key_table s i = None \<and> (\<exists>secret salt now u opts key. x = CreateKey i secret salt now True u opts \<and>
       scrypt secret salt API_KEY_PARAMS = Some key \<and> same_key (new_key i salt key now u opts) k)"
proof (cases x)
  case (CreateKey j secret salt now ok u opts)
  then show ?thesis
    by (auto simp: usable_def key_table_def ks_createKey_def find_key_append find_key_Cons new_key_def split: option.splits)
next
  case (RevokeKey now ok j)
  have "key_table (key_step scrypt date_of x s) i =
      (if ok \<and> i = j then map_option (\<lambda>k. k\<lparr>ak_revokedAt := Some (iso_string now)\<rparr>) (key_table s i) else key_table s i)"
    by (auto simp: RevokeKey key_table_def key_loads find_change_key)
  then show ?thesis using RevokeKey by (auto simp: usable_def)
next
  case (CleanUpKeys now ok)
  have "key_table (key_step scrypt date_of x s) i =
      (case key_table s i of None \<Rightarrow> None | Some k \<Rightarrow> if ok \<longrightarrow> outlives date_of now (ak_expiresAt k) then Some k else None)"
    using assms by (auto simp: CleanUpKeys key_table_def key_loads find_filter_distinct split: option.splits)
  then show ?thesis using CleanUpKeys by (auto simp: usable_def same_key_fields split: option.splits)
next
  case (TouchKey ok j t)
  have "key_table (key_step scrypt date_of x s) i =
      (if ok \<and> i = j then map_option (\<lambda>k. k\<lparr>ak_lastUsedAt := Some t\<rparr>) (key_table s i) else key_table s i)"
    by (auto simp: TouchKey key_table_def key_loads find_change_key)
  then show ?thesis using TouchKey by (auto simp: usable_def same_key_fields)
qed (simp add: usable_def key_table_def)

text \<open>Key \<open>k\<close> was created as \<open>i\<close>, and every step since then has spared it.\<close>

definition alive :: "scrypt \<Rightarrow> (string \<Rightarrow> time option) \<Rightarrow> key_op list \<Rightarrow> string \<Rightarrow> api_key \<Rightarrow> bool" where
  "alive scrypt date_of ops i k \<longleftrightarrow>
     (\<exists>pre secret salt t u opts key post.
        ops = pre @ CreateKey i secret salt t True u opts # post \<and> scrypt secret salt API_KEY_PARAMS = Some key \<and>
        same_key (new_key i salt key t u opts) k \<and> list_all (spares date_of i (ak_expiresAt k)) post)"

lemma alive_snoc:
  "alive scrypt date_of (ops @ [x]) i k \<longleftrightarrow>
    alive scrypt date_of ops i k \<and> spares date_of i (ak_expiresAt k) x \<or>
    (\<exists>secret salt now u opts key. x = CreateKey i secret salt now True u opts \<and>
       scrypt secret salt API_KEY_PARAMS = Some key \<and> same_key (new_key i salt key now u opts) k)"
proof
  assume "alive scrypt date_of (ops @ [x]) i k"
  then obtain pre secret salt t u opts key post where
    a: "ops @ [x] = pre @ CreateKey i secret salt t True u opts # post" "scrypt secret salt API_KEY_PARAMS = Some key"
      "same_key (new_key i salt key t u opts) k" "list_all (spares date_of i (ak_expiresAt k)) post"
    unfolding alive_def by blast
  show "alive scrypt date_of ops i k \<and> spares date_of i (ak_expiresAt k) x \<or>
    (\<exists>secret salt now u opts key. x = CreateKey i secret salt now True u opts \<and>
       scrypt secret salt API_KEY_PARAMS = Some key \<and> same_key (new_key i salt key now u opts) k)"
  proof (cases post rule: rev_cases)
    case Nil
    then show ?thesis using a by blast
  next
    case (snoc post' y)
    then have "ops = pre @ CreateKey i secret salt t True u opts # post'" "y = x" using a(1) by auto
    then show ?thesis using a snoc unfolding alive_def by auto
  qed
next
  assume "alive scrypt date_of ops i k \<and> spares date_of i (ak_expiresAt k) x \<or>
    (\<exists>secret salt now u opts key. x = CreateKey i secret salt now True u opts \<and>
       scrypt secret salt API_KEY_PARAMS = Some key \<and> same_key (new_key i salt key now u opts) k)"
  then show "alive scrypt date_of (ops @ [x]) i k"
  proof
    assume h: "alive scrypt date_of ops i k \<and> spares date_of i (ak_expiresAt k) x"
    then obtain pre secret salt t u opts key post where
      a: "ops = pre @ CreateKey i secret salt t True u opts # post" "scrypt secret salt API_KEY_PARAMS = Some key"
        "same_key (new_key i salt key t u opts) k" "list_all (spares date_of i (ak_expiresAt k)) post"
      unfolding alive_def by blast
    have "ops @ [x] = pre @ CreateKey i secret salt t True u opts # (post @ [x])" using a(1) by simp
    moreover have "list_all (spares date_of i (ak_expiresAt k)) (post @ [x])" using a(4) h by simp
    ultimately show ?thesis using a(2,3) unfolding alive_def by blast
  next
    assume "\<exists>secret salt now u opts key. x = CreateKey i secret salt now True u opts \<and>
       scrypt secret salt API_KEY_PARAMS = Some key \<and> same_key (new_key i salt key now u opts) k"
    then obtain secret salt now u opts key where
      "ops @ [x] = ops @ CreateKey i secret salt now True u opts # []" "scrypt secret salt API_KEY_PARAMS = Some key"
      "same_key (new_key i salt key now u opts) k" "list_all (spares date_of i (ak_expiresAt k)) []" by auto
    then show ?thesis unfolding alive_def by blast
  qed
qed

lemma usable_iff_alive:
  assumes "ks_load s = []" "distinct (created_ids ops)"
  shows "ids_ok ops (fold (key_step scrypt date_of) ops s) \<and>
    (usable (fold (key_step scrypt date_of) ops s) i k \<longleftrightarrow> alive scrypt date_of ops i k)"
  using assms(2)
proof (induction ops rule: rev_induct)
  case Nil
  then show ?case using assms(1) by (simp add: ids_ok_def usable_def key_table_def alive_def)
next
  case (snoc x ops)
  define s' where "s' = fold (key_step scrypt date_of) ops s"
  have d: "distinct (created_ids ops)" using snoc.prems by simp
  note IH = snoc.IH [OF d, folded s'_def]
  have "key_table s' i = None" if "x = CreateKey i secret salt now True u opts" for secret salt now u opts
  proof -
    have "i \<notin> ak_keyId ` set (ks_load s')" using IH snoc.prems that by (auto simp: ids_ok_def)
    then show ?thesis by (auto simp: key_table_def find_key_def find_None_iff)
  qed
  moreover have "distinct (map ak_keyId (ks_load s'))" using IH by (simp add: ids_ok_def)
  ultimately show ?case
    using IH ids_step [of ops s' x scrypt date_of] snoc.prems usable_step [of s' scrypt date_of x i k]
    by (auto simp: alive_snoc s'_def [symmetric])
qed

lemma new_key_fields:
  "same_key (new_key i salt key t u opts) k \<longleftrightarrow>
     ak_keyId k = i \<and> ak_userId k = u \<and> ak_scopes k = co_scopes opts \<and> ak_salt k = salt \<and> ak_hashedSecret k = to_hex key \<and>
     ak_params k = API_KEY_PARAMS \<and> ak_createdAt k = iso_string t \<and> ak_expiresAt k = co_expiresAt opts \<and>
     ak_revokedAt k = None \<and> ak_label k = co_label opts"
  by (auto simp: same_key_fields new_key_def)

text \<open>What a verification answers, by the table.\<close>

lemma verify_table:
  assumes "CHR ''_'' \<notin> set i" "i \<noteq> []" "secret \<noteq> []"
  shows "fst (verifyAndConsume scrypt date_of now (full_token i secret) s) = Some k \<longleftrightarrow>
    key_table s i = Some k \<and> key_accepts scrypt date_of now secret k"
  by (auto simp: verifyAndConsume_def parse_full_token [OF assms] key_table_def split: option.splits)

text \<open>
  C17. An API key lives as its history says: whatever creations, revocations, clean-ups, verifications and late
  writes of the time of last use have gone before, with writes that fail among them, a token is accepted, for user
  \<open>u\<close> with its scopes, exactly when a key of this id was created for \<open>u\<close> with a secret that derives to the same
  bytes, no revocation of it and no clean-up after its expiry has been written since, and it has not expired now.
  (Ids are drawn from sixteen random bytes; no two creations share one.)
\<close>

theorem keys_live_as_their_history:
  assumes "ks_load s = []" "distinct (created_ids ops)" "CHR ''_'' \<notin> set i" "i \<noteq> []" "secret \<noteq> []"
  shows "(\<exists>k. fst (verifyAndConsume scrypt date_of now (full_token i secret) (fold (key_step scrypt date_of) ops s)) = Some k \<and>
      ak_userId k = u \<and> ak_scopes k = scopes) \<longleftrightarrow>
    (\<exists>pre secret' salt t opts post.
       ops = pre @ CreateKey i secret' salt t True u opts # post \<and> co_scopes opts = scopes \<and>
       scrypt secret' salt API_KEY_PARAMS \<noteq> None \<and> scrypt secret salt API_KEY_PARAMS = scrypt secret' salt API_KEY_PARAMS \<and>
       list_all (spares date_of i (co_expiresAt opts)) post \<and> \<not> key_expired date_of now (co_expiresAt opts))"
    (is "?accepted \<longleftrightarrow> ?history")
proof
  define s' where "s' = fold (key_step scrypt date_of) ops s"
  note live = usable_iff_alive [OF assms(1,2), of scrypt date_of, folded s'_def]
  note verify = verify_table [OF assms(3,4,5), of scrypt date_of now s']
  {
    assume ?accepted
    then obtain k where k: "key_table s' i = Some k" "key_accepts scrypt date_of now secret k" "ak_userId k = u" "ak_scopes k = scopes"
      using verify unfolding s'_def by blast
    then have "usable s' i k" by (auto simp: usable_def key_accepts_def)
    then have "alive scrypt date_of ops i k" using live by blast
    then obtain pre secret' salt t u' opts key post where
      a: "ops = pre @ CreateKey i secret' salt t True u' opts # post" "scrypt secret' salt API_KEY_PARAMS = Some key"
        "same_key (new_key i salt key t u' opts) k" "list_all (spares date_of i (ak_expiresAt k)) post"
      unfolding alive_def by blast
    have "u' = u" "co_scopes opts = scopes" "co_expiresAt opts = ak_expiresAt k" using a(3) k(3,4) by (auto simp: new_key_fields)
    moreover have "scrypt secret salt API_KEY_PARAMS = Some key" "\<not> key_expired date_of now (ak_expiresAt k)"
      using k(2) a(3) same_hash_stored [of scrypt secret' salt API_KEY_PARAMS key secret, OF a(2)]
      by (auto simp: key_accepts_def new_key_fields)
    ultimately show ?history
      using a(1,2,4)
      by (intro exI [of _ pre] exI [of _ secret'] exI [of _ salt] exI [of _ t] exI [of _ opts] exI [of _ post] conjI) simp_all
  next
    assume ?history
    then obtain pre secret' salt t opts post key where
      a: "ops = pre @ CreateKey i secret' salt t True u opts # post" "co_scopes opts = scopes" "scrypt secret' salt API_KEY_PARAMS = Some key"
        "scrypt secret salt API_KEY_PARAMS = Some key" "list_all (spares date_of i (co_expiresAt opts)) post"
        "\<not> key_expired date_of now (co_expiresAt opts)"
      by fastforce
    define k where "k = new_key i salt key t u opts"
    have "alive scrypt date_of ops i k"
      unfolding alive_def k_def using a by (intro exI [of _ pre] exI conjI) (auto simp: new_key_def)
    then obtain k' where k': "key_table s' i = Some k'" "truthy (ak_revokedAt k') = None" "same_key k' k"
      using live unfolding usable_def by blast
    have "key_accepts scrypt date_of now secret k'"
      using k'(2,3) a(6) same_hash_stored [of scrypt secret' salt API_KEY_PARAMS key secret, OF a(3)] a(4)
      by (auto simp: key_accepts_def same_key_fields k_def new_key_def)
    then have "fst (verifyAndConsume scrypt date_of now (full_token i secret) s') = Some k'" using verify k'(1) by blast
    moreover have "ak_userId k' = u" "ak_scopes k' = scopes" using k'(3) a(2) by (auto simp: same_key_fields k_def new_key_def)
    ultimately show ?accepted unfolding s'_def by blast
  }
qed

definition toy_scrypt :: scrypt where
  "toy_scrypt secret salt params = Some (salt @ secret)"

definition year_dates :: "string \<Rightarrow> time option" where
  "year_dates t = (if t = ''2026'' then Some 2026 else None)"

definition key_opts :: "string option \<Rightarrow> create_opts" where
  "key_opts e = \<lparr>co_scopes = [''data:read''], co_expiresAt = e, co_label = None\<rparr>"

lemma keys_live_as_their_history_witness:
  "(\<exists>k. fst (verifyAndConsume toy_scrypt year_dates 9 (full_token ''a1'' ''x'')
      (fold (key_step toy_scrypt year_dates)
         [CreateKey ''a1'' ''x'' ''s'' 1 True ''ann'' (key_opts (Some ''2026'')), RevokeKey 2 False ''a1'', CleanUpKeys 3 True]
         \<lparr>ks_file = None, ks_lastUsed = []\<rparr>)) = Some k \<and> ak_userId k = ''ann'' \<and> ak_scopes k = [''data:read''])"
proof -
  define ops where "ops = [CreateKey ''a1'' ''x'' ''s'' 1 True ''ann'' (key_opts (Some ''2026'')), RevokeKey 2 False ''a1'', CleanUpKeys 3 True]"
  have "ops = [] @ CreateKey ''a1'' ''x'' ''s'' 1 True ''ann'' (key_opts (Some ''2026'')) # [RevokeKey 2 False ''a1'', CleanUpKeys 3 True]"
    by (simp add: ops_def)
  moreover have "list_all (spares year_dates ''a1'' (co_expiresAt (key_opts (Some ''2026'')))) [RevokeKey 2 False ''a1'', CleanUpKeys 3 True]"
    "\<not> key_expired year_dates 9 (co_expiresAt (key_opts (Some ''2026'')))" "co_scopes (key_opts (Some ''2026'')) = [''data:read'']"
    "toy_scrypt ''x'' ''s'' API_KEY_PARAMS \<noteq> None"
    by (simp_all add: key_opts_def year_dates_def outlives_def key_expired_def toy_scrypt_def)
  ultimately have "\<exists>pre secret' salt t opts post.
      ops = pre @ CreateKey ''a1'' secret' salt t True ''ann'' opts # post \<and> co_scopes opts = [''data:read''] \<and>
      toy_scrypt secret' salt API_KEY_PARAMS \<noteq> None \<and>
      toy_scrypt ''x'' salt API_KEY_PARAMS = toy_scrypt secret' salt API_KEY_PARAMS \<and>
      list_all (spares year_dates ''a1'' (co_expiresAt opts)) post \<and> \<not> key_expired year_dates 9 (co_expiresAt opts)"
    by (intro exI [of _ "[]"] exI [of _ "''x''"] exI [of _ "''s''"] exI [of _ 1] exI [of _ "key_opts (Some ''2026'')"]
        exI [of _ "[RevokeKey 2 False ''a1'', CleanUpKeys 3 True]"] conjI) simp_all
  moreover have "distinct (created_ids ops)" by (simp add: ops_def)
  moreover have "ks_load \<lparr>ks_file = None, ks_lastUsed = []\<rparr> = []" by (simp add: ks_load_def)
  ultimately show ?thesis
    using keys_live_as_their_history [of "\<lparr>ks_file = None, ks_lastUsed = []\<rparr>" ops "''a1''" "''x''" toy_scrypt year_dates 9 "''ann''" "[''data:read'']"]
    unfolding ops_def [symmetric] by auto
qed

section \<open>Where the code falls short\<close>

text \<open>
  A text for the expiry that is no date is taken as it is: the key is never expired, however late it is, while the clean-up, when it
  runs, takes the same key for an expired one.
\<close>

lemma no_date_never_expires:
  assumes "date_of e = None" "e \<noteq> []"
  shows "\<not> key_expired date_of now (Some e)" "\<not> outlives date_of now (Some e)"
  using assms by (simp_all add: key_expired_def outlives_def)

end
