(* ===== verification/Api_Access.thy ===== *)
theory Api_Access
  imports Gui_Auth Api_Keys Data_Store Scheduler Cost_Tracker
begin

text \<open>
  The REST API: who may call it (\<open>api/auth.ts\<close>, \<open>api/guards\<close>) and what the routes of \<open>api/routes\<close> do for a caller:
  writing and reading data (on the stores of \<open>Data_Store\<close>), sending messages, the change log, schedules, alerts, reports
  and completions, up to the call of the service they belong to. A route is a function of the actor that the hook found;
  the HTTP status and the kind of answer are its result, the texts of errors are left out. JSON bodies are given field by
  field, \<open>None\<close> for a field that is missing or \<open>null\<close>.
\<close>

section \<open>Authentication\<close>

definition PLATFORM_SYSTEM_USER_ID :: string where "PLATFORM_SYSTEM_USER_ID = ''__platform_system__''"

datatype api_auth = RateLimited | Unauthorized | Authenticated actor

record api_services =
  as_apiToken :: string
  as_users :: "reg_user list option"
  as_households :: "household_service option"

definition platform_actor :: actor where
  "platform_actor = \<lparr>ac_userId = PLATFORM_SYSTEM_USER_ID, ac_householdId = PLATFORM_SYSTEM_HOUSEHOLD_ID,
     ac_isPlatformAdmin = True, ac_isHouseholdAdmin = False, ac_authMethod = LegacyApiToken, ac_scopes = Some [''*''],
     ac_sessionVersion = None\<rparr>"

definition key_actor :: "api_services \<Rightarrow> api_key \<Rightarrow> actor option" where
  "key_actor env k =
     (case Option.bind (as_users env) (um_getUser (ak_userId k)) of None \<Rightarrow> None
      | Some user \<Rightarrow>
          (let hh = (case Option.bind (as_households env) (hs_getHouseholdForUser (ak_userId k)) of
                       None \<Rightarrow> PLATFORM_SYSTEM_HOUSEHOLD_ID | Some h \<Rightarrow> h)
           in Some \<lparr>ac_userId = ak_userId k, ac_householdId = hh, ac_isPlatformAdmin = ru_isAdmin user,
                ac_isHouseholdAdmin =
                  (case Option.bind (as_households env) (hs_getHousehold hh) of None \<Rightarrow> False
                   | Some h \<Rightarrow> ak_userId k \<in> set (hh_adminUserIds h)),
                ac_authMethod = ApiKeyAuth, ac_scopes = Some (ak_scopes k), ac_sessionVersion = None\<rparr>))"

definition createApiAuthHook ::
  "api_services \<Rightarrow> scrypt \<Rightarrow> (string \<Rightarrow> time option) \<Rightarrow> time \<Rightarrow> string \<Rightarrow> string option \<Rightarrow> rate_limiter \<times> key_service option \<Rightarrow>
   api_auth \<times> rate_limiter \<times> key_service option" where
  "createApiAuthHook env scrypt date_of now ip header st =
     (let (rl, ks) = st; (ok, rl) = rl_isAllowed now ip rl
      in if \<not> ok then (RateLimited, rl, ks)
         else case header of None \<Rightarrow> (Unauthorized, rl, ks)
         | Some h \<Rightarrow>
             if \<not> starts_with ''Bearer '' h \<or> drop 7 h = [] then (Unauthorized, rl, ks)
             else (let t = drop 7 h
               in if as_apiToken env \<noteq> [] \<and> t = as_apiToken env then (Authenticated platform_actor, rl, ks)
                  else case ks of
                    None \<Rightarrow> (Unauthorized, rl, None)
                  | Some s \<Rightarrow>
                      if \<not> starts_with ''pas_'' t then (Unauthorized, rl, Some s)
                      else (let (r, s) = verifyAndConsume scrypt date_of now t s
                        in (case Option.bind r (key_actor env) of None \<Rightarrow> Unauthorized | Some a \<Rightarrow> Authenticated a, rl, Some s))))"

section \<open>Guards\<close>

text \<open>The status of the refusal, if there is one.\<close>

definition requireScope :: "string \<Rightarrow> actor option \<Rightarrow> nat option" where
  "requireScope sc a =
     (case a of None \<Rightarrow> Some 401
      | Some x \<Rightarrow>
          (let scopes = (case ac_scopes x of None \<Rightarrow> [] | Some ss \<Rightarrow> ss)
           in if ''*'' \<notin> set scopes \<and> sc \<notin> set scopes then Some 403 else None))"

text \<open>Routes bypass their checks for platform administrators and for the shared token.\<close>

definition bypasses :: "actor \<Rightarrow> bool" where
  "bypasses a \<longleftrightarrow> ac_isPlatformAdmin a \<or> ac_authMethod a = LegacyApiToken"

datatype resource = UserResource "string option" | SharedResource "string option" | SpaceResource "string option" | SystemResource

definition authorizeResourceAccess :: "actor \<Rightarrow> resource \<Rightarrow> space_service option \<Rightarrow> bool" where
  "authorizeResourceAccess a r spaces \<longleftrightarrow>
     bypasses a \<or>
     (case r of
        SystemResource \<Rightarrow> False
      | UserResource u \<Rightarrow> Some (ac_userId a) = u
      | SharedResource h \<Rightarrow> Some (ac_householdId a) = h
      | SpaceResource i \<Rightarrow> (case (truthy i, spaces) of (Some i, Some s) \<Rightarrow> sp_isMember i (ac_userId a) s | _ \<Rightarrow> False))"

definition assertCallerIsTargetUser :: "actor \<Rightarrow> string \<Rightarrow> bool" where
  "assertCallerIsTargetUser a u \<longleftrightarrow> bypasses a \<or> ac_userId a = u"

definition assertCallerInTargetHousehold :: "actor \<Rightarrow> string \<Rightarrow> bool" where
  "assertCallerInTargetHousehold a h \<longleftrightarrow> bypasses a \<or> ac_householdId a = h"

text \<open>The same predicate in \<open>alerts-api.ts\<close> and \<open>reports-api.ts\<close>, as are the rights to run them.\<close>

definition api_isDeliveryVisible :: "actor \<Rightarrow> string list \<Rightarrow> bool" where
  "api_isDeliveryVisible a delivery \<longleftrightarrow> bypasses a \<or> ac_userId a \<in> set delivery"

definition canRun :: "actor \<Rightarrow> bool" where
  "canRun a \<longleftrightarrow> bypasses a"

section \<open>Data\<close>

datatype 'a api_answer = ApiError nat | ApiOk 'a

record data_route =
  dr_dataDir :: string
  dr_spaces :: space_service
  dr_users :: "reg_user list"
  dr_hasBus :: bool
  dr_households :: "household_service option"

text \<open>\<open>content\<close> is \<open>None\<close> also when it is no text.\<close>

record data_body =
  db_userId :: "string option"
  db_appId :: "string option"
  db_path :: "string option"
  db_content :: "string option"
  db_mode :: "string option"
  db_spaceId :: "string option"

fun app_id_pattern :: "string \<Rightarrow> bool" where
  "app_id_pattern [] = False"
| "app_id_pattern (c # s) = (is_lower_az c \<and> list_all (\<lambda>c. is_lower_az c \<or> is_digit c \<or> c = CHR ''-'') s)"

definition api_data_service :: "data_route \<Rightarrow> string \<Rightarrow> data_service" where
  "api_data_service r app =
     \<lparr>dsv_dataDir = dr_dataDir r, dsv_appId = app, dsv_userScopes = [], dsv_sharedScopes = [], dsv_spaces = Some (dr_spaces r),
      dsv_hasBus = dr_hasBus r, dsv_households = dr_households r, dsv_bypass = Some SYSTEM_BYPASS_TOKEN\<rparr>"

fun write_status :: "store_error \<Rightarrow> nat" where
  "write_status (Refused (SpaceMembershipError _ _)) = 403"
| "write_status (Refused (PathTraversalError _ _)) = 400"
| "write_status (Refused (ScopeViolationError _ _ _)) = 403"
| "write_status _ = 500"

definition target_resource :: "string \<Rightarrow> string option \<Rightarrow> resource" where
  "target_resource u sid = (case truthy sid of Some i \<Rightarrow> SpaceResource (Some i) | None \<Rightarrow> UserResource (Some u))"

text \<open>The synthetic request context names the user of the body.\<close>

definition api_open_store :: "data_route \<Rightarrow> string \<Rightarrow> string \<Rightarrow> string option \<Rightarrow> path_error + scoped_store" where
  "api_open_store r app u sid =
     (let s = api_data_service r app;
          rq = \<lparr>rq_userId = Some u, rq_householdId = Option.bind (dr_households r) (hs_getHouseholdForUser u)\<rparr>
      in case truthy sid of Some i \<Rightarrow> forSpace s rq i u | None \<Rightarrow> forUser s rq u)"

definition api_post_data ::
  "string \<Rightarrow> time \<Rightarrow> data_route \<Rightarrow> actor option \<Rightarrow> data_body \<Rightarrow> store_world \<Rightarrow> unit api_answer \<times> store_world" where
  "api_post_data cwd now r a b w =
     (case requireScope ''data:write'' a of Some n \<Rightarrow> (ApiError n, w)
      | None \<Rightarrow>
          (case (truthy (db_userId b), truthy (db_appId b), truthy (db_path b), db_content b) of
             (Some u, Some app, Some path, Some content) \<Rightarrow>
               (let mode = (case db_mode b of None \<Rightarrow> ''write'' | Some m \<Rightarrow> m)
                in if \<not> safe_segment u \<or> \<not> app_id_pattern app \<or> mode \<notin> {''write'', ''append''} \<or>
                     (case db_spaceId b of None \<Rightarrow> False | Some i \<Rightarrow> \<not> space_id_pattern i) then (ApiError 400, w)
                   else if \<not> um_isRegistered u (dr_users r) then (ApiError 403, w)
                   else if (case a of None \<Rightarrow> False
                            | Some x \<Rightarrow> \<not> authorizeResourceAccess x (target_resource u (db_spaceId b)) (Some (dr_spaces r)))
                   then (ApiError 403, w)
                   else case api_open_store r app u (db_spaceId b) of
                     Inl e \<Rightarrow> (ApiError (write_status (Refused e)), w)
                   | Inr st \<Rightarrow>
                       (case (if mode = ''append'' then store_append cwd now st path content None w
                              else store_write cwd now st path content w) of
                          (Inl e, w) \<Rightarrow> (ApiError (write_status e), w)
                        | (Inr _, w) \<Rightarrow> (ApiOk (), w)))
           | _ \<Rightarrow> (ApiError 400, w)))"

definition MAX_FILE_SIZE :: nat where "MAX_FILE_SIZE = 1024 * 1024"

definition api_space_view :: "space_service \<Rightarrow> string \<Rightarrow> (string \<times> string option) option" where
  "api_space_view spaces i =
     map_option (\<lambda>d. (case sd_kind d of None \<Rightarrow> [] | Some KHousehold \<Rightarrow> ''household'' | Some KCollaboration \<Rightarrow> ''collaboration'',
       sd_householdId d)) (sp_getSpace i spaces)"

definition resolveApiReadBaseDir :: "string \<Rightarrow> data_route \<Rightarrow> string \<Rightarrow> string \<Rightarrow> string option \<Rightarrow> path_error + string" where
  "resolveApiReadBaseDir cwd r app u sid =
     (let home = (case (truthy sid, dr_households r) of
                    (Some i, Some hs) \<Rightarrow>
                      (case sp_getSpace i (dr_spaces r) of None \<Rightarrow> None
                       | Some d \<Rightarrow> if sd_kind d = Some KHousehold then truthy (sd_householdId d) else None)
                  | _ \<Rightarrow> None);
          mine = Option.bind (dr_households r) (hs_getHouseholdForUser u)
      in if home \<noteq> None \<and> mine \<noteq> home then Inl (HouseholdBoundaryError mine home)
         else resolveScopedDataDir cwd
           \<lparr>dd_dataDir = dr_dataDir r, dd_appId = app, dd_userId = Some u, dd_spaceId = sid,
            dd_householdId = map_option (hs_getHouseholdForUser u) (dr_households r),
            dd_getSpace = Some (api_space_view (dr_spaces r))\<rparr>)"

definition api_read_path :: "string \<Rightarrow> data_route \<Rightarrow> string \<Rightarrow> string \<Rightarrow> string option \<Rightarrow> string \<Rightarrow> path_error + string" where
  "api_read_path cwd r app u sid path =
     (case resolveApiReadBaseDir cwd r app u sid of Inl e \<Rightarrow> Inl e | Inr base \<Rightarrow> resolveScopedPath cwd base path)"

text \<open>A listing is sorted by \<open>localeCompare\<close>, the parameter \<open>by_name\<close>.\<close>

datatype read_answer = NotFound string | Listing "(string \<times> bool) list" | FileContent string

definition read_at :: "((string \<times> bool) list \<Rightarrow> (string \<times> bool) list) \<Rightarrow> string \<Rightarrow> string \<Rightarrow> disk \<Rightarrow> read_answer api_answer" where
  "read_at by_name path p d =
     (if is_dir p d then
        ApiOk (Listing (by_name (map (\<lambda>n. (n, is_dir (if p = ''/'' then p @ n else p @ ''/'' @ n) d)) (readdir p d))))
      else case map_of (dk_files d) p of
        None \<Rightarrow> ApiOk (NotFound path)
      | Some c \<Rightarrow> if MAX_FILE_SIZE < length c then ApiError 413 else ApiOk (FileContent c))"

definition api_get_data ::
  "string \<Rightarrow> ((string \<times> bool) list \<Rightarrow> (string \<times> bool) list) \<Rightarrow> data_route \<Rightarrow> actor option \<Rightarrow> data_body \<Rightarrow> store_world \<Rightarrow>
   read_answer api_answer" where
  "api_get_data cwd by_name r a b w =
     (case requireScope ''data:read'' a of Some n \<Rightarrow> ApiError n
      | None \<Rightarrow>
          (case (truthy (db_userId b), truthy (db_appId b), truthy (db_path b)) of
             (Some u, Some app, Some path) \<Rightarrow>
               (let sid = db_spaceId b
                in if \<not> safe_segment u \<or> \<not> app_id_pattern app \<or> (case truthy sid of None \<Rightarrow> False | Some i \<Rightarrow> \<not> space_id_pattern i)
                   then ApiError 400
                   else if \<not> um_isRegistered u (dr_users r) then ApiError 403
                   else if (case a of None \<Rightarrow> False
                            | Some x \<Rightarrow> \<not> authorizeResourceAccess x (target_resource u sid) (Some (dr_spaces r)))
                   then ApiError 403
                   else if (case truthy sid of None \<Rightarrow> False | Some i \<Rightarrow> \<not> sp_isMember i u (dr_spaces r)) then ApiError 403
                   else case api_read_path cwd r app u sid path of
                     Inl (PathTraversalError _ _) \<Rightarrow> ApiError 400
                   | Inl _ \<Rightarrow> ApiError 500
                   | Inr p \<Rightarrow> read_at by_name path p (ws_disk w))
           | _ \<Rightarrow> ApiError 400))"

section \<open>Messages\<close>

definition MAX_TEXT_LENGTH :: nat where "MAX_TEXT_LENGTH = 4096"

text \<open>The fields \<open>userId\<close> and \<open>text\<close> (\<open>message\<close>), and the call that is made: the user, the text and the household of the context.\<close>

definition message_checks :: "reg_user list \<Rightarrow> actor option \<Rightarrow> string option \<Rightarrow> string option \<Rightarrow> (string \<times> string) api_answer" where
  "message_checks users a user message =
     (case (truthy user, truthy message) of
        (Some u, Some t) \<Rightarrow>
          if \<not> safe_segment u \<or> trim t = [] \<or> MAX_TEXT_LENGTH < length t then ApiError 400
          else if \<not> um_isRegistered u users then ApiError 403
          else if (case a of None \<Rightarrow> False | Some x \<Rightarrow> \<not> assertCallerIsTargetUser x u) then ApiError 403
          else ApiOk (u, t)
      | _ \<Rightarrow> ApiError 400)"

definition api_post_messages ::
  "household_service option \<Rightarrow> reg_user list \<Rightarrow> actor option \<Rightarrow> string option \<Rightarrow> string option \<Rightarrow> (string \<times> string \<times> string option) api_answer" where
  "api_post_messages hs users a user message =
     (case requireScope ''messages:send'' a of Some n \<Rightarrow> ApiError n
      | None \<Rightarrow>
          (case message_checks users a user message of ApiError n \<Rightarrow> ApiError n
           | ApiOk (u, t) \<Rightarrow> ApiOk (u, t, Option.bind hs (hs_getHouseholdForUser u))))"

definition api_telegram_send :: "reg_user list \<Rightarrow> actor option \<Rightarrow> string option \<Rightarrow> string option \<Rightarrow> (string \<times> string) api_answer" where
  "api_telegram_send users a user message =
     (case requireScope ''telegram:send'' a of Some n \<Rightarrow> ApiError n | None \<Rightarrow> message_checks users a user message)"

section \<open>Changes, schedules, alerts and reports\<close>

definition CHANGES_DEFAULT_LIMIT :: int where "CHANGES_DEFAULT_LIMIT = 500"

definition CHANGES_MAX_LIMIT :: int where "CHANGES_MAX_LIMIT = 5000"

text \<open>
  The entries are those of the window; \<open>hh\<close> is the household of the request context. \<open>limit\<close> is the number that
  \<open>Number.parseInt\<close> reads in the parameter, \<open>None\<close> for none; without the parameter the limit is the default.
\<close>

definition api_get_changes ::
  "actor option \<Rightarrow> string option \<Rightarrow> string option \<Rightarrow> int option option \<Rightarrow> change_entry list \<Rightarrow> change_entry list api_answer" where
  "api_get_changes a hh appFilter limit entries =
     (if a = None then ApiError 401
      else case (case limit of None \<Rightarrow> Some CHANGES_DEFAULT_LIMIT
                 | Some n \<Rightarrow> (case n of None \<Rightarrow> None | Some n \<Rightarrow> if n < 1 then None else Some (min n CHANGES_MAX_LIMIT))) of
        None \<Rightarrow> ApiError 400
      | Some n \<Rightarrow>
          ApiOk (take (nat n)
            (filter (\<lambda>e. case truthy appFilter of None \<Rightarrow> True | Some app \<Rightarrow> ce_appId e = app)
              (filter (\<lambda>e. case truthy hh of None \<Rightarrow> True
                 | Some h \<Rightarrow> (case truthy (em_householdId (ce_meta e)) of None \<Rightarrow> True | Some h' \<Rightarrow> h' = h)) entries))))"

definition isAdminActor :: "actor option \<Rightarrow> bool" where
  "isAdminActor a \<longleftrightarrow> (case a of None \<Rightarrow> True | Some x \<Rightarrow> bypasses x)"

definition api_re_enable ::
  "notifier_config \<Rightarrow> bool \<Rightarrow> actor option \<Rightarrow> string option \<Rightarrow> string option \<Rightarrow> cron_world \<Rightarrow> bool api_answer \<times> cron_world" where
  "api_re_enable cfg ok a app job w =
     (case requireScope ''schedules:write'' a of Some n \<Rightarrow> (ApiError n, w)
      | None \<Rightarrow>
          if \<not> isAdminActor a then (ApiError 403, w)
          else case (truthy app, truthy job) of
            (Some app, Some job) \<Rightarrow>
              if \<not> safe_segment app \<or> \<not> safe_segment job then (ApiError 400, w)
              else if \<not> cm_hasJob (app @ '':'' @ job) w then (ApiError 404, w)
              else (let (r, w) = cm_reEnable cfg ok app job w in (ApiOk r, w))
          | _ \<Rightarrow> (ApiError 400, w))"

text \<open>Lists and single entries of alerts and of reports, with their delivery lists.\<close>

definition api_list :: "string \<Rightarrow> actor option \<Rightarrow> ('a \<Rightarrow> string list) \<Rightarrow> 'a list \<Rightarrow> 'a list api_answer" where
  "api_list sc a delivery xs =
     (case requireScope sc a of Some n \<Rightarrow> ApiError n
      | None \<Rightarrow> ApiOk (case a of None \<Rightarrow> xs | Some x \<Rightarrow> filter (\<lambda>y. api_isDeliveryVisible x (delivery y)) xs))"

definition api_get :: "string \<Rightarrow> actor option \<Rightarrow> ('a \<Rightarrow> string list) \<Rightarrow> string \<Rightarrow> (string \<Rightarrow> 'a option) \<Rightarrow> 'a api_answer" where
  "api_get sc a delivery i find_it =
     (case requireScope sc a of Some n \<Rightarrow> ApiError n
      | None \<Rightarrow>
          if \<not> space_id_pattern i then ApiError 400
          else case find_it i of None \<Rightarrow> ApiError 404
          | Some y \<Rightarrow> if (case a of None \<Rightarrow> False | Some x \<Rightarrow> \<not> api_isDeliveryVisible x (delivery y)) then ApiError 403 else ApiOk y)"

text \<open>Whether an alert may be evaluated or fired, and a report run.\<close>

definition api_may_run :: "string \<Rightarrow> actor option \<Rightarrow> string \<Rightarrow> nat option" where
  "api_may_run sc a i =
     (case requireScope sc a of Some n \<Rightarrow> Some n
      | None \<Rightarrow>
          if \<not> space_id_pattern i then Some 400
          else if (case a of None \<Rightarrow> False | Some x \<Rightarrow> \<not> canRun x) then Some 403 else None)"

definition MAX_CONTENT_LENGTH :: nat where "MAX_CONTENT_LENGTH = 50000"

text \<open>Delivery of a report: to the users of the body, or to those of the report; \<open>sends\<close> says to whom Telegram delivers.\<close>

definition deliver_recipients :: "reg_user list \<Rightarrow> string list option \<Rightarrow> string list option \<Rightarrow> string list api_answer" where
  "deliver_recipients users userIds delivery =
     (case userIds of
        Some us \<Rightarrow>
          if \<not> list_all safe_segment us then ApiError 400
          else if \<not> list_all (\<lambda>u. um_isRegistered u users) us then ApiError 403
          else if us = [] then ApiError 400 else ApiOk us
      | None \<Rightarrow> (case delivery of None \<Rightarrow> ApiError 404 | Some us \<Rightarrow> if us = [] then ApiError 400 else ApiOk us))"

definition api_deliver ::
  "reg_user list \<Rightarrow> actor option \<Rightarrow> string \<Rightarrow> string option \<Rightarrow> string list option \<Rightarrow> (string \<Rightarrow> string list option) \<Rightarrow>
   (string \<Rightarrow> bool) \<Rightarrow> (string list \<times> string list) api_answer" where
  "api_deliver users a i content userIds delivery_of sends =
     (case requireScope ''reports:run'' a of Some n \<Rightarrow> ApiError n
      | None \<Rightarrow>
          if \<not> space_id_pattern i \<or> (case truthy content of None \<Rightarrow> True | Some c \<Rightarrow> MAX_CONTENT_LENGTH < length c) then ApiError 400
          else if (case a of None \<Rightarrow> False | Some x \<Rightarrow> \<not> canRun x) then ApiError 403
          else case deliver_recipients users userIds (delivery_of i) of ApiError n \<Rightarrow> ApiError n
          | ApiOk us \<Rightarrow> ApiOk (filter sends us, filter (\<lambda>u. \<not> sends u) us))"

section \<open>What a key reaches\<close>

text \<open>The areas that belong to a user, or to a space the user is a member of.\<close>

fun may_reach :: "space_service \<Rightarrow> string \<Rightarrow> area \<Rightarrow> bool" where
  "may_reach spaces me (UserArea h u) = (u = me)"
| "may_reach spaces me (SharedArea h) = False"
| "may_reach spaces me (CollaborationArea i) = sp_isMember i me spaces"
| "may_reach spaces me (HouseholdSpaceArea h i) = sp_isMember i me spaces"
| "may_reach spaces me (LegacySpaceArea i) = sp_isMember i me spaces"

definition in_area :: "string \<Rightarrow> string \<Rightarrow> area \<Rightarrow> string \<Rightarrow> string \<Rightarrow> bool" where
  "in_area cwd dir a app p \<longleftrightarrow> (\<exists>rest. resolve_segs cwd [p] = resolve_segs cwd [dir] @ area_parts a app @ rest)"

text \<open>Household ids on file are single path segments.\<close>

definition names_plain :: "data_route \<Rightarrow> bool" where
  "names_plain r \<longleftrightarrow>
     (\<forall>hs u h. dr_households r = Some hs \<longrightarrow> hs_getHouseholdForUser u hs = Some h \<longrightarrow> plain h) \<and>
     (\<forall>i d h. sp_getSpace i (dr_spaces r) = Some d \<longrightarrow> sd_householdId d = Some h \<longrightarrow> h = [] \<or> plain h)"

lemma safe_plain: "safe_segment s \<Longrightarrow> plain s"
  by (auto simp: safe_segment_def plain_def safe_char_def list_all_iff is_digit_def is_lower_az_def is_upper_az_def)

lemma app_id_plain: "app_id_pattern s \<Longrightarrow> plain s"
  by (cases s) (auto simp: plain_def list_all_iff is_digit_def is_lower_az_def)

lemma space_id_plain: "space_id_pattern s \<Longrightarrow> plain s"
  by (cases s) (auto simp: plain_def list_all_iff is_digit_def is_lower_az_def)

definition target_area :: "string \<Rightarrow> string option \<Rightarrow> area \<Rightarrow> bool" where
  "target_area u sid a \<longleftrightarrow>
     (case truthy sid of None \<Rightarrow> \<exists>h. a = UserArea h u
      | Some i \<Rightarrow> a = CollaborationArea i \<or> a = LegacySpaceArea i \<or> (\<exists>h. a = HouseholdSpaceArea h i))"

lemma authorized_area:
  assumes "authorizeResourceAccess x (target_resource u sid) (Some spaces)" "\<not> bypasses x" "target_area u sid a"
  shows "may_reach spaces (ac_userId x) a"
  using assms by (auto simp: authorizeResourceAccess_def target_resource_def target_area_def truthy_iff split: option.splits)

lemma base_area:
  assumes "resolve_segs cwd [base] = resolve_segs cwd [node_join (dir # area_parts a app)]" "is_abs dir"
    "\<forall>s \<in> set (area_parts a app). plain s" "resolveScopedPath cwd base path = Inr p"
  shows "in_area cwd dir a app p"
  using resolved_under(1) [OF assms(4)] resolve_node_join [OF assms(2,3), of cwd] assms(1) by (auto simp: in_area_def)

lemma open_store_area:
  assumes "api_open_store r app u sid = Inr st" "names_plain r" "safe_segment u" "app_id_pattern app"
    "case truthy sid of None \<Rightarrow> True | Some i \<Rightarrow> space_id_pattern i"
  shows "\<exists>a. target_area u sid a \<and> ss_baseDir st = node_join (dr_dataDir r # area_parts a app) \<and>
    (\<forall>s \<in> set (area_parts a app). plain s)"
proof (cases "truthy sid")
  case None
  define h where "h = truthy (Option.bind (dr_households r) (hs_getHouseholdForUser u))"
  have "forUser (api_data_service r app) \<lparr>rq_userId = Some u, rq_householdId = Option.bind (dr_households r) (hs_getHouseholdForUser u)\<rparr> u = Inr st"
    using assms(1) None by (simp add: api_open_store_def Let_def)
  then have "ss_baseDir st = node_join (dr_dataDir r # area_parts (UserArea h u) app)"
    using opens_base [OF opens_user] by (fastforce simp: api_data_service_def h_def)
  moreover have "\<forall>x. h = Some x \<longrightarrow> plain x" using assms(2) by (auto simp: h_def names_plain_def truthy_iff bind_eq_Some_conv)
  ultimately show ?thesis using None assms(3,4) safe_plain app_id_plain
    by (intro exI [of _ "UserArea h u"]) (cases h; auto simp: target_area_def plain_def)
next
  case (Some i)
  define rq where "rq = \<lparr>rq_userId = Some u, rq_householdId = Option.bind (dr_households r) (hs_getHouseholdForUser u)\<rparr>"
  have f: "forSpace (api_data_service r app) rq i u = Inr st"
    using assms(1) Some by (simp add: api_open_store_def Let_def rq_def)
  have i: "plain i" "plain app" using assms(4,5) Some space_id_plain app_id_plain by auto
  show ?thesis
  proof (cases "em_spaceKind (ss_meta st) = Some KCollaboration")
    case True
    then show ?thesis using opens_base [OF opens_collab [OF f True]] i Some
      by (intro exI [of _ "CollaborationArea i"]) (auto simp: target_area_def api_data_service_def plain_def)
  next
    case False
    note base = opens_base [OF opens_space [OF f False]]
    have "\<exists>d. sp_getSpace i (dr_spaces r) = Some d \<and> sd_householdId d = Some h \<and> h \<noteq> []" if "em_householdId (ss_meta st) = Some h" for h
      using f that
      by (auto simp: forSpace_def api_data_service_def Let_def truthy_iff bind_eq_Some_conv
          split: option.split_asm if_split_asm space_kind.split_asm prod.split_asm dest!: make_store_fields)
    then have "\<forall>h. em_householdId (ss_meta st) = Some h \<longrightarrow> plain h"
      using assms(2) unfolding names_plain_def by blast
    then show ?thesis using base i Some
      by (intro exI [of _ "case em_householdId (ss_meta st) of Some h \<Rightarrow> HouseholdSpaceArea h i | None \<Rightarrow> LegacySpaceArea i"])
        (auto simp: target_area_def api_data_service_def plain_def split: option.splits)
  qed
qed

lemma read_path_area:
  assumes "api_read_path cwd r app u sid path = Inr p" "names_plain r" "is_abs (dr_dataDir r)"
  shows "\<exists>a. target_area u sid a \<and> in_area cwd (dr_dataDir r) a app p"
proof -
  obtain base where b: "resolveApiReadBaseDir cwd r app u sid = Inr base" "resolveScopedPath cwd base path = Inr p"
    using assms(1) by (auto simp: api_read_path_def split: sum.splits)
  then have b': "resolveScopedDataDir cwd
           \<lparr>dd_dataDir = dr_dataDir r, dd_appId = app, dd_userId = Some u, dd_spaceId = sid,
            dd_householdId = map_option (hs_getHouseholdForUser u) (dr_households r),
            dd_getSpace = Some (api_space_view (dr_spaces r))\<rparr> = Inr base"
    by (auto simp: resolveApiReadBaseDir_def Let_def split: if_splits)
  then have names: "plain app" "plain u" "\<forall>i. sid = Some i \<longrightarrow> plain i \<and> truthy sid = Some i"
    using safe_plain by (auto simp: resolveScopedDataDir_def Let_def safe_segment_def split: if_splits)
  have "\<exists>a. target_area u sid a \<and> base = node_resolve cwd [node_join (dr_dataDir r # area_parts a app)] \<and>
      (\<forall>s \<in> set (area_parts a app). plain s)"
  proof (cases sid)
    case None
    define h where "h = Option.bind (dr_households r) (hs_getHouseholdForUser u)"
    have "base = node_resolve cwd [node_join (dr_dataDir r # area_parts (UserArea h u) app)]" "\<forall>x. h = Some x \<longrightarrow> plain x"
      using b' assms(2) None by (auto simp: h_def resolveScopedDataDir_def names_plain_def Let_def split: if_splits option.splits)
    then show ?thesis using None names by (intro exI [of _ "UserArea h u"]) (cases h; auto simp: target_area_def plain_def)
  next
    case (Some i)
    then consider "base = node_resolve cwd [node_join (dr_dataDir r # area_parts (CollaborationArea i) app)]"
      | "base = node_resolve cwd [node_join (dr_dataDir r # area_parts (LegacySpaceArea i) app)]"
      | h d where "base = node_resolve cwd [node_join (dr_dataDir r # area_parts (HouseholdSpaceArea h i) app)]"
          "sp_getSpace i (dr_spaces r) = Some d" "sd_householdId d = Some h" "h \<noteq> []"
      using b' by (auto simp: resolveScopedDataDir_def api_space_view_def Let_def split: if_splits option.splits)
    then show ?thesis
    proof cases
      case 1
      then show ?thesis using Some names by (intro exI [of _ "CollaborationArea i"]) (auto simp: target_area_def plain_def)
    next
      case 2
      then show ?thesis using Some names by (intro exI [of _ "LegacySpaceArea i"]) (auto simp: target_area_def plain_def)
    next
      case (3 h d)
      have "plain h" using assms(2) 3(2-) unfolding names_plain_def by blast
      then show ?thesis using 3(1) Some names by (intro exI [of _ "HouseholdSpaceArea h i"]) (auto simp: target_area_def plain_def)
    qed
  qed
  then show ?thesis using base_area [OF _ assms(3) _ b(2)] by auto
qed

lemma post_opens:
  assumes "api_post_data cwd now r (Some x) b w = (ans, w')"
  shows "w' = w \<or> (\<exists>u app st. safe_segment u \<and> app_id_pattern app \<and> db_userId b = Some u \<and>
    (case truthy (db_spaceId b) of None \<Rightarrow> True | Some i \<Rightarrow> space_id_pattern i) \<and>
    authorizeResourceAccess x (target_resource u (db_spaceId b)) (Some (dr_spaces r)) \<and>
    api_open_store r app u (db_spaceId b) = Inr st \<and> only_files (own cwd st) w w')"
proof (cases "requireScope ''data:write'' (Some x)")
  case None
  show ?thesis
  proof (cases "(truthy (db_userId b), truthy (db_appId b), truthy (db_path b), db_content b)" rule: prod_cases4)
    case (fields u app path content)
    note d = assms [unfolded api_post_data_def None option.case fields prod.case]
    show ?thesis
    proof (cases u)
      case (Some u)
      note u = this
      show ?thesis
      proof (cases app)
        case (Some app)
        have fu: "db_userId b = Some u" using u fields by (simp add: truthy_iff)
        show ?thesis using d u Some fu
          by (auto simp: Let_def truthy_iff split: option.split_asm if_split_asm sum.split_asm prod.split_asm
              dest!: write_only_own append_only_own)
      qed (use d u in auto)
    qed (use d in auto)
  qed
qed (use assms in \<open>simp add: api_post_data_def\<close>)

lemma post_reach:
  assumes "api_post_data cwd now r (Some x) b w = (ans, w')" "\<not> bypasses x" "names_plain r" "is_abs (dr_dataDir r)"
    "map_of (dk_files (ws_disk w')) p \<noteq> map_of (dk_files (ws_disk w)) p"
  shows "\<exists>a app. may_reach (dr_spaces r) (ac_userId x) a \<and> in_area cwd (dr_dataDir r) a app p"
proof -
  obtain u app st where o: "safe_segment u" "app_id_pattern app"
      "case truthy (db_spaceId b) of None \<Rightarrow> True | Some i \<Rightarrow> space_id_pattern i"
      "authorizeResourceAccess x (target_resource u (db_spaceId b)) (Some (dr_spaces r))"
      "api_open_store r app u (db_spaceId b) = Inr st" "only_files (own cwd st) w w'"
    using post_opens [OF assms(1)] assms(5) by auto
  obtain a where a: "target_area u (db_spaceId b) a" "ss_baseDir st = node_join (dr_dataDir r # area_parts a app)"
      "\<forall>s \<in> set (area_parts a app). plain s"
    using open_store_area [OF o(5) assms(3) o(1,2,3)] by blast
  obtain y where "store_path cwd st y True = Inr p" using o(6) assms(5) unfolding only_files_def by blast
  from base_area [OF _ assms(4) a(3) store_path_resolves [OF this]] a(2)
  have "in_area cwd (dr_dataDir r) a app p" by simp
  then show ?thesis using authorized_area [OF o(4) assms(2) a(1)] by blast
qed

lemma get_reach:
  assumes "api_get_data cwd by_name r (Some x) b w = ApiOk (FileContent c)" "\<not> bypasses x" "names_plain r" "is_abs (dr_dataDir r)"
  shows "\<exists>p a app. map_of (dk_files (ws_disk w)) p = Some c \<and> may_reach (dr_spaces r) (ac_userId x) a \<and> in_area cwd (dr_dataDir r) a app p"
proof -
  obtain u app path p where o: "authorizeResourceAccess x (target_resource u (db_spaceId b)) (Some (dr_spaces r))"
      "api_read_path cwd r app u (db_spaceId b) path = Inr p" "read_at by_name path p (ws_disk w) = ApiOk (FileContent c)"
    using assms(1) by (auto simp: api_get_data_def Let_def split: option.split_asm if_split_asm sum.split_asm prod.split_asm path_error.split_asm)
  obtain a where a: "target_area u (db_spaceId b) a" "in_area cwd (dr_dataDir r) a app p"
    using read_path_area [OF o(2) assms(3,4)] by blast
  have "map_of (dk_files (ws_disk w)) p = Some c" using o(3) by (auto simp: read_at_def split: if_splits option.splits)
  then show ?thesis using authorized_area [OF o(1) assms(2) a(1)] a(2) by blast
qed

lemma message_target:
  assumes "message_checks users (Some x) user message = ApiOk (u, t)" "\<not> bypasses x"
  shows "u = ac_userId x"
  using assms by (auto simp: message_checks_def assertCallerIsTargetUser_def split: option.split_asm if_split_asm)

text \<open>Who the hook lets in with a key: its owner, registered now.\<close>

lemma hook_key:
  assumes "createApiAuthHook env scrypt date_of now ip header st = (Authenticated x, st')" "ac_authMethod x = ApiKeyAuth"
  shows "\<exists>h s k. header = Some h \<and> snd st = Some s \<and> fst (verifyAndConsume scrypt date_of now (drop 7 h) s) = Some k \<and>
    key_actor env k = Some x"
  using assms
  by (auto simp: createApiAuthHook_def platform_actor_def Let_def bind_eq_Some_conv
      split: prod.split_asm if_split_asm option.split_asm)

lemma key_actor_fields:
  "key_actor env k = Some x \<Longrightarrow> ac_userId x = ak_userId k \<and> ac_scopes x = Some (ak_scopes k) \<and> ac_authMethod x = ApiKeyAuth \<and>
    (\<exists>user. Option.bind (as_users env) (um_getUser (ak_userId k)) = Some user \<and> ac_isPlatformAdmin x = ru_isAdmin user)"
  by (auto simp: key_actor_def Let_def split: option.splits)

section \<open>Property\<close>


definition key_owner :: reg_user where
  "key_owner = \<lparr>ru_id = ''7'', ru_name = ''Bo'', ru_isAdmin = False, ru_enabledApps = [], ru_sharedScopes = [], ru_householdId = Some ''h''\<rparr>"

definition api_sample :: api_services where
  "api_sample = \<lparr>as_apiToken = [], as_users = Some [key_owner], as_households = Some (new_household_service [key_owner])\<rparr>"

definition route_sample :: data_route where
  "route_sample = \<lparr>dr_dataDir = ''/data'', dr_spaces = three_members, dr_users = [key_owner], dr_hasBus = True,
     dr_households = Some (new_household_service [key_owner])\<rparr>"

definition keys_sample :: key_service where
  "keys_sample = \<lparr>ks_file = Some [new_key ''a1'' ''s'' ''sx'' 1 ''7'' \<lparr>co_scopes = [''data:write''], co_expiresAt = None, co_label = None\<rparr>],
     ks_lastUsed = []\<rparr>"


section \<open>Where the code falls short\<close>

text \<open>
  What the routes for data decide depends on the household of the user they name, not on the actor's: a member of a household's
  space who has left the household still reads and writes it, naming a member who lives there.
\<close>

lemma guards_ignore_household:
  "requireScope sc (Some (x\<lparr>ac_householdId := h\<rparr>)) = requireScope sc (Some x)"
  "authorizeResourceAccess (x\<lparr>ac_householdId := h\<rparr>) (target_resource u sid) spaces =
    authorizeResourceAccess x (target_resource u sid) spaces"
  by (simp_all add: requireScope_def authorizeResourceAccess_def target_resource_def bypasses_def split: option.split)

lemma actor_household_unused:
  "api_post_data cwd t r (Some (x\<lparr>ac_householdId := h\<rparr>)) b w = api_post_data cwd t r (Some x) b w"
  "api_get_data cwd by_name r (Some (x\<lparr>ac_householdId := h\<rparr>)) b w = api_get_data cwd by_name r (Some x) b w"
  unfolding api_post_data_def api_get_data_def option.case guards_ignore_household by (rule refl)+

text \<open>The change log names the user of the body, whoever the actor is.\<close>

lemma store_user: "api_open_store r app u sid = Inr st \<Longrightarrow> ss_userId st = Some u"
  by (auto simp: api_open_store_def forSpace_def forUser_def Let_def dest!: make_store_fields
      split: option.split_asm if_split_asm space_kind.split_asm prod.split_asm)

lemma store_logs:
  "store_write cwd now st path c w = (Inr z, w') \<or> store_append cwd now st path c fm w = (Inr z, w') \<Longrightarrow>
    ss_userId st = Some u \<Longrightarrow> \<exists>e. ws_log w' = ws_log w @ [e] \<and> ce_userId e = u"
  by (auto simp: store_write_def store_append_def finish_change_def record_change_def emitDataChanged_def
      split: sum.split_asm option.split_asm)

lemma post_stores:
  assumes "api_post_data cwd t r a b w = (ApiOk z, w')"
  shows "\<exists>u app st path c. db_userId b = Some u \<and> api_open_store r app u (db_spaceId b) = Inr st \<and>
    (store_write cwd t st path c w = (Inr (), w') \<or> store_append cwd t st path c None w = (Inr (), w'))"
  using assms
  by (auto simp: api_post_data_def Let_def truthy_iff split: option.split_asm if_split_asm sum.split_asm prod.split_asm)

lemma logged_under_the_named_user:
  assumes "api_post_data cwd t r a b w = (ApiOk z, w')"
  shows "\<exists>u e. db_userId b = Some u \<and> ws_log w' = ws_log w @ [e] \<and> ce_userId e = u"
  using post_stores [OF assms] store_user store_logs by blast

text \<open>The change log needs no scope; the shared token sees only entries without a household.\<close>

lemma changes_need_no_scope: "api_get_changes (Some (x\<lparr>ac_scopes := scopes\<rparr>)) hh app limit es = api_get_changes (Some x) hh app limit es"
  by (simp add: api_get_changes_def)

end
