(* ===== verification/Spec2Isabelle.thy ===== *)
theory Spec2Isabelle
  imports Rate_Limiter Cost_Log LLM_Budget Data_Store Invites Locks Text_Diff Sessions Scheduler Router Alerts Api_Access
begin

text \<open>
  A verification library for the personal automation system: a Telegram bot and a web interface
  over a set of apps, shared by several households, with metered LLM calls and all data in plain
  files. The library models the services that keep the households apart, the money within its
  bounds and the files consistent; it is translated from the TypeScript sources under
  \<open>src/core/src\<close>, function by function, with the names of the code.

  \<^bold>\<open>How the parts interact.\<close> A message reaches the router (\<open>services/router\<close>), which asks who the sender is
  (\<open>services/user-manager\<close>, \<open>services/invite\<close>) and hands the message to an app, to the conversation service or to
  a command of its own. Every call of an app runs for a user, who belongs to a household
  (\<open>services/household\<close>) and may be a member of spaces (\<open>services/spaces\<close>). The data store
  (\<open>services/data-store\<close>) hands an app a store for the user, the shared area or a space after it has
  asked these two, and every path of the app is resolved below the store's directory
  (\<open>services/data-store/paths.ts\<close>). Every LLM call goes through a guard (\<open>llm-guard.ts\<close>,
  \<open>system-llm-guard.ts\<close>), which estimates its price, asks the rate limiters
  (\<open>middleware/rate-limiter.ts\<close>, \<open>household-llm-limiter.ts\<close>) and the cost tracker
  (\<open>cost-tracker.ts\<close>), and reserves the estimate until the call has been charged. Read-modify-write
  sequences on files are serialized by \<open>utils/async-lock.ts\<close> and \<open>utils/file-mutex.ts\<close>; conversations
  are kept in transcripts (\<open>services/conversation-session\<close>), and edits are shown as diffs
  (\<open>utils/diff.ts\<close>).

  \<^bold>\<open>Theories, and the code they model.\<close>
  \<^item> \<open>Prelude\<close>, \<open>Js_Text\<close>: JavaScript maps in insertion order, strings, numbers, decimal text and ISO
    times, and their lemmas (collections \<open>js_map\<close>, \<open>js_num\<close>, \<open>js_str\<close>).
  \<^item> \<open>Rate_Limiter\<close>: \<open>middleware/rate-limiter.ts\<close>. State \<open>rate_limiter\<close>, operations \<open>rl_*\<close>. No window
    ever holds more than its attempts, whatever mix of direct checks and late commits runs. Locale
    \<open>slot_limiter\<close>: what a guard needs of a limiter.
  \<^item> \<open>Cost_Tracker\<close>, \<open>Cost_Log\<close>: \<open>services/llm/model-pricing.ts\<close> and \<open>cost-tracker.ts\<close>. State
    \<open>cost_tracker\<close> with its two files, operations \<open>ct_*\<close>. The log alone determines the totals, the cache
    restores them, attributions never exceed the global total.
  \<^item> \<open>Household_Limiter\<close>: \<open>estimate-guard-cost.ts\<close>, \<open>guard-price-lookup.ts\<close>, \<open>household-llm-limiter.ts\<close>.
    The estimate is an upper bound; \<open>hl_*\<close> provides \<open>slot_limiter\<close> once more.
  \<^item> \<open>LLM_Guard\<close>, \<open>LLM_Budget\<close>: the two guards as state transformers that may throw, and the guards
    together with limiter and tracker under interleaving (\<open>budget_step\<close>). Locale \<open>cost_ledger\<close>: what the
    budget argument needs of the tracker. A refusal is free, an admission takes exactly one slot, and
    a household cannot spend past its cap.
  \<^item> \<open>Paths\<close>: \<open>services/data-store/paths.ts\<close> over a model of \<open>node:path\<close> (POSIX). Containment of
    resolved paths, and what a manifest's scopes let through.
  \<^item> \<open>Household\<close>: \<open>services/household/index.ts\<close>. State \<open>household_service\<close>, operations \<open>hs_*\<close> with the
    write queue. Admins, unique safe ids, restart. Locale \<open>tenant_directory\<close>: what the data store asks.
  \<^item> \<open>Spaces\<close>: \<open>services/spaces/index.ts\<close>. State \<open>space_service\<close> with references to shared objects,
    operations \<open>sp_*\<close>. Validation decides validity, awaited calls refine a membership table. Locale
    \<open>space_directory\<close>.
  \<^item> \<open>Data_Store\<close>: \<open>services/data-store/index.ts\<close>, \<open>scoped-store.ts\<close>, \<open>change-log.ts\<close>, \<open>utils/file.ts\<close>.
    Isolation of areas, access to spaces, read-after-write, the change log, archiving.
  \<^item> \<open>Users\<close>: \<open>services/user-manager\<close>, \<open>services/app-toggle\<close>. State \<open>user_world\<close> with the writes in flight;
    awaited mutations are transactions, overlapping ones keep ids and names apart.
  \<^item> \<open>Invites\<close>: \<open>services/invite\<close>, \<open>user-manager/user-guard.ts\<close>. A code lets in one user; redeeming is all or
    nothing over users, household directory and spaces.
  \<^item> \<open>Locks\<close>: \<open>utils/async-lock.ts\<close>, \<open>utils/file-mutex.ts\<close>. The promise chain event by event
    (\<open>al_step\<close>) is a fair lock; nested acquisition in sorted order (\<open>lw_step\<close>) cannot deadlock. The second
    model works over the queues that the first one is proved to implement (\<open>queue_run\<close>,
    \<open>queue_set_status\<close>, \<open>start_is_head\<close>, \<open>head_progress\<close>).
  \<^item> \<open>Text_Diff\<close>: \<open>utils/diff.ts\<close>. The matching is a longest common subsequence, the diff is faithful.
  \<^item> \<open>Transcript\<close>: \<open>transcript-codec.ts\<close>, \<open>session-key.ts\<close>, \<open>session-id.ts\<close>. Transcripts survive their
    file whatever the turns contain; session keys are injective.
  \<^item> \<open>Sessions\<close>: \<open>chat-session-store.ts\<close>, \<open>session-index.ts\<close>. State \<open>chat_files\<close>, every operation composed of its
    critical sections. Awaited calls refine a log of sessions; under any interleaving transcripts only grow.
  \<^item> \<open>Job_Notifier\<close>, \<open>Scheduler\<close>: \<open>services/scheduler\<close>. The failure notifier (\<open>jn_*\<close>) against a reference
    over the history of calls; one-off tasks (\<open>om_*\<close>, state \<open>oneoff_world\<close>) refine what the history of
    operations says; cron jobs (\<open>cm_*\<close>, state \<open>cron_world\<close>), dispatch per user or household, and the chain
    of promises (\<open>chain_step\<close>). Locale \<open>failure_registry\<close>: what the managers rely on in the notifier.

  \<^item> \<open>Routing_Tables\<close>, \<open>Route_Verifier\<close>, \<open>Space_Commands\<close>, \<open>Router\<close>: \<open>services/router\<close>, the commands of the
    \<open>app-registry\<close>'s manifests and the callback of the verification buttons. The tables and the checks on what
    models answer, the verifier with its held messages, the \<open>/space\<close> commands, and the router itself: a
    function from a message to the list of what is then done (\<open>effect\<close>). The router acts only for the
    sender and with the sender's rights, every message is answered, replies of a split message keep their order. Locale
    \<open>wired_router\<close>: what the answers need of the services that are wired.
  \<^item> \<open>Conditions\<close>, \<open>Frontmatter\<close>, \<open>Alert_Actions\<close>, \<open>Alerts\<close>: \<open>services/condition-evaluator\<close>, \<open>utils/frontmatter.ts\<close>,
    \<open>services/alerts\<close>. Rules and their cooldowns survive in their markdown file; frontmatter is read back as it was
    written; alerts (state \<open>alert_world\<close>) have the triggers their files ask for, keep their cooldowns and stay in their household.
  \<^item> \<open>Credentials\<close>, \<open>Api_Keys\<close>, \<open>Gui_Auth\<close>, \<open>Api_Access\<close>: \<open>services/credentials\<close>, \<open>services/api-keys\<close>, \<open>gui/auth.ts\<close>,
    \<open>gui/csrf.ts\<close>, \<open>gui/guards\<close>, the password routes, \<open>api/auth.ts\<close>, \<open>api/guards\<close> and the routes of the REST API. Cookies in
    circulation (\<open>gui_world\<close>) end with a new password, guesses of passwords are bounded, keys live as their history says
    (\<open>key_step\<close>), and a key reaches only what its owner may reach in the data store.

  \<^bold>\<open>Bounds and termination.\<close> Money is computed exactly in rationals, with the code's rounding to six
  decimals written out; the code computes in doubles. The only fuel is that of \<open>free_id\<close>, the search
  for an unused household id: among one candidate more than there are households one is free, so
  \<open>length + 1\<close> is enough, which \<open>createHousehold_fresh\<close> proves. All other recursion is total, with a
  measure where it is not structural.

  \<^bold>\<open>What the environment provides\<close> is an argument: the time, the working directory, whether the disk
  takes a write, the price list, the YAML parser, the request context. Nothing is assumed of the YAML
  parser beyond what the theorem on transcripts names.

  \<^bold>\<open>Interfaces.\<close> A locale states what one part relies on in another (\<open>slot_limiter\<close>,
  \<open>cost_ledger\<close>, \<open>tenant_directory\<close>, \<open>space_directory\<close>, \<open>failure_registry\<close>, \<open>wired_router\<close>), and each is interpreted on the model of the
  code that provides it, in the theory of that code.

  \<^bold>\<open>Not modelled.\<close> Routes and templates of the web interface apart from authentication, the completions route of the REST API, the
  apps themselves, the Telegram and LLM provider clients (network and third-party protocols); what a model
  answers, and everything decided by prompts; the composition root, configuration and logging;
  listings that sort by locale. Operations that overlap on one file outside the locks are not
  modelled either.
\<close>

end
